(* ===== verification/Prelude.thy ===== *)
theory Prelude
  imports Main "HOL-Library.Word" "HOL-Library.List_Lexorder" "HOL-Library.AList"
begin

text \<open>
  What every component of the development shares: the types of Go's machine integers and
  byte slices, the result of a Go call (a value, an error value or a panic), the early
  stopping traversal that every \<open>func(...) (bool, error)\<close> callback of the program is
  driven by, and generic lemmas on lists, association lists and words.
\<close>

section \<open>Go's basic types\<close>

type_synonym byte = "8 word"
type_synonym bytes = "byte list"
type_synonym uint32 = "32 word"
type_synonym uint64 = "64 word"

text \<open>An \<open>int64\<close> is a 64 bit word read with \<open>sint\<close>.\<close>

type_synonym int64 = "64 word"

text \<open>Collections of rewrite rules, filled by the component theories.\<close>

named_theorems codec_simps \<open>how encoders and decoders act on well-formed input\<close>
named_theorems view_simps \<open>what each operation does to the abstract contents\<close>

section \<open>Results of Go calls\<close>

text \<open>
  The error values of \<^verbatim>\<open>errors.go\<close>; \<open>ErrExternal\<close> carries an error
  value made by code outside the repository (the write-ahead log, the operating system),
  and \<open>ErrText\<close> one made on the spot with \<open>errors.New\<close>.
\<close>

datatype go_error =
    ErrKeyIsEmpty
  | ErrKeyNotFound
  | ErrDatabaseIsUsing
  | ErrReadOnlyBatch
  | ErrBatchCommitted
  | ErrBatchRollbacked
  | ErrDBClosed
  | ErrMergeRunning
  | ErrWatchDisabled
  | ErrText string
  | ErrExternal nat

text \<open>
  A Go call returns a value with a nil error, returns a non-nil error, or panics.
\<close>

datatype 'a result = Ok 'a | Fail go_error | Panic

fun is_ok :: "'a result \<Rightarrow> bool" where
  "is_ok (Ok _) = True"
| "is_ok (Fail _) = False"
| "is_ok Panic = False"

lemma is_ok_iff: "is_ok r \<longleftrightarrow> (\<exists>x. r = Ok x)"
  by (cases r) auto

section \<open>Traversals driven by a callback\<close>

text \<open>
  A traversal hands the elements one after another to a callback with a state of its own
  and stops as soon as the callback returns \<open>False\<close>.
\<close>

fun visit :: "('a \<Rightarrow> 's \<Rightarrow> bool \<times> 's) \<Rightarrow> 'a list \<Rightarrow> 's \<Rightarrow> 's" where
  "visit f [] s = s"
| "visit f (x # xs) s = (case f x s of (go, s') \<Rightarrow> if go then visit f xs s' else s')"

lemma visit_cong:
  assumes "\<And>x s. x \<in> set xs \<Longrightarrow> f x s = g x s"
  shows "visit f xs s = visit g xs s"
  using assms by (induction xs arbitrary: s) (auto split: prod.splits)

lemma visit_invariant:
  assumes "P s" and "\<And>x s. P s \<Longrightarrow> x \<in> set xs \<Longrightarrow> P (snd (f x s))"
  shows "P (visit f xs s)"
  using assms
proof (induction xs arbitrary: s)
  case Nil
  then show ?case by simp
next
  case (Cons x xs)
  obtain go s' where f: "f x s = (go, s')" by fastforce
  have "P s'" using Cons.prems(2)[OF Cons.prems(1), of x] f by simp
  then show ?case using Cons.IH[of s'] Cons.prems(2) f by simp
qed

text \<open>Collecting everything the callback accepts is a filtered map.\<close>

lemma visit_collect:
  "visit (\<lambda>x acc. (True, if p x then acc @ [h x] else acc)) xs acc
     = acc @ map h (filter p xs)"
  by (induction xs arbitrary: acc) auto

lemma visit_take:
  assumes "length acc < n"
  shows "visit (\<lambda>x acc. (length (acc @ [h x]) < n, acc @ [h x])) xs acc
       = acc @ take (n - length acc) (map h xs)"
  using assms
proof (induction xs arbitrary: acc)
  case Nil
  then show ?case by simp
next
  case (Cons x xs)
  show ?case
  proof (cases "length (acc @ [h x]) < n")
    case True
    have "n - length acc = Suc (n - length (acc @ [h x]))" using True by simp
    then show ?thesis using Cons.IH[OF True] True by simp
  next
    case False
    then have "n - length acc = 1" using Cons.prems by simp
    then show ?thesis using False by simp
  qed
qed

section \<open>Lists\<close>

lemma find_Some_set: "List.find p xs = Some x \<Longrightarrow> x \<in> set xs \<and> p x"
  by (induction xs) (auto split: if_splits)

lemma find_None_set: "List.find p xs = None \<longleftrightarrow> (\<forall>x \<in> set xs. \<not> p x)"
  by (auto simp: find_None_iff)

lemma find_unique:
  assumes "x \<in> set xs" and "p x" and "\<And>y. y \<in> set xs \<Longrightarrow> p y \<Longrightarrow> y = x"
  shows "List.find p xs = Some x"
proof (cases "List.find p xs")
  case None
  then show ?thesis using assms(1,2) by (auto simp: find_None_set)
next
  case (Some y)
  then have "y \<in> set xs" "p y" by (auto dest: find_Some_set)
  then show ?thesis using assms(3) Some by simp
qed

lemma map_of_zip_map:
  "map_of (zip xs (map f xs)) k = (if k \<in> set xs then Some (f k) else None)"
  by (induction xs) auto

lemma take_drop_slice:
  "length a = n \<Longrightarrow> take n (a @ b) = a \<and> drop n (a @ b) = b"
  by simp

section \<open>Machine words\<close>

lemma unat_add_small:
  fixes a b :: "'a::len word"
  assumes "unat a + unat b < 2 ^ LENGTH('a)"
  shows "unat (a + b) = unat a + unat b"
  using assms by (simp add: unat_word_ariths)

lemma unat_of_nat_small:
  assumes "n < 2 ^ LENGTH('a::len)"
  shows "unat (of_nat n :: 'a word) = n"
  using assms by (simp add: unsigned_of_nat take_bit_nat_eq_self)

end
