(* ===== verification/Varint.thy ===== *)
theory Varint
  imports Prelude
begin

text \<open>
  The variable length integers of Go's package \<^verbatim>\<open>encoding/binary\<close>, which
  \<^verbatim>\<open>record.go\<close> writes its headers with: \<open>PutUvarint\<close>,
  \<open>Uvarint\<close>, \<open>PutVarint\<close>, \<open>Varint\<close>, and the fixed 32 bit little endian
  form of \<^verbatim>\<open>binary.LittleEndian\<close>. The decoders return the number of bytes
  read, 0 when the buffer is too short and a negative number on overflow, as Go's do.
\<close>

unbundle bit_operations_syntax

section \<open>Unsigned\<close>

lemma unat_drop_bit_7: "unat (drop_bit 7 (x :: uint64)) = unat x div 2 ^ 7"
  by (rule trans[OF unat_drop_bit_eq]) (simp add: drop_bit_eq_div)

lemma drop_bit_7_less:
  fixes x :: uint64
  assumes "0x80 \<le> x"
  shows "unat (drop_bit 7 x) < unat x"
proof -
  have "unat (drop_bit 7 x) = unat x div 128"
    using unat_drop_bit_7[of x] by simp
  moreover have "128 \<le> unat x" using assms by (simp add: word_le_nat_alt)
  ultimately show ?thesis by simp
qed

function put_uvarint :: "uint64 \<Rightarrow> bytes" where
  "put_uvarint x =
     (if 0x80 \<le> x then (ucast x OR 0x80) # put_uvarint (drop_bit 7 x) else [ucast x])"
  by pat_completeness auto

termination
  by (relation "measure unat") (auto intro: drop_bit_7_less)

declare put_uvarint.simps [simp del]

fun uvarint_loop :: "bytes \<Rightarrow> nat \<Rightarrow> uint64 \<Rightarrow> nat \<Rightarrow> uint64 \<times> int" where
  "uvarint_loop [] i x s = (0, 0)"
| "uvarint_loop (b # bs) i x s =
     (if i = 10 then (0, - (int i + 1))
      else if b < 0x80 then
        (if i = 9 \<and> 1 < b then (0, - (int i + 1))
         else (x OR push_bit s (ucast b), int i + 1))
      else uvarint_loop bs (i + 1) (x OR push_bit s (ucast (b AND 0x7f))) (s + 7))"

definition uvarint :: "bytes \<Rightarrow> uint64 \<times> int" where
  "uvarint buf = uvarint_loop buf 0 0 0"

section \<open>Signed (zig-zag)\<close>

definition put_varint :: "int64 \<Rightarrow> bytes" where
  "put_varint x =
     (let ux = push_bit 1 x in put_uvarint (if x <s 0 then NOT ux else ux))"

definition varint :: "bytes \<Rightarrow> int64 \<times> int" where
  "varint buf =
     (case uvarint buf of (ux, n) \<Rightarrow>
        (let x = drop_bit 1 ux in (if ux AND 1 \<noteq> 0 then NOT x else x, n)))"

section \<open>Fixed width\<close>

definition le_put_uint32 :: "uint32 \<Rightarrow> bytes" where
  "le_put_uint32 v =
     [ucast v, ucast (drop_bit 8 v), ucast (drop_bit 16 v), ucast (drop_bit 24 v)]"

definition le_uint32 :: "bytes \<Rightarrow> uint32" where
  "le_uint32 b =
     ucast (b ! 0) OR push_bit 8 (ucast (b ! 1)) OR push_bit 16 (ucast (b ! 2))
       OR push_bit 24 (ucast (b ! 3))"

section \<open>Round trips\<close>

lemma put_uvarint_nonempty [simp]: "put_uvarint x \<noteq> []"
  by (subst put_uvarint.simps) simp

text \<open>One step of the loop puts seven more bits of the number in place.\<close>

lemma low_group_bit:
  fixes y :: uint64
  shows "bit (ucast ((ucast y OR 0x80 :: byte) AND 0x7f) :: uint64) k \<longleftrightarrow> k < 7 \<and> bit y k"
proof -
  have p: "(0x80 :: byte) = 2 ^ 7" by simp
  have e: "bit (2 ^ 7 :: byte) k \<longleftrightarrow> k = 7"
    by (simp only: bit_exp_iff possible_bit_word) auto
  have m: "(0x7f :: byte) = mask 7" by (simp add: mask_eq_exp_minus_1)
  have mk: "bit (mask 7 :: byte) k \<longleftrightarrow> k < 7"
    by (simp only: bit_mask_iff possible_bit_word) auto
  show ?thesis
    unfolding p m
    by (simp only: bit_ucast_iff bit_and_iff bit_or_iff e mk possible_bit_word) auto
qed

lemma group_bits:
  fixes y :: uint64
  shows "push_bit s (ucast ((ucast y OR 0x80 :: byte) AND 0x7f)) OR push_bit (s + 7) (drop_bit 7 y)
       = push_bit s y"
proof (rule bit_word_eqI)
  fix n
  assume n: "n < LENGTH(64)"
  have r: "bit (drop_bit 7 y) (n - (s + 7)) = bit y (n - s)" if "s + 7 \<le> n"
  proof -
    have "7 + (n - (s + 7)) = n - s" using that by simp
    then show ?thesis by (simp only: bit_drop_bit_eq comp_def)
  qed
  show "bit (push_bit s (ucast ((ucast y OR 0x80 :: byte) AND 0x7f))
          OR push_bit (s + 7) (drop_bit 7 y)) n = bit (push_bit s y) n"
    using n r
    by (cases "s + 7 \<le> n")
       (simp only: bit_or_iff bit_push_bit_iff possible_bit_word low_group_bit; auto)+
qed

lemma last_group:
  fixes y :: uint64
  assumes "\<not> 0x80 \<le> y"
  shows "(ucast (ucast y :: byte) :: uint64) = y" and "(ucast y :: byte) < 0x80"
    and "unat (ucast y :: byte) = unat y"
proof -
  have y: "unat y < 128" using assms by (simp add: word_le_nat_alt not_le)
  show u: "unat (ucast y :: byte) = unat y"
    using y by (simp add: unsigned_ucast_eq unsigned_take_bit_eq take_bit_nat_eq_self)
  then show "(ucast (ucast y :: byte) :: uint64) = y"
    using y by (simp add: word_unat_eq_iff unsigned_ucast_eq unsigned_take_bit_eq take_bit_nat_eq_self)
  show "(ucast y :: byte) < 0x80" using u y by (simp add: word_less_nat_alt)
qed

lemma high_bit_ge: "bit (w :: byte) 7 \<Longrightarrow> \<not> w < 0x80"
proof
  assume b: "bit w 7" and "w < 0x80"
  then have "unat w < 128" by (simp add: word_less_nat_alt)
  moreover have "bit (unat w) 7" using b by (simp add: bit_unsigned_iff)
  ultimately show False by (simp add: bit_iff_odd)
qed

lemma uvarint_loop_put:
  assumes "i \<le> 9" and "unat y < 2 ^ (64 - 7 * i)"
  shows "uvarint_loop (put_uvarint y @ rest) i x (7 * i)
       = (x OR push_bit (7 * i) y, int i + int (length (put_uvarint y)))"
  using assms
proof (induction y arbitrary: i x rule: put_uvarint.induct)
  case (1 y)
  show ?case
  proof (cases "0x80 \<le> y")
    case True
    have y128: "128 \<le> unat y" using True by (simp add: word_le_nat_alt)
    have i8: "i \<le> 8"
    proof (rule ccontr)
      assume "\<not> i \<le> 8"
      then have "i = 9" using "1.prems"(1) by simp
      then show False using "1.prems"(2) y128 by simp
    qed
    have hi: "\<not> (ucast y OR 0x80 :: byte) < 0x80"
    proof -
      have "bit (2 ^ 7 :: byte) 7" by (simp only: bit_exp_iff possible_bit_word) simp
      then have "bit (ucast y OR 0x80 :: byte) 7" by (simp add: bit_or_iff)
      then show ?thesis by (rule high_bit_ge)
    qed
    have "unat (drop_bit 7 y) = unat y div 2 ^ 7"
      by (rule unat_drop_bit_7)
    also have "\<dots> < 2 ^ (64 - 7 * Suc i)"
    proof -
      have "64 - 7 * i = (64 - 7 * Suc i) + 7" using i8 by simp
      then have "(2::nat) ^ (64 - 7 * i) = 2 ^ (64 - 7 * Suc i) * 2 ^ 7"
        by (simp only: power_add)
      with "1.prems"(2) show ?thesis by (simp add: less_mult_imp_div_less)
    qed
    finally have d: "unat (drop_bit 7 y) < 2 ^ (64 - 7 * Suc i)" .
    have i9: "Suc i \<le> 9" using i8 by simp
    show ?thesis
      using "1.IH"[OF True i9 d] True hi i8 group_bits[of "7 * i" y]
      by (simp add: put_uvarint.simps[of y] or.assoc add.commute)
  next
    case False
    have "i = 9 \<Longrightarrow> \<not> 1 < (ucast y :: byte)"
      using "1.prems"(2) last_group(3)[OF False] by (simp add: word_less_nat_alt)
    then show ?thesis
      using False last_group[OF False] "1.prems"(1)
      by (auto simp: put_uvarint.simps[of y])
  qed
qed

lemma uvarint_put [codec_simps]:
  "uvarint (put_uvarint y @ rest) = (y, int (length (put_uvarint y)))"
proof -
  have "unat y < 2 ^ (64 - 7 * 0)" using unsigned_less[of y] by simp
  from uvarint_loop_put[OF _ this, of rest 0] show ?thesis by (simp add: uvarint_def)
qed

lemma sless_zero_iff_bit: "(x :: int64) <s 0 \<longleftrightarrow> bit x 63"
  using bit_last_iff[of x] by (simp add: word_sless_alt)

lemma bit_twice: "bit (push_bit 1 (x :: int64)) n \<longleftrightarrow> 1 \<le> n \<and> n < 64 \<and> bit x (n - 1)"
  by (simp only: bit_push_bit_iff possible_bit_word) auto

lemma bit_half: "bit (drop_bit 1 (x :: int64)) n \<longleftrightarrow> bit x (n + 1)"
  by (simp only: bit_drop_bit_eq comp_def add.commute)

lemma zigzag_neg:
  fixes x :: int64
  assumes "bit x 63"
  shows "NOT (drop_bit 1 (NOT (push_bit 1 x))) = x" and "NOT (push_bit 1 x) AND 1 \<noteq> 0"
proof -
  show "NOT (drop_bit 1 (NOT (push_bit 1 x))) = x"
  proof (rule bit_word_eqI)
    fix n
    assume n: "n < LENGTH(64)"
    show "bit (NOT (drop_bit 1 (NOT (push_bit 1 x)))) n = bit x n"
      using assms n
      by (cases "n = 63") (simp_all add: bit_half bit_twice bit_not_iff del: push_bit_Suc One_nat_def)
  qed
  have "bit (NOT (push_bit 1 x) AND 1) 0"
    by (simp only: bit_and_iff bit_not_iff bit_twice) (simp add: bit_1_iff)
  then show "NOT (push_bit 1 x) AND 1 \<noteq> 0" by (metis bit_0_eq bot_apply bot_bool_def)
qed

lemma zigzag_nonneg:
  fixes x :: int64
  assumes "\<not> bit x 63"
  shows "drop_bit 1 (push_bit 1 x) = x" and "push_bit 1 x AND 1 = 0"
proof -
  show "drop_bit 1 (push_bit 1 x) = x"
  proof (rule bit_word_eqI)
    fix n
    assume n: "n < LENGTH(64)"
    show "bit (drop_bit 1 (push_bit 1 x)) n = bit x n"
      using assms n
      by (cases "n = 63") (simp_all add: bit_half bit_twice bit_not_iff del: push_bit_Suc One_nat_def)
  qed
  show "push_bit 1 x AND 1 = 0"
    by (rule bit_word_eqI) (simp only: bit_and_iff bit_1_iff bit_twice bit_0_eq bot_apply, auto)
qed

lemma varint_put [codec_simps]:
  "varint (put_varint x @ rest) = (x, int (length (put_varint x)))"
proof (cases "bit x 63")
  case True
  then show ?thesis
    using zigzag_neg[OF True]
    by (simp only: varint_def put_varint_def Let_def sless_zero_iff_bit uvarint_put if_True split)
       simp
next
  case False
  then show ?thesis
    using zigzag_nonneg[OF False]
    by (simp only: varint_def put_varint_def Let_def sless_zero_iff_bit uvarint_put if_False split)
       simp
qed

lemma le_uint32_put [codec_simps]: "le_uint32 (le_put_uint32 v) = v"
proof (rule bit_word_eqI)
  fix n
  assume "n < LENGTH(32)"
  then show "bit (le_uint32 (le_put_uint32 v)) n = bit v n"
    by (cases "n < 8"; cases "n < 16"; cases "n < 24")
       (auto simp: le_uint32_def le_put_uint32_def bit_simps)
qed

section \<open>Lengths\<close>

lemma length_put_uvarint_le:
  assumes "unat x < 2 ^ (7 * n)" and "0 < n"
  shows "length (put_uvarint x) \<le> n"
  using assms
proof (induction x arbitrary: n rule: put_uvarint.induct)
  case (1 x)
  show ?case
  proof (cases "0x80 \<le> x")
    case True
    then have x: "128 \<le> unat x" by (simp add: word_le_nat_alt)
    obtain m where m: "n = Suc m" using "1.prems"(2) by (cases n) auto
    have m0: "0 < m" using "1.prems"(1) x m by (cases m) auto
    have "unat (drop_bit 7 x) = unat x div 2 ^ 7"
      by (rule unat_drop_bit_7)
    also have "\<dots> < 2 ^ (7 * m)"
      using "1.prems"(1) m by (simp add: power_add less_mult_imp_div_less mult.commute)
    finally show ?thesis
      using "1.IH"[OF True _ m0] True m by (simp add: put_uvarint.simps[of x])
  next
    case False
    then show ?thesis using "1.prems"(2) by (simp add: put_uvarint.simps[of x])
  qed
qed

lemma length_put_uvarint: "length (put_uvarint x) \<le> 10"
proof -
  have "unat x < 2 ^ 64" by (rule order_less_le_trans[OF unsigned_less]) simp
  then have "unat x < 2 ^ (7 * 10)" by (rule order_less_trans) simp
  then show ?thesis by (rule length_put_uvarint_le) simp
qed

lemma length_put_varint: "length (put_varint x) \<le> 10"
  by (simp add: put_varint_def Let_def length_put_uvarint)

lemma length_put_varint_small:
  assumes "n < 2 ^ 34"
  shows "length (put_varint (of_nat n)) \<le> 5"
proof -
  have u: "unat (of_nat n :: int64) = n"
    using assms by (intro unat_of_nat_small) simp
  have "\<not> bit (unat (of_nat n :: int64)) 63"
    unfolding u using assms by (simp add: bit_iff_odd)
  then have "\<not> bit (of_nat n :: int64) 63" by (simp only: bit_unsigned_iff) simp
  moreover have "unat (push_bit 1 (of_nat n :: int64)) < 2 ^ (7 * 5)"
  proof -
    have "push_bit 1 (of_nat n :: int64) = of_nat (2 * n)"
      by (simp only: push_bit_eq_mult of_nat_mult) simp
    moreover have "unat (of_nat (2 * n) :: int64) = 2 * n"
      using assms by (intro unat_of_nat_small) simp
    ultimately have "unat (push_bit 1 (of_nat n :: int64)) = 2 * n" by (simp only:)
    then show ?thesis using assms by (simp only:) simp
  qed
  ultimately show ?thesis
    by (simp del: push_bit_Suc One_nat_def add: put_varint_def sless_zero_iff_bit length_put_uvarint_le)
qed

lemma length_le_put_uint32 [simp]: "length (le_put_uint32 v) = 4"
  by (simp add: le_put_uint32_def)

end
