(* ===== verification/Log_Record.thy ===== *)
theory Log_Record
  imports Varint "HOL-Library.Monad_Syntax"
begin

text \<open>
  \<^verbatim>\<open>record.go\<close>: the log record that is written to the write-ahead log, its
  expiry test, and the encoders and decoders of log records, of hint records (key and
  position, written by a merge) and of the merge-finished record. A decoder that would
  panic (a slice out of range, a negative length) returns \<open>None\<close>; so does an encoder
  whose fixed header buffer would be too short.
\<close>

section \<open>Data\<close>

definition LogRecordNormal :: byte where "LogRecordNormal = 0"
definition LogRecordDeleted :: byte where "LogRecordDeleted = 1"
definition LogRecordBatchFinished :: byte where "LogRecordBatchFinished = 2"

lemmas record_types = LogRecordNormal_def LogRecordDeleted_def LogRecordBatchFinished_def

record log_record =
  Key :: bytes
  Value :: bytes
  Type :: byte
  BatchId :: uint64
  Expire :: int64

definition IsExpired :: "log_record \<Rightarrow> int64 \<Rightarrow> bool" where
  "IsExpired lr now \<longleftrightarrow> 0 <s Expire lr \<and> Expire lr \<le>s now"

text \<open>
  \<open>wal.ChunkPosition\<close>, with the fields the repository's code reads and writes.
\<close>

record chunk_position =
  SegmentId :: uint32
  BlockNumber :: uint32
  ChunkOffset :: int64
  ChunkSize :: uint32

definition maxLogRecordHeaderSize :: nat where
  "maxLogRecordHeaderSize = 5 * 2 + 10 * 2 + 1"

section \<open>Slices\<close>

text \<open>\<open>buf[i:]\<close> and \<open>buf[i:j]\<close>, and \<open>make([]byte, n)\<close> filled by \<open>copy\<close>.\<close>

definition slice_from :: "bytes \<Rightarrow> nat \<Rightarrow> bytes option" where
  "slice_from buf i = (if i \<le> length buf then Some (drop i buf) else None)"

definition slice_range :: "bytes \<Rightarrow> nat \<Rightarrow> nat \<Rightarrow> bytes option" where
  "slice_range buf i j =
     (if i \<le> j \<and> j \<le> length buf then Some (take (j - i) (drop i buf)) else None)"

definition make_copy :: "int64 \<Rightarrow> bytes \<Rightarrow> bytes option" where
  "make_copy n src =
     (if n <s 0 then None
      else Some (take (unat n) src @ replicate (unat n - length src) 0))"

section \<open>Log records\<close>

definition encode_header :: "log_record \<Rightarrow> bytes" where
  "encode_header r =
     [Type r] @ put_uvarint (BatchId r)
       @ put_varint (of_nat (length (Key r)))
       @ put_varint (of_nat (length (Value r)))
       @ put_varint (Expire r)"

definition encodeLogRecord :: "log_record \<Rightarrow> bytes option" where
  "encodeLogRecord r =
     (let header = encode_header r in
      if length header \<le> maxLogRecordHeaderSize then Some (header @ Key r @ Value r) else None)"

text \<open>One header field is read at \<open>index\<close>, and \<open>index += uint32(n)\<close>.\<close>

definition read_uvarint :: "bytes \<Rightarrow> uint32 \<Rightarrow> (uint64 \<times> uint32) option" where
  "read_uvarint buf index =
     do { s \<leftarrow> slice_from buf (unat index);
          let (x, n) = uvarint s;
          Some (x, index + word_of_int n) }"

definition read_varint :: "bytes \<Rightarrow> uint32 \<Rightarrow> (int64 \<times> uint32) option" where
  "read_varint buf index =
     do { s \<leftarrow> slice_from buf (unat index);
          let (x, n) = varint s;
          Some (x, index + word_of_int n) }"

text \<open>\<open>copy(make([]byte, size), buf[index : index+uint32(size)])\<close>.\<close>

definition read_bytes :: "bytes \<Rightarrow> uint32 \<Rightarrow> int64 \<Rightarrow> (bytes \<times> uint32) option" where
  "read_bytes buf index sz =
     do { s \<leftarrow> slice_range buf (unat index) (unat (index + ucast sz));
          x \<leftarrow> make_copy sz s;
          Some (x, index + ucast sz) }"

definition decodeLogRecord :: "bytes \<Rightarrow> log_record option" where
  "decodeLogRecord buf =
     (case buf of
        [] \<Rightarrow> None
      | recordType # _ \<Rightarrow>
         do {
           (batchId, index) \<leftarrow> read_uvarint buf 1;
           (keySize, index) \<leftarrow> read_varint buf index;
           (valueSize, index) \<leftarrow> read_varint buf index;
           (expire, index) \<leftarrow> read_varint buf index;
           (key, index) \<leftarrow> read_bytes buf index keySize;
           (value, _) \<leftarrow> read_bytes buf index valueSize;
           Some \<lparr>Key = key, Value = value, Type = recordType, BatchId = batchId, Expire = expire\<rparr>
         })"

section \<open>Hint records and the merge-finished record\<close>

definition encodeHintRecord :: "bytes \<Rightarrow> chunk_position \<Rightarrow> bytes option" where
  "encodeHintRecord key pos =
     (let buf = put_uvarint (ucast (SegmentId pos)) @ put_uvarint (ucast (BlockNumber pos))
                 @ put_uvarint (ChunkOffset pos) @ put_uvarint (ucast (ChunkSize pos))
      in if length buf \<le> 25 then Some (buf @ key) else None)"

definition slice_from_int :: "bytes \<Rightarrow> int \<Rightarrow> bytes option" where
  "slice_from_int buf i = (if i < 0 then None else slice_from buf (nat i))"

definition decodeHintRecord :: "bytes \<Rightarrow> (bytes \<times> chunk_position) option" where
  "decodeHintRecord buf =
     do {
       s \<leftarrow> slice_from_int buf 0;
       let (segmentId, n) = uvarint s;
       let idx = n;
       s \<leftarrow> slice_from_int buf idx;
       let (blockNumber, n) = uvarint s;
       let idx = idx + n;
       s \<leftarrow> slice_from_int buf idx;
       let (chunkOffset, n) = uvarint s;
       let idx = idx + n;
       s \<leftarrow> slice_from_int buf idx;
       let (chunkSize, n) = uvarint s;
       let idx = idx + n;
       key \<leftarrow> slice_from_int buf idx;
       Some (key, \<lparr>SegmentId = ucast segmentId, BlockNumber = ucast blockNumber,
                   ChunkOffset = chunkOffset, ChunkSize = ucast chunkSize\<rparr>)
     }"

definition encodeMergeFinRecord :: "uint32 \<Rightarrow> bytes" where
  "encodeMergeFinRecord segmentId = le_put_uint32 segmentId"

section \<open>Lemmas\<close>

text \<open>A record whose encoding a 32 bit index can address.\<close>

definition record_fits :: "log_record \<Rightarrow> bool" where
  "record_fits r \<longleftrightarrow> length (Key r) + length (Value r) + maxLogRecordHeaderSize < 2 ^ 32"

lemma encode_header_length:
  assumes "record_fits r"
  shows "length (encode_header r) \<le> maxLogRecordHeaderSize"
proof -
  have "length (put_varint (of_nat (length (Key r)))) \<le> 5"
    using assms by (intro length_put_varint_small) (simp add: record_fits_def)
  moreover have "length (put_varint (of_nat (length (Value r)))) \<le> 5"
    using assms by (intro length_put_varint_small) (simp add: record_fits_def)
  moreover have "length (put_uvarint (BatchId r)) \<le> 10" by (rule length_put_uvarint)
  moreover have "length (put_varint (Expire r)) \<le> 10" by (rule length_put_varint)
  ultimately show ?thesis by (simp add: encode_header_def maxLogRecordHeaderSize_def)
qed

lemma encodeLogRecord_fits:
  assumes "record_fits r"
  shows "encodeLogRecord r = Some (encode_header r @ Key r @ Value r)"
  using encode_header_length[OF assms] by (simp add: encodeLogRecord_def)

lemma slice_from_append:
  assumes "length a = i"
  shows "slice_from (a @ b) i = Some b"
  using assms by (simp add: slice_from_def)

lemma slice_range_append:
  assumes "length a = i" and "length b = j - i" and "i \<le> j"
  shows "slice_range (a @ b @ c) i j = Some b"
  using assms by (simp add: slice_range_def)

lemma small_length_word:
  assumes "n < 2 ^ 32"
  shows "unat (of_nat n :: int64) = n" and "\<not> (of_nat n :: int64) <s 0"
    and "unat (ucast (of_nat n :: int64) :: uint32) = n"
proof -
  show u: "unat (of_nat n :: int64) = n"
    using assms by (intro unat_of_nat_small) simp
  have "\<not> bit (unat (of_nat n :: int64)) 63"
    unfolding u using assms by (simp add: bit_iff_odd)
  then have "\<not> bit (of_nat n :: int64) 63" by (simp only: bit_unsigned_iff) simp
  then show "\<not> (of_nat n :: int64) <s 0" by (simp add: sless_zero_iff_bit)
  show "unat (ucast (of_nat n :: int64) :: uint32) = n"
    using assms u by (simp add: unsigned_ucast_eq unsigned_take_bit_eq take_bit_nat_eq_self)
qed

lemma make_copy_exact:
  assumes "length k < 2 ^ 32"
  shows "make_copy (of_nat (length k)) k = Some k"
  using small_length_word[OF assms] by (simp add: make_copy_def)

lemma advance_index:
  fixes i :: uint32
  assumes "unat i = m" and "m + n < 2 ^ 32"
  shows "unat (i + word_of_int (int n)) = m + n"
proof -
  have "unat (of_nat n :: uint32) = n" using assms(2) by (intro unat_of_nat_small) simp
  then show ?thesis using assms by (subst unat_add_small) auto
qed

lemma advance_index_len:
  fixes i :: uint32
  assumes "unat i = m" and "m + n < 2 ^ 32"
  shows "unat (i + ucast (of_nat n :: int64)) = m + n"
proof -
  have "unat (ucast (of_nat n :: int64) :: uint32) = n"
    using assms(2) by (intro small_length_word(3)) simp
  then show ?thesis using assms by (subst unat_add_small) auto
qed

text \<open>Reading a field at the end of a prefix \<open>a\<close> of the buffer.\<close>

lemma read_uvarint_at:
  assumes "unat i = length a" and "length a + length (put_uvarint x) < 2 ^ 32"
  obtains j where "read_uvarint (a @ put_uvarint x @ rest) i = Some (x, j)"
    and "unat j = length (a @ put_uvarint x)"
proof
  show "read_uvarint (a @ put_uvarint x @ rest) i
      = Some (x, i + word_of_int (int (length (put_uvarint x))))"
    by (simp add: read_uvarint_def assms(1) slice_from_append uvarint_put)
  show "unat (i + word_of_int (int (length (put_uvarint x)))) = length (a @ put_uvarint x)"
    using advance_index[OF assms] by simp
qed

lemma read_varint_at:
  assumes "unat i = length a" and "length a + length (put_varint x) < 2 ^ 32"
  obtains j where "read_varint (a @ put_varint x @ rest) i = Some (x, j)"
    and "unat j = length (a @ put_varint x)"
proof
  show "read_varint (a @ put_varint x @ rest) i
      = Some (x, i + word_of_int (int (length (put_varint x))))"
    by (simp add: read_varint_def assms(1) slice_from_append varint_put)
  show "unat (i + word_of_int (int (length (put_varint x)))) = length (a @ put_varint x)"
    using advance_index[OF assms] by simp
qed

lemma read_bytes_at:
  assumes "unat i = length a" and "length a + length k < 2 ^ 32"
  obtains j where "read_bytes (a @ k @ rest) i (of_nat (length k)) = Some (k, j)"
    and "unat j = length (a @ k)"
proof
  have j: "unat (i + ucast (of_nat (length k) :: int64)) = length a + length k"
    by (rule advance_index_len[OF assms])
  have "slice_range (a @ k @ rest) (length a) (length a + length k) = Some k"
    by (rule slice_range_append) simp_all
  then show "read_bytes (a @ k @ rest) i (of_nat (length k))
      = Some (k, i + ucast (of_nat (length k) :: int64))"
    using assms by (simp add: read_bytes_def j make_copy_exact)
  show "unat (i + ucast (of_nat (length k) :: int64)) = length (a @ k)"
    using j by simp
qed

text \<open>
  The decoder undoes the encoder, also when more bytes follow the record in the buffer.
\<close>

lemma decode_encode_fits:
  assumes fits: "record_fits r"
  shows "decodeLogRecord (encode_header r @ Key r @ Value r @ rest) = Some r"
proof -
  define b where "b = put_uvarint (BatchId r)"
  define ks where "ks = put_varint (of_nat (length (Key r)))"
  define vs where "vs = put_varint (of_nat (length (Value r)))"
  define ex where "ex = put_varint (Expire r)"
  define buf where "buf = encode_header r @ Key r @ Value r @ rest"
  note ds = b_def[symmetric] ks_def[symmetric] vs_def[symmetric] ex_def[symmetric]
  have buf: "buf = Type r # b @ ks @ vs @ ex @ Key r @ Value r @ rest"
    by (simp add: buf_def encode_header_def ds)
  have len: "1 + length b + length ks + length vs + length ex + length (Key r) + length (Value r) < 2 ^ 32"
    using fits encode_header_length[OF fits]
    by (simp add: record_fits_def encode_header_def ds)
  obtain i1 where r1: "read_uvarint buf 1 = Some (BatchId r, i1)" and u1: "unat i1 = length ([Type r] @ b)"
    using len by (rule_tac read_uvarint_at[of 1 "[Type r]" "BatchId r" "ks @ vs @ ex @ Key r @ Value r @ rest"])
      (simp_all add: buf ds)
  obtain i2 where r2: "read_varint buf i1 = Some (of_nat (length (Key r)), i2)"
    and u2: "unat i2 = length (([Type r] @ b) @ ks)"
    using len by (rule_tac read_varint_at[OF u1, of "of_nat (length (Key r))" "vs @ ex @ Key r @ Value r @ rest"])
      (simp_all add: buf ds)
  obtain i3 where r3: "read_varint buf i2 = Some (of_nat (length (Value r)), i3)"
    and u3: "unat i3 = length ((([Type r] @ b) @ ks) @ vs)"
    using len by (rule_tac read_varint_at[OF u2, of "of_nat (length (Value r))" "ex @ Key r @ Value r @ rest"])
      (simp_all add: buf ds)
  obtain i4 where r4: "read_varint buf i3 = Some (Expire r, i4)"
    and u4: "unat i4 = length (((([Type r] @ b) @ ks) @ vs) @ ex)"
    using len by (rule_tac read_varint_at[OF u3, of "Expire r" "Key r @ Value r @ rest"])
      (simp_all add: buf ds)
  obtain i5 where r5: "read_bytes buf i4 (of_nat (length (Key r))) = Some (Key r, i5)"
    and u5: "unat i5 = length ((((([Type r] @ b) @ ks) @ vs) @ ex) @ Key r)"
    using len by (rule_tac read_bytes_at[OF u4, of "Key r" "Value r @ rest"]) (simp_all add: buf)
  obtain i6 where r6: "read_bytes buf i5 (of_nat (length (Value r))) = Some (Value r, i6)"
    using len by (rule_tac read_bytes_at[OF u5, of "Value r" rest]) (simp_all add: buf)
  have "decodeLogRecord buf = Some r"
    using r1 r2 r3 r4 r5 r6 by (simp add: decodeLogRecord_def buf)
  then show ?thesis by (simp add: buf_def)
qed

lemma decode_encode [codec_simps]:
  assumes "record_fits r" and "encodeLogRecord r = Some b"
  shows "decodeLogRecord b = Some r"
  using decode_encode_fits[OF assms(1), of "[]"] assms(2) by (simp add: encodeLogRecord_fits assms(1))

lemma ucast_roundtrip_32: "ucast (ucast (x :: uint32) :: uint64) = x"
  by (rule bit_word_eqI) (simp add: bit_ucast_iff)

lemma hint_header_length:
  "length (put_uvarint (ucast (s :: uint32))) \<le> 5"
proof (rule length_put_uvarint_le)
  have "unat (ucast s :: uint64) = unat s"
    using unsigned_less[of s, where ?'a = nat]
    by (simp add: unsigned_ucast_eq unsigned_take_bit_eq take_bit_nat_eq_self)
  moreover have "unat s < 2 ^ 32" by (rule order_less_le_trans[OF unsigned_less]) simp
  ultimately show "unat (ucast s :: uint64) < 2 ^ (7 * 5)" by simp
qed simp

lemma encodeHintRecord_total:
  "encodeHintRecord key pos =
     Some (put_uvarint (ucast (SegmentId pos)) @ put_uvarint (ucast (BlockNumber pos))
                 @ put_uvarint (ChunkOffset pos) @ put_uvarint (ucast (ChunkSize pos)) @ key)"
  using hint_header_length[of "SegmentId pos"] hint_header_length[of "BlockNumber pos"]
    hint_header_length[of "ChunkSize pos"] length_put_uvarint[of "ChunkOffset pos"]
  by (simp add: encodeHintRecord_def Let_def)

lemma slice_from_int_append:
  assumes "int (length a) = i"
  shows "slice_from_int (a @ b) i = Some b"
  using assms by (auto simp: slice_from_int_def slice_from_def)

lemma decode_hint:
  "decodeHintRecord (put_uvarint (ucast (SegmentId pos)) @ put_uvarint (ucast (BlockNumber pos))
      @ put_uvarint (ChunkOffset pos) @ put_uvarint (ucast (ChunkSize pos)) @ key) = Some (key, pos)"
proof -
  define a where "a = put_uvarint (ucast (SegmentId pos))"
  define b where "b = put_uvarint (ucast (BlockNumber pos))"
  define c where "c = put_uvarint (ChunkOffset pos)"
  define d where "d = put_uvarint (ucast (ChunkSize pos))"
  have s1: "slice_from_int (a @ b @ c @ d @ key) (int (length a)) = Some (b @ c @ d @ key)"
    by (simp add: slice_from_int_append)
  have s2: "slice_from_int (a @ b @ c @ d @ key) (int (length a) + int (length b)) = Some (c @ d @ key)"
    using slice_from_int_append[of "a @ b" _ "c @ d @ key"] by simp
  have s3: "slice_from_int (a @ b @ c @ d @ key) (int (length a) + int (length b) + int (length c))
      = Some (d @ key)"
    using slice_from_int_append[of "a @ b @ c" _ "d @ key"] by (simp add: add.assoc)
  have s4: "slice_from_int (a @ b @ c @ d @ key)
      (int (length a) + int (length b) + int (length c) + int (length d)) = Some key"
    using slice_from_int_append[of "a @ b @ c @ d" _ key] by (simp add: add.assoc)
  have s0: "slice_from_int (a @ b @ c @ d @ key) 0 = Some (a @ b @ c @ d @ key)"
    by (simp add: slice_from_int_def slice_from_def)
  have "uvarint (a @ b @ c @ d @ key) = (ucast (SegmentId pos), int (length a))"
    and "uvarint (b @ c @ d @ key) = (ucast (BlockNumber pos), int (length b))"
    and "uvarint (c @ d @ key) = (ChunkOffset pos, int (length c))"
    and "uvarint (d @ key) = (ucast (ChunkSize pos), int (length d))"
    by (simp_all add: a_def b_def c_def d_def uvarint_put)
  then have "decodeHintRecord (a @ b @ c @ d @ key) = Some (key, pos)"
    by (simp add: decodeHintRecord_def s0 s1 s2 s3 s4 ucast_roundtrip_32 add.assoc[symmetric])
  then show ?thesis by (simp add: a_def b_def c_def d_def)
qed

lemma IsExpired_mono:
  assumes "IsExpired r t" and "sint t \<le> sint t'"
  shows "IsExpired r t'"
  using assms by (simp add: IsExpired_def word_sle_eq)

lemma IsExpired_sint: "IsExpired r t \<longleftrightarrow> 0 < sint (Expire r) \<and> sint (Expire r) \<le> sint t"
  by (simp add: IsExpired_def word_sle_eq word_sless_alt)

section \<open>Properties\<close>

text \<open>
  Property C7. Every log record that a 32 bit index can address is encoded without running
  over the 31 byte header buffer, and decoding the encoding, with any bytes behind it,
  gives the record back: key, value, type, batch id and (signed) expiry time.
\<close>

theorem log_record_roundtrip:
  assumes "record_fits r"
  shows "\<exists>b. encodeLogRecord r = Some b \<and> decodeLogRecord (b @ rest) = Some r"
  using decode_encode_fits[OF assms, of rest] by (simp add: encodeLogRecord_fits[OF assms])

theorem log_record_roundtrip_witness:
  "\<exists>b. encodeLogRecord \<lparr>Key = [107, 49], Value = [], Type = LogRecordDeleted, BatchId = 300, Expire = - 2\<rparr> = Some b
     \<and> decodeLogRecord (b @ [7]) = Some \<lparr>Key = [107, 49], Value = [], Type = LogRecordDeleted, BatchId = 300, Expire = - 2\<rparr>"
  by (rule log_record_roundtrip) (simp add: record_fits_def maxLogRecordHeaderSize_def)

text \<open>
  Property C33. The hint record of any key and position fits its 25 byte buffer, and
  decoding it gives the key and all four fields of the position back.
\<close>

theorem hint_record_roundtrip:
  "\<exists>b. encodeHintRecord key pos = Some b \<and> decodeHintRecord b = Some (key, pos)"
  by (simp add: encodeHintRecord_total decode_hint)

end
