(* ===== verification/Index.thy ===== *)
theory Index
  imports Log_Record
begin

text \<open>
  \<^verbatim>\<open>index/\<close>: the in-memory index from keys to positions. \<^verbatim>\<open>index.go\<close>
  declares the interface \<open>Indexer\<close> (the locale \<open>indexer\<close> below) and
  \<^verbatim>\<open>btree.go\<close> implements it over \<^verbatim>\<open>github.com/google/btree\<close>. That
  package is not part of the repository: it is a parameter, the record \<open>btree_ops\<close> of
  the operations the code calls, and the locale \<open>btree_lib\<close> states what its documentation
  promises of them. The locks of \<open>MemoryBTree\<close> make each operation atomic; an operation
  is one function here.
\<close>

section \<open>Keys and items\<close>

text \<open>\<open>bytes.Compare\<close>.\<close>

fun bytes_compare :: "bytes \<Rightarrow> bytes \<Rightarrow> int" where
  "bytes_compare [] [] = 0"
| "bytes_compare [] (_ # _) = - 1"
| "bytes_compare (_ # _) [] = 1"
| "bytes_compare (a # as) (b # bs) =
     (if a < b then - 1 else if b < a then 1 else bytes_compare as bs)"

record item =
  item_key :: bytes
  item_pos :: chunk_position

definition item_Less :: "item \<Rightarrow> item option \<Rightarrow> bool" where
  "item_Less it bi = (case bi of None \<Rightarrow> False | Some b \<Rightarrow> bytes_compare (item_key it) (item_key b) < 0)"

text \<open>An item that is only looked for has no position; the comparison never reads it.\<close>

definition no_pos :: chunk_position where
  "no_pos = \<lparr>SegmentId = 0, BlockNumber = 0, ChunkOffset = 0, ChunkSize = 0\<rparr>"

definition key_item :: "bytes \<Rightarrow> item" where
  "key_item key = \<lparr>item_key = key, item_pos = no_pos\<rparr>"

lemma bytes_compare_less: "bytes_compare a b < 0 \<longleftrightarrow> a < b"
  by (induction a b rule: bytes_compare.induct) auto

lemma bytes_compare_zero: "bytes_compare a b = 0 \<longleftrightarrow> a = b"
  by (induction a b rule: bytes_compare.induct) auto

lemma item_Less_iff [simp]: "item_Less a (Some b) \<longleftrightarrow> item_key a < item_key b"
  by (simp add: item_Less_def bytes_compare_less)

lemma item_Less_None [simp]: "\<not> item_Less a None"
  by (simp add: item_Less_def)

lemma item_key_key_item [simp]: "item_key (key_item k) = k"
  by (simp add: key_item_def)

section \<open>The B-tree package\<close>

text \<open>
  A traversal of the package calls an iterator function for the items of a range, in order,
  until it returns false: the parameter gives the items in the order they would be handed
  out, and the code's callback runs over them with \<open>visit\<close>.
\<close>

record 't btree_ops =
  bt_New :: 't
  bt_ReplaceOrInsert :: "'t \<Rightarrow> item \<Rightarrow> 't \<times> item option"
  bt_Get :: "'t \<Rightarrow> item \<Rightarrow> item option"
  bt_Delete :: "'t \<Rightarrow> item \<Rightarrow> 't \<times> item option"
  bt_Len :: "'t \<Rightarrow> nat"
  bt_Min :: "'t \<Rightarrow> item option"
  bt_Max :: "'t \<Rightarrow> item option"
  bt_Ascend :: "'t \<Rightarrow> item list"
  bt_AscendRange :: "'t \<Rightarrow> item \<Rightarrow> item \<Rightarrow> item list"
  bt_AscendGreaterOrEqual :: "'t \<Rightarrow> item \<Rightarrow> item list"
  bt_Descend :: "'t \<Rightarrow> item list"
  bt_DescendRange :: "'t \<Rightarrow> item \<Rightarrow> item \<Rightarrow> item list"
  bt_DescendLessOrEqual :: "'t \<Rightarrow> item \<Rightarrow> item list"
  bt_Clone :: "'t \<Rightarrow> 't"

text \<open>Two items are the same for the package when neither is less than the other.\<close>

definition same_item :: "item \<Rightarrow> item \<Rightarrow> bool" where
  "same_item a b \<longleftrightarrow> \<not> item_Less a (Some b) \<and> \<not> item_Less b (Some a)"

lemma same_item_iff [simp]: "same_item a b \<longleftrightarrow> item_key a = item_key b"
  by (auto simp: same_item_def)

locale btree_lib =
  fixes B :: "'t btree_ops" and bt_inv :: "'t \<Rightarrow> bool"
  assumes New_inv: "bt_inv (bt_New B)"
    and New_items: "bt_Ascend B (bt_New B) = []"
    and items_sorted: "bt_inv t \<Longrightarrow> sorted_wrt (\<lambda>a b. item_Less a (Some b)) (bt_Ascend B t)"
    and Get_finds: "bt_inv t \<Longrightarrow> bt_Get B t it = List.find (same_item it) (bt_Ascend B t)"
    and Insert_inv: "bt_inv t \<Longrightarrow> bt_inv (fst (bt_ReplaceOrInsert B t it))"
    and Insert_items: "bt_inv t \<Longrightarrow>
        set (bt_Ascend B (fst (bt_ReplaceOrInsert B t it)))
          = insert it {x \<in> set (bt_Ascend B t). \<not> same_item it x}"
    and Insert_old: "bt_inv t \<Longrightarrow>
        snd (bt_ReplaceOrInsert B t it) = List.find (same_item it) (bt_Ascend B t)"
    and Delete_inv: "bt_inv t \<Longrightarrow> bt_inv (fst (bt_Delete B t it))"
    and Delete_items: "bt_inv t \<Longrightarrow>
        set (bt_Ascend B (fst (bt_Delete B t it))) = {x \<in> set (bt_Ascend B t). \<not> same_item it x}"
    and Delete_old: "bt_inv t \<Longrightarrow>
        snd (bt_Delete B t it) = List.find (same_item it) (bt_Ascend B t)"
    and Len_items: "bt_inv t \<Longrightarrow> bt_Len B t = length (bt_Ascend B t)"
    and Min_first: "bt_inv t \<Longrightarrow> bt_Min B t = (case bt_Ascend B t of [] \<Rightarrow> None | x # _ \<Rightarrow> Some x)"
    and Max_last: "bt_inv t \<Longrightarrow> bt_Max B t = (case rev (bt_Ascend B t) of [] \<Rightarrow> None | x # _ \<Rightarrow> Some x)"
    and AscendRange_items: "bt_inv t \<Longrightarrow> bt_AscendRange B t ge lt
        = filter (\<lambda>x. \<not> item_Less x (Some ge) \<and> item_Less x (Some lt)) (bt_Ascend B t)"
    and AscendGreaterOrEqual_items: "bt_inv t \<Longrightarrow> bt_AscendGreaterOrEqual B t ge
        = filter (\<lambda>x. \<not> item_Less x (Some ge)) (bt_Ascend B t)"
    and Descend_items: "bt_inv t \<Longrightarrow> bt_Descend B t = rev (bt_Ascend B t)"
    and DescendRange_items: "bt_inv t \<Longrightarrow> bt_DescendRange B t le gt
        = filter (\<lambda>x. \<not> item_Less le (Some x) \<and> item_Less gt (Some x)) (rev (bt_Ascend B t))"
    and DescendLessOrEqual_items: "bt_inv t \<Longrightarrow> bt_DescendLessOrEqual B t le
        = filter (\<lambda>x. \<not> item_Less le (Some x)) (rev (bt_Ascend B t))"
    and Clone_inv: "bt_inv t \<Longrightarrow> bt_inv (bt_Clone B t)"
    and Clone_items: "bt_inv t \<Longrightarrow> bt_Ascend B (bt_Clone B t) = bt_Ascend B t"

section \<open>MemoryBTree\<close>

record 't MemoryBTree =
  tree :: 't

definition newBTree :: "'t btree_ops \<Rightarrow> 't MemoryBTree" where
  "newBTree B = \<lparr>tree = bt_New B\<rparr>"

text \<open>\<open>index.NewIndexer\<close>: the only index type the code knows is the B-tree.\<close>

datatype IndexerType = BTree

definition indexType :: IndexerType where "indexType = BTree"

definition NewIndexer :: "'t btree_ops \<Rightarrow> 't MemoryBTree" where
  "NewIndexer B = (case indexType of BTree \<Rightarrow> newBTree B)"

definition mt_Put :: "'t btree_ops \<Rightarrow> 't MemoryBTree \<Rightarrow> bytes \<Rightarrow> chunk_position
    \<Rightarrow> 't MemoryBTree \<times> chunk_position option" where
  "mt_Put B mt key position =
     (case bt_ReplaceOrInsert B (tree mt) \<lparr>item_key = key, item_pos = position\<rparr> of
        (t', oldValue) \<Rightarrow> (mt\<lparr>tree := t'\<rparr>, case oldValue of Some it \<Rightarrow> Some (item_pos it) | None \<Rightarrow> None))"

definition mt_Get :: "'t btree_ops \<Rightarrow> 't MemoryBTree \<Rightarrow> bytes \<Rightarrow> chunk_position option" where
  "mt_Get B mt key =
     (case bt_Get B (tree mt) (key_item key) of Some it \<Rightarrow> Some (item_pos it) | None \<Rightarrow> None)"

definition mt_Delete :: "'t btree_ops \<Rightarrow> 't MemoryBTree \<Rightarrow> bytes
    \<Rightarrow> 't MemoryBTree \<times> (chunk_position option \<times> bool)" where
  "mt_Delete B mt key =
     (case bt_Delete B (tree mt) (key_item key) of
        (t', value) \<Rightarrow> (mt\<lparr>tree := t'\<rparr>,
                        case value of Some it \<Rightarrow> (Some (item_pos it), True) | None \<Rightarrow> (None, False)))"

definition mt_Size :: "'t btree_ops \<Rightarrow> 't MemoryBTree \<Rightarrow> nat" where
  "mt_Size B mt = bt_Len B (tree mt)"

text \<open>The code's \<open>handleFn\<close> returns whether to go on, and an error, which stops too.\<close>

type_synonym 's handler = "bytes \<Rightarrow> chunk_position \<Rightarrow> 's \<Rightarrow> (bool \<times> go_error option) \<times> 's"

definition handle_item :: "'s handler \<Rightarrow> item \<Rightarrow> 's \<Rightarrow> bool \<times> 's" where
  "handle_item handleFn i s =
     (case handleFn (item_key i) (item_pos i) s of
        ((cont, err), s') \<Rightarrow> (if err \<noteq> None then False else cont, s'))"

definition mt_Ascend :: "'t btree_ops \<Rightarrow> 't MemoryBTree \<Rightarrow> 's handler \<Rightarrow> 's \<Rightarrow> 's" where
  "mt_Ascend B mt handleFn s = visit (handle_item handleFn) (bt_Ascend B (tree mt)) s"

definition mt_Descend :: "'t btree_ops \<Rightarrow> 't MemoryBTree \<Rightarrow> 's handler \<Rightarrow> 's \<Rightarrow> 's" where
  "mt_Descend B mt handleFn s = visit (handle_item handleFn) (bt_Descend B (tree mt)) s"

definition mt_AscendRange ::
    "'t btree_ops \<Rightarrow> 't MemoryBTree \<Rightarrow> bytes \<Rightarrow> bytes \<Rightarrow> 's handler \<Rightarrow> 's \<Rightarrow> 's" where
  "mt_AscendRange B mt startKey endKey handleFn s =
     visit (handle_item handleFn) (bt_AscendRange B (tree mt) (key_item startKey) (key_item endKey)) s"

definition mt_DescendRange ::
    "'t btree_ops \<Rightarrow> 't MemoryBTree \<Rightarrow> bytes \<Rightarrow> bytes \<Rightarrow> 's handler \<Rightarrow> 's \<Rightarrow> 's" where
  "mt_DescendRange B mt startKey endKey handleFn s =
     visit (handle_item handleFn) (bt_DescendRange B (tree mt) (key_item startKey) (key_item endKey)) s"

definition mt_AscendGreaterOrEqual ::
    "'t btree_ops \<Rightarrow> 't MemoryBTree \<Rightarrow> bytes \<Rightarrow> 's handler \<Rightarrow> 's \<Rightarrow> 's" where
  "mt_AscendGreaterOrEqual B mt key handleFn s =
     visit (handle_item handleFn) (bt_AscendGreaterOrEqual B (tree mt) (key_item key)) s"

definition mt_DescendLessOrEqual ::
    "'t btree_ops \<Rightarrow> 't MemoryBTree \<Rightarrow> bytes \<Rightarrow> 's handler \<Rightarrow> 's \<Rightarrow> 's" where
  "mt_DescendLessOrEqual B mt key handleFn s =
     visit (handle_item handleFn) (bt_DescendLessOrEqual B (tree mt) (key_item key)) s"

text \<open>The index as an ordered list of keys and positions.\<close>

definition entry :: "item \<Rightarrow> bytes \<times> chunk_position" where
  "entry i = (item_key i, item_pos i)"

definition mt_entries :: "'t btree_ops \<Rightarrow> 't MemoryBTree \<Rightarrow> (bytes \<times> chunk_position) list" where
  "mt_entries B mt = map entry (bt_Ascend B (tree mt))"

section \<open>The interface Indexer\<close>

definition handle_entry :: "'s handler \<Rightarrow> bytes \<times> chunk_position \<Rightarrow> 's \<Rightarrow> bool \<times> 's" where
  "handle_entry handleFn e s =
     (case handleFn (fst e) (snd e) s of ((cont, err), s') \<Rightarrow> (if err \<noteq> None then False else cont, s'))"

locale indexer =
  fixes new :: 'i
    and put :: "'i \<Rightarrow> bytes \<Rightarrow> chunk_position \<Rightarrow> 'i \<times> chunk_position option"
    and get :: "'i \<Rightarrow> bytes \<Rightarrow> chunk_position option"
    and delete :: "'i \<Rightarrow> bytes \<Rightarrow> 'i \<times> (chunk_position option \<times> bool)"
    and index_size :: "'i \<Rightarrow> nat"
    and entries :: "'i \<Rightarrow> (bytes \<times> chunk_position) list"
    and inv :: "'i \<Rightarrow> bool"
  assumes new_law: "inv new" "entries new = []"
    and entries_sorted: "inv i \<Longrightarrow> sorted_wrt (<) (map fst (entries i))"
    and get_law: "inv i \<Longrightarrow> get i k = map_of (entries i) k"
    and put_inv: "inv i \<Longrightarrow> inv (fst (put i k p))"
    and put_law: "inv i \<Longrightarrow> map_of (entries (fst (put i k p))) = (map_of (entries i))(k \<mapsto> p)"
    and put_old: "inv i \<Longrightarrow> snd (put i k p) = map_of (entries i) k"
    and delete_inv: "inv i \<Longrightarrow> inv (fst (delete i k))"
    and delete_law: "inv i \<Longrightarrow> map_of (entries (fst (delete i k))) = (map_of (entries i))(k := None)"
    and delete_old: "inv i \<Longrightarrow>
        snd (delete i k) = (map_of (entries i) k, map_of (entries i) k \<noteq> None)"
    and size_law: "inv i \<Longrightarrow> index_size i = length (entries i)"
begin

lemma get_new [simp]: "get new k = None"
  by (simp add: get_law new_law)

lemma get_put: "inv i \<Longrightarrow> get (fst (put i k p)) k' = (if k' = k then Some p else get i k')"
  by (simp add: get_law put_inv put_law)

lemma get_delete: "inv i \<Longrightarrow> get (fst (delete i k)) k' = (if k' = k then None else get i k')"
  by (simp add: get_law delete_inv delete_law)

lemma distinct_keys: "inv i \<Longrightarrow> distinct (map fst (entries i))"
  using entries_sorted strict_sorted_iff by blast

lemma entries_get: "inv i \<Longrightarrow> (k, p) \<in> set (entries i) \<longleftrightarrow> get i k = Some p"
  by (simp add: get_law distinct_keys)

lemma size_card: "inv i \<Longrightarrow> index_size i = card (dom (get i))"
proof -
  assume i: "inv i"
  have "get i = map_of (entries i)" by (rule ext) (simp add: get_law[OF i])
  then have "dom (get i) = set (map fst (entries i))" by (simp add: dom_map_of_conv_image_fst)
  then show ?thesis using distinct_card[OF distinct_keys[OF i]] by (simp add: size_law[OF i])
qed

end

section \<open>MemoryBTree implements Indexer\<close>

definition mt_inv :: "('t \<Rightarrow> bool) \<Rightarrow> 't MemoryBTree \<Rightarrow> bool" where
  "mt_inv bt_inv mt \<longleftrightarrow> bt_inv (tree mt)"

lemma find_same_map_of:
  "(case List.find (same_item it) xs of Some x \<Rightarrow> Some (item_pos x) | None \<Rightarrow> None)
     = map_of (map entry xs) (item_key it)"
  by (induction xs) (auto simp: entry_def)

lemma find_same_old:
  "(case List.find (same_item it) xs of Some x \<Rightarrow> (Some (item_pos x), True) | None \<Rightarrow> (None, False))
     = (map_of (map entry xs) (item_key it), map_of (map entry xs) (item_key it) \<noteq> None)"
  by (induction xs) (auto simp: entry_def)

lemma map_fst_entry [simp]: "map fst (map entry xs) = map item_key xs"
  by (simp add: entry_def comp_def)

lemma sorted_items_keys:
  "sorted_wrt (\<lambda>a b. item_Less a (Some b)) xs \<longleftrightarrow> sorted_wrt (<) (map item_key xs)"
  by (simp add: sorted_wrt_map)

lemma sorted_items_distinct:
  "sorted_wrt (\<lambda>a b. item_Less a (Some b)) xs \<Longrightarrow> distinct (map fst (map entry xs))"
  by (simp only: sorted_items_keys map_fst_entry strict_sorted_iff)

text \<open>A map given by a list with distinct keys depends on the list's set only.\<close>

lemma map_of_eqI:
  assumes "distinct (map fst xs)" and "\<And>k v. (k, v) \<in> set xs \<longleftrightarrow> m k = Some v"
  shows "map_of xs = m"
proof
  fix k
  show "map_of xs k = m k"
  proof (cases "m k")
    case (Some v)
    then show ?thesis using assms by simp
  next
    case None
    then have "\<And>v. (k, v) \<notin> set xs" using assms(2) by simp
    then have "k \<notin> fst ` set xs" by auto
    then show ?thesis using None by (simp add: map_of_eq_None_iff)
  qed
qed

lemma entry_in_items: "(k, p) \<in> set (map entry xs) \<longleftrightarrow> \<lparr>item_key = k, item_pos = p\<rparr> \<in> set xs"
proof
  assume "(k, p) \<in> set (map entry xs)"
  then obtain x where "x \<in> set xs" and "entry x = (k, p)" by auto
  moreover from this(2) have "x = \<lparr>item_key = k, item_pos = p\<rparr>" by (simp add: entry_def)
  ultimately show "\<lparr>item_key = k, item_pos = p\<rparr> \<in> set xs" by simp
next
  assume "\<lparr>item_key = k, item_pos = p\<rparr> \<in> set xs"
  then have "entry \<lparr>item_key = k, item_pos = p\<rparr> \<in> entry ` set xs" by (rule imageI)
  then show "(k, p) \<in> set (map entry xs)" by (simp add: entry_def)
qed

context btree_lib
begin

lemma entries_iff:
  assumes "bt_inv t"
  shows "map_of (map entry (bt_Ascend B t)) k = Some p
     \<longleftrightarrow> \<lparr>item_key = k, item_pos = p\<rparr> \<in> set (bt_Ascend B t)"
  using sorted_items_distinct[OF items_sorted[OF assms]] by (simp only: map_of_eq_Some_iff entry_in_items)

lemma Put_entries:
  assumes "bt_inv t"
  shows "map_of (map entry (bt_Ascend B (fst (bt_ReplaceOrInsert B t \<lparr>item_key = k, item_pos = p\<rparr>))))
       = (map_of (map entry (bt_Ascend B t)))(k \<mapsto> p)"
proof (rule map_of_eqI)
  show "distinct (map fst (map entry (bt_Ascend B (fst (bt_ReplaceOrInsert B t \<lparr>item_key = k, item_pos = p\<rparr>)))))"
    by (rule sorted_items_distinct[OF items_sorted[OF Insert_inv[OF assms]]])
  show "(k', p') \<in> set (map entry (bt_Ascend B (fst (bt_ReplaceOrInsert B t \<lparr>item_key = k, item_pos = p\<rparr>))))
      \<longleftrightarrow> ((map_of (map entry (bt_Ascend B t)))(k \<mapsto> p)) k' = Some p'" for k' p'
    unfolding entry_in_items Insert_items[OF assms]
    using entries_iff[OF assms, of k' p'] by (cases "k' = k") auto
qed

lemma Delete_entries:
  assumes "bt_inv t"
  shows "map_of (map entry (bt_Ascend B (fst (bt_Delete B t (key_item k)))))
       = (map_of (map entry (bt_Ascend B t)))(k := None)"
proof (rule map_of_eqI)
  show "distinct (map fst (map entry (bt_Ascend B (fst (bt_Delete B t (key_item k))))))"
    by (rule sorted_items_distinct[OF items_sorted[OF Delete_inv[OF assms]]])
  show "(k', p') \<in> set (map entry (bt_Ascend B (fst (bt_Delete B t (key_item k)))))
      \<longleftrightarrow> ((map_of (map entry (bt_Ascend B t)))(k := None)) k' = Some p'" for k' p'
    unfolding entry_in_items Delete_items[OF assms]
    using entries_iff[OF assms, of k' p'] by auto
qed

end

sublocale btree_lib < ix: indexer "NewIndexer B" "mt_Put B" "mt_Get B" "mt_Delete B" "mt_Size B"
    "mt_entries B" "mt_inv bt_inv"
proof
  show "mt_inv bt_inv (NewIndexer B)" and "mt_entries B (NewIndexer B) = []"
    by (simp_all add: NewIndexer_def indexType_def newBTree_def mt_inv_def mt_entries_def New_inv New_items)
  fix mt :: "'t MemoryBTree" and k p
  assume "mt_inv bt_inv mt"
  then have t: "bt_inv (tree mt)" by (simp add: mt_inv_def)
  show "sorted_wrt (<) (map fst (mt_entries B mt))"
    using items_sorted[OF t] by (simp only: mt_entries_def map_fst_entry sorted_items_keys)
  show "mt_Get B mt k = map_of (mt_entries B mt) k"
    using find_same_map_of[of "key_item k" "bt_Ascend B (tree mt)"]
    by (simp add: mt_Get_def mt_entries_def Get_finds[OF t])
  show "mt_inv bt_inv (fst (mt_Put B mt k p))"
    using Insert_inv[OF t] by (simp add: mt_Put_def mt_inv_def case_prod_unfold)
  show "map_of (mt_entries B (fst (mt_Put B mt k p))) = (map_of (mt_entries B mt))(k \<mapsto> p)"
    using Put_entries[OF t, of k p] by (simp add: mt_Put_def mt_entries_def case_prod_unfold)
  show "snd (mt_Put B mt k p) = map_of (mt_entries B mt) k"
    using find_same_map_of[of "\<lparr>item_key = k, item_pos = p\<rparr>" "bt_Ascend B (tree mt)"]
      Insert_old[OF t, of "\<lparr>item_key = k, item_pos = p\<rparr>"]
    by (simp add: mt_Put_def mt_entries_def case_prod_unfold)
  show "mt_inv bt_inv (fst (mt_Delete B mt k))"
    using Delete_inv[OF t] by (simp add: mt_Delete_def mt_inv_def case_prod_unfold)
  show "map_of (mt_entries B (fst (mt_Delete B mt k))) = (map_of (mt_entries B mt))(k := None)"
    using Delete_entries[OF t, of k] by (simp add: mt_Delete_def mt_entries_def case_prod_unfold)
  show "snd (mt_Delete B mt k) = (map_of (mt_entries B mt) k, map_of (mt_entries B mt) k \<noteq> None)"
    using find_same_old[of "key_item k" "bt_Ascend B (tree mt)"] Delete_old[OF t, of "key_item k"]
    by (simp add: mt_Delete_def mt_entries_def case_prod_unfold)
  show "mt_Size B mt = length (mt_entries B mt)"
    using Len_items[OF t] by (simp add: mt_Size_def mt_entries_def)
qed

section \<open>Traversals\<close>

text \<open>Every traversal runs the callback over a part of the ordered entries.\<close>

lemma visit_entries:
  "visit (handle_item h) xs s = visit (handle_entry h) (map entry xs) s"
proof (induction xs arbitrary: s)
  case Nil
  then show ?case by simp
next
  case (Cons x xs)
  then show ?case
    by (simp add: handle_item_def handle_entry_def entry_def split: prod.splits)
qed

lemma map_entry_filter:
  assumes "\<And>x. p x = q (item_key x)"
  shows "map entry (filter p xs) = filter (\<lambda>e. q (fst e)) (map entry xs)"
  using assms by (induction xs) (auto simp: entry_def)

context btree_lib
begin

lemma Ascend_entries:
  assumes "mt_inv bt_inv mt"
  shows "mt_Ascend B mt h s = visit (handle_entry h) (mt_entries B mt) s"
  by (simp add: mt_Ascend_def mt_entries_def visit_entries)

lemma Descend_entries:
  assumes "mt_inv bt_inv mt"
  shows "mt_Descend B mt h s = visit (handle_entry h) (rev (mt_entries B mt)) s"
  using assms by (simp add: mt_Descend_def mt_inv_def mt_entries_def Descend_items visit_entries rev_map)

lemma AscendRange_entries:
  assumes "mt_inv bt_inv mt"
  shows "mt_AscendRange B mt a b h s
       = visit (handle_entry h) (filter (\<lambda>e. a \<le> fst e \<and> fst e < b) (mt_entries B mt)) s"
  using assms
  by (simp add: mt_AscendRange_def mt_inv_def mt_entries_def AscendRange_items visit_entries not_less
      map_entry_filter[where q = "\<lambda>k. a \<le> k \<and> k < b"])

lemma DescendRange_entries:
  assumes "mt_inv bt_inv mt"
  shows "mt_DescendRange B mt a b h s
       = visit (handle_entry h) (filter (\<lambda>e. fst e \<le> a \<and> b < fst e) (rev (mt_entries B mt))) s"
  using assms
  by (simp add: mt_DescendRange_def mt_inv_def mt_entries_def DescendRange_items visit_entries rev_map not_less
      map_entry_filter[where q = "\<lambda>k. k \<le> a \<and> b < k"])

lemma AscendGreaterOrEqual_entries:
  assumes "mt_inv bt_inv mt"
  shows "mt_AscendGreaterOrEqual B mt a h s
       = visit (handle_entry h) (filter (\<lambda>e. a \<le> fst e) (mt_entries B mt)) s"
  using assms
  by (simp add: mt_AscendGreaterOrEqual_def mt_inv_def mt_entries_def AscendGreaterOrEqual_items
      visit_entries not_less map_entry_filter[where q = "\<lambda>k. a \<le> k"])

lemma DescendLessOrEqual_entries:
  assumes "mt_inv bt_inv mt"
  shows "mt_DescendLessOrEqual B mt a h s
       = visit (handle_entry h) (filter (\<lambda>e. fst e \<le> a) (rev (mt_entries B mt))) s"
  using assms
  by (simp add: mt_DescendLessOrEqual_def mt_inv_def mt_entries_def DescendLessOrEqual_items
      visit_entries rev_map not_less map_entry_filter[where q = "\<lambda>k. k \<le> a"])

lemmas traversal_entries =
  Ascend_entries Descend_entries AscendRange_entries DescendRange_entries
  AscendGreaterOrEqual_entries DescendLessOrEqual_entries

end

end
