(* ===== verification/Index_Iterator.thy ===== *)
theory Index_Iterator
  imports Index
begin

text \<open>
  The iterator of \<^verbatim>\<open>index/btree.go\<close> (\<open>memoryBTreeIterator\<close>) and the
  interface \<open>IndexIterator\<close> of \<^verbatim>\<open>index/index.go\<close> it implements. The cursor
  is an item, not a place in the tree: \<open>Next\<close> starts a new traversal at the cursor and
  skips it. The interface's laws describe a cursor in the ordered list of entries.
\<close>

section \<open>The iterator\<close>

text \<open>A nil tree, as \<open>Close\<close> leaves it, is \<open>None\<close>.\<close>

record 't memoryBTreeIterator =
  it_tree :: "'t option"
  it_reverse :: bool
  it_current :: "item option"
  it_valid :: bool

definition newMemoryBTreeIterator :: "'t btree_ops \<Rightarrow> 't \<Rightarrow> bool \<Rightarrow> 't memoryBTreeIterator" where
  "newMemoryBTreeIterator B t backw =
     (if 0 < bt_Len B t
      then \<lparr>it_tree = Some (bt_Clone B t), it_reverse = backw,
            it_current = (if backw then bt_Max B t else bt_Min B t), it_valid = True\<rparr>
      else \<lparr>it_tree = Some (bt_Clone B t), it_reverse = backw, it_current = None, it_valid = False\<rparr>)"

definition mt_Iterator :: "'t btree_ops \<Rightarrow> 't MemoryBTree \<Rightarrow> bool \<Rightarrow> 't memoryBTreeIterator" where
  "mt_Iterator B mt backw = newMemoryBTreeIterator B (tree mt) backw"

definition it_Rewind :: "'t btree_ops \<Rightarrow> 't memoryBTreeIterator \<Rightarrow> 't memoryBTreeIterator" where
  "it_Rewind B it =
     (case it_tree it of
        None \<Rightarrow> it
      | Some t \<Rightarrow>
          if bt_Len B t = 0 then it
          else it\<lparr>it_current := (if it_reverse it then bt_Max B t else bt_Min B t), it_valid := True\<rparr>)"

definition it_Seek :: "'t btree_ops \<Rightarrow> bytes \<Rightarrow> 't memoryBTreeIterator \<Rightarrow> 't memoryBTreeIterator" where
  "it_Seek B key it =
     (case it_tree it of
        None \<Rightarrow> it
      | Some t \<Rightarrow>
          if \<not> it_valid it then it
          else visit (\<lambda>i s. (False, s\<lparr>it_current := Some i, it_valid := True\<rparr>))
                 (if it_reverse it then bt_DescendLessOrEqual B t (key_item key)
                  else bt_AscendGreaterOrEqual B t (key_item key))
                 (it\<lparr>it_valid := False\<rparr>))"

text \<open>
  The callback of \<open>Next\<close>: it passes over items that are not beyond the cursor and takes
  the first that is.
\<close>

definition next_step :: "item \<Rightarrow> 't memoryBTreeIterator \<Rightarrow> bool \<times> 't memoryBTreeIterator" where
  "next_step i s =
     (case it_current s of
        None \<Rightarrow> (True, s)
      | Some c \<Rightarrow>
          if (if it_reverse s then \<not> item_Less i (Some c) else \<not> item_Less c (Some i)) then (True, s)
          else (False, s\<lparr>it_current := Some i, it_valid := True\<rparr>))"

definition it_Next :: "'t btree_ops \<Rightarrow> 't memoryBTreeIterator \<Rightarrow> 't memoryBTreeIterator" where
  "it_Next B it =
     (case (it_tree it, it_current it) of
        (Some t, Some c) \<Rightarrow>
          if \<not> it_valid it then it
          else
            (let it' = visit next_step
                         (if it_reverse it then bt_DescendLessOrEqual B t c
                          else bt_AscendGreaterOrEqual B t c)
                         (it\<lparr>it_valid := False\<rparr>)
             in if \<not> it_valid it' then it'\<lparr>it_current := None\<rparr> else it')
      | _ \<Rightarrow> it)"

definition it_Valid :: "'t memoryBTreeIterator \<Rightarrow> bool" where
  "it_Valid it = it_valid it"

definition it_Key :: "'t memoryBTreeIterator \<Rightarrow> bytes option" where
  "it_Key it = (if \<not> it_valid it then None else map_option item_key (it_current it))"

definition it_Value :: "'t memoryBTreeIterator \<Rightarrow> chunk_position option" where
  "it_Value it = (if \<not> it_valid it then None else map_option item_pos (it_current it))"

text \<open>\<open>None\<close>: closing twice calls \<open>Clear\<close> on a nil tree and panics.\<close>

definition it_Close :: "'t memoryBTreeIterator \<Rightarrow> 't memoryBTreeIterator option" where
  "it_Close it =
     (case it_tree it of
        None \<Rightarrow> None
      | Some _ \<Rightarrow> Some (it\<lparr>it_tree := None, it_current := None, it_valid := False\<rparr>))"

section \<open>The interface IndexIterator\<close>

text \<open>
  \<open>all_entries\<close> is what the iterator runs over, in its direction; \<open>rest\<close> is the part
  from the cursor on, empty when the iterator is not valid.
\<close>

locale index_iterator =
  fixes rewind :: "'c \<Rightarrow> 'c"
    and seek :: "bytes \<Rightarrow> 'c \<Rightarrow> 'c"
    and next_entry :: "'c \<Rightarrow> 'c"
    and is_valid :: "'c \<Rightarrow> bool"
    and cursor_key :: "'c \<Rightarrow> bytes option"
    and cursor_value :: "'c \<Rightarrow> chunk_position option"
    and all_entries :: "'c \<Rightarrow> (bytes \<times> chunk_position) list"
    and backwards :: "'c \<Rightarrow> bool"
    and rest :: "'c \<Rightarrow> (bytes \<times> chunk_position) list"
    and inv :: "'c \<Rightarrow> bool"
  assumes valid_law: "inv c \<Longrightarrow> is_valid c \<longleftrightarrow> rest c \<noteq> []"
    and key_law: "inv c \<Longrightarrow> cursor_key c = (case rest c of [] \<Rightarrow> None | e # _ \<Rightarrow> Some (fst e))"
    and value_law: "inv c \<Longrightarrow> cursor_value c = (case rest c of [] \<Rightarrow> None | e # _ \<Rightarrow> Some (snd e))"
    and next_inv: "inv c \<Longrightarrow> inv (next_entry c)"
    and next_rest: "inv c \<Longrightarrow> rest (next_entry c) = tl (rest c)"
    and next_all: "inv c \<Longrightarrow> all_entries (next_entry c) = all_entries c"
    and next_backwards: "inv c \<Longrightarrow> backwards (next_entry c) = backwards c"
    and rewind_inv: "inv c \<Longrightarrow> inv (rewind c)"
    and rewind_rest: "inv c \<Longrightarrow> rest (rewind c) = all_entries c"
    and rewind_all: "inv c \<Longrightarrow> all_entries (rewind c) = all_entries c"
    and seek_inv: "inv c \<Longrightarrow> inv (seek k c)"
    and seek_rest: "inv c \<Longrightarrow> rest c \<noteq> [] \<Longrightarrow>
        rest (seek k c) = dropWhile (\<lambda>e. if backwards c then k < fst e else fst e < k) (all_entries c)"
    and seek_stuck: "inv c \<Longrightarrow> rest c = [] \<Longrightarrow> seek k c = c"
begin

lemma next_iter:
  assumes "inv c"
  shows "inv ((next_entry ^^ n) c) \<and> rest ((next_entry ^^ n) c) = drop n (rest c)"
proof (induction n)
  case 0
  then show ?case using assms by simp
next
  case (Suc n)
  then show ?case by (simp add: next_inv next_rest drop_Suc tl_drop)
qed

text \<open>Calling \<open>Next\<close> from the start meets every entry once, in order, and then stops.\<close>

lemma enumerates:
  assumes "inv c" and "n < length (all_entries c)"
  shows "cursor_key ((next_entry ^^ n) (rewind c)) = Some (fst (all_entries c ! n))"
    and "cursor_value ((next_entry ^^ n) (rewind c)) = Some (snd (all_entries c ! n))"
proof -
  let ?d = "(next_entry ^^ n) (rewind c)"
  have i: "inv ?d" and r: "rest ?d = drop n (all_entries c)"
    using next_iter[OF rewind_inv[OF assms(1)], of n] rewind_rest[OF assms(1)] by simp_all
  have "rest ?d = all_entries c ! n # drop (Suc n) (all_entries c)"
    using r assms(2) by (simp add: Cons_nth_drop_Suc)
  then show "cursor_key ?d = Some (fst (all_entries c ! n))"
    and "cursor_value ?d = Some (snd (all_entries c ! n))"
    using key_law[OF i] value_law[OF i] by simp_all
qed

lemma exhausted:
  assumes "inv c" and "length (all_entries c) \<le> n"
  shows "\<not> is_valid ((next_entry ^^ n) (rewind c))"
  using next_iter[OF rewind_inv[OF assms(1)], of n] assms
  by (simp add: valid_law rewind_rest)

end

section \<open>memoryBTreeIterator implements IndexIterator\<close>

definition it_items :: "'t btree_ops \<Rightarrow> 't memoryBTreeIterator \<Rightarrow> item list" where
  "it_items B it =
     (case it_tree it of
        None \<Rightarrow> []
      | Some t \<Rightarrow> (if it_reverse it then rev (bt_Ascend B t) else bt_Ascend B t))"

definition it_beyond :: "'t memoryBTreeIterator \<Rightarrow> bytes \<Rightarrow> bytes \<Rightarrow> bool" where
  "it_beyond it a b \<longleftrightarrow> (if it_reverse it then b < a else a < b)"

definition it_rest :: "'t btree_ops \<Rightarrow> 't memoryBTreeIterator \<Rightarrow> item list" where
  "it_rest B it =
     (if it_valid it
      then case it_current it of
             None \<Rightarrow> []
           | Some c \<Rightarrow> dropWhile (\<lambda>x. it_beyond it (item_key x) (item_key c)) (it_items B it)
      else [])"

definition it_inv :: "'t btree_ops \<Rightarrow> ('t \<Rightarrow> bool) \<Rightarrow> 't memoryBTreeIterator \<Rightarrow> bool" where
  "it_inv B bt_inv it \<longleftrightarrow>
     (case it_tree it of None \<Rightarrow> \<not> it_valid it | Some t \<Rightarrow> bt_inv t)
     \<and> (it_valid it \<longrightarrow> (\<exists>c. it_current it = Some c \<and> c \<in> set (it_items B it)))"

text \<open>Lists that are strictly ordered by a transitive, irreflexive relation on keys.\<close>

lemma sorted_filter_dropWhile:
  assumes "sorted_wrt (\<lambda>a b. r (f a) (f b)) xs"
    and "\<And>x y z. r x y \<Longrightarrow> r y z \<Longrightarrow> r x z"
  shows "filter (\<lambda>x. \<not> r (f x) k) xs = dropWhile (\<lambda>x. r (f x) k) xs"
  using assms(1)
proof (induction xs)
  case Nil
  then show ?case by simp
next
  case (Cons x xs)
  show ?case
  proof (cases "r (f x) k")
    case True
    then show ?thesis using Cons by simp
  next
    case False
    have "\<not> r (f y) k" if "y \<in> set xs" for y
      using False Cons.prems that assms(2)[of "f x" "f y" k] by auto
    then have "filter (\<lambda>x. \<not> r (f x) k) xs = xs" by simp
    then show ?thesis using False by simp
  qed
qed

lemma sorted_dropWhile_hit:
  assumes "sorted_wrt (\<lambda>a b. r (f a) (f b)) (xs @ c # ys)" and "\<not> r (f c) (f c)"
  shows "dropWhile (\<lambda>x. r (f x) (f c)) (xs @ c # ys) = c # ys"
  using assms by (induction xs) auto

lemma it_beyond_trans: "it_beyond it a b \<Longrightarrow> it_beyond it b c \<Longrightarrow> it_beyond it a c"
  by (auto simp: it_beyond_def split: if_splits)

lemma it_beyond_irrefl [simp]: "\<not> it_beyond it a a"
  by (simp add: it_beyond_def)

lemma it_beyond_cong: "it_reverse a = it_reverse b \<Longrightarrow> it_beyond a = it_beyond b"
  by (intro ext) (simp add: it_beyond_def)

text \<open>The entries of an iterator, in its direction, and those from the cursor on.\<close>

definition it_entries :: "'t btree_ops \<Rightarrow> 't memoryBTreeIterator \<Rightarrow> (bytes \<times> chunk_position) list" where
  "it_entries B it = map entry (it_items B it)"

definition it_rest_entries :: "'t btree_ops \<Rightarrow> 't memoryBTreeIterator \<Rightarrow> (bytes \<times> chunk_position) list" where
  "it_rest_entries B it = map entry (it_rest B it)"

lemma it_items_cong:
  "it_tree a = it_tree b \<Longrightarrow> it_reverse a = it_reverse b \<Longrightarrow> it_items B a = it_items B b"
  by (simp add: it_items_def split: option.split)

lemma map_entry_dropWhile:
  "map entry (dropWhile (\<lambda>x. q (item_key x)) xs) = dropWhile (\<lambda>e. q (fst e)) (map entry xs)"
  by (induction xs) (auto simp: entry_def)

context btree_lib
begin

lemma items_ordered:
  assumes "it_inv B bt_inv it"
  shows "sorted_wrt (\<lambda>a b. it_beyond it (item_key a) (item_key b)) (it_items B it)"
proof (cases "it_tree it")
  case None
  then show ?thesis by (simp add: it_items_def)
next
  case (Some t)
  then have "bt_inv t" using assms by (simp add: it_inv_def)
  from items_sorted[OF this] Some show ?thesis
    by (simp add: it_items_def it_beyond_def sorted_wrt_rev)
qed

text \<open>What a traversal from item \<open>k\<close> hands out, in either direction.\<close>

definition from_item :: "'t memoryBTreeIterator \<Rightarrow> 't \<Rightarrow> item \<Rightarrow> item list" where
  "from_item it t k =
     (if it_reverse it then bt_DescendLessOrEqual B t k else bt_AscendGreaterOrEqual B t k)"

lemma from_item_drop:
  assumes inv: "it_inv B bt_inv it" and t: "it_tree it = Some t"
  shows "from_item it t k
       = dropWhile (\<lambda>x. it_beyond it (item_key x) (item_key k)) (it_items B it)"
proof -
  have "bt_inv t" using inv t by (simp add: it_inv_def)
  then have "from_item it t k = filter (\<lambda>x. \<not> it_beyond it (item_key x) (item_key k)) (it_items B it)"
    using t by (simp add: from_item_def it_items_def it_beyond_def DescendLessOrEqual_items
        AscendGreaterOrEqual_items)
  also have "\<dots> = dropWhile (\<lambda>x. it_beyond it (item_key x) (item_key k)) (it_items B it)"
    by (rule sorted_filter_dropWhile[where r = "it_beyond it" and f = item_key])
       (use items_ordered[OF inv] it_beyond_trans in blast)+
  finally show ?thesis .
qed

lemma cursor_split:
  assumes inv: "it_inv B bt_inv it" and v: "it_valid it"
  obtains t c xs ys where "it_tree it = Some t" and "it_current it = Some c"
    and "it_items B it = xs @ c # ys" and "it_rest B it = c # ys"
proof -
  obtain c where c: "it_current it = Some c" and "c \<in> set (it_items B it)"
    using inv v by (auto simp: it_inv_def)
  then obtain xs ys where xs: "it_items B it = xs @ c # ys" by (auto dest: split_list)
  obtain t where t: "it_tree it = Some t" using inv v by (auto simp: it_inv_def split: option.splits)
  have "it_rest B it = c # ys"
    using sorted_dropWhile_hit[of "it_beyond it" item_key xs c ys] items_ordered[OF inv] v c
    by (simp add: it_rest_def xs)
  then show ?thesis using that t c xs by blast
qed

text \<open>Placing the cursor on an item of the tree makes the rest start there.\<close>

lemma place_cursor:
  assumes inv: "it_inv B bt_inv it" and t: "it_tree it \<noteq> None" and items: "it_items B it = xs @ c # ys"
    and it': "it_tree it' = it_tree it" "it_reverse it' = it_reverse it"
             "it_current it' = Some c" "it_valid it'"
  shows "it_inv B bt_inv it'" and "it_rest B it' = c # ys"
proof -
  have i: "it_items B it' = xs @ c # ys" using it_items_cong[OF it'(1,2)] items by simp
  then show inv': "it_inv B bt_inv it'" using inv it' t by (auto simp: it_inv_def)
  show "it_rest B it' = c # ys"
    using cursor_split[OF inv' it'(4)] i it'(3) items_ordered[OF inv']
      sorted_dropWhile_hit[of "it_beyond it'" item_key xs c ys] it'(4)
    by (simp add: it_rest_def)
qed

lemma Next_spec:
  assumes inv: "it_inv B bt_inv it"
  shows "it_inv B bt_inv (it_Next B it) \<and> it_rest B (it_Next B it) = tl (it_rest B it)
       \<and> it_tree (it_Next B it) = it_tree it \<and> it_reverse (it_Next B it) = it_reverse it"
proof (cases "it_valid it")
  case False
  then have "it_Next B it = it" by (simp add: it_Next_def split: option.splits)
  then show ?thesis using inv False by (simp add: it_rest_def)
next
  case True
  obtain t c xs ys where t: "it_tree it = Some t" and c: "it_current it = Some c"
    and items: "it_items B it = xs @ c # ys" and rest: "it_rest B it = c # ys"
    using cursor_split[OF inv True] by blast
  have from_c: "from_item it t c = c # ys"
    using from_item_drop[OF inv t, of c] rest True c by (simp add: it_rest_def)
  define it0 where "it0 = it\<lparr>it_valid := False\<rparr>"
  have eq: "it_Next B it = (let it' = visit next_step (c # ys) it0
      in if \<not> it_valid it' then it'\<lparr>it_current := None\<rparr> else it')"
    using from_c True by (simp add: it_Next_def t c it0_def from_item_def)
  show ?thesis
  proof (cases ys)
    case Nil
    then have n: "it_Next B it = it0\<lparr>it_current := None\<rparr>"
      by (simp add: eq it0_def next_step_def c)
    show ?thesis using inv rest Nil t unfolding n by (simp add: it0_def it_inv_def it_rest_def)
  next
    case (Cons y ys')
    have "it_beyond it (item_key c) (item_key y)"
      using items_ordered[OF inv] unfolding items Cons by (simp add: sorted_wrt_append)
    then have n: "it_Next B it = it0\<lparr>it_current := Some y, it_valid := True\<rparr>"
      by (auto simp: eq Cons it0_def next_step_def c it_beyond_def split: if_splits)
    have "it_items B it = (xs @ [c]) @ y # ys'" using items Cons by simp
    from place_cursor[OF inv _ this, of "it_Next B it"] n rest Cons t
    show ?thesis by (simp add: it0_def)
  qed
qed

lemma Rewind_spec:
  assumes inv: "it_inv B bt_inv it"
  shows "it_inv B bt_inv (it_Rewind B it) \<and> it_rest B (it_Rewind B it) = it_items B it
       \<and> it_tree (it_Rewind B it) = it_tree it \<and> it_reverse (it_Rewind B it) = it_reverse it"
proof (cases "it_tree it")
  case None
  then show ?thesis using inv by (simp add: it_Rewind_def it_inv_def it_items_def it_rest_def)
next
  case (Some t)
  then have t: "bt_inv t" using inv by (simp add: it_inv_def)
  show ?thesis
  proof (cases "it_items B it")
    case Nil
    then have "bt_Ascend B t = []" using Some by (simp add: it_items_def split: if_splits)
    then have "bt_Len B t = 0" by (simp add: Len_items[OF t])
    then have "it_Rewind B it = it" by (simp add: it_Rewind_def Some)
    then show ?thesis using inv Nil by (simp add: it_rest_def split: option.splits)
  next
    case (Cons c ys)
    then have "bt_Ascend B t \<noteq> []" using Some by (auto simp: it_items_def split: if_splits)
    then have l: "bt_Len B t \<noteq> 0" by (simp add: Len_items[OF t])
    have "it_Rewind B it = it\<lparr>it_current := Some c, it_valid := True\<rparr>"
      using Cons l by (simp add: it_Rewind_def Some it_items_def Min_first[OF t] Max_last[OF t] split: if_splits)
    with place_cursor[OF inv _ , of "[]" c ys "it_Rewind B it"] Cons Some show ?thesis by simp
  qed
qed

lemma Seek_spec:
  assumes inv: "it_inv B bt_inv it" and v: "it_valid it"
  shows "it_inv B bt_inv (it_Seek B k it)
       \<and> it_rest B (it_Seek B k it) = dropWhile (\<lambda>x. it_beyond it (item_key x) k) (it_items B it)
       \<and> it_tree (it_Seek B k it) = it_tree it \<and> it_reverse (it_Seek B k it) = it_reverse it"
proof -
  obtain t where t: "it_tree it = Some t" using inv v by (auto simp: it_inv_def split: option.splits)
  define it0 where "it0 = it\<lparr>it_valid := False\<rparr>"
  define zs where "zs = dropWhile (\<lambda>x. it_beyond it (item_key x) k) (it_items B it)"
  have eq: "it_Seek B k it = visit (\<lambda>i s. (False, s\<lparr>it_current := Some i, it_valid := True\<rparr>)) zs it0"
    using from_item_drop[OF inv t, of "key_item k"] v
    by (simp add: it_Seek_def t it0_def zs_def from_item_def)
  show ?thesis
  proof (cases zs)
    case Nil
    then have s0: "it_Seek B k it = it0" by (simp add: eq)
    have "it_inv B bt_inv it0" using inv t by (simp add: it0_def it_inv_def)
    then show ?thesis using Nil by (simp add: s0 zs_def[symmetric]) (simp add: it0_def it_rest_def)
  next
    case (Cons z zs')
    then have "it_items B it = takeWhile (\<lambda>x. it_beyond it (item_key x) k) (it_items B it) @ z # zs'"
      unfolding zs_def by (metis takeWhile_dropWhile_id)
    from place_cursor[OF inv _ this, of "it_Seek B k it"] show ?thesis
      using Cons t by (simp add: eq it0_def zs_def)
  qed
qed

lemma new_iterator_spec:
  assumes "bt_inv t"
  shows "it_inv B bt_inv (newMemoryBTreeIterator B t backw)
       \<and> it_rest B (newMemoryBTreeIterator B t backw) = (if backw then rev (bt_Ascend B t) else bt_Ascend B t)
       \<and> it_items B (newMemoryBTreeIterator B t backw) = (if backw then rev (bt_Ascend B t) else bt_Ascend B t)"
proof -
  define it0 where "it0 = \<lparr>it_tree = Some (bt_Clone B t), it_reverse = backw, it_current = None, it_valid = False\<rparr>"
  have i0: "it_inv B bt_inv it0" by (simp add: it0_def it_inv_def Clone_inv[OF assms])
  have items: "it_items B it0 = (if backw then rev (bt_Ascend B t) else bt_Ascend B t)"
    by (simp add: it0_def it_items_def Clone_items[OF assms])
  have "newMemoryBTreeIterator B t backw = it_Rewind B it0"
    using Clone_inv[OF assms]
    by (simp add: newMemoryBTreeIterator_def it_Rewind_def it0_def Len_items Min_first Max_last
        Clone_items assms)
  then show ?thesis
    using Rewind_spec[OF i0] items it_items_cong[of "it_Rewind B it0" it0 B] by simp
qed

end

sublocale btree_lib < cursor: index_iterator "it_Rewind B" "it_Seek B" "it_Next B" it_Valid it_Key it_Value
    "it_entries B" it_reverse "it_rest_entries B" "it_inv B bt_inv"
proof
  fix it :: "'t memoryBTreeIterator" and k
  assume inv: "it_inv B bt_inv it"
  have rest_valid: "it_rest B it \<noteq> [] \<longleftrightarrow> it_valid it"
  proof (cases "it_valid it")
    case True
    show ?thesis by (rule cursor_split[OF inv True]) (simp add: True)
  next
    case False
    then show ?thesis by (simp add: it_rest_def)
  qed
  show "it_Valid it \<longleftrightarrow> it_rest_entries B it \<noteq> []"
    using rest_valid by (simp add: it_Valid_def it_rest_entries_def)
  show "it_Key it = (case it_rest_entries B it of [] \<Rightarrow> None | e # _ \<Rightarrow> Some (fst e))"
    and "it_Value it = (case it_rest_entries B it of [] \<Rightarrow> None | e # _ \<Rightarrow> Some (snd e))"
  proof -
    show "it_Key it = (case it_rest_entries B it of [] \<Rightarrow> None | e # _ \<Rightarrow> Some (fst e))"
    proof (cases "it_valid it")
      case True
      show ?thesis
        by (rule cursor_split[OF inv True]) (simp add: True it_Key_def it_rest_entries_def entry_def)
    next
      case False
      then show ?thesis by (simp add: it_Key_def it_rest_entries_def it_rest_def)
    qed
    show "it_Value it = (case it_rest_entries B it of [] \<Rightarrow> None | e # _ \<Rightarrow> Some (snd e))"
    proof (cases "it_valid it")
      case True
      show ?thesis
        by (rule cursor_split[OF inv True]) (simp add: True it_Value_def it_rest_entries_def entry_def)
    next
      case False
      then show ?thesis by (simp add: it_Value_def it_rest_entries_def it_rest_def)
    qed
  qed
  note n = Next_spec[OF inv] and r = Rewind_spec[OF inv]
  show "it_inv B bt_inv (it_Next B it)" and "it_rest_entries B (it_Next B it) = tl (it_rest_entries B it)"
    and "it_reverse (it_Next B it) = it_reverse it"
    using n by (simp_all add: it_rest_entries_def map_tl)
  show "it_entries B (it_Next B it) = it_entries B it"
    using n it_items_cong[of "it_Next B it" it B] by (simp add: it_entries_def)
  show "it_inv B bt_inv (it_Rewind B it)" and "it_rest_entries B (it_Rewind B it) = it_entries B it"
    using r by (simp_all add: it_rest_entries_def it_entries_def)
  show "it_entries B (it_Rewind B it) = it_entries B it"
    using r it_items_cong[of "it_Rewind B it" it B] by (simp add: it_entries_def)
  show stuck: "it_Seek B k it = it" if "it_rest_entries B it = []"
    using that rest_valid by (simp add: it_rest_entries_def it_Seek_def split: option.splits)
  show "it_inv B bt_inv (it_Seek B k it)"
    using Seek_spec[OF inv] stuck rest_valid inv by (cases "it_valid it") (auto simp: it_rest_entries_def)
  show "it_rest_entries B (it_Seek B k it)
      = dropWhile (\<lambda>e. if it_reverse it then k < fst e else fst e < k) (it_entries B it)"
    if "it_rest_entries B it \<noteq> []"
    using Seek_spec[OF inv, of k] that rest_valid map_entry_dropWhile[of "\<lambda>x. it_beyond it x k"]
    by (simp add: it_rest_entries_def it_entries_def it_beyond_def)
qed

end
