(* ===== verification/Storage.thy ===== *)
theory Storage
  imports Index_Iterator
begin

text \<open>
  What the database takes from packages outside the repository, as parameters: the
  write-ahead log (\<^verbatim>\<open>github.com/rosedblabs/wal\<close>, record \<open>wal_ops\<close>), the
  identifiers of batches (\<^verbatim>\<open>github.com/bwmarrin/snowflake\<close>) and the runtime's
  memory hash, collected with the B-tree in one record \<open>env\<close>. The locales \<open>wal_lib\<close> and
  \<open>engine\<close> state what these packages document and the code relies on.
\<close>

section \<open>The write-ahead log\<close>

text \<open>
  \<open>w_Chunks\<close> is what a reader made by \<open>NewReader\<close> returns, call of \<open>Next\<close> after
  call: positions and chunks, and the error that ended it (\<open>None\<close> for \<open>io.EOF\<close>).
\<close>

record 'w wal_ops =
  w_Read :: "'w \<Rightarrow> chunk_position \<Rightarrow> go_error + bytes"
  w_PendingWrites :: "'w \<Rightarrow> bytes \<Rightarrow> 'w"
  w_WriteAll :: "'w \<Rightarrow> (go_error + chunk_position list) \<times> 'w"
  w_ClearPendingWrites :: "'w \<Rightarrow> 'w"
  w_Sync :: "'w \<Rightarrow> go_error option \<times> 'w"
  w_Chunks :: "'w \<Rightarrow> (chunk_position \<times> bytes) list \<times> go_error option"

definition wal_log :: "'w wal_ops \<Rightarrow> 'w \<Rightarrow> (chunk_position \<times> bytes) list" where
  "wal_log W w = fst (w_Chunks W w)"

text \<open>
  The documented behaviour: a chunk of the log is read back at its position; \<open>WriteAll\<close>
  appends the pending chunks in order and returns their positions, and when it fails it
  leaves at most a proper prefix of them behind (a torn write); nothing else changes what
  the log holds. Its errors are those of code outside the repository. \<open>pend\<close> names the chunks handed over by \<open>PendingWrites\<close> so far.
\<close>

locale wal_lib =
  fixes W :: "'w wal_ops" and w_inv :: "'w \<Rightarrow> bool" and pend :: "'w \<Rightarrow> bytes list"
  assumes Read_log: "w_inv w \<Longrightarrow> (p, c) \<in> set (wal_log W w) \<Longrightarrow> w_Read W w p = Inr c"
    and Chunks_eof: "w_inv w \<Longrightarrow> snd (w_Chunks W w) = None"
    and PendingWrites_inv: "w_inv w \<Longrightarrow> w_inv (w_PendingWrites W w c)"
    and PendingWrites_log: "w_inv w \<Longrightarrow> wal_log W (w_PendingWrites W w c) = wal_log W w"
    and PendingWrites_pend: "w_inv w \<Longrightarrow> pend (w_PendingWrites W w c) = pend w @ [c]"
    and WriteAll_inv: "w_inv w \<Longrightarrow> w_WriteAll W w = (x, w') \<Longrightarrow> w_inv w'"
    and WriteAll_ok: "w_inv w \<Longrightarrow> w_WriteAll W w = (Inr ps, w') \<Longrightarrow>
          length ps = length (pend w) \<and> pend w' = []
          \<and> wal_log W w' = wal_log W w @ zip ps (pend w)"
    and WriteAll_fail: "w_inv w \<Longrightarrow> w_WriteAll W w = (Inl e, w') \<Longrightarrow>
          \<exists>ps. length ps < length (pend w) \<and> wal_log W w' = wal_log W w @ zip ps (pend w)"
    and WriteAll_error: "w_inv w \<Longrightarrow> fst (w_WriteAll W w) = Inl e \<Longrightarrow> \<exists>n. e = ErrExternal n"
    and Sync_error: "w_inv w \<Longrightarrow> fst (w_Sync W w) = Some e \<Longrightarrow> \<exists>n. e = ErrExternal n"
    and ClearPendingWrites_inv: "w_inv w \<Longrightarrow> w_inv (w_ClearPendingWrites W w)"
    and ClearPendingWrites_log: "w_inv w \<Longrightarrow> wal_log W (w_ClearPendingWrites W w) = wal_log W w"
    and ClearPendingWrites_pend: "w_inv w \<Longrightarrow> pend (w_ClearPendingWrites W w) = []"
    and Sync_inv: "w_inv w \<Longrightarrow> w_inv (snd (w_Sync W w))"
    and Sync_log: "w_inv w \<Longrightarrow> wal_log W (snd (w_Sync W w)) = wal_log W w"
    and Sync_pend: "w_inv w \<Longrightarrow> pend (snd (w_Sync W w)) = pend w"
begin

lemma fold_PendingWrites:
  assumes "w_inv w"
  shows "w_inv (foldl (w_PendingWrites W) w cs) \<and> wal_log W (foldl (w_PendingWrites W) w cs) = wal_log W w
       \<and> pend (foldl (w_PendingWrites W) w cs) = pend w @ cs"
  using assms
  by (induction cs arbitrary: w) (simp_all add: PendingWrites_inv PendingWrites_log PendingWrites_pend)

end

section \<open>The environment of the database\<close>

record ('t, 'w) env =
  Bt :: "'t btree_ops"
  Wl :: "'w wal_ops"
  MemHash :: "bytes \<Rightarrow> uint64"
  IdBytes :: "uint64 \<Rightarrow> bytes"
  ParseBytes :: "bytes \<Rightarrow> uint64 option"

text \<open>
  \<open>ID.Bytes\<close> is the decimal form of an identifier and \<open>snowflake.ParseBytes\<close> reads it
  back. Nothing is assumed of the hash.
\<close>

locale engine =
  btree_lib "Bt E" bt_inv + wal_lib "Wl E" w_inv pend
  for E :: "('t, 'w) env" and bt_inv :: "'t \<Rightarrow> bool" and w_inv :: "'w \<Rightarrow> bool"
    and pend :: "'w \<Rightarrow> bytes list" +
  assumes Parse_id: "ParseBytes E (IdBytes E i) = Some i"
    and Id_length: "length (IdBytes E i) \<le> 20"

section \<open>A reference instance\<close>

text \<open>
  The contracts can be met: an ordered list of items as the tree, and a log kept as a list
  of chunks, whose positions count the chunks written.
\<close>

fun insert_item :: "item \<Rightarrow> item list \<Rightarrow> item list" where
  "insert_item it [] = [it]"
| "insert_item it (x # xs) =
     (if item_key it < item_key x then it # x # xs
      else if item_key it = item_key x then it # xs else x # insert_item it xs)"

definition list_btree :: "item list btree_ops" where
  "list_btree = \<lparr>
     bt_New = [],
     bt_ReplaceOrInsert = (\<lambda>t it. (insert_item it t, List.find (same_item it) t)),
     bt_Get = (\<lambda>t it. List.find (same_item it) t),
     bt_Delete = (\<lambda>t it. (filter (\<lambda>x. \<not> same_item it x) t, List.find (same_item it) t)),
     bt_Len = length,
     bt_Min = (\<lambda>t. case t of [] \<Rightarrow> None | x # _ \<Rightarrow> Some x),
     bt_Max = (\<lambda>t. case rev t of [] \<Rightarrow> None | x # _ \<Rightarrow> Some x),
     bt_Ascend = (\<lambda>t. t),
     bt_AscendRange = (\<lambda>t ge lt. filter (\<lambda>x. \<not> item_Less x (Some ge) \<and> item_Less x (Some lt)) t),
     bt_AscendGreaterOrEqual = (\<lambda>t ge. filter (\<lambda>x. \<not> item_Less x (Some ge)) t),
     bt_Descend = rev,
     bt_DescendRange = (\<lambda>t le gt. filter (\<lambda>x. \<not> item_Less le (Some x) \<and> item_Less gt (Some x)) (rev t)),
     bt_DescendLessOrEqual = (\<lambda>t le. filter (\<lambda>x. \<not> item_Less le (Some x)) (rev t)),
     bt_Clone = (\<lambda>t. t)\<rparr>"

definition sorted_items :: "item list \<Rightarrow> bool" where
  "sorted_items t \<longleftrightarrow> sorted_wrt (\<lambda>a b. item_Less a (Some b)) t"

lemma set_insert_item:
  assumes "sorted_items t"
  shows "set (insert_item it t) = insert it {x \<in> set t. \<not> same_item it x}"
  using assms unfolding sorted_items_def
proof (induction t)
  case Nil
  then show ?case by simp
next
  case (Cons x xs)
  then show ?case by (auto dest: order_less_trans)
qed

lemma sorted_insert_item:
  assumes "sorted_items t"
  shows "sorted_items (insert_item it t)"
  using assms
proof (induction t)
  case Nil
  then show ?case by (simp add: sorted_items_def)
next
  case (Cons x xs)
  have xs: "sorted_items xs" using Cons.prems by (simp add: sorted_items_def)
  then show ?case
    using Cons set_insert_item[OF xs, of it]
    by (auto simp: sorted_items_def dest: order_less_trans)
qed

lemma sorted_items_Nil: "sorted_items []"
  by (simp add: sorted_items_def)

lemma sorted_items_filter: "sorted_items t \<Longrightarrow> sorted_items (filter p t)"
  by (simp add: sorted_items_def sorted_wrt_filter)

interpretation list_bt: btree_lib list_btree sorted_items
  by unfold_locales
     (auto simp: list_btree_def set_insert_item sorted_insert_item sorted_items_filter sorted_items_Nil
        sorted_items_def[symmetric] split: list.splits simp del: item_Less_iff)

record list_wal =
  lw_log :: "(chunk_position \<times> bytes) list"
  lw_pending :: "bytes list"

definition lw_pos :: "nat \<Rightarrow> chunk_position" where
  "lw_pos n = \<lparr>SegmentId = 1, BlockNumber = 0, ChunkOffset = of_nat n, ChunkSize = 0\<rparr>"

definition lw_limit :: int where "lw_limit = 18446744073709551616"

text \<open>A write that would exhaust the offsets fails and leaves nothing behind.\<close>

definition lw_WriteAll :: "list_wal \<Rightarrow> (go_error + chunk_position list) \<times> list_wal" where
  "lw_WriteAll w =
     (let n = length (lw_log w); ps = map lw_pos [n..<n + length (lw_pending w)] in
      if lw_pending w \<noteq> [] \<and> int (n + length (lw_pending w)) < lw_limit
      then (Inr ps, \<lparr>lw_log = lw_log w @ zip ps (lw_pending w), lw_pending = []\<rparr>)
      else if lw_pending w = [] then (Inr [], w)
      else (Inl (ErrExternal 0), w))"

definition list_wal_ops :: "list_wal wal_ops" where
  "list_wal_ops = \<lparr>
     w_Read = (\<lambda>w p. case map_of (lw_log w) p of None \<Rightarrow> Inl (ErrExternal 1) | Some c \<Rightarrow> Inr c),
     w_PendingWrites = (\<lambda>w c. w\<lparr>lw_pending := lw_pending w @ [c]\<rparr>),
     w_WriteAll = lw_WriteAll,
     w_ClearPendingWrites = (\<lambda>w. w\<lparr>lw_pending := []\<rparr>),
     w_Sync = (\<lambda>w. (None, w)),
     w_Chunks = (\<lambda>w. (lw_log w, None))\<rparr>"

definition list_wal_inv :: "list_wal \<Rightarrow> bool" where
  "list_wal_inv w \<longleftrightarrow> map fst (lw_log w) = map lw_pos [0..<length (lw_log w)]
     \<and> int (length (lw_log w)) < lw_limit"

lemma lw_pos_inj: "int m < lw_limit \<Longrightarrow> int n < lw_limit \<Longrightarrow> lw_pos m = lw_pos n \<Longrightarrow> m = n"
  by (simp add: lw_pos_def lw_limit_def of_nat_inverse word_of_nat_eq_iff take_bit_nat_eq_self)

lemma lw_distinct:
  assumes "list_wal_inv w"
  shows "distinct (map fst (lw_log w))"
proof -
  have "inj_on lw_pos (set [0..<length (lw_log w)])"
    using assms by (auto simp: inj_on_def list_wal_inv_def intro: lw_pos_inj)
  then show ?thesis using assms by (simp add: list_wal_inv_def distinct_map)
qed

interpretation list_wl: wal_lib list_wal_ops list_wal_inv lw_pending
proof
  fix w p c
  assume "list_wal_inv w" and "(p, c) \<in> set (wal_log list_wal_ops w)"
  then show "w_Read list_wal_ops w p = Inr c"
    by (simp add: list_wal_ops_def wal_log_def lw_distinct)
next
  fix w x w'
  assume "list_wal_inv w" and "w_WriteAll list_wal_ops w = (x, w')"
  then show "list_wal_inv w'"
    using upt_add_eq_append[of 0 "length (lw_log w)" "length (lw_pending w)"]
    by (auto simp: list_wal_ops_def lw_WriteAll_def Let_def list_wal_inv_def split: if_splits)
next
  fix w ps w'
  assume "list_wal_inv w" and "w_WriteAll list_wal_ops w = (Inr ps, w')"
  then show "length ps = length (lw_pending w) \<and> lw_pending w' = []
      \<and> wal_log list_wal_ops w' = wal_log list_wal_ops w @ zip ps (lw_pending w)"
    by (auto simp: list_wal_ops_def lw_WriteAll_def Let_def wal_log_def split: if_splits)
next
  fix w e w'
  assume "list_wal_inv w" and "w_WriteAll list_wal_ops w = (Inl e, w')"
  then show "\<exists>ps. length ps < length (lw_pending w)
      \<and> wal_log list_wal_ops w' = wal_log list_wal_ops w @ zip ps (lw_pending w)"
    by (intro exI[of _ "[]"]) (auto simp: list_wal_ops_def lw_WriteAll_def Let_def wal_log_def split: if_splits)
next
  fix w e
  assume "list_wal_inv w" and "fst (w_WriteAll list_wal_ops w) = Inl e"
  then show "\<exists>n. e = ErrExternal n"
    by (auto simp: list_wal_ops_def lw_WriteAll_def Let_def split: if_splits)
qed (simp_all add: list_wal_ops_def wal_log_def list_wal_inv_def)

text \<open>
  Identifiers in the variable length form, and a hash with many collisions (the length).
\<close>

definition ref_env :: "(item list, list_wal) env" where
  "ref_env = \<lparr>Bt = list_btree, Wl = list_wal_ops, MemHash = (\<lambda>k. of_nat (length k)),
              IdBytes = put_uvarint, ParseBytes = (\<lambda>b. Some (fst (uvarint b)))\<rparr>"

interpretation ref: engine ref_env sorted_items list_wal_inv lw_pending
proof -
  have "btree_lib (Bt ref_env) sorted_items" and "wal_lib (Wl ref_env) list_wal_inv lw_pending"
    by (simp_all add: ref_env_def list_bt.btree_lib_axioms list_wl.wal_lib_axioms)
  moreover have "engine_axioms ref_env"
  proof
    fix i
    show "ParseBytes ref_env (IdBytes ref_env i) = Some i"
      using uvarint_put[of i "[]"] by (simp add: ref_env_def)
    show "length (IdBytes ref_env i) \<le> 20"
      using length_put_uvarint[of i] by (simp add: ref_env_def)
  qed
  ultimately show "engine ref_env sorted_items list_wal_inv lw_pending"
    by (simp add: engine_def)
qed

end
