(* ===== verification/Watch.thy ===== *)
theory Watch
  imports Prelude "HOL-Library.Sublist"
begin

text \<open>
  \<^verbatim>\<open>watch.go\<close>: the events a commit produces, the ring buffer they wait in, the
  watcher around it and the goroutine that forwards them to the user's channel. The ring
  buffer is refined to a bounded first-in first-out list (locale \<open>event_fifo\<close>); the
  goroutine, the committing writer and the consumer are an interleaving of steps.
\<close>

section \<open>Data\<close>

definition WatchActionPut :: byte where "WatchActionPut = 0"
definition WatchActionDelete :: byte where "WatchActionDelete = 1"

record event =
  Action :: byte
  EventKey :: bytes
  EventValue :: bytes
  EventBatchId :: uint64

record eventQueue =
  Events :: "event option list"
  Capacity :: uint64
  Front :: uint64
  Back :: uint64

text \<open>\<open>done\<close> is the state of the closing channel: \<open>True\<close> once it is closed.\<close>

record watcher =
  queue :: eventQueue
  doneClosed :: bool

section \<open>The ring buffer\<close>

definition NewWatcher :: "uint64 \<Rightarrow> watcher" where
  "NewWatcher capacity =
     \<lparr>queue = \<lparr>Events = replicate (unat capacity) None, Capacity = capacity, Front = 0, Back = 0\<rparr>,
      doneClosed = False\<rparr>"

text \<open>\<open>None\<close> stands for Go's panics: an index out of range, a division by zero.\<close>

definition push :: "eventQueue \<Rightarrow> event \<Rightarrow> eventQueue option" where
  "push eq e =
     (if unat (Back eq) < length (Events eq) \<and> Capacity eq \<noteq> 0
      then Some (eq\<lparr>Events := (Events eq)[unat (Back eq) := Some e],
                    Back := (Back eq + 1) mod Capacity eq\<rparr>)
      else None)"

definition isFull :: "eventQueue \<Rightarrow> bool" where
  "isFull eq \<longleftrightarrow> (Back eq + 1) mod Capacity eq = Front eq"

definition isEmpty :: "eventQueue \<Rightarrow> bool" where
  "isEmpty eq \<longleftrightarrow> Back eq = Front eq"

definition frontTakeAStep :: "eventQueue \<Rightarrow> eventQueue" where
  "frontTakeAStep eq = eq\<lparr>Front := (Front eq + 1) mod Capacity eq\<rparr>"

definition pop :: "eventQueue \<Rightarrow> (event option \<times> eventQueue) option" where
  "pop eq =
     (if unat (Front eq) < length (Events eq)
      then Some (Events eq ! unat (Front eq), frontTakeAStep eq)
      else None)"

definition putEvent :: "watcher \<Rightarrow> event \<Rightarrow> watcher option" where
  "putEvent w e =
     (case push (queue w) e of
        None \<Rightarrow> None
      | Some eq \<Rightarrow> Some (w\<lparr>queue := (if isFull eq then frontTakeAStep eq else eq)\<rparr>))"

text \<open>The event is \<open>None\<close> (nil) when the queue is empty.\<close>

definition getEvent :: "watcher \<Rightarrow> (event option \<times> watcher) option" where
  "getEvent w =
     (if isEmpty (queue w) then Some (None, w)
      else case pop (queue w) of
             None \<Rightarrow> None
           | Some (e, eq) \<Rightarrow> Some (e, w\<lparr>queue := eq\<rparr>))"

definition watcher_Close :: "watcher \<Rightarrow> watcher" where
  "watcher_Close w = w\<lparr>doneClosed := True\<rparr>"

fun putEvents :: "watcher \<Rightarrow> event list \<Rightarrow> watcher option" where
  "putEvents w [] = Some w"
| "putEvents w (e # es) = (case putEvent w e of None \<Rightarrow> None | Some w' \<Rightarrow> putEvents w' es)"

section \<open>Abstraction to a list\<close>

definition queued :: "eventQueue \<Rightarrow> nat" where
  "queued eq =
     (let n = unat (Capacity eq) in (unat (Back eq) + n - unat (Front eq)) mod n)"

definition slot :: "eventQueue \<Rightarrow> nat \<Rightarrow> event option" where
  "slot eq i = Events eq ! ((unat (Front eq) + i) mod unat (Capacity eq))"

definition contents :: "eventQueue \<Rightarrow> event list" where
  "contents eq = map (\<lambda>i. the (slot eq i)) [0..<queued eq]"

definition queue_inv :: "eventQueue \<Rightarrow> bool" where
  "queue_inv eq \<longleftrightarrow>
     length (Events eq) = unat (Capacity eq) \<and> 0 < unat (Capacity eq)
     \<and> unat (Front eq) < unat (Capacity eq) \<and> unat (Back eq) < unat (Capacity eq)
     \<and> (queued eq = 0 \<or> queued eq + 2 \<le> unat (Capacity eq))
     \<and> (\<forall>i < queued eq. slot eq i \<noteq> None)"

text \<open>What the watcher promises: it keeps the newest \<open>capacity - 2\<close> events.\<close>

definition newest :: "nat \<Rightarrow> 'a list \<Rightarrow> 'a list" where
  "newest n xs = drop (length xs - n) xs"

lemma newest_snoc_newest: "newest n (newest n xs @ [x]) = newest n (xs @ [x])"
proof (cases "length xs \<le> n")
  case True
  then show ?thesis by (simp add: newest_def)
next
  case False
  then have "Suc (length xs) - n = Suc (length xs - n)" by simp
  then show ?thesis using False by (simp add: newest_def)
qed

lemma newest_all: "length xs \<le> n \<Longrightarrow> newest n xs = xs"
  by (simp add: newest_def)

lemma newest_tl: "length xs = Suc n \<Longrightarrow> newest n xs = tl xs"
  by (simp add: newest_def drop_Suc)

lemma subseq_newest: "subseq (newest n xs) xs"
  by (simp add: newest_def suffix_drop suffix_imp_subseq)

subsection \<open>Positions on the ring\<close>

lemma ring_distance:
  fixes n f c :: nat
  assumes "f < n" and "c < n"
  shows "((f + c) mod n + n - f) mod n = c"
proof (cases "f + c < n")
  case True
  then show ?thesis using assms by simp
next
  case False
  then have "(f + c) mod n = f + c - n" using assms by (simp add: mod_if)
  then show ?thesis using assms False by simp
qed

lemma ring_end:
  fixes n f b :: nat
  assumes "f < n" and "b < n"
  shows "(f + (b + n - f) mod n) mod n = b"
proof -
  have "(f + (b + n - f) mod n) mod n = (f + (b + n - f)) mod n" by (rule mod_add_right_eq)
  also have "\<dots> = b" using assms by simp
  finally show ?thesis .
qed

lemma ring_inj:
  fixes n f i j :: nat
  assumes "i < n" and "j < n" and "f < n" and "(f + i) mod n = (f + j) mod n"
  shows "i = j"
proof -
  have "i = ((f + i) mod n + n - f) mod n" by (rule ring_distance[OF assms(3,1), symmetric])
  also have "\<dots> = ((f + j) mod n + n - f) mod n" by (simp only: assms(4))
  also have "\<dots> = j" by (rule ring_distance[OF assms(3,2)])
  finally show ?thesis .
qed

lemma unat_next:
  fixes b c :: uint64
  assumes "unat b < unat c"
  shows "unat ((b + 1) mod c) = (unat b + 1) mod unat c"
proof -
  have "unat b + 1 < 2 ^ 64"
    using assms unsigned_less[of c, where ?'a = nat] by simp
  then have "unat (b + 1) = unat b + 1" by (subst unat_add_small) simp_all
  then show ?thesis by (simp add: unat_mod)
qed

lemma queued_less:
  assumes "queue_inv eq"
  shows "queued eq < unat (Capacity eq)"
  using assms by (simp add: queue_inv_def queued_def Let_def)

lemma back_is_end:
  assumes "queue_inv eq"
  shows "unat (Back eq) = (unat (Front eq) + queued eq) mod unat (Capacity eq)"
  using assms ring_end[of "unat (Front eq)" "unat (Capacity eq)" "unat (Back eq)"]
  by (simp add: queue_inv_def queued_def Let_def)

lemma isEmpty_iff:
  assumes "queue_inv eq"
  shows "isEmpty eq \<longleftrightarrow> queued eq = 0"
proof
  assume "isEmpty eq"
  then show "queued eq = 0" by (simp add: isEmpty_def queued_def Let_def)
next
  assume "queued eq = 0"
  then have "unat (Back eq) = unat (Front eq)"
    using back_is_end[OF assms] assms by (simp add: queue_inv_def)
  then show "isEmpty eq" by (simp add: isEmpty_def word_unat_eq_iff)
qed

text \<open>The part of the invariant that speaks of the shape of the ring only.\<close>

definition ring_ok :: "eventQueue \<Rightarrow> bool" where
  "ring_ok eq \<longleftrightarrow>
     length (Events eq) = unat (Capacity eq) \<and> 0 < unat (Capacity eq)
     \<and> unat (Front eq) < unat (Capacity eq) \<and> unat (Back eq) < unat (Capacity eq)"

lemma queue_inv_ring_ok: "queue_inv eq \<Longrightarrow> ring_ok eq"
  by (simp add: queue_inv_def ring_ok_def)

subsection \<open>Taking a step at the front\<close>

lemma frontTakeAStep_ring:
  assumes ok: "ring_ok eq" and c: "queued eq = Suc c"
  shows "ring_ok (frontTakeAStep eq)" and "queued (frontTakeAStep eq) = c"
    and "i < c \<Longrightarrow> slot (frontTakeAStep eq) i = slot eq (Suc i)"
proof -
  define n f b where "n = unat (Capacity eq)" and "f = unat (Front eq)" and "b = unat (Back eq)"
  have lt: "f < n" "b < n" "0 < n" using ok by (simp_all add: ring_ok_def n_def f_def b_def)
  have f': "unat ((Front eq + 1) mod Capacity eq) = (f + 1) mod n"
    using unat_next[of "Front eq" "Capacity eq"] lt by (simp add: f_def n_def)
  have q: "(b + n - f) mod n = Suc c" using c by (simp add: queued_def Let_def n_def f_def b_def)
  have cn: "Suc c < n" using mod_less_divisor[OF lt(3), of "b + n - f"] q by simp
  have b: "b = (f + Suc c) mod n" using ring_end[OF lt(1,2)] q by simp
  show "ring_ok (frontTakeAStep eq)"
    using ok lt f' by (simp add: ring_ok_def frontTakeAStep_def n_def)
  have "b = ((f + 1) mod n + c) mod n" by (simp add: b mod_add_left_eq)
  then have "(b + n - (f + 1) mod n) mod n = c"
    using ring_distance[of "(f + 1) mod n" n c] lt cn by simp
  then show "queued (frontTakeAStep eq) = c"
    using f' by (simp add: queued_def Let_def frontTakeAStep_def n_def b_def f_def)
  show "slot (frontTakeAStep eq) i = slot eq (Suc i)" if "i < c"
  proof -
    have "((f + 1) mod n + i) mod n = (f + Suc i) mod n" by (simp add: mod_add_left_eq)
    then show ?thesis using f' by (simp add: slot_def frontTakeAStep_def n_def f_def)
  qed
qed

lemma contents_frontTakeAStep:
  assumes "ring_ok eq" and "queued eq = Suc c"
  shows "contents (frontTakeAStep eq) = tl (contents eq)"
proof -
  have "contents (frontTakeAStep eq) = map (\<lambda>i. the (slot eq (Suc i))) [0..<c]"
    by (simp add: contents_def frontTakeAStep_ring[OF assms])
  also have "\<dots> = map (\<lambda>i. the (slot eq i)) [Suc 0..<Suc c]"
    by (simp only: map_Suc_upt[symmetric] map_map comp_def)
  also have "\<dots> = tl (contents eq)"
    by (simp only: contents_def assms(2) map_tl[symmetric] tl_upt)
  finally show ?thesis .
qed

subsection \<open>Pushing at the back\<close>

lemma push_ring:
  assumes inv: "queue_inv eq"
  obtains eq' where "push eq e = Some eq'" and "ring_ok eq'" and "Capacity eq' = Capacity eq"
    and "Front eq' = Front eq" and "queued eq' = Suc (queued eq) mod unat (Capacity eq)"
    and "\<And>i. i < queued eq \<Longrightarrow> slot eq' i = slot eq i" and "slot eq' (queued eq) = Some e"
proof -
  define n f b where "n = unat (Capacity eq)" and "f = unat (Front eq)" and "b = unat (Back eq)"
  have lt: "f < n" "b < n" "0 < n" and len: "length (Events eq) = n"
    using inv by (simp_all add: queue_inv_def n_def f_def b_def)
  define eq' where "eq' = eq\<lparr>Events := (Events eq)[b := Some e], Back := (Back eq + 1) mod Capacity eq\<rparr>"
  have b': "unat ((Back eq + 1) mod Capacity eq) = (b + 1) mod n"
    using unat_next[of "Back eq" "Capacity eq"] lt by (simp add: b_def n_def)
  have cn: "queued eq < n" using queued_less[OF inv] by (simp add: n_def)
  have b: "b = (f + queued eq) mod n" using back_is_end[OF inv] by (simp add: b_def f_def n_def)
  have "push eq e = Some eq'"
    using lt len by (simp add: push_def eq'_def b_def n_def word_unat_eq_iff)
  moreover have "ring_ok eq'"
    using lt len b' by (simp add: ring_ok_def eq'_def n_def f_def)
  moreover have "queued eq' = Suc (queued eq) mod n"
  proof -
    have "(b + 1) mod n = (f + Suc (queued eq)) mod n" by (simp add: b mod_add_left_eq mod_Suc_eq)
    also have "\<dots> = (f + Suc (queued eq) mod n) mod n" by (simp add: mod_add_right_eq)
    finally have "((b + 1) mod n + n - f) mod n = Suc (queued eq) mod n"
      using ring_distance[of f n "Suc (queued eq) mod n"] lt by simp
    then show ?thesis using b' by (simp add: queued_def Let_def eq'_def n_def f_def)
  qed
  moreover have "slot eq' i = slot eq i" if i: "i < queued eq" for i
  proof -
    have "(f + i) mod n \<noteq> b" using ring_inj[of i n "queued eq" f] i cn lt b by auto
    then show ?thesis by (simp add: slot_def eq'_def f_def n_def)
  qed
  moreover have "slot eq' (queued eq) = Some e"
    using lt len b by (simp add: slot_def eq'_def f_def n_def)
  ultimately show ?thesis using that[of eq'] by (simp add: eq'_def n_def)
qed

lemma contents_push:
  assumes "queued eq' = Suc (queued eq)"
    and "\<And>i. i < queued eq \<Longrightarrow> slot eq' i = slot eq i" and "slot eq' (queued eq) = Some e"
  shows "contents eq' = contents eq @ [e]"
  using assms by (auto simp: contents_def)

lemma isFull_iff:
  assumes ok: "ring_ok eq"
  shows "isFull eq \<longleftrightarrow> Suc (queued eq) mod unat (Capacity eq) = 0"
proof -
  define n f b where "n = unat (Capacity eq)" and "f = unat (Front eq)" and "b = unat (Back eq)"
  have lt: "f < n" "b < n" "0 < n" using ok by (simp_all add: ring_ok_def n_def f_def b_def)
  have q: "queued eq = (b + n - f) mod n" by (simp add: queued_def Let_def n_def f_def b_def)
  have b: "b = (f + queued eq) mod n" using ring_end[OF lt(1,2)] by (simp add: q)
  have "unat ((Back eq + 1) mod Capacity eq) = (b + 1) mod n"
    using unat_next[of "Back eq" "Capacity eq"] lt by (simp add: b_def n_def)
  also have "\<dots> = (f + Suc (queued eq)) mod n"
    by (subst b) (simp add: mod_add_left_eq mod_Suc_eq)
  also have "\<dots> = (f + Suc (queued eq) mod n) mod n" by (simp add: mod_add_right_eq)
  finally have "isFull eq \<longleftrightarrow> (f + Suc (queued eq) mod n) mod n = (f + 0) mod n"
    using lt by (simp add: isFull_def word_unat_eq_iff f_def)
  also have "\<dots> \<longleftrightarrow> Suc (queued eq) mod n = 0"
    using ring_inj[of "Suc (queued eq) mod n" n 0 f] lt by auto
  finally show ?thesis by (simp add: n_def)
qed

section \<open>The watcher is a bounded queue\<close>

definition watcher_inv :: "watcher \<Rightarrow> bool" where
  "watcher_inv w \<longleftrightarrow> queue_inv (queue w)"

definition watcher_events :: "watcher \<Rightarrow> event list" where
  "watcher_events w = contents (queue w)"

definition watcher_bound :: "watcher \<Rightarrow> nat" where
  "watcher_bound w = unat (Capacity (queue w)) - 2"

lemma length_contents [simp]: "length (contents eq) = queued eq"
  by (simp add: contents_def)

lemma queue_invI:
  assumes "ring_ok eq" and "queued eq = 0 \<or> queued eq + 2 \<le> unat (Capacity eq)"
    and "\<And>i. i < queued eq \<Longrightarrow> slot eq i \<noteq> None"
  shows "queue_inv eq"
  using assms by (simp add: queue_inv_def ring_ok_def)

lemma push_step:
  assumes inv: "queue_inv eq"
  obtains eq' where "push eq e = Some eq'"
    and "queue_inv (if isFull eq' then frontTakeAStep eq' else eq')"
    and "contents (if isFull eq' then frontTakeAStep eq' else eq')
           = newest (unat (Capacity eq) - 2) (contents eq @ [e])"
    and "Capacity (if isFull eq' then frontTakeAStep eq' else eq') = Capacity eq"
proof -
  obtain eq' where p: "push eq e = Some eq'" and ok: "ring_ok eq'" and cap: "Capacity eq' = Capacity eq"
    and fr: "Front eq' = Front eq" and q: "queued eq' = Suc (queued eq) mod unat (Capacity eq)"
    and s: "\<And>i. i < queued eq \<Longrightarrow> slot eq' i = slot eq i" and se: "slot eq' (queued eq) = Some e"
    using push_ring[OF inv] by blast
  define n where "n = unat (Capacity eq)"
  define r where "r = (if isFull eq' then frontTakeAStep eq' else eq')"
  have n: "0 < n" using inv by (simp add: queue_inv_def n_def)
  have bound: "queued eq = 0 \<or> queued eq + 2 \<le> n"
    and old: "\<And>i. i < queued eq \<Longrightarrow> slot eq i \<noteq> None"
    using inv by (auto simp: queue_inv_def n_def)
  have capr: "Capacity r = Capacity eq" by (simp add: r_def cap frontTakeAStep_def)
  consider (one) "n = 1" | (room) "queued eq + 3 \<le> n" | (full) "queued eq + 2 = n" "n \<noteq> 1"
    using bound n by linarith
  then have "queue_inv r \<and> contents r = newest (n - 2) (contents eq @ [e])"
  proof cases
    case one
    then have q0: "queued eq' = 0" and c0: "queued eq = 0" using q bound by (simp_all add: n_def)
    have "unat ((Front eq' + 1) mod Capacity eq') = 0"
      using ok one unat_next[of "Front eq'" "Capacity eq'"] by (simp add: cap n_def ring_ok_def)
    moreover have "unat (Front eq') = 0" "unat (Back eq') = 0"
      using ok one by (simp_all add: ring_ok_def cap n_def)
    ultimately have "ring_ok r" "queued r = 0"
      using ok one q0 by (simp_all add: r_def frontTakeAStep_def ring_ok_def queued_def Let_def cap n_def)
    then show ?thesis by (simp add: queue_invI contents_def newest_def one c0)
  next
    case room
    then have q1: "queued eq' = Suc (queued eq)" using q by (simp add: n_def)
    have nf: "\<not> isFull eq'" using isFull_iff[OF ok] room q1 by (simp add: cap n_def)
    have "slot eq' i \<noteq> None" if "i < queued eq'" for i
      using that s[of i] se old[of i] q1 by (cases "i = queued eq") auto
    then have "queue_inv eq'" using ok q1 room by (intro queue_invI) (simp_all add: cap n_def)
    moreover have "contents eq' = contents eq @ [e]" by (rule contents_push[OF q1 s se])
    ultimately show ?thesis using nf room by (simp add: r_def newest_all)
  next
    case full
    then have q1: "queued eq' = Suc (queued eq)" using q by (simp add: n_def)
    have f: "isFull eq'" using isFull_iff[OF ok] full q1 by (simp add: cap n_def)
    note st = frontTakeAStep_ring[OF ok q1]
    have "slot (frontTakeAStep eq') i \<noteq> None" if "i < queued eq" for i
      using that st(3)[OF that] s[of "Suc i"] se old[of "Suc i"]
      by (cases "Suc i = queued eq") auto
    then have "queue_inv (frontTakeAStep eq')"
      using st(1,2) full capr f by (intro queue_invI) (simp_all add: r_def n_def)
    moreover have "contents (frontTakeAStep eq') = tl (contents eq @ [e])"
      by (simp add: contents_frontTakeAStep[OF ok q1] contents_push[OF q1 s se])
    moreover have "length (contents eq @ [e]) = Suc (n - 2)" using full by simp
    ultimately show ?thesis using f by (simp add: r_def newest_tl)
  qed
  then show ?thesis using that[of eq'] p capr by (simp add: r_def n_def)
qed

lemma putEvent_spec:
  assumes "watcher_inv w"
  obtains w' where "putEvent w e = Some w'" and "watcher_inv w'"
    and "watcher_events w' = newest (watcher_bound w) (watcher_events w @ [e])"
    and "watcher_bound w' = watcher_bound w" and "doneClosed w' = doneClosed w"
proof -
  obtain eq' where "push (queue w) e = Some eq'"
    and "queue_inv (if isFull eq' then frontTakeAStep eq' else eq')"
    and "contents (if isFull eq' then frontTakeAStep eq' else eq')
           = newest (unat (Capacity (queue w)) - 2) (contents (queue w) @ [e])"
    and "Capacity (if isFull eq' then frontTakeAStep eq' else eq') = Capacity (queue w)"
    using push_step assms unfolding watcher_inv_def by blast
  then show ?thesis
    using that[of "w\<lparr>queue := (if isFull eq' then frontTakeAStep eq' else eq')\<rparr>"]
    by (simp add: putEvent_def watcher_inv_def watcher_events_def watcher_bound_def split: if_splits)
qed

lemma getEvent_spec:
  assumes inv: "watcher_inv w"
  obtains w' where "watcher_inv w'" and "watcher_bound w' = watcher_bound w"
    and "doneClosed w' = doneClosed w"
    and "case watcher_events w of
           [] \<Rightarrow> getEvent w = Some (None, w) \<and> w' = w
         | e # es \<Rightarrow> getEvent w = Some (Some e, w') \<and> watcher_events w' = es"
proof -
  define eq where "eq = queue w"
  have qi: "queue_inv eq" and ok: "ring_ok eq"
    using inv by (simp_all add: watcher_inv_def eq_def queue_inv_ring_ok)
  show ?thesis
  proof (cases "queued eq")
    case 0
    then have "getEvent w = Some (None, w)"
      using isEmpty_iff[OF qi] by (simp add: getEvent_def eq_def)
    moreover have "watcher_events w = []" using 0 by (simp add: watcher_events_def contents_def eq_def)
    ultimately show ?thesis using that[OF inv] by simp
  next
    case (Suc c)
    note st = frontTakeAStep_ring[OF ok Suc]
    have cap: "Capacity (frontTakeAStep eq) = Capacity eq" by (simp add: frontTakeAStep_def)
    have "queue_inv (frontTakeAStep eq)"
    proof (rule queue_invI[OF st(1)])
      show "queued (frontTakeAStep eq) = 0 \<or> queued (frontTakeAStep eq) + 2 \<le> unat (Capacity (frontTakeAStep eq))"
        using qi st(2) Suc cap by (simp add: queue_inv_def)
      show "slot (frontTakeAStep eq) i \<noteq> None" if "i < queued (frontTakeAStep eq)" for i
        using that st(2) st(3)[of i] qi Suc by (simp add: queue_inv_def)
    qed
    moreover have "slot eq 0 \<noteq> None" using qi Suc by (simp add: queue_inv_def)
    then obtain e where e: "slot eq 0 = Some e" by auto
    then have "pop eq = Some (Some e, frontTakeAStep eq)"
      using ok by (simp add: pop_def slot_def ring_ok_def)
    then have "getEvent w = Some (Some e, w\<lparr>queue := frontTakeAStep eq\<rparr>)"
      using isEmpty_iff[OF qi] Suc by (simp add: getEvent_def eq_def)
    moreover have "contents eq = e # contents (frontTakeAStep eq)"
    proof -
      have "contents eq = the (slot eq 0) # tl (contents eq)"
        by (simp add: contents_def Suc upt_conv_Cons del: upt_Suc)
      then show ?thesis using e by (simp add: contents_frontTakeAStep[OF ok Suc])
    qed
    ultimately show ?thesis
      using that[of "w\<lparr>queue := frontTakeAStep eq\<rparr>"] cap
      by (simp add: watcher_inv_def watcher_events_def watcher_bound_def eq_def)
  qed
qed

lemma NewWatcher_inv:
  assumes "0 < capacity"
  shows "watcher_inv (NewWatcher capacity)" and "watcher_events (NewWatcher capacity) = []"
    and "watcher_bound (NewWatcher capacity) = unat capacity - 2"
proof -
  have "0 < unat capacity" using assms by (simp add: word_less_nat_alt)
  then have "queued (queue (NewWatcher capacity)) = 0" and "ring_ok (queue (NewWatcher capacity))"
    by (simp_all add: queued_def NewWatcher_def ring_ok_def)
  then show "watcher_inv (NewWatcher capacity)" and "watcher_events (NewWatcher capacity) = []"
    by (simp_all add: watcher_inv_def watcher_events_def contents_def queue_invI)
  show "watcher_bound (NewWatcher capacity) = unat capacity - 2"
    by (simp add: watcher_bound_def NewWatcher_def)
qed

text \<open>
  The contract the database relies on when it posts events: a bounded queue that forgets
  its oldest events and gives the others out in the order they were put.
\<close>

locale event_fifo =
  fixes put :: "'q \<Rightarrow> 'e \<Rightarrow> 'q option"
    and get :: "'q \<Rightarrow> ('e option \<times> 'q) option"
    and items :: "'q \<Rightarrow> 'e list"
    and bound :: "'q \<Rightarrow> nat"
    and inv :: "'q \<Rightarrow> bool"
  assumes put_law: "inv q \<Longrightarrow> \<exists>q'. put q e = Some q' \<and> inv q' \<and> bound q' = bound q
                        \<and> items q' = newest (bound q) (items q @ [e])"
    and get_empty: "inv q \<Longrightarrow> items q = [] \<Longrightarrow> get q = Some (None, q)"
    and get_first: "inv q \<Longrightarrow> items q = e # es \<Longrightarrow>
                      \<exists>q'. get q = Some (Some e, q') \<and> inv q' \<and> bound q' = bound q \<and> items q' = es"
begin

fun put_all :: "'q \<Rightarrow> 'e list \<Rightarrow> 'q option" where
  "put_all q [] = Some q"
| "put_all q (e # es) = (case put q e of None \<Rightarrow> None | Some q' \<Rightarrow> put_all q' es)"

lemma put_all_newest:
  assumes "inv q" and "length (items q) \<le> bound q"
  shows "\<exists>q'. put_all q es = Some q' \<and> inv q' \<and> bound q' = bound q
       \<and> items q' = newest (bound q) (items q @ es)"
  using assms
proof (induction es arbitrary: q)
  case Nil
  then show ?case by (simp add: newest_all)
next
  case (Cons e es)
  obtain q1 where q1: "put q e = Some q1" "inv q1" "bound q1 = bound q"
      "items q1 = newest (bound q) (items q @ [e])"
    using put_law[OF Cons.prems(1)] by blast
  have "length (items q1) \<le> bound q1" using q1(3,4) by (simp add: newest_def)
  then obtain q2 where "put_all q1 es = Some q2" "inv q2" "bound q2 = bound q1"
      "items q2 = newest (bound q1) (items q1 @ es)"
    using Cons.IH[OF q1(2)] by blast
  moreover have "newest n (newest n xs @ ys) = newest n (xs @ ys)" for n and xs ys :: "'e list"
  proof (induction ys rule: rev_induct)
    case Nil
    then show ?case by (simp add: newest_def)
  next
    case (snoc y ys)
    then show ?case by (metis append_assoc newest_snoc_newest)
  qed
  ultimately show ?case using q1 by (metis put_all.simps(2) append_Cons append_Nil append_assoc option.case(2))
qed

lemma drain:
  assumes "inv q"
  shows "\<exists>q'. get q = Some (case items q of [] \<Rightarrow> None | e # _ \<Rightarrow> Some e, q')
            \<and> inv q' \<and> items q' = tl (items q)"
proof (cases "items q")
  case Nil
  then show ?thesis using get_empty[OF assms] assms by simp
next
  case (Cons e es)
  then show ?thesis using get_first[OF assms Cons] by auto
qed

end

interpretation wf: event_fifo putEvent getEvent watcher_events watcher_bound watcher_inv
proof
  fix w e
  assume "watcher_inv w"
  then obtain w' where "putEvent w e = Some w'" "watcher_inv w'" "watcher_bound w' = watcher_bound w"
      "watcher_events w' = newest (watcher_bound w) (watcher_events w @ [e])"
    using putEvent_spec[of w e] by metis
  then show "\<exists>q'. putEvent w e = Some q' \<and> watcher_inv q' \<and> watcher_bound q' = watcher_bound w
      \<and> watcher_events q' = newest (watcher_bound w) (watcher_events w @ [e])" by blast
next
  fix w
  assume "watcher_inv w" and "watcher_events w = []"
  then show "getEvent w = Some (None, w)" by (auto elim: getEvent_spec)
next
  fix w e es
  assume "watcher_inv w" and "watcher_events w = e # es"
  then show "\<exists>q'. getEvent w = Some (Some e, q') \<and> watcher_inv q'
      \<and> watcher_bound q' = watcher_bound w \<and> watcher_events q' = es"
    by (auto elim: getEvent_spec)
qed

lemma putEvents_put_all: "putEvents w es = wf.put_all w es"
  by (induction es arbitrary: w) (auto split: option.splits)

section \<open>The forwarding goroutine\<close>

text \<open>
  The state of \<open>sendEvent\<close> running beside the writers (\<open>putEvent\<close>), the consumer of
  the channel and \<open>DB.Close\<close>: the watcher, the buffered channel (capacity 100, as
  \<open>Open\<close> makes it), the event taken from the queue and not sent yet, whether the
  goroutine has returned or panicked, and the history of events put and received.
\<close>

record send_state =
  sw :: watcher
  chan :: "event list"
  chanClosed :: bool
  held :: "event option"
  stopped :: bool
  panicked :: bool
  putLog :: "event list"
  received :: "event list"

definition send_init :: "uint64 \<Rightarrow> send_state" where
  "send_init capacity =
     \<lparr>sw = NewWatcher capacity, chan = [], chanClosed = False, held = None, stopped = False,
      panicked = False, putLog = [], received = []\<rparr>"

text \<open>
  \<open>take\<close> to \<open>send_closed\<close> are the goroutine's own steps; in its inner
  \<open>select\<close> every ready case may be chosen, and sending on a closed channel panics.
\<close>

inductive send_step :: "send_state \<Rightarrow> send_state \<Rightarrow> bool" where
  writer: "putEvent (sw s) e = Some w' \<Longrightarrow>
     send_step s (s\<lparr>sw := w', putLog := putLog s @ [e]\<rparr>)"
| stop_loop: "\<not> stopped s \<Longrightarrow> held s = None \<Longrightarrow> doneClosed (sw s) \<Longrightarrow>
     send_step s (s\<lparr>stopped := True\<rparr>)"
| idle: "\<not> stopped s \<Longrightarrow> held s = None \<Longrightarrow> \<not> doneClosed (sw s) \<Longrightarrow>
     getEvent (sw s) = Some (None, w') \<Longrightarrow> send_step s (s\<lparr>sw := w'\<rparr>)"
| take: "\<not> stopped s \<Longrightarrow> held s = None \<Longrightarrow> \<not> doneClosed (sw s) \<Longrightarrow>
     getEvent (sw s) = Some (Some e, w') \<Longrightarrow> send_step s (s\<lparr>sw := w', held := Some e\<rparr>)"
| send: "\<not> stopped s \<Longrightarrow> held s = Some e \<Longrightarrow> \<not> chanClosed s \<Longrightarrow> length (chan s) < 100 \<Longrightarrow>
     send_step s (s\<lparr>chan := chan s @ [e], held := None\<rparr>)"
| stop_select: "\<not> stopped s \<Longrightarrow> held s = Some e \<Longrightarrow> doneClosed (sw s) \<Longrightarrow>
     send_step s (s\<lparr>stopped := True, held := None\<rparr>)"
| send_closed: "\<not> stopped s \<Longrightarrow> held s = Some e \<Longrightarrow> chanClosed s \<Longrightarrow>
     send_step s (s\<lparr>stopped := True, panicked := True, held := None\<rparr>)"
| consume: "chan s = e # es \<Longrightarrow> send_step s (s\<lparr>chan := es, received := received s @ [e]\<rparr>)"
| close_watcher: "\<not> doneClosed (sw s) \<Longrightarrow> send_step s (s\<lparr>sw := watcher_Close (sw s)\<rparr>)"
| close_chan: "doneClosed (sw s) \<Longrightarrow> \<not> chanClosed s \<Longrightarrow> send_step s (s\<lparr>chanClosed := True\<rparr>)"

inductive_cases send_stepE: "send_step s t"

inductive send_reach :: "uint64 \<Rightarrow> send_state \<Rightarrow> bool" for capacity where
  start: "send_reach capacity (send_init capacity)"
| step: "send_reach capacity s \<Longrightarrow> send_step s t \<Longrightarrow> send_reach capacity t"

definition opt_list :: "'a option \<Rightarrow> 'a list" where
  "opt_list x = (case x of None \<Rightarrow> [] | Some y \<Rightarrow> [y])"

definition in_flight :: "send_state \<Rightarrow> event list" where
  "in_flight s = received s @ chan s @ opt_list (held s) @ watcher_events (sw s)"

definition send_inv :: "send_state \<Rightarrow> bool" where
  "send_inv s \<longleftrightarrow> watcher_inv (sw s) \<and> subseq (in_flight s) (putLog s)
     \<and> (panicked s \<longrightarrow> chanClosed s) \<and> (chanClosed s \<longrightarrow> doneClosed (sw s))"

lemma watcher_Close_simps [simp]:
  "watcher_inv (watcher_Close w) = watcher_inv w"
  "watcher_events (watcher_Close w) = watcher_events w"
  "doneClosed (watcher_Close w)"
  by (simp_all add: watcher_Close_def watcher_inv_def watcher_events_def)

lemma opt_list_simps [simp]: "opt_list None = []" "opt_list (Some x) = [x]"
  by (simp_all add: opt_list_def)

lemma getEvent_cases:
  assumes "watcher_inv w" and "getEvent w = Some (x, w')"
  shows "watcher_inv w'" and "doneClosed w' = doneClosed w"
    and "watcher_events w = opt_list x @ watcher_events w'"
proof -
  obtain w2 where w2: "watcher_inv w2" "doneClosed w2 = doneClosed w"
    and c: "case watcher_events w of
           [] \<Rightarrow> getEvent w = Some (None, w) \<and> w2 = w
         | e # es \<Rightarrow> getEvent w = Some (Some e, w2) \<and> watcher_events w2 = es"
    using getEvent_spec[OF assms(1)] by metis
  then show "watcher_inv w'" and "doneClosed w' = doneClosed w"
    and "watcher_events w = opt_list x @ watcher_events w'"
    using assms(2) by (auto split: list.splits)
qed

lemma putEvent_cases:
  assumes "watcher_inv w" and "putEvent w e = Some w'"
  shows "watcher_inv w'" and "doneClosed w' = doneClosed w"
    and "subseq (watcher_events w') (watcher_events w @ [e])"
proof -
  obtain w2 where "putEvent w e = Some w2" "watcher_inv w2" "doneClosed w2 = doneClosed w"
    "watcher_events w2 = newest (watcher_bound w) (watcher_events w @ [e])"
    using putEvent_spec[OF assms(1), of e] by metis
  then show "watcher_inv w'" and "doneClosed w' = doneClosed w"
    and "subseq (watcher_events w') (watcher_events w @ [e])"
    using assms(2) by (simp_all add: subseq_newest)
qed

lemma send_step_inv: "send_step s t \<Longrightarrow> send_inv s \<Longrightarrow> send_inv t"
proof (induction rule: send_step.induct)
  case (writer s e w')
  note w = putEvent_cases[OF _ writer(1)]
  have "subseq (in_flight s @ [e]) (putLog s @ [e])"
    using writer(2) by (simp add: send_inv_def)
  moreover have "subseq (received s @ chan s @ opt_list (held s) @ watcher_events w') (in_flight s @ [e])"
    using w(3) writer(2) by (simp add: send_inv_def in_flight_def subseq_append')
  ultimately show ?case
    using writer(2) w(1,2) by (auto simp: send_inv_def in_flight_def intro: subseq_order.order_trans)
next
  case (stop_select s e)
  have "subseq (received s @ chan s @ watcher_events (sw s)) (in_flight s)"
    using stop_select(2) by (simp add: in_flight_def subseq_append' list_emb_Cons)
  then show ?case
    using stop_select by (auto simp: send_inv_def in_flight_def intro: subseq_order.order_trans)
next
  case (send_closed s e)
  have "subseq (received s @ chan s @ watcher_events (sw s)) (in_flight s)"
    using send_closed(2) by (simp add: in_flight_def subseq_append' list_emb_Cons)
  then show ?case
    using send_closed by (auto simp: send_inv_def in_flight_def intro: subseq_order.order_trans)
qed (auto simp: send_inv_def in_flight_def dest: getEvent_cases)

lemma send_reach_inv:
  assumes "0 < capacity" and "send_reach capacity s"
  shows "send_inv s"
  using assms(2)
proof (induction rule: send_reach.induct)
  case start
  then show ?case
    using NewWatcher_inv[OF assms(1)] by (simp add: send_init_def send_inv_def in_flight_def)
next
  case (step s t)
  then show ?case by (blast intro: send_step_inv)
qed

section \<open>Properties\<close>

text \<open>
  Property C32. Whatever events are put into a new watcher of a non-zero capacity, no put
  panics, and the watcher holds exactly the newest \<open>capacity - 2\<close> of them, in the order
  they were put.
\<close>

theorem watcher_keeps_newest:
  assumes "0 < capacity"
  shows "\<exists>w. putEvents (NewWatcher capacity) es = Some w \<and> watcher_inv w
           \<and> watcher_events w = newest (unat capacity - 2) es"
  using wf.put_all_newest[of "NewWatcher capacity" es] NewWatcher_inv[OF assms]
  by (auto simp: putEvents_put_all)

theorem watcher_keeps_newest_witness:
  "\<exists>w. putEvents (NewWatcher 4) [\<lparr>Action = 0, EventKey = [1], EventValue = [], EventBatchId = 1\<rparr>,
       \<lparr>Action = 0, EventKey = [2], EventValue = [], EventBatchId = 1\<rparr>,
       \<lparr>Action = 0, EventKey = [3], EventValue = [], EventBatchId = 1\<rparr>] = Some w
     \<and> watcher_inv w \<and> map EventKey (watcher_events w) = [[2], [3]]"
proof -
  have "(0 :: uint64) < 4" by simp
  from watcher_keeps_newest[OF this, of "[\<lparr>Action = 0, EventKey = [1], EventValue = [], EventBatchId = 1\<rparr>,
       \<lparr>Action = 0, EventKey = [2], EventValue = [], EventBatchId = 1\<rparr>,
       \<lparr>Action = 0, EventKey = [3], EventValue = [], EventBatchId = 1\<rparr>]"]
  show ?thesis by (auto simp: newest_def)
qed

text \<open>
  A watcher whose queue has capacity 1 or 2 never delivers anything: every
  event put into it is dropped at once, so the queue is empty after every put.
\<close>

lemma tiny_watch_queue_loses_everything:
  assumes "capacity \<in> {1, 2}"
  shows "\<exists>w. putEvents (NewWatcher capacity) es = Some w \<and> getEvent w = Some (None, w)"
proof -
  have "0 < capacity" and "unat capacity - 2 = 0" using assms by auto
  then obtain w where "putEvents (NewWatcher capacity) es = Some w" "watcher_inv w" "watcher_events w = []"
    using wf.put_all_newest[of "NewWatcher capacity" es] NewWatcher_inv[of capacity]
    by (auto simp: putEvents_put_all newest_def)
  then show ?thesis using wf.get_empty by auto
qed

lemma tiny_watch_queue_loses_everything_witness:
  "\<exists>w. putEvents (NewWatcher 2) [\<lparr>Action = 0, EventKey = [1], EventValue = [], EventBatchId = 1\<rparr>] = Some w
     \<and> getEvent w = Some (None, w)"
  by (rule tiny_watch_queue_loses_everything) simp

text \<open>
  Property C9. In every interleaving of writers, the forwarding goroutine, the consumer and
  \<open>Close\<close>, what the consumer has received, what sits in the channel, the event the
  goroutine holds and what is still queued form, in this order, a subsequence of the
  events that were put: none is duplicated, invented or reordered.
\<close>

theorem watch_delivery_in_order:
  assumes "0 < capacity" and "send_reach capacity s"
  shows "subseq (received s @ chan s @ opt_list (held s) @ watcher_events (sw s)) (putLog s)"
  using send_reach_inv[OF assms] by (simp add: send_inv_def in_flight_def)

theorem watch_delivery_in_order_witness:
  "\<exists>s. send_reach 5 s \<and> putLog s \<noteq> []
     \<and> subseq (received s @ chan s @ opt_list (held s) @ watcher_events (sw s)) (putLog s)"
proof -
  define e where "e = \<lparr>Action = 0, EventKey = [1], EventValue = [], EventBatchId = 1\<rparr>"
  obtain w' where w': "putEvent (sw (send_init 5)) e = Some w'"
    using wf.put_law[of "NewWatcher 5" e] NewWatcher_inv[of 5] by (auto simp: send_init_def)
  have r: "send_reach 5 ((send_init 5)\<lparr>sw := w', putLog := putLog (send_init 5) @ [e]\<rparr>)"
    by (rule send_reach.step[OF send_reach.start]) (rule send_step.writer[OF w'])
  have "(0 :: uint64) < 5" by simp
  from watch_delivery_in_order[OF this r] r show ?thesis by (intro exI) (auto simp: send_init_def)
qed

text \<open>
  Property C34. Closing the watcher before the channel does not keep the goroutine from
  sending on a closed channel: there is a run in which it took an event before
  \<open>Close\<close>, finds both cases of its \<open>select\<close> ready after it, and panics.
\<close>

theorem close_can_panic_sender: "\<exists>s. send_reach 5 s \<and> panicked s"
proof -
  define e where "e = \<lparr>Action = 0, EventKey = [1], EventValue = [], EventBatchId = 1\<rparr>"
  define s0 where "s0 = send_init 5"
  obtain w1 where w1: "putEvent (sw s0) e = Some w1" and i1: "watcher_inv w1" "watcher_events w1 = [e]"
    and d1: "doneClosed w1 = doneClosed (sw s0)"
  proof -
    have sw0: "sw s0 = NewWatcher 5" by (simp add: s0_def send_init_def)
    have inv: "watcher_inv (sw s0)" and "watcher_events (sw s0) = []" "watcher_bound (sw s0) = 3"
      using NewWatcher_inv[of 5] unfolding sw0 by simp_all
    then have n: "newest (watcher_bound (sw s0)) (watcher_events (sw s0) @ [e]) = [e]"
      by (simp add: newest_def)
    obtain w' where "putEvent (sw s0) e = Some w'" "watcher_inv w'"
      "watcher_events w' = newest (watcher_bound (sw s0)) (watcher_events (sw s0) @ [e])"
      "doneClosed w' = doneClosed (sw s0)"
      by (rule putEvent_spec[OF inv, of e])
    then show ?thesis using that n by simp
  qed
  obtain w2 where w2: "getEvent w1 = Some (Some e, w2)" and d2: "doneClosed w2 = doneClosed w1"
    using wf.get_first[OF i1] getEvent_cases(2)[OF i1(1)] by blast
  define s1 where "s1 = s0\<lparr>sw := w1, putLog := putLog s0 @ [e]\<rparr>"
  define s2 where "s2 = s1\<lparr>sw := w2, held := Some e\<rparr>"
  define s3 where "s3 = s2\<lparr>sw := watcher_Close (sw s2)\<rparr>"
  define s4 where "s4 = s3\<lparr>chanClosed := True\<rparr>"
  define s5 where "s5 = s4\<lparr>stopped := True, panicked := True, held := None\<rparr>"
  note ds = s0_def s1_def s2_def s3_def s4_def send_init_def NewWatcher_def
  have d: "\<not> doneClosed w1" "\<not> doneClosed w2" using d1 d2 by (simp_all add: ds)
  have "send_step s0 s1" unfolding s1_def by (rule send_step.writer[OF w1])
  moreover have "send_step s1 s2" unfolding s2_def
    by (rule send_step.take) (use w2 d in \<open>simp_all add: ds\<close>)
  moreover have "send_step s2 s3" unfolding s3_def
    by (rule send_step.close_watcher) (use d in \<open>simp add: ds\<close>)
  moreover have "send_step s3 s4" unfolding s4_def
    by (rule send_step.close_chan) (simp_all add: ds)
  moreover have "send_step s4 s5" unfolding s5_def
    by (rule send_step.send_closed) (simp_all add: ds)
  moreover have "send_reach 5 s0" unfolding s0_def by (rule send_reach.start)
  ultimately have "send_reach 5 s5" by (meson send_reach.step)
  then show ?thesis by (intro exI[of _ s5]) (simp add: s5_def)
qed

end
