(* ===== verification/Batch.thy ===== *)
theory Batch
  imports Storage Watch
begin

text \<open>
  \<^verbatim>\<open>batch.go\<close> and the state of \<^verbatim>\<open>db.go\<close> it works on: the database
  record, the batch with its pending writes and the hash table over them, the operations of a
  batch, \<open>Commit\<close> and \<open>Rollback\<close>. Every reading of the clock is an argument. The
  internal lock \<open>b.mu\<close> makes each operation atomic; the database lock \<open>db.mu\<close>, held
  from the start of a batch to its end, is part of the state.
\<close>

section \<open>State\<close>

record Options =
  DirPath :: bytes
  SegmentSize :: int64
  Sync :: bool
  BytesPerSync :: uint32
  WatchQueueSize :: uint64
  AutoMergeCronExpr :: bytes

record BatchOptions =
  BatchSync :: bool
  ReadOnly :: bool

text \<open>\<open>sync.RWMutex\<close>: acquiring a lock that is not free blocks (\<open>None\<close>), releasing one
  that is not held is a fatal error (\<open>None\<close>).\<close>

record rwmutex =
  writer :: bool
  readers :: nat

definition mutex_Lock :: "rwmutex \<Rightarrow> rwmutex option" where
  "mutex_Lock m = (if writer m \<or> 0 < readers m then None else Some (m\<lparr>writer := True\<rparr>))"

definition mutex_Unlock :: "rwmutex \<Rightarrow> rwmutex option" where
  "mutex_Unlock m = (if writer m then Some (m\<lparr>writer := False\<rparr>) else None)"

definition mutex_RLock :: "rwmutex \<Rightarrow> rwmutex option" where
  "mutex_RLock m = (if writer m then None else Some (m\<lparr>readers := Suc (readers m)\<rparr>))"

definition mutex_RUnlock :: "rwmutex \<Rightarrow> rwmutex option" where
  "mutex_RUnlock m = (if 0 < readers m then Some (m\<lparr>readers := readers m - 1\<rparr>) else None)"

record ('t, 'w) DB =
  dataFiles :: 'w
  index :: "'t MemoryBTree"
  options :: Options
  mu :: rwmutex
  closed :: bool
  mergeRunning :: bool
  db_watcher :: "watcher option"
  expiredCursorKey :: bytes

record Batch =
  pendingWrites :: "log_record list"
  pendingWritesMap :: "(uint64 \<times> nat list) list"
  batch_options :: BatchOptions
  committed :: bool
  rollbacked :: bool

section \<open>Starting and ending a batch\<close>

definition batch_lock :: "Batch \<Rightarrow> ('t, 'w) DB \<Rightarrow> ('t, 'w) DB option" where
  "batch_lock b d =
     (case (if ReadOnly (batch_options b) then mutex_RLock (mu d) else mutex_Lock (mu d)) of
        None \<Rightarrow> None | Some m \<Rightarrow> Some (d\<lparr>mu := m\<rparr>))"

definition batch_unlock :: "Batch \<Rightarrow> ('t, 'w) DB \<Rightarrow> ('t, 'w) DB option" where
  "batch_unlock b d =
     (case (if ReadOnly (batch_options b) then mutex_RUnlock (mu d) else mutex_Unlock (mu d)) of
        None \<Rightarrow> None | Some m \<Rightarrow> Some (d\<lparr>mu := m\<rparr>))"

text \<open>\<open>DB.NewBatch\<close>; \<open>None\<close> when it blocks on the database lock.\<close>

definition NewBatch :: "BatchOptions \<Rightarrow> ('t, 'w) DB \<Rightarrow> (Batch \<times> ('t, 'w) DB) option" where
  "NewBatch opts d =
     (let b = \<lparr>pendingWrites = [], pendingWritesMap = [], batch_options = opts,
               committed = False, rollbacked = False\<rparr>
      in case batch_lock b d of None \<Rightarrow> None | Some d' \<Rightarrow> Some (b, d'))"

text \<open>
  A batch from the pool (\<open>newBatch\<close>, or one that \<open>reset\<close> has cleaned) after
  \<open>init\<close>.
\<close>

definition newBatch :: Batch where
  "newBatch = \<lparr>pendingWrites = [], pendingWritesMap = [],
               batch_options = \<lparr>BatchSync = True, ReadOnly = False\<rparr>,
               committed = False, rollbacked = False\<rparr>"

definition batch_reset :: "Batch \<Rightarrow> Batch" where
  "batch_reset b = b\<lparr>pendingWrites := [], pendingWritesMap := [], committed := False, rollbacked := False\<rparr>"

definition batch_init :: "bool \<Rightarrow> bool \<Rightarrow> Batch \<Rightarrow> ('t, 'w) DB \<Rightarrow> (Batch \<times> ('t, 'w) DB) option" where
  "batch_init rdonly sync b d =
     (let b' = b\<lparr>batch_options := \<lparr>BatchSync = sync, ReadOnly = rdonly\<rparr>\<rparr>
      in case batch_lock b' d of None \<Rightarrow> None | Some d' \<Rightarrow> Some (b', d'))"

section \<open>Pending writes\<close>

text \<open>The record found is named by its place in \<open>pendingWrites\<close>; nil is \<open>None\<close>.\<close>

definition lookupPendingWrites :: "('t, 'w) env \<Rightarrow> Batch \<Rightarrow> bytes \<Rightarrow> nat option" where
  "lookupPendingWrites E b key =
     (if length (pendingWritesMap b) = 0 then None
      else case map_of (pendingWritesMap b) (MemHash E key) of
             None \<Rightarrow> None
           | Some es \<Rightarrow> List.find (\<lambda>entry. Key (pendingWrites b ! entry) = key) es)"

definition appendPendingWrites :: "('t, 'w) env \<Rightarrow> bytes \<Rightarrow> log_record \<Rightarrow> Batch \<Rightarrow> Batch" where
  "appendPendingWrites E key r b =
     (let hashKey = MemHash E key;
          old = (case map_of (pendingWritesMap b) hashKey of None \<Rightarrow> [] | Some es \<Rightarrow> es)
      in b\<lparr>pendingWrites := pendingWrites b @ [r],
           pendingWritesMap := AList.update hashKey (old @ [length (pendingWrites b)]) (pendingWritesMap b)\<rparr>)"

definition update_pending :: "nat \<Rightarrow> (log_record \<Rightarrow> log_record) \<Rightarrow> Batch \<Rightarrow> Batch" where
  "update_pending i f b = b\<lparr>pendingWrites := (pendingWrites b)[i := f (pendingWrites b ! i)]\<rparr>"

section \<open>Writing operations\<close>

text \<open>The three tests every writing operation starts with.\<close>

definition write_guard :: "bytes \<Rightarrow> ('t, 'w) DB \<Rightarrow> Batch \<Rightarrow> go_error option" where
  "write_guard key d b =
     (if length key = 0 then Some ErrKeyIsEmpty
      else if closed d then Some ErrDBClosed
      else if ReadOnly (batch_options b) then Some ErrReadOnlyBatch else None)"

text \<open>
  A record taken from the pool carries a stale batch id; \<open>Commit\<close> overwrites it before it
  is ever read, and it is 0 here.
\<close>

definition put_record :: "('t, 'w) env \<Rightarrow> bytes \<Rightarrow> bytes \<Rightarrow> int64 \<Rightarrow> Batch \<Rightarrow> Batch" where
  "put_record E key value expire b =
     (case lookupPendingWrites E b key of
        Some i \<Rightarrow> update_pending i
                    (\<lambda>r. r\<lparr>Key := key, Value := value, Type := LogRecordNormal, Expire := expire\<rparr>) b
      | None \<Rightarrow> appendPendingWrites E key
                  \<lparr>Key = key, Value = value, Type = LogRecordNormal, BatchId = 0, Expire = expire\<rparr> b)"

definition batch_Put ::
    "('t, 'w) env \<Rightarrow> bytes \<Rightarrow> bytes \<Rightarrow> ('t, 'w) DB \<Rightarrow> Batch \<Rightarrow> unit result \<times> Batch" where
  "batch_Put E key value d b =
     (case write_guard key d b of
        Some e \<Rightarrow> (Fail e, b)
      | None \<Rightarrow> (Ok (), put_record E key value 0 b))"

text \<open>\<open>time.Now().Add(ttl).UnixNano()\<close> wraps around like the \<open>int64\<close> it is.\<close>

definition batch_PutWithTTL ::
    "('t, 'w) env \<Rightarrow> int64 \<Rightarrow> bytes \<Rightarrow> bytes \<Rightarrow> int64 \<Rightarrow> ('t, 'w) DB \<Rightarrow> Batch \<Rightarrow> unit result \<times> Batch" where
  "batch_PutWithTTL E now key value ttl d b =
     (case write_guard key d b of
        Some e \<Rightarrow> (Fail e, b)
      | None \<Rightarrow> (Ok (), put_record E key value (now + ttl) b))"

definition batch_Delete ::
    "('t, 'w) env \<Rightarrow> bytes \<Rightarrow> ('t, 'w) DB \<Rightarrow> Batch \<Rightarrow> unit result \<times> Batch" where
  "batch_Delete E key d b =
     (case write_guard key d b of
        Some e \<Rightarrow> (Fail e, b)
      | None \<Rightarrow>
         (Ok (),
          case lookupPendingWrites E b key of
            Some i \<Rightarrow> update_pending i (\<lambda>r. r\<lparr>Type := LogRecordDeleted, Value := [], Expire := 0\<rparr>) b
          | None \<Rightarrow> appendPendingWrites E key
                      \<lparr>Key = key, Value = [], Type = LogRecordDeleted, BatchId = 0, Expire = 0\<rparr> b))"

section \<open>Reading operations\<close>

definition index_Delete :: "('t, 'w) env \<Rightarrow> bytes \<Rightarrow> ('t, 'w) DB \<Rightarrow> ('t, 'w) DB" where
  "index_Delete E key d = d\<lparr>index := fst (mt_Delete (Bt E) (index d) key)\<rparr>"

definition batch_Get ::
    "('t, 'w) env \<Rightarrow> int64 \<Rightarrow> bytes \<Rightarrow> ('t, 'w) DB \<Rightarrow> Batch \<Rightarrow> bytes result \<times> ('t, 'w) DB" where
  "batch_Get E now key d b =
     (if length key = 0 then (Fail ErrKeyIsEmpty, d)
      else if closed d then (Fail ErrDBClosed, d)
      else case lookupPendingWrites E b key of
        Some i \<Rightarrow>
          (let r = pendingWrites b ! i in
           if Type r = LogRecordDeleted \<or> IsExpired r now then (Fail ErrKeyNotFound, d)
           else (Ok (Value r), d))
      | None \<Rightarrow>
          (case mt_Get (Bt E) (index d) key of
             None \<Rightarrow> (Fail ErrKeyNotFound, d)
           | Some pos \<Rightarrow>
               (case w_Read (Wl E) (dataFiles d) pos of
                  Inl e \<Rightarrow> (Fail e, d)
                | Inr chunk \<Rightarrow>
                    (case decodeLogRecord chunk of
                       None \<Rightarrow> (Panic, d)
                     | Some r \<Rightarrow>
                         if Type r = LogRecordDeleted then (Panic, d)
                         else if IsExpired r now then (Fail ErrKeyNotFound, index_Delete E (Key r) d)
                         else (Ok (Value r), d)))))"

definition batch_Exist ::
    "('t, 'w) env \<Rightarrow> int64 \<Rightarrow> bytes \<Rightarrow> ('t, 'w) DB \<Rightarrow> Batch \<Rightarrow> bool result \<times> ('t, 'w) DB" where
  "batch_Exist E now key d b =
     (if length key = 0 then (Fail ErrKeyIsEmpty, d)
      else if closed d then (Fail ErrDBClosed, d)
      else case lookupPendingWrites E b key of
        Some i \<Rightarrow>
          (let r = pendingWrites b ! i in
           (Ok (Type r \<noteq> LogRecordDeleted \<and> \<not> IsExpired r now), d))
      | None \<Rightarrow>
          (case mt_Get (Bt E) (index d) key of
             None \<Rightarrow> (Ok False, d)
           | Some pos \<Rightarrow>
               (case w_Read (Wl E) (dataFiles d) pos of
                  Inl e \<Rightarrow> (Fail e, d)
                | Inr chunk \<Rightarrow>
                    (case decodeLogRecord chunk of
                       None \<Rightarrow> (Panic, d)
                     | Some r \<Rightarrow>
                         if Type r = LogRecordDeleted \<or> IsExpired r now
                         then (Ok False, index_Delete E (Key r) d)
                         else (Ok True, d)))))"

text \<open>
  \<open>TTL\<close> returns a duration; the code's \<open>-1\<close> beside an error is not looked at, and
  \<open>-1\<close> with a nil error means that the key has no expiry time.
\<close>

definition batch_TTL ::
    "('t, 'w) env \<Rightarrow> int64 \<Rightarrow> bytes \<Rightarrow> ('t, 'w) DB \<Rightarrow> Batch \<Rightarrow> int64 result \<times> ('t, 'w) DB" where
  "batch_TTL E now key d b =
     (if length key = 0 then (Fail ErrKeyIsEmpty, d)
      else if closed d then (Fail ErrDBClosed, d)
      else case lookupPendingWrites E b key of
        Some i \<Rightarrow>
          (let r = pendingWrites b ! i in
           if Expire r = 0 then (Ok (- 1), d)
           else if Type r = LogRecordDeleted \<or> IsExpired r now then (Fail ErrKeyNotFound, d)
           else (Ok (Expire r - now), d))
      | None \<Rightarrow>
          (case mt_Get (Bt E) (index d) key of
             None \<Rightarrow> (Fail ErrKeyNotFound, d)
           | Some pos \<Rightarrow>
               (case w_Read (Wl E) (dataFiles d) pos of
                  Inl e \<Rightarrow> (Fail e, d)
                | Inr chunk \<Rightarrow>
                    (case decodeLogRecord chunk of
                       None \<Rightarrow> (Panic, d)
                     | Some r \<Rightarrow>
                         if Type r = LogRecordDeleted then (Fail ErrKeyNotFound, d)
                         else if IsExpired r now then (Fail ErrKeyNotFound, index_Delete E key d)
                         else if 0 <s Expire r then (Ok (Expire r - now), d)
                         else (Ok (- 1), d)))))"

section \<open>Operations that read and write\<close>

text \<open>
  \<open>now\<close> is the first reading of the clock; for a pending record \<open>Expire\<close> reads the
  clock again (\<open>now2\<close>) for the new expiry time.
\<close>

definition batch_Expire ::
    "('t, 'w) env \<Rightarrow> int64 \<Rightarrow> int64 \<Rightarrow> bytes \<Rightarrow> int64 \<Rightarrow> ('t, 'w) DB \<Rightarrow> Batch
       \<Rightarrow> unit result \<times> ('t, 'w) DB \<times> Batch" where
  "batch_Expire E now now2 key ttl d b =
     (case write_guard key d b of
        Some e \<Rightarrow> (Fail e, d, b)
      | None \<Rightarrow>
        (case lookupPendingWrites E b key of
           Some i \<Rightarrow>
             (let r = pendingWrites b ! i in
              if Type r = LogRecordDeleted \<or> IsExpired r now then (Fail ErrKeyNotFound, d, b)
              else (Ok (), d, update_pending i (\<lambda>r. r\<lparr>Expire := now2 + ttl\<rparr>) b))
         | None \<Rightarrow>
             (case mt_Get (Bt E) (index d) key of
                None \<Rightarrow> (Fail ErrKeyNotFound, d, b)
              | Some pos \<Rightarrow>
                  (case w_Read (Wl E) (dataFiles d) pos of
                     Inl e \<Rightarrow> (Fail e, d, b)
                   | Inr chunk \<Rightarrow>
                       (case decodeLogRecord chunk of
                          None \<Rightarrow> (Panic, d, b)
                        | Some r \<Rightarrow>
                            if Type r = LogRecordDeleted \<or> IsExpired r now
                            then (Fail ErrKeyNotFound, index_Delete E key d, b)
                            else (Ok (), d, appendPendingWrites E key (r\<lparr>Expire := now + ttl\<rparr>) b))))))"

definition batch_Persist ::
    "('t, 'w) env \<Rightarrow> int64 \<Rightarrow> bytes \<Rightarrow> ('t, 'w) DB \<Rightarrow> Batch \<Rightarrow> unit result \<times> ('t, 'w) DB \<times> Batch" where
  "batch_Persist E now key d b =
     (case write_guard key d b of
        Some e \<Rightarrow> (Fail e, d, b)
      | None \<Rightarrow>
        (case lookupPendingWrites E b key of
           Some i \<Rightarrow>
             (let r = pendingWrites b ! i in
              if Type r = LogRecordDeleted \<or> IsExpired r now then (Fail ErrKeyNotFound, d, b)
              else (Ok (), d, update_pending i (\<lambda>r. r\<lparr>Expire := 0\<rparr>) b))
         | None \<Rightarrow>
             (case mt_Get (Bt E) (index d) key of
                None \<Rightarrow> (Fail ErrKeyNotFound, d, b)
              | Some pos \<Rightarrow>
                  (case w_Read (Wl E) (dataFiles d) pos of
                     Inl e \<Rightarrow> (Fail e, d, b)
                   | Inr chunk \<Rightarrow>
                       (case decodeLogRecord chunk of
                          None \<Rightarrow> (Panic, d, b)
                        | Some r \<Rightarrow>
                            if Type r = LogRecordDeleted \<or> IsExpired r now
                            then (Fail ErrKeyNotFound, index_Delete E (Key r) d, b)
                            else if Expire r = 0 then (Ok (), d, b)
                            else (Ok (), d, appendPendingWrites E key (r\<lparr>Expire := 0\<rparr>) b))))))"

section \<open>Commit and Rollback\<close>

text \<open>
  The first loop of \<open>Commit\<close>: each record gets the batch id and its encoding is handed to
  the log. The result is \<open>None\<close> when an encoder panics.
\<close>

fun encode_all :: "log_record list \<Rightarrow> bytes list option" where
  "encode_all [] = Some []"
| "encode_all (r # rs) =
     (case encodeLogRecord r of
        None \<Rightarrow> None
      | Some c \<Rightarrow> (case encode_all rs of None \<Rightarrow> None | Some cs \<Rightarrow> Some (c # cs)))"

definition end_record :: "('t, 'w) env \<Rightarrow> uint64 \<Rightarrow> log_record" where
  "end_record E batchId =
     \<lparr>Key = IdBytes E batchId, Value = [], Type = LogRecordBatchFinished, BatchId = 0, Expire = 0\<rparr>"

definition write_event :: "log_record \<Rightarrow> event" where
  "write_event r =
     \<lparr>Action = (if Type r = LogRecordDeleted then WatchActionDelete else WatchActionPut),
      EventKey = Key r, EventValue = Value r, EventBatchId = BatchId r\<rparr>"

text \<open>The second loop: the index, and one event per record when the watch is enabled.\<close>

definition index_write ::
    "('t, 'w) env \<Rightarrow> int64 \<Rightarrow> log_record \<Rightarrow> chunk_position \<Rightarrow> 't MemoryBTree \<Rightarrow> 't MemoryBTree" where
  "index_write E now r pos mt =
     (if Type r = LogRecordDeleted \<or> IsExpired r now
      then fst (mt_Delete (Bt E) mt (Key r)) else fst (mt_Put (Bt E) mt (Key r) pos))"

definition post_event :: "Options \<Rightarrow> log_record \<Rightarrow> watcher option \<Rightarrow> watcher option option" where
  "post_event opts r w =
     (if 0 < WatchQueueSize opts
      then case w of
             None \<Rightarrow> None
           | Some w' \<Rightarrow> (case putEvent w' (write_event r) of None \<Rightarrow> None | Some w'' \<Rightarrow> Some (Some w''))
      else Some w)"

fun index_all ::
    "('t, 'w) env \<Rightarrow> int64 \<Rightarrow> Options \<Rightarrow> log_record list \<Rightarrow> chunk_position list
       \<Rightarrow> 't MemoryBTree \<Rightarrow> watcher option \<Rightarrow> ('t MemoryBTree \<times> watcher option) option" where
  "index_all E now opts [] ps mt w = Some (mt, w)"
| "index_all E now opts (r # rs) [] mt w = None"
| "index_all E now opts (r # rs) (p # ps) mt w =
     (let mt' = index_write E now r p mt in
      case post_event opts r w of
        None \<Rightarrow> None
      | Some w' \<Rightarrow> index_all E now opts rs ps mt' w')"

text \<open>\<open>Commit\<close> up to its deferred \<open>unlock\<close>; \<open>batchId\<close> is what \<open>Generate\<close> returned.\<close>

definition commit_body ::
    "('t, 'w) env \<Rightarrow> uint64 \<Rightarrow> int64 \<Rightarrow> ('t, 'w) DB \<Rightarrow> Batch \<Rightarrow> unit result \<times> ('t, 'w) DB \<times> Batch" where
  "commit_body E batchId now d b =
     (if closed d then (Fail ErrDBClosed, d, b)
      else if ReadOnly (batch_options b) \<or> length (pendingWrites b) = 0 then (Ok (), d, b)
      else if committed b then (Fail ErrBatchCommitted, d, b)
      else if rollbacked b then (Fail ErrBatchRollbacked, d, b)
      else
        (let records = map (\<lambda>r. r\<lparr>BatchId := batchId\<rparr>) (pendingWrites b);
             b = b\<lparr>pendingWrites := records\<rparr>
         in case encode_all (records @ [end_record E batchId]) of
              None \<Rightarrow> (Panic, d, b)
            | Some chunks \<Rightarrow>
               (case w_WriteAll (Wl E) (foldl (w_PendingWrites (Wl E)) (dataFiles d) chunks) of
                  (Inl e, w) \<Rightarrow> (Fail e, d\<lparr>dataFiles := w_ClearPendingWrites (Wl E) w\<rparr>, b)
                | (Inr chunkPositions, w) \<Rightarrow>
                    if length chunkPositions \<noteq> length records + 1
                    then (Panic, d\<lparr>dataFiles := w\<rparr>, b)
                    else
                      (case (if BatchSync (batch_options b) \<and> \<not> Sync (options d)
                             then w_Sync (Wl E) w else (None, w)) of
                         (Some e, w) \<Rightarrow> (Fail e, d\<lparr>dataFiles := w\<rparr>, b)
                       | (None, w) \<Rightarrow>
                           (case index_all E now (options d) records chunkPositions (index d) (db_watcher d) of
                              None \<Rightarrow> (Panic, d\<lparr>dataFiles := w\<rparr>, b)
                            | Some (mt, wat) \<Rightarrow>
                                (Ok (), d\<lparr>dataFiles := w, index := mt, db_watcher := wat\<rparr>,
                                 b\<lparr>committed := True\<rparr>))))))"

text \<open>Running the deferred \<open>b.unlock()\<close>: releasing a lock that is not held is fatal.\<close>

definition deferred_unlock ::
    "'a result \<times> ('t, 'w) DB \<times> Batch \<Rightarrow> 'a result \<times> ('t, 'w) DB \<times> Batch" where
  "deferred_unlock x =
     (case x of (res, d, b) \<Rightarrow>
        (case batch_unlock b d of None \<Rightarrow> (Panic, d, b) | Some d' \<Rightarrow> (res, d', b)))"

definition batch_Commit ::
    "('t, 'w) env \<Rightarrow> uint64 \<Rightarrow> int64 \<Rightarrow> ('t, 'w) DB \<Rightarrow> Batch \<Rightarrow> unit result \<times> ('t, 'w) DB \<times> Batch" where
  "batch_Commit E batchId now d b = deferred_unlock (commit_body E batchId now d b)"

definition rollback_body :: "('t, 'w) DB \<Rightarrow> Batch \<Rightarrow> unit result \<times> ('t, 'w) DB \<times> Batch" where
  "rollback_body d b =
     (if closed d then (Fail ErrDBClosed, d, b)
      else if committed b then (Fail ErrBatchCommitted, d, b)
      else if rollbacked b then (Fail ErrBatchRollbacked, d, b)
      else
        (let b = (if \<not> ReadOnly (batch_options b)
                  then b\<lparr>pendingWrites := [], pendingWritesMap := []\<rparr> else b)
         in (Ok (), d, b\<lparr>rollbacked := True\<rparr>)))"

definition batch_Rollback :: "('t, 'w) DB \<Rightarrow> Batch \<Rightarrow> unit result \<times> ('t, 'w) DB \<times> Batch" where
  "batch_Rollback d b = deferred_unlock (rollback_body d b)"

end
