(* ===== verification/Batch_View.thy ===== *)
theory Batch_View
  imports Batch
begin

text \<open>
  What a database and a batch over it contain, abstractly: the view at time \<open>t\<close> maps a key
  to its value and expiry time, and the pending writes of a batch overlay the view of the
  database. The lemmas show that every operation of a batch acts on this view as a plain
  map with expiry times does, whatever the hash function, the tree and the log.
\<close>

section \<open>Pending writes as an overlay\<close>

definition pending_rec :: "Batch \<Rightarrow> bytes \<Rightarrow> log_record option" where
  "pending_rec b key = List.find (\<lambda>r. Key r = key) (pendingWrites b)"

definition batch_inv :: "('t, 'w) env \<Rightarrow> Batch \<Rightarrow> bool" where
  "batch_inv E b \<longleftrightarrow>
     distinct (map Key (pendingWrites b))
     \<and> (\<forall>h es. map_of (pendingWritesMap b) h = Some es \<longrightarrow>
          (\<forall>i \<in> set es. i < length (pendingWrites b) \<and> MemHash E (Key (pendingWrites b ! i)) = h))
     \<and> (\<forall>i < length (pendingWrites b).
          \<exists>es. map_of (pendingWritesMap b) (MemHash E (Key (pendingWrites b ! i))) = Some es \<and> i \<in> set es)"

text \<open>A batch that can still be written to and committed.\<close>

definition batch_open :: "('t, 'w) env \<Rightarrow> Batch \<Rightarrow> bool" where
  "batch_open E b \<longleftrightarrow> batch_inv E b \<and> \<not> committed b \<and> \<not> rollbacked b
     \<and> (\<forall>r \<in> set (pendingWrites b). record_fits r \<and> Type r \<in> {LogRecordNormal, LogRecordDeleted})"

lemma batch_inv_empty [simp]: "pendingWrites b = [] \<Longrightarrow> pendingWritesMap b = [] \<Longrightarrow> batch_inv E b"
  by (simp add: batch_inv_def)

lemma lookup_pending:
  assumes inv: "batch_inv E b"
  shows "lookupPendingWrites E b key = Some i \<longleftrightarrow> i < length (pendingWrites b) \<and> Key (pendingWrites b ! i) = key"
proof -
  have uniq: "i = j" if "i < length (pendingWrites b)" "j < length (pendingWrites b)"
    "Key (pendingWrites b ! i) = Key (pendingWrites b ! j)" for i j
    using inv that nth_eq_iff_index_eq[of "map Key (pendingWrites b)" i j] by (simp add: batch_inv_def)
  show ?thesis
  proof
    assume l: "lookupPendingWrites E b key = Some i"
    then obtain es where es: "map_of (pendingWritesMap b) (MemHash E key) = Some es"
      and f: "List.find (\<lambda>entry. Key (pendingWrites b ! entry) = key) es = Some i"
      by (auto simp: lookupPendingWrites_def split: if_splits option.splits)
    from find_Some_set[OF f] show "i < length (pendingWrites b) \<and> Key (pendingWrites b ! i) = key"
      using inv es unfolding batch_inv_def by blast
  next
    assume i: "i < length (pendingWrites b) \<and> Key (pendingWrites b ! i) = key"
    then obtain es where es: "map_of (pendingWritesMap b) (MemHash E key) = Some es" and ies: "i \<in> set es"
      using inv unfolding batch_inv_def by blast
    have only: "j = i" if "j \<in> set es" "Key (pendingWrites b ! j) = key" for j
    proof -
      have "j < length (pendingWrites b)" using inv es that(1) unfolding batch_inv_def by blast
      then show ?thesis using that(2) i uniq[of j i] by simp
    qed
    have "List.find (\<lambda>entry. Key (pendingWrites b ! entry) = key) es = Some i"
    proof (rule find_unique[OF ies])
      show "Key (pendingWrites b ! i) = key" using i by simp
    qed (rule only)
    then show "lookupPendingWrites E b key = Some i"
      using es by (auto simp: lookupPendingWrites_def)
  qed
qed

lemma lookup_pending_None:
  assumes "batch_inv E b"
  shows "lookupPendingWrites E b key = None \<longleftrightarrow> pending_rec b key = None"
proof -
  have "lookupPendingWrites E b key = None \<longleftrightarrow> (\<forall>i. lookupPendingWrites E b key \<noteq> Some i)" by simp
  also have "\<dots> \<longleftrightarrow> (\<forall>r \<in> set (pendingWrites b). Key r \<noteq> key)"
    by (simp add: lookup_pending[OF assms] all_set_conv_all_nth)
  finally show ?thesis by (simp add: pending_rec_def find_None_set)
qed

lemma lookup_pending_rec:
  assumes "batch_inv E b" and "lookupPendingWrites E b key = Some i"
  shows "pending_rec b key = Some (pendingWrites b ! i)" and "i < length (pendingWrites b)"
    and "Key (pendingWrites b ! i) = key"
proof -
  show i: "i < length (pendingWrites b)" and k: "Key (pendingWrites b ! i) = key"
    using assms by (simp_all add: lookup_pending)
  show "pending_rec b key = Some (pendingWrites b ! i)"
    unfolding pending_rec_def
  proof (rule find_unique)
    fix y
    assume "y \<in> set (pendingWrites b)" and "Key y = key"
    then obtain j where "j < length (pendingWrites b)" "y = pendingWrites b ! j"
      by (auto simp: in_set_conv_nth)
    moreover from this have "lookupPendingWrites E b key = Some j"
      using \<open>Key y = key\<close> assms(1) by (simp add: lookup_pending)
    ultimately show "y = pendingWrites b ! i" using assms(2) by simp
  qed (use i k in auto)
qed

lemma append_pending_inv:
  assumes inv: "batch_inv E b" and new: "pending_rec b key = None" and k: "Key r = key"
  shows "batch_inv E (appendPendingWrites E key r b)"
proof -
  have nk: "key \<notin> Key ` set (pendingWrites b)" using new by (auto simp: pending_rec_def find_None_set)
  have old: "\<forall>h es. map_of (pendingWritesMap b) h = Some es \<longrightarrow>
      (\<forall>i \<in> set es. i < length (pendingWrites b) \<and> MemHash E (Key (pendingWrites b ! i)) = h)"
    and cov: "\<forall>i < length (pendingWrites b).
      \<exists>es. map_of (pendingWritesMap b) (MemHash E (Key (pendingWrites b ! i))) = Some es \<and> i \<in> set es"
    using inv by (auto simp: batch_inv_def)
  show ?thesis
    unfolding batch_inv_def
  proof (intro conjI allI impI ballI)
    show "distinct (map Key (pendingWrites (appendPendingWrites E key r b)))"
      using inv nk k by (simp add: batch_inv_def appendPendingWrites_def Let_def)
  next
    fix h es i
    assume "map_of (pendingWritesMap (appendPendingWrites E key r b)) h = Some es" and "i \<in> set es"
    then show "i < length (pendingWrites (appendPendingWrites E key r b))"
      and "MemHash E (Key (pendingWrites (appendPendingWrites E key r b) ! i)) = h"
      using old k
      by (auto simp: appendPendingWrites_def Let_def update_conv nth_append less_Suc_eq
          split: if_splits option.splits)
  next
    fix i
    assume "i < length (pendingWrites (appendPendingWrites E key r b))"
    then consider "i < length (pendingWrites b)" | "i = length (pendingWrites b)"
      by (fastforce simp: appendPendingWrites_def Let_def less_Suc_eq)
    then show "\<exists>es. map_of (pendingWritesMap (appendPendingWrites E key r b))
        (MemHash E (Key (pendingWrites (appendPendingWrites E key r b) ! i))) = Some es \<and> i \<in> set es"
    proof cases
      case 1
      then show ?thesis
        using cov k by (fastforce simp: appendPendingWrites_def Let_def update_conv nth_append)
    next
      case 2
      then show ?thesis using k by (simp add: appendPendingWrites_def Let_def update_conv nth_append)
    qed
  qed
qed

lemma update_pending_inv:
  assumes "batch_inv E b" and "i < length (pendingWrites b)" and "\<And>r. Key (f r) = Key r"
  shows "batch_inv E (update_pending i f b)"
proof -
  have m: "map Key ((pendingWrites b)[i := f (pendingWrites b ! i)]) = map Key (pendingWrites b)"
    using assms(2,3) by (metis list_update_id map_update)
  have n: "Key ((pendingWrites b)[i := f (pendingWrites b ! i)] ! j) = Key (pendingWrites b ! j)" for j
    using assms(2,3) by (cases "i = j") simp_all
  show ?thesis using assms(1) by (simp add: batch_inv_def update_pending_def m n)
qed

lemma pending_append [simp]:
  assumes "pending_rec b key = None" and "Key r = key"
  shows "pending_rec (appendPendingWrites E key r b) k = (if k = key then Some r else pending_rec b k)"
proof -
  have "List.find p (xs @ [x]) = (case List.find p xs of None \<Rightarrow> if p x then Some x else None | Some y \<Rightarrow> Some y)"
    for p :: "log_record \<Rightarrow> bool" and xs x by (induction xs) auto
  then show ?thesis
    using assms by (auto simp: pending_rec_def appendPendingWrites_def Let_def split: option.splits)
qed

lemma pending_update:
  assumes "batch_inv E b" and "lookupPendingWrites E b key = Some i" and f: "\<And>r. Key (f r) = Key r"
  shows "pending_rec (update_pending i f b) k
       = (if k = key then Some (f (pendingWrites b ! i)) else pending_rec b k)"
proof -
  note l = lookup_pending_rec[OF assms(1,2)]
  have inv': "batch_inv E (update_pending i f b)" by (rule update_pending_inv[OF assms(1) l(2) f])
  show ?thesis
  proof (cases "k = key")
    case True
    have "lookupPendingWrites E (update_pending i f b) key = Some i"
      unfolding lookup_pending[OF inv'] using l f by (simp add: update_pending_def)
    from lookup_pending_rec(1)[OF inv' this] True l(2) show ?thesis by (simp add: update_pending_def)
  next
    case False
    have "List.find p (xs[i := y]) = List.find p xs" if "\<not> p y" "\<not> p (xs ! i)" "i < length xs"
      for p :: "log_record \<Rightarrow> bool" and xs y
      using that by (induction xs arbitrary: i) (auto split: nat.splits)
    with False l f show ?thesis by (simp add: pending_rec_def update_pending_def)
  qed
qed

section \<open>Views\<close>

definition live :: "int64 \<Rightarrow> log_record \<Rightarrow> bool" where
  "live t r \<longleftrightarrow> Type r \<noteq> LogRecordDeleted \<and> \<not> IsExpired r t"

definition visible :: "int64 \<Rightarrow> log_record \<Rightarrow> (bytes \<times> int64) option" where
  "visible t r = (if live t r then Some (Value r, Expire r) else None)"

definition stored_rec :: "('t, 'w) env \<Rightarrow> ('t, 'w) DB \<Rightarrow> bytes \<Rightarrow> log_record option" where
  "stored_rec E d k =
     (case mt_Get (Bt E) (index d) k of
        None \<Rightarrow> None
      | Some p \<Rightarrow> (case w_Read (Wl E) (dataFiles d) p of Inl _ \<Rightarrow> None | Inr c \<Rightarrow> decodeLogRecord c))"

definition db_view :: "('t, 'w) env \<Rightarrow> int64 \<Rightarrow> ('t, 'w) DB \<Rightarrow> bytes \<Rightarrow> (bytes \<times> int64) option" where
  "db_view E t d k = (case stored_rec E d k of None \<Rightarrow> None | Some r \<Rightarrow> visible t r)"

definition batch_view :: "('t, 'w) env \<Rightarrow> int64 \<Rightarrow> ('t, 'w) DB \<Rightarrow> Batch \<Rightarrow> bytes \<Rightarrow> (bytes \<times> int64) option" where
  "batch_view E t d b k = (case pending_rec b k of Some r \<Rightarrow> visible t r | None \<Rightarrow> db_view E t d k)"

definition good_record :: "bytes \<Rightarrow> log_record \<Rightarrow> bool" where
  "good_record k r \<longleftrightarrow> Key r = k \<and> Type r = LogRecordNormal \<and> record_fits r"

text \<open>
  The database invariant: the index is a tree of the package, the log is well-formed with
  nothing pending, every key of the index points to a normal record of the log with this
  very key, and an enabled watcher is well-formed.
\<close>

definition db_inv :: "('t, 'w) env \<Rightarrow> ('t \<Rightarrow> bool) \<Rightarrow> ('w \<Rightarrow> bool) \<Rightarrow> ('w \<Rightarrow> bytes list) \<Rightarrow> ('t, 'w) DB \<Rightarrow> bool" where
  "db_inv E bt_inv w_inv pend d \<longleftrightarrow>
     mt_inv bt_inv (index d) \<and> w_inv (dataFiles d) \<and> pend (dataFiles d) = []
     \<and> (\<forall>k p. mt_Get (Bt E) (index d) k = Some p \<longrightarrow>
          (\<exists>c r. (p, c) \<in> set (wal_log (Wl E) (dataFiles d)) \<and> decodeLogRecord c = Some r \<and> good_record k r))
     \<and> (0 < WatchQueueSize (options d) \<longrightarrow> (\<exists>w. db_watcher d = Some w \<and> watcher_inv w))"

text \<open>
  Two databases that differ at most in index entries whose records have expired at
  \<open>now\<close>: no later reader can tell them apart.
\<close>

definition same_from :: "('t, 'w) env \<Rightarrow> int64 \<Rightarrow> ('t, 'w) DB \<Rightarrow> ('t, 'w) DB \<Rightarrow> bool" where
  "same_from E now d d' \<longleftrightarrow>
     d' = d\<lparr>index := index d'\<rparr> \<and> (\<forall>t. sint now \<le> sint t \<longrightarrow> db_view E t d' = db_view E t d)"

lemma same_from_refl [simp]: "same_from E now d d"
  by (simp add: same_from_def)

lemma same_from_batch_view:
  "same_from E now d d' \<Longrightarrow> sint now \<le> sint t \<Longrightarrow> batch_view E t d' b = batch_view E t d b"
  by (auto simp: same_from_def batch_view_def fun_eq_iff split: option.splits)

lemma LogRecord_neq [simp]:
  "LogRecordNormal \<noteq> LogRecordDeleted" "LogRecordDeleted \<noteq> LogRecordNormal"
  "LogRecordNormal \<noteq> LogRecordBatchFinished" "LogRecordDeleted \<noteq> LogRecordBatchFinished"
  "LogRecordBatchFinished \<noteq> LogRecordNormal" "LogRecordBatchFinished \<noteq> LogRecordDeleted"
  by (simp_all add: record_types)

context engine
begin

abbreviation dinv :: "('t, 'w) DB \<Rightarrow> bool" where
  "dinv d \<equiv> db_inv E bt_inv w_inv pend d"

lemma stored:
  assumes "dinv d" and "mt_Get (Bt E) (index d) k = Some p"
  obtains c r where "w_Read (Wl E) (dataFiles d) p = Inr c" and "decodeLogRecord c = Some r"
    and "good_record k r" and "stored_rec E d k = Some r" and "(p, c) \<in> set (wal_log (Wl E) (dataFiles d))"
proof -
  obtain c r where c: "(p, c) \<in> set (wal_log (Wl E) (dataFiles d))" and r: "decodeLogRecord c = Some r"
    and g: "good_record k r" and w: "w_inv (dataFiles d)"
    using assms unfolding db_inv_def by blast
  have "w_Read (Wl E) (dataFiles d) p = Inr c" by (rule Read_log[OF w c])
  then show ?thesis using that c r g assms(2) by (simp add: stored_rec_def)
qed

lemma not_stored: "mt_Get (Bt E) (index d) k = None \<Longrightarrow> stored_rec E d k = None"
  by (simp add: stored_rec_def)

lemma index_Delete_get:
  assumes "dinv d"
  shows "mt_Get (Bt E) (index (index_Delete E k d)) k' = (if k' = k then None else mt_Get (Bt E) (index d) k')"
  using assms ix.get_delete[of "index d" k k'] by (simp add: index_Delete_def db_inv_def)

lemma index_Delete_inv: "dinv d \<Longrightarrow> dinv (index_Delete E k d)"
  using index_Delete_get[of d k] ix.delete_inv[of "index d" k]
  by (auto simp: db_inv_def index_Delete_def split: if_splits)

lemma index_Delete_stored:
  assumes "dinv d"
  shows "stored_rec E (index_Delete E k d) k' = (if k' = k then None else stored_rec E d k')"
  using index_Delete_get[OF assms, of k k'] by (auto simp: stored_rec_def index_Delete_def split: option.split)

text \<open>Dropping an expired record from the index is invisible from now on.\<close>

lemma index_Delete_expired:
  assumes inv: "dinv d" and s: "stored_rec E d k = Some r" and x: "IsExpired r now"
  shows "same_from E now d (index_Delete E k d)"
proof -
  have "db_view E t (index_Delete E k d) = db_view E t d" if "sint now \<le> sint t" for t
  proof
    fix k'
    show "db_view E t (index_Delete E k d) k' = db_view E t d k'"
      using s IsExpired_mono[OF x that]
      by (simp add: db_view_def index_Delete_stored[OF inv] visible_def live_def)
  qed
  then show ?thesis by (simp add: same_from_def index_Delete_def)
qed

end

end
