(* ===== verification/Batch_Spec.thy ===== *)
theory Batch_Spec
  imports Batch_View
begin

text \<open>
  The functional behaviour of each operation of a batch on the view of
  \<^verbatim>\<open>Batch_View\<close>, on every branch: what it returns, what it changes, and that it
  keeps the invariants.
\<close>

section \<open>The map of values with expiry times\<close>

text \<open>A value with an expiry time, as a reader at time \<open>t\<close> sees it.\<close>

definition entry_at :: "int64 \<Rightarrow> bytes \<Rightarrow> int64 \<Rightarrow> (bytes \<times> int64) option" where
  "entry_at t v e = (if 0 <s e \<and> e \<le>s t then None else Some (v, e))"

lemma visible_entry:
  "visible t r = (if Type r = LogRecordDeleted then None else entry_at t (Value r) (Expire r))"
  by (simp add: visible_def live_def IsExpired_def entry_at_def)

lemma entry_at_0 [simp]: "entry_at t v 0 = Some (v, 0)"
  by (simp add: entry_at_def)

definition value_fits :: "bytes \<Rightarrow> bytes \<Rightarrow> bool" where
  "value_fits k v \<longleftrightarrow> length k + length v + maxLogRecordHeaderSize < 2 ^ 32"

lemma record_fits_value: "record_fits r \<longleftrightarrow> value_fits (Key r) (Value r)"
  by (simp add: record_fits_def value_fits_def)

lemma value_fits_Nil: "value_fits k v \<Longrightarrow> value_fits k []"
  by (simp add: value_fits_def)

text \<open>The batch accepts a write of this key.\<close>

definition writable :: "bytes \<Rightarrow> ('t, 'w) DB \<Rightarrow> Batch \<Rightarrow> bool" where
  "writable k d b \<longleftrightarrow> k \<noteq> [] \<and> \<not> closed d \<and> \<not> ReadOnly (batch_options b)"

lemma write_guard_None: "write_guard k d b = None \<longleftrightarrow> writable k d b"
  by (simp add: write_guard_def writable_def)

section \<open>Editing the pending writes\<close>

text \<open>Two batches that differ in their pending writes only.\<close>

definition same_batch :: "Batch \<Rightarrow> Batch \<Rightarrow> bool" where
  "same_batch b b' \<longleftrightarrow>
     b' = b\<lparr>pendingWrites := pendingWrites b', pendingWritesMap := pendingWritesMap b'\<rparr>"

lemma same_batchD:
  "same_batch b b' \<Longrightarrow> batch_options b' = batch_options b \<and> committed b' = committed b \<and> rollbacked b' = rollbacked b"
  by (cases b; cases b') (simp add: same_batch_def)

lemma update_open:
  assumes b: "batch_open E b" and l: "lookupPendingWrites E b key = Some i"
    and f: "\<And>r. Key (f r) = Key r"
    and g: "record_fits (f (pendingWrites b ! i))"
      "Type (f (pendingWrites b ! i)) \<in> {LogRecordNormal, LogRecordDeleted}"
  shows "batch_open E (update_pending i f b)" and "same_batch b (update_pending i f b)"
proof -
  have inv: "batch_inv E b" using b by (simp add: batch_open_def)
  note lk = lookup_pending_rec[OF inv l]
  have "set (pendingWrites (update_pending i f b)) \<subseteq> insert (f (pendingWrites b ! i)) (set (pendingWrites b))"
    by (simp add: update_pending_def set_update_subset_insert)
  then show "batch_open E (update_pending i f b)"
    using b g update_pending_inv[OF inv lk(2) f]
    by (auto simp: batch_open_def) (simp_all add: update_pending_def)
  show "same_batch b (update_pending i f b)" by (simp add: same_batch_def update_pending_def)
qed

lemma append_open:
  assumes b: "batch_open E b" and new: "pending_rec b key = None" and r: "Key r = key"
    "record_fits r" "Type r \<in> {LogRecordNormal, LogRecordDeleted}"
  shows "batch_open E (appendPendingWrites E key r b)" and "same_batch b (appendPendingWrites E key r b)"
proof -
  have inv: "batch_inv E b" using b by (simp add: batch_open_def)
  show "batch_open E (appendPendingWrites E key r b)"
    using b r append_pending_inv[OF inv new r(1)]
    by (auto simp: batch_open_def appendPendingWrites_def Let_def)
  show "same_batch b (appendPendingWrites E key r b)"
    by (simp add: same_batch_def appendPendingWrites_def Let_def)
qed

text \<open>Recording a value for a key, whether or not the key is pending already.\<close>

lemma put_record_spec:
  assumes b: "batch_open E b" and fits: "value_fits key value"
  shows "batch_open E (put_record E key value e b)" and "same_batch b (put_record E key value e b)"
    and "\<exists>r. pending_rec (put_record E key value e b) = (pending_rec b)(key \<mapsto> r)
           \<and> Key r = key \<and> Value r = value \<and> Type r = LogRecordNormal \<and> Expire r = e"
proof -
  have inv: "batch_inv E b" using b by (simp add: batch_open_def)
  define f where "f = (\<lambda>r :: log_record. r\<lparr>Value := value, Type := LogRecordNormal, Expire := e\<rparr>)"
  have f: "Key (f r) = Key r" for r by (simp add: f_def)
  have "batch_open E (put_record E key value e b) \<and> same_batch b (put_record E key value e b)
      \<and> (\<exists>r. pending_rec (put_record E key value e b) = (pending_rec b)(key \<mapsto> r)
           \<and> Key r = key \<and> Value r = value \<and> Type r = LogRecordNormal \<and> Expire r = e)"
  proof (cases "lookupPendingWrites E b key")
    case None
    then have new: "pending_rec b key = None" by (simp add: lookup_pending_None[OF inv])
    define r where "r = \<lparr>Key = key, Value = value, Type = LogRecordNormal, BatchId = 0, Expire = e\<rparr>"
    have p: "put_record E key value e b = appendPendingWrites E key r b"
      by (simp add: put_record_def None r_def)
    have "record_fits r" using fits by (simp add: record_fits_value r_def)
    then show ?thesis
      using append_open[OF b new, of r] pending_append[OF new, of r E]
      unfolding p by (intro conjI exI[of _ r]) (auto simp: r_def fun_eq_iff)
  next
    case (Some i)
    note lk = lookup_pending_rec[OF inv Some]
    have "(pendingWrites b ! i)\<lparr>Key := key\<rparr> = pendingWrites b ! i"
      using lk(3) by (cases "pendingWrites b ! i") simp
    then have p: "put_record E key value e b = update_pending i f b"
      by (simp add: put_record_def Some f_def update_pending_def)
    have "record_fits (f (pendingWrites b ! i))" using fits lk(3) by (simp add: record_fits_value f_def)
    then show ?thesis
      using update_open[OF b Some f] pending_update[OF inv Some f] lk(3)
      unfolding p by (intro conjI exI[of _ "f (pendingWrites b ! i)"]) (auto simp: f_def fun_eq_iff)
  qed
  then show "batch_open E (put_record E key value e b)" and "same_batch b (put_record E key value e b)"
    and "\<exists>r. pending_rec (put_record E key value e b) = (pending_rec b)(key \<mapsto> r)
           \<and> Key r = key \<and> Value r = value \<and> Type r = LogRecordNormal \<and> Expire r = e"
    by blast+
qed

lemma batch_view_pending:
  assumes "pending_rec b' = (pending_rec b)(key \<mapsto> r)"
  shows "batch_view E t d b' = (batch_view E t d b)(key := visible t r)"
  using assms by (auto simp: batch_view_def)

section \<open>Put, PutWithTTL, Delete\<close>

lemma batch_Put_spec:
  assumes "batch_open E b" and "writable k d b" and "value_fits k v"
  obtains b' where "batch_Put E k v d b = (Ok (), b')" and "batch_open E b'" and "same_batch b b'"
    and "\<And>t. batch_view E t d b' = (batch_view E t d b)(k \<mapsto> (v, 0))"
proof -
  obtain r where "pending_rec (put_record E k v 0 b) = (pending_rec b)(k \<mapsto> r)"
    and r: "Value r = v" "Type r = LogRecordNormal" "Expire r = 0"
    using put_record_spec(3)[OF assms(1,3)] by blast
  then show ?thesis
    using that[of "put_record E k v 0 b"] put_record_spec[OF assms(1,3)] assms(2)
    by (simp add: batch_Put_def write_guard_None[THEN iffD2] batch_view_pending visible_entry)
qed

lemma batch_PutWithTTL_spec:
  assumes "batch_open E b" and "writable k d b" and "value_fits k v"
  obtains b' where "batch_PutWithTTL E now k v ttl d b = (Ok (), b')" and "batch_open E b'" and "same_batch b b'"
    and "\<And>t. batch_view E t d b' = (batch_view E t d b)(k := entry_at t v (now + ttl))"
proof -
  obtain r where "pending_rec (put_record E k v (now + ttl) b) = (pending_rec b)(k \<mapsto> r)"
    and r: "Value r = v" "Type r = LogRecordNormal" "Expire r = now + ttl"
    using put_record_spec(3)[OF assms(1,3)] by blast
  then show ?thesis
    using that[of "put_record E k v (now + ttl) b"] put_record_spec[OF assms(1,3)] assms(2)
    by (simp add: batch_PutWithTTL_def write_guard_None[THEN iffD2] batch_view_pending visible_entry)
qed

lemma batch_Delete_spec:
  assumes b: "batch_open E b" and w: "writable k d b" and fits: "value_fits k []"
  obtains b' r where "batch_Delete E k d b = (Ok (), b')" and "batch_open E b'" and "same_batch b b'"
    and "pending_rec b' = (pending_rec b)(k \<mapsto> r)" and "Type r = LogRecordDeleted" and "Expire r = 0"
    and "\<And>t. batch_view E t d b' = (batch_view E t d b)(k := None)"
proof (cases "lookupPendingWrites E b k")
  case None
  have inv: "batch_inv E b" using b by (simp add: batch_open_def)
  define r where "r = \<lparr>Key = k, Value = [], Type = LogRecordDeleted, BatchId = 0, Expire = 0\<rparr>"
  have new: "pending_rec b k = None" using None by (simp add: lookup_pending_None[OF inv])
  have p: "pending_rec (appendPendingWrites E k r b) = (pending_rec b)(k \<mapsto> r)"
    using pending_append[OF new, of r E] by (auto simp: r_def fun_eq_iff)
  have f: "record_fits r" using fits by (simp add: record_fits_value r_def)
  show ?thesis
    by (rule that[of "appendPendingWrites E k r b" r])
       (use append_open[OF b new, of r] f w p in
         \<open>simp_all add: batch_Delete_def write_guard_None[THEN iffD2] None r_def
            batch_view_pending visible_entry\<close>)
next
  case (Some i)
  have inv: "batch_inv E b" using b by (simp add: batch_open_def)
  note lk = lookup_pending_rec[OF inv Some]
  define f where "f = (\<lambda>r :: log_record. r\<lparr>Type := LogRecordDeleted, Value := [], Expire := 0\<rparr>)"
  have f: "Key (f r) = Key r" for r by (simp add: f_def)
  have g: "record_fits (f (pendingWrites b ! i))" using fits lk(3) by (simp add: record_fits_value f_def)
  have p: "pending_rec (update_pending i f b) = (pending_rec b)(k \<mapsto> f (pendingWrites b ! i))"
    using pending_update[OF inv Some f] by (auto simp: fun_eq_iff)
  show ?thesis
    by (rule that[of "update_pending i f b" "f (pendingWrites b ! i)"])
       (use update_open[OF b Some f g] w p in
         \<open>simp_all add: batch_Delete_def write_guard_None[THEN iffD2] Some f_def
            batch_view_pending visible_entry\<close>)
qed

section \<open>Get, Exist, TTL\<close>

text \<open>Reading operations go through the same three stages; these are the cases.\<close>

context engine
begin

lemma read_cases:
  assumes "dinv d" and "batch_open E b"
  obtains
    (pending) i where "lookupPendingWrites E b k = Some i" "pending_rec b k = Some (pendingWrites b ! i)"
      "batch_view E t d b k = visible t (pendingWrites b ! i)"
  | (absent) "lookupPendingWrites E b k = None" "pending_rec b k = None" "mt_Get (Bt E) (index d) k = None"
      "batch_view E t d b k = None" "db_view E t d k = None"
  | (found) p c r where "lookupPendingWrites E b k = None" "pending_rec b k = None"
      "mt_Get (Bt E) (index d) k = Some p" "w_Read (Wl E) (dataFiles d) p = Inr c"
      "decodeLogRecord c = Some r" "good_record k r" "stored_rec E d k = Some r"
      "batch_view E t d b k = entry_at t (Value r) (Expire r)"
      "db_view E t d k = entry_at t (Value r) (Expire r)"
proof (cases "lookupPendingWrites E b k")
  case (Some i)
  have "batch_inv E b" using assms(2) by (simp add: batch_open_def)
  from lookup_pending_rec[OF this Some] show ?thesis
    using Some by (intro pending[of i]) (simp_all add: batch_view_def)
next
  case None
  have "batch_inv E b" using assms(2) by (simp add: batch_open_def)
  from lookup_pending_None[OF this] None have n: "pending_rec b k = None" by simp
  show ?thesis
  proof (cases "mt_Get (Bt E) (index d) k")
    case m: None
    then show ?thesis
      using None n not_stored[OF m] by (intro absent) (simp_all add: batch_view_def db_view_def)
  next
    case (Some p)
    obtain c r where "w_Read (Wl E) (dataFiles d) p = Inr c" "decodeLogRecord c = Some r"
      "good_record k r" "stored_rec E d k = Some r"
      using stored[OF assms(1) Some] by blast
    then show ?thesis
      using None n Some
      by (intro found[of p c r]) (simp_all add: batch_view_def db_view_def visible_entry good_record_def)
  qed
qed

lemma expired_entry: "IsExpired r now \<longleftrightarrow> entry_at now (Value r) (Expire r) = None"
  by (simp add: entry_at_def IsExpired_def)

lemma not_expired_entry:
  "\<not> IsExpired r now \<Longrightarrow> entry_at now (Value r) (Expire r) = Some (Value r, Expire r)"
  by (auto simp add: entry_at_def IsExpired_def)

text \<open>What every reading operation guarantees of the database it leaves behind.\<close>

definition quiet :: "int64 \<Rightarrow> ('t, 'w) DB \<Rightarrow> ('t, 'w) DB \<Rightarrow> bool" where
  "quiet now d d' \<longleftrightarrow> dinv d' \<and> same_from E now d d'"

lemma quiet_refl: "dinv d \<Longrightarrow> quiet now d d"
  by (simp add: quiet_def)

lemma quiet_expired:
  assumes "dinv d" and "stored_rec E d k = Some r" and "IsExpired r now"
  shows "quiet now d (index_Delete E k d)"
  using index_Delete_inv index_Delete_expired assms by (simp add: quiet_def)

lemma batch_Get_spec:
  assumes "dinv d" and "batch_open E b" and "k \<noteq> []" and "\<not> closed d"
  shows "fst (batch_Get E now k d b)
       = (case batch_view E now d b k of None \<Rightarrow> Fail ErrKeyNotFound | Some (v, _) \<Rightarrow> Ok v)"
    and "quiet now d (snd (batch_Get E now k d b))"
proof -
  have "fst (batch_Get E now k d b)
       = (case batch_view E now d b k of None \<Rightarrow> Fail ErrKeyNotFound | Some (v, _) \<Rightarrow> Ok v)
     \<and> quiet now d (snd (batch_Get E now k d b))"
  proof (rule read_cases[OF assms(1,2), of k now])
    fix p c r
    assume a: "lookupPendingWrites E b k = None" "mt_Get (Bt E) (index d) k = Some p"
      "w_Read (Wl E) (dataFiles d) p = Inr c" "decodeLogRecord c = Some r" "good_record k r"
      and s: "stored_rec E d k = Some r" and v: "batch_view E now d b k = entry_at now (Value r) (Expire r)"
    show ?thesis
    proof (cases "IsExpired r now")
      case True
      then show ?thesis
        using a v assms(3,4) quiet_expired[OF assms(1) s True]
        by (simp add: batch_Get_def good_record_def expired_entry)
    next
      case False
      then show ?thesis
        using a v assms quiet_refl by (simp add: batch_Get_def good_record_def not_expired_entry)
    qed
  qed (use assms quiet_refl in \<open>auto simp: batch_Get_def Let_def visible_def live_def\<close>)
  then show "fst (batch_Get E now k d b)
       = (case batch_view E now d b k of None \<Rightarrow> Fail ErrKeyNotFound | Some (v, _) \<Rightarrow> Ok v)"
    and "quiet now d (snd (batch_Get E now k d b))" by simp_all
qed

lemma batch_Exist_spec:
  assumes "dinv d" and "batch_open E b" and "k \<noteq> []" and "\<not> closed d"
  shows "fst (batch_Exist E now k d b) = Ok (batch_view E now d b k \<noteq> None)"
    and "quiet now d (snd (batch_Exist E now k d b))"
proof -
  have "fst (batch_Exist E now k d b) = Ok (batch_view E now d b k \<noteq> None)
     \<and> quiet now d (snd (batch_Exist E now k d b))"
  proof (rule read_cases[OF assms(1,2), of k now])
    fix p c r
    assume a: "lookupPendingWrites E b k = None" "mt_Get (Bt E) (index d) k = Some p"
      "w_Read (Wl E) (dataFiles d) p = Inr c" "decodeLogRecord c = Some r" "good_record k r"
      and s: "stored_rec E d k = Some r" and v: "batch_view E now d b k = entry_at now (Value r) (Expire r)"
    show ?thesis
    proof (cases "IsExpired r now")
      case True
      then show ?thesis
        using a v assms(3,4) quiet_expired[OF assms(1) s True]
        by (simp add: batch_Exist_def good_record_def expired_entry)
    next
      case False
      then show ?thesis
        using a v assms quiet_refl by (simp add: batch_Exist_def good_record_def not_expired_entry)
    qed
  qed (use assms quiet_refl in \<open>auto simp: batch_Exist_def Let_def visible_def live_def\<close>)
  then show "fst (batch_Exist E now k d b) = Ok (batch_view E now d b k \<noteq> None)"
    and "quiet now d (snd (batch_Exist E now k d b))" by simp_all
qed

lemma batch_TTL_spec:
  assumes "dinv d" and "batch_open E b" and "k \<noteq> []" and "\<not> closed d"
  shows "fst (batch_TTL E now k d b)
       = (case pending_rec b k of
            Some r \<Rightarrow> if Expire r = 0 then Ok (- 1)
                      else if live now r then Ok (Expire r - now) else Fail ErrKeyNotFound
          | None \<Rightarrow> (case db_view E now d k of
                       None \<Rightarrow> Fail ErrKeyNotFound
                     | Some (v, e) \<Rightarrow> if 0 <s e then Ok (e - now) else Ok (- 1)))"
    and "quiet now d (snd (batch_TTL E now k d b))"
proof -
  have "fst (batch_TTL E now k d b)
       = (case pending_rec b k of
            Some r \<Rightarrow> if Expire r = 0 then Ok (- 1)
                      else if live now r then Ok (Expire r - now) else Fail ErrKeyNotFound
          | None \<Rightarrow> (case db_view E now d k of
                       None \<Rightarrow> Fail ErrKeyNotFound
                     | Some (v, e) \<Rightarrow> if 0 <s e then Ok (e - now) else Ok (- 1)))
     \<and> quiet now d (snd (batch_TTL E now k d b))"
  proof (rule read_cases[OF assms(1,2), of k now])
    fix p c r
    assume a: "lookupPendingWrites E b k = None" "mt_Get (Bt E) (index d) k = Some p"
      "w_Read (Wl E) (dataFiles d) p = Inr c" "decodeLogRecord c = Some r" "good_record k r"
      and s: "stored_rec E d k = Some r" and v: "db_view E now d k = entry_at now (Value r) (Expire r)"
      and n: "pending_rec b k = None"
    show ?thesis
    proof (cases "IsExpired r now")
      case True
      then show ?thesis
        using a v n assms(3,4) quiet_expired[OF assms(1) s True]
        by (simp add: batch_TTL_def good_record_def expired_entry)
    next
      case False
      then show ?thesis
        using a v n assms quiet_refl by (simp add: batch_TTL_def good_record_def not_expired_entry)
    qed
  qed (use assms quiet_refl in \<open>auto simp: batch_TTL_def Let_def live_def\<close>)
  then show "fst (batch_TTL E now k d b)
       = (case pending_rec b k of
            Some r \<Rightarrow> if Expire r = 0 then Ok (- 1)
                      else if live now r then Ok (Expire r - now) else Fail ErrKeyNotFound
          | None \<Rightarrow> (case db_view E now d k of
                       None \<Rightarrow> Fail ErrKeyNotFound
                     | Some (v, e) \<Rightarrow> if 0 <s e then Ok (e - now) else Ok (- 1)))"
    and "quiet now d (snd (batch_TTL E now k d b))" by simp_all
qed

end

end
