(* ===== verification/Commit_Spec.thy ===== *)
theory Commit_Spec
  imports Batch_Spec
begin

text \<open>
  \<open>Expire\<close>, \<open>Persist\<close>, \<open>Rollback\<close> and, above all, \<open>Commit\<close>: a commit that returns nil
  replaces the view of the database by the view of the batch, one that returns an error
  leaves it as it was, and the log grows by the encoded batch (or by a proper prefix of
  it when the write failed).
\<close>

section \<open>Expire and Persist\<close>

context engine
begin

lemma good_record_open:
  assumes "good_record k r"
  shows "record_fits (r\<lparr>Expire := e\<rparr>)" and "Type (r\<lparr>Expire := e\<rparr>) \<in> {LogRecordNormal, LogRecordDeleted}"
    and "Key (r\<lparr>Expire := e\<rparr>) = k"
  using assms by (auto simp: good_record_def record_fits_def)

lemma expire_pending:
  assumes b: "batch_open E b" and l: "lookupPendingWrites E b k = Some i"
    and lv: "live now (pendingWrites b ! i)"
  shows "batch_open E (update_pending i (\<lambda>r. r\<lparr>Expire := e\<rparr>) b)"
    and "same_batch b (update_pending i (\<lambda>r. r\<lparr>Expire := e\<rparr>) b)"
    and "batch_view E t d (update_pending i (\<lambda>r. r\<lparr>Expire := e\<rparr>) b)
           = (batch_view E t d b)(k := entry_at t (Value (pendingWrites b ! i)) e)"
proof -
  have inv: "batch_inv E b" using b by (simp add: batch_open_def)
  note lk = lookup_pending_rec[OF inv l]
  have f: "\<And>r. Key (r\<lparr>Expire := e\<rparr>) = Key (r :: log_record)" by simp
  have "pendingWrites b ! i \<in> set (pendingWrites b)" using lk(2) by simp
  then have g: "record_fits ((pendingWrites b ! i)\<lparr>Expire := e\<rparr>)"
      "Type ((pendingWrites b ! i)\<lparr>Expire := e\<rparr>) \<in> {LogRecordNormal, LogRecordDeleted}"
    using b by (auto simp: batch_open_def record_fits_def)
  show "batch_open E (update_pending i (\<lambda>r. r\<lparr>Expire := e\<rparr>) b)"
    and "same_batch b (update_pending i (\<lambda>r. r\<lparr>Expire := e\<rparr>) b)"
    using update_open[OF b l f g] by simp_all
  have "pending_rec (update_pending i (\<lambda>r. r\<lparr>Expire := e\<rparr>) b)
      = (pending_rec b)(k \<mapsto> (pendingWrites b ! i)\<lparr>Expire := e\<rparr>)"
    using pending_update[OF inv l f] by (auto simp: fun_eq_iff)
  then show "batch_view E t d (update_pending i (\<lambda>r. r\<lparr>Expire := e\<rparr>) b)
           = (batch_view E t d b)(k := entry_at t (Value (pendingWrites b ! i)) e)"
    using lv by (simp add: batch_view_pending visible_entry live_def)
qed

lemma expire_stored:
  assumes b: "batch_open E b" and n: "pending_rec b k = None" and g: "good_record k r"
  shows "batch_open E (appendPendingWrites E k (r\<lparr>Expire := e\<rparr>) b)"
    and "same_batch b (appendPendingWrites E k (r\<lparr>Expire := e\<rparr>) b)"
    and "batch_view E t d (appendPendingWrites E k (r\<lparr>Expire := e\<rparr>) b)
           = (batch_view E t d b)(k := entry_at t (Value r) e)"
proof -
  note o = good_record_open[OF g, of e]
  show "batch_open E (appendPendingWrites E k (r\<lparr>Expire := e\<rparr>) b)"
    and "same_batch b (appendPendingWrites E k (r\<lparr>Expire := e\<rparr>) b)"
    using append_open[OF b n o(3,1,2)] by simp_all
  have "pending_rec (appendPendingWrites E k (r\<lparr>Expire := e\<rparr>) b) = (pending_rec b)(k \<mapsto> r\<lparr>Expire := e\<rparr>)"
    using pending_append[OF n o(3), of E] by (auto simp: fun_eq_iff)
  then show "batch_view E t d (appendPendingWrites E k (r\<lparr>Expire := e\<rparr>) b)
           = (batch_view E t d b)(k := entry_at t (Value r) e)"
    using g by (simp add: batch_view_pending visible_entry good_record_def)
qed

text \<open>
  \<open>Expire\<close> takes the time of the second reading of the clock when the key is pending and
  of the first when it is stored.
\<close>

lemma batch_Expire_spec:
  assumes d: "dinv d" and b: "batch_open E b" and w: "writable k d b"
  shows "case batch_view E now d b k of
           None \<Rightarrow> \<exists>d'. batch_Expire E now now2 k ttl d b = (Fail ErrKeyNotFound, d', b) \<and> quiet now d d'
         | Some (v, e) \<Rightarrow> \<exists>b'. batch_Expire E now now2 k ttl d b = (Ok (), d, b')
             \<and> batch_open E b' \<and> same_batch b b'
             \<and> (\<forall>t. batch_view E t d b' = (batch_view E t d b)
                  (k := entry_at t v ((case pending_rec b k of None \<Rightarrow> now | Some _ \<Rightarrow> now2) + ttl)))"
proof -
  have wg: "write_guard k d b = None" using w by (simp add: write_guard_None)
  show ?thesis
  proof (rule read_cases[OF d b, of k now])
    fix i
    assume l: "lookupPendingWrites E b k = Some i" and p: "pending_rec b k = Some (pendingWrites b ! i)"
      and v: "batch_view E now d b k = visible now (pendingWrites b ! i)"
    show ?thesis
    proof (cases "live now (pendingWrites b ! i)")
      case True
      then show ?thesis
        using expire_pending[OF b l True] v p l
        by (simp add: batch_Expire_def wg Let_def visible_def live_def)
    next
      case False
      then show ?thesis
        using v l d by (auto simp: batch_Expire_def wg Let_def visible_def live_def quiet_refl)
    qed
  next
    assume "lookupPendingWrites E b k = None" "mt_Get (Bt E) (index d) k = None" "batch_view E now d b k = None"
    then show ?thesis using d by (simp add: batch_Expire_def wg quiet_refl)
  next
    fix p c r
    assume a: "lookupPendingWrites E b k = None" "mt_Get (Bt E) (index d) k = Some p"
      "w_Read (Wl E) (dataFiles d) p = Inr c" "decodeLogRecord c = Some r" and n: "pending_rec b k = None"
      and g: "good_record k r" and s: "stored_rec E d k = Some r"
      and v: "batch_view E now d b k = entry_at now (Value r) (Expire r)"
    show ?thesis
    proof (cases "IsExpired r now")
      case True
      then show ?thesis
        using a v g quiet_expired[OF d s True]
        by (simp add: batch_Expire_def wg good_record_def expired_entry)
    next
      case False
      then show ?thesis
        using a v g n expire_stored[OF b n g]
        by (simp add: batch_Expire_def wg good_record_def not_expired_entry)
    qed
  qed
qed

lemma batch_Persist_spec:
  assumes d: "dinv d" and b: "batch_open E b" and w: "writable k d b"
  shows "case batch_view E now d b k of
           None \<Rightarrow> \<exists>d'. batch_Persist E now k d b = (Fail ErrKeyNotFound, d', b) \<and> quiet now d d'
         | Some (v, e) \<Rightarrow> \<exists>b'. batch_Persist E now k d b = (Ok (), d, b')
             \<and> batch_open E b' \<and> same_batch b b'
             \<and> (\<forall>t. batch_view E t d b' = (batch_view E t d b)(k \<mapsto> (v, 0)))"
proof -
  have wg: "write_guard k d b = None" using w by (simp add: write_guard_None)
  show ?thesis
  proof (rule read_cases[OF d b, of k now])
    fix i
    assume l: "lookupPendingWrites E b k = Some i" and p: "pending_rec b k = Some (pendingWrites b ! i)"
      and v: "batch_view E now d b k = visible now (pendingWrites b ! i)"
    show ?thesis
    proof (cases "live now (pendingWrites b ! i)")
      case True
      then show ?thesis
        using expire_pending[OF b l True, where e = 0] v p l
        by (simp add: batch_Persist_def wg Let_def visible_def live_def)
    next
      case False
      then show ?thesis
        using v l d by (auto simp: batch_Persist_def wg Let_def visible_def live_def quiet_refl)
    qed
  next
    assume "lookupPendingWrites E b k = None" "mt_Get (Bt E) (index d) k = None" "batch_view E now d b k = None"
    then show ?thesis using d by (simp add: batch_Persist_def wg quiet_refl)
  next
    fix p c r
    assume a: "lookupPendingWrites E b k = None" "mt_Get (Bt E) (index d) k = Some p"
      "w_Read (Wl E) (dataFiles d) p = Inr c" "decodeLogRecord c = Some r" and n: "pending_rec b k = None"
      and g: "good_record k r" and s: "stored_rec E d k = Some r"
      and v: "batch_view E now d b k = entry_at now (Value r) (Expire r)"
    show ?thesis
    proof (cases "IsExpired r now")
      case True
      then show ?thesis
        using a v g quiet_expired[OF d s True]
        by (simp add: batch_Persist_def wg good_record_def expired_entry)
    next
      case False
      have "batch_view E t d b = (batch_view E t d b)(k \<mapsto> (Value r, 0))" if "Expire r = 0" for t
        using s n g that
        by (auto simp: batch_view_def db_view_def visible_entry good_record_def fun_eq_iff)
      with False show ?thesis
        using a v g n b expire_stored[OF b n g, where e = 0]
        by (auto simp: batch_Persist_def wg good_record_def not_expired_entry same_batch_def)
    qed
  qed
qed

end

section \<open>What a commit writes to the log\<close>

definition chunk_of :: "log_record \<Rightarrow> bytes" where
  "chunk_of r = encode_header r @ Key r @ Value r"

lemma decode_chunk_of: "record_fits r \<Longrightarrow> decodeLogRecord (chunk_of r) = Some r"
  using decode_encode_fits[of r "[]"] by (simp add: chunk_of_def)

lemma encode_all_fits: "\<forall>r \<in> set rs. record_fits r \<Longrightarrow> encode_all rs = Some (map chunk_of rs)"
  by (induction rs) (auto simp: encodeLogRecord_fits chunk_of_def)

definition batch_records :: "uint64 \<Rightarrow> Batch \<Rightarrow> log_record list" where
  "batch_records batchId b = map (\<lambda>r. r\<lparr>BatchId := batchId\<rparr>) (pendingWrites b)"

lemma batch_records_simps [simp]:
  "length (batch_records i b) = length (pendingWrites b)"
  "map Key (batch_records i b) = map Key (pendingWrites b)"
  by (simp_all add: batch_records_def comp_def)

lemma visible_BatchId [simp]: "visible t (r\<lparr>BatchId := i\<rparr>) = visible t r"
  by (simp add: visible_def live_def IsExpired_def)

lemma record_fits_BatchId [simp]: "record_fits (r\<lparr>BatchId := i\<rparr>) = record_fits r"
  by (simp add: record_fits_def)

section \<open>Writing the index\<close>

definition watcher_ok :: "Options \<Rightarrow> watcher option \<Rightarrow> bool" where
  "watcher_ok opts w \<longleftrightarrow> (0 < WatchQueueSize opts \<longrightarrow> (\<exists>w'. w = Some w' \<and> watcher_inv w'))"

text \<open>What the watcher holds after the events of these records were posted.\<close>

definition posted :: "Options \<Rightarrow> log_record list \<Rightarrow> watcher option \<Rightarrow> watcher option \<Rightarrow> bool" where
  "posted opts rs w w' \<longleftrightarrow>
     (if 0 < WatchQueueSize opts
      then \<exists>x y. w = Some x \<and> w' = Some y \<and> putEvents x (map write_event rs) = Some y
      else w' = w)"

text \<open>The position a batch gives to a key, \<open>None\<close> where it removes the key.\<close>

definition placed :: "int64 \<Rightarrow> log_record list \<Rightarrow> chunk_position list \<Rightarrow> bytes \<Rightarrow> chunk_position option option" where
  "placed now rs ps k =
     (case map_of (zip (map Key rs) (zip rs ps)) k of
        None \<Rightarrow> None
      | Some (r, p) \<Rightarrow> Some (if Type r = LogRecordDeleted \<or> IsExpired r now then None else Some p))"

lemma post_event_ok:
  assumes "watcher_ok opts w"
  obtains w' where "post_event opts r w = Some w'" and "watcher_ok opts w'"
    and "\<And>rs w''. posted opts rs w' w'' \<Longrightarrow> posted opts (r # rs) w w''"
proof (cases "0 < WatchQueueSize opts")
  case True
  then obtain x where x: "w = Some x" "watcher_inv x" using assms by (auto simp: watcher_ok_def)
  then obtain y where "putEvent x (write_event r) = Some y" "watcher_inv y"
    using wf.put_law by blast
  then show ?thesis
    using that[of "Some y"] True x by (simp add: post_event_def watcher_ok_def posted_def)
next
  case False
  then show ?thesis using that[of w] by (simp add: post_event_def watcher_ok_def posted_def)
qed

context engine
begin

lemma index_write_get:
  assumes "mt_inv bt_inv mt"
  shows "mt_inv bt_inv (index_write E now r p mt)"
    and "mt_Get (Bt E) (index_write E now r p mt) k
       = (if k = Key r then (if Type r = LogRecordDeleted \<or> IsExpired r now then None else Some p)
          else mt_Get (Bt E) mt k)"
  using assms ix.put_inv ix.delete_inv ix.get_put ix.get_delete by (simp_all add: index_write_def)

lemma index_all_ok:
  assumes "length rs \<le> length ps" and "distinct (map Key rs)"
    and "mt_inv bt_inv mt" and "watcher_ok opts w"
  obtains mt' w' where "index_all E now opts rs ps mt w = Some (mt', w')" and "mt_inv bt_inv mt'"
    and "watcher_ok opts w'" and "posted opts rs w w'"
    and "\<And>k. mt_Get (Bt E) mt' k = (case placed now rs ps k of None \<Rightarrow> mt_Get (Bt E) mt k | Some x \<Rightarrow> x)"
  using assms
proof (induction rs arbitrary: ps mt w thesis)
  case Nil
  then show ?case by (auto simp: placed_def posted_def watcher_ok_def)
next
  case (Cons r rs)
  obtain p ps' where ps: "ps = p # ps'" using Cons.prems(2) by (cases ps) auto
  obtain w1 where w1: "post_event opts r w = Some w1" "watcher_ok opts w1"
    and po: "\<And>rs w''. posted opts rs w1 w'' \<Longrightarrow> posted opts (r # rs) w w''"
    using post_event_ok[OF Cons.prems(5)] by blast
  define mt1 where "mt1 = index_write E now r p mt"
  note iw = index_write_get[OF Cons.prems(4), of now r p, folded mt1_def]
  obtain mt' w' where r: "index_all E now opts rs ps' mt1 w1 = Some (mt', w')" "mt_inv bt_inv mt'"
    "watcher_ok opts w'" "posted opts rs w1 w'"
    and g: "\<And>k. mt_Get (Bt E) mt' k = (case placed now rs ps' k of None \<Rightarrow> mt_Get (Bt E) mt1 k | Some x \<Rightarrow> x)"
    by (rule Cons.IH[of ps' mt1 w1]) (use Cons.prems ps w1(2) iw(1) in auto)
  have none: "placed now rs ps' (Key r) = None"
  proof -
    have "Key r \<notin> set (map Key rs)" using Cons.prems(3) by simp
    then have "map_of (zip (map Key rs) (zip rs ps')) (Key r) = None"
      by (auto simp: map_of_eq_None_iff dest: set_zip_leftD)
    then show ?thesis by (simp add: placed_def)
  qed
  have "mt_Get (Bt E) mt' k = (case placed now (r # rs) ps k of None \<Rightarrow> mt_Get (Bt E) mt k | Some x \<Rightarrow> x)" for k
  proof (cases "k = Key r")
    case True
    then show ?thesis using g[of k] iw(2)[of k] none ps by (simp add: placed_def[of now "r # rs"])
  next
    case False
    then have "placed now (r # rs) ps k = placed now rs ps' k" by (simp add: placed_def ps)
    then show ?thesis using g[of k] iw(2)[of k] False by (simp split: option.split)
  qed
  then show ?case
    using Cons.prems(1)[of mt' w'] r w1(1) po[OF r(4)] ps by (simp add: mt1_def)
qed

section \<open>The log may grow\<close>

lemma grown_log:
  assumes d: "dinv d" and w: "w_inv w" "pend w = []"
    and sub: "set (wal_log (Wl E) (dataFiles d)) \<subseteq> set (wal_log (Wl E) w)"
  shows "dinv (d\<lparr>dataFiles := w\<rparr>)" and "stored_rec E (d\<lparr>dataFiles := w\<rparr>) = stored_rec E d"
    and "db_view E t (d\<lparr>dataFiles := w\<rparr>) = db_view E t d"
proof -
  show "dinv (d\<lparr>dataFiles := w\<rparr>)"
    unfolding db_inv_def
  proof (intro conjI allI impI)
    fix k p
    assume "mt_Get (Bt E) (index (d\<lparr>dataFiles := w\<rparr>)) k = Some p"
    then have "mt_Get (Bt E) (index d) k = Some p" by simp
    then obtain c r where "(p, c) \<in> set (wal_log (Wl E) (dataFiles d))" "decodeLogRecord c = Some r" "good_record k r"
      using d unfolding db_inv_def by blast
    then show "\<exists>c r. (p, c) \<in> set (wal_log (Wl E) (dataFiles (d\<lparr>dataFiles := w\<rparr>)))
        \<and> decodeLogRecord c = Some r \<and> good_record k r"
      using sub by auto
  qed (use d w in \<open>simp_all add: db_inv_def\<close>)
  show s: "stored_rec E (d\<lparr>dataFiles := w\<rparr>) = stored_rec E d"
  proof
    fix k
    show "stored_rec E (d\<lparr>dataFiles := w\<rparr>) k = stored_rec E d k"
    proof (cases "mt_Get (Bt E) (index d) k")
      case None
      then show ?thesis by (simp add: stored_rec_def)
    next
      case (Some p)
      obtain c r where "w_Read (Wl E) (dataFiles d) p = Inr c" "(p, c) \<in> set (wal_log (Wl E) (dataFiles d))"
        using stored[OF d Some] by blast
      moreover from this(2) have "w_Read (Wl E) w p = Inr c" using Read_log[OF w(1)] sub by blast
      ultimately show ?thesis using Some by (simp add: stored_rec_def)
    qed
  qed
  show "db_view E t (d\<lparr>dataFiles := w\<rparr>) = db_view E t d"
    by (simp add: db_view_def s fun_eq_iff)
qed

end

end
