(* ===== verification/Commit_Correct.thy ===== *)
theory Commit_Correct
  imports Commit_Spec
begin

text \<open>
  \<open>Commit\<close> itself: its three outcomes when a batch has something to write (a torn write, a
  failed \<open>Sync\<close>, success), what each leaves in the log, in the index and in the watch
  queue, and \<open>Rollback\<close>.
\<close>

section \<open>Positions of a batch\<close>

lemma placed_absent:
  assumes "k \<notin> Key ` set rs"
  shows "placed now rs ps k = None"
proof -
  have "map_of (zip (map Key rs) (zip rs ps)) k = None"
    using assms by (auto simp: map_of_eq_None_iff dest!: set_zip_leftD)
  then show ?thesis by (simp add: placed_def)
qed

lemma placed_present:
  assumes "length rs \<le> length ps" and "distinct (map Key rs)" and "(r, p) \<in> set (zip rs ps)"
  shows "placed now rs ps (Key r) = Some (if Type r = LogRecordDeleted \<or> IsExpired r now then None else Some p)"
proof -
  have "map fst (zip (map Key rs) (zip rs ps)) = map Key rs" using assms(1) by simp
  moreover have "(Key r, (r, p)) \<in> set (zip (map Key rs) (zip rs ps))"
    using assms(3) by (force simp: in_set_zip)
  ultimately have "map_of (zip (map Key rs) (zip rs ps)) (Key r) = Some (r, p)"
    using assms(2) by (metis map_of_is_SomeI)
  then show ?thesis by (simp add: placed_def)
qed

lemma zip_left_exists:
  assumes "x \<in> set xs" and "length xs \<le> length ys"
  obtains y where "(x, y) \<in> set (zip xs ys)"
  using assms by (metis in_set_impl_in_set_zip1 min.absorb1 in_set_conv_nth in_set_zip
      order_less_le_trans fst_conv snd_conv)

lemma batch_records_pending:
  assumes "pending_rec b k = Some r"
  shows "r\<lparr>BatchId := i\<rparr> \<in> set (batch_records i b)" and "Key r = k"
  using find_Some_set[of "\<lambda>r. Key r = k" "pendingWrites b" r] assms
  by (simp_all add: pending_rec_def batch_records_def)

lemma batch_records_absent: "pending_rec b k = None \<Longrightarrow> k \<notin> Key ` set (batch_records i b)"
  by (auto simp: pending_rec_def batch_records_def find_None_set)

lemma batch_records_open:
  assumes "batch_open E b"
  shows "distinct (map Key (batch_records i b))" and "\<forall>r \<in> set (batch_records i b). record_fits r"
    and "\<forall>r \<in> set (batch_records i b). Type r \<in> {LogRecordNormal, LogRecordDeleted}"
  using assms by (auto simp: batch_open_def batch_inv_def) (auto simp: batch_records_def)

section \<open>Commit\<close>

definition batch_chunks :: "('t, 'w) env \<Rightarrow> uint64 \<Rightarrow> Batch \<Rightarrow> bytes list" where
  "batch_chunks E i b = map chunk_of (batch_records i b @ [end_record E i])"

text \<open>The log has grown by these positions and this prefix of the chunks of a batch.\<close>

definition log_grew ::
    "('t, 'w) env \<Rightarrow> ('t, 'w) DB \<Rightarrow> ('t, 'w) DB \<Rightarrow> chunk_position list \<Rightarrow> bytes list \<Rightarrow> bool" where
  "log_grew E d d' ps cs \<longleftrightarrow> length ps \<le> length cs
     \<and> wal_log (Wl E) (dataFiles d') = wal_log (Wl E) (dataFiles d) @ zip ps cs"

text \<open>The errors that the log's operations can return.\<close>

definition log_error :: "('t, 'w) env \<Rightarrow> ('w \<Rightarrow> bool) \<Rightarrow> go_error \<Rightarrow> bool" where
  "log_error E w_inv e \<longleftrightarrow>
     (\<exists>w. w_inv w \<and> (fst (w_WriteAll (Wl E) w) = Inl e \<or> fst (w_Sync (Wl E) w) = Some e))"

definition same_control :: "('t, 'w) DB \<Rightarrow> ('t, 'w) DB \<Rightarrow> bool" where
  "same_control d d' \<longleftrightarrow> d' = d\<lparr>dataFiles := dataFiles d', index := index d', db_watcher := db_watcher d'\<rparr>"

lemma same_controlD:
  assumes "same_control d d'"
  shows "mu d' = mu d" and "closed d' = closed d" and "options d' = options d"
    and "mergeRunning d' = mergeRunning d" and "expiredCursorKey d' = expiredCursorKey d"
  using assms by (cases d; cases d'; simp add: same_control_def)+

text \<open>The database once a writer has let go of its lock.\<close>

definition released :: "('t, 'w) DB \<Rightarrow> ('t, 'w) DB" where
  "released d = d\<lparr>mu := (mu d)\<lparr>writer := False\<rparr>\<rparr>"

lemma released_simps [simp]:
  "stored_rec E (released d) = stored_rec E d" "db_view E t (released d) = db_view E t d"
  "dataFiles (released d) = dataFiles d" "index (released d) = index d"
  "db_watcher (released d) = db_watcher d" "options (released d) = options d"
  "closed (released d) = closed d" "mu (released d) = (mu d)\<lparr>writer := False\<rparr>"
  by (auto simp: released_def db_view_def stored_rec_def fun_eq_iff split: option.split)

lemma deferred_unlock_writer:
  "writer (mu d) \<Longrightarrow> \<not> ReadOnly (batch_options b) \<Longrightarrow> deferred_unlock (r, d, b) = (r, released d, b)"
  by (simp add: deferred_unlock_def batch_unlock_def mutex_Unlock_def released_def)

context engine
begin

lemma end_record_fits: "record_fits (end_record E i)"
  using Id_length[of i] by (simp add: record_fits_def end_record_def maxLogRecordHeaderSize_def)

lemma encode_batch:
  assumes "batch_open E b"
  shows "encode_all (batch_records i b @ [end_record E i]) = Some (batch_chunks E i b)"
  using encode_all_fits[of "batch_records i b @ [end_record E i]"] end_record_fits batch_records_open(2)[OF assms]
  by (auto simp: batch_chunks_def)

text \<open>The state of the log after the batch was written and, maybe, synced.\<close>

lemma synced_log:
  assumes "w_inv w" and "pend w = []" and "(if c then w_Sync (Wl E) w else (None, w)) = (x, w')"
  shows "w_inv w'" and "pend w' = []" and "wal_log (Wl E) w' = wal_log (Wl E) w"
  using assms Sync_inv[of w] Sync_pend[of w] Sync_log[of w] by (auto split: if_splits)

lemma committed_state:
  assumes d: "dinv d" and b: "batch_open E b" and w: "w_inv w" "pend w = []"
    and l: "wal_log (Wl E) w = wal_log (Wl E) (dataFiles d) @ zip ps (batch_chunks E i b)"
    and n: "length ps = length (batch_chunks E i b)"
    and mt: "mt_inv bt_inv mt" and wat: "watcher_ok (options d) wat"
    and g: "\<And>k. mt_Get (Bt E) mt k = (case placed now (batch_records i b) ps k of
              None \<Rightarrow> mt_Get (Bt E) (index d) k | Some x \<Rightarrow> x)"
  defines "d' \<equiv> d\<lparr>dataFiles := w, index := mt, db_watcher := wat\<rparr>"
  shows "dinv d'" and "sint now \<le> sint t \<Longrightarrow> db_view E t d' = batch_view E t d b"
proof -
  let ?rs = "batch_records i b"
  note ro = batch_records_open[OF b, of i]
  have len: "length ?rs \<le> length ps" using n by (simp add: batch_chunks_def)
  have chunk: "(p, chunk_of r) \<in> set (wal_log (Wl E) w)" "record_fits r"
    "Type r \<in> {LogRecordNormal, LogRecordDeleted}" if "(r, p) \<in> set (zip ?rs ps)" for r p
  proof -
    from that obtain j where j: "j < length ?rs" "r = ?rs ! j" "p = ps ! j"
      by (auto simp: in_set_zip)
    then have "batch_chunks E i b ! j = chunk_of r" by (simp add: batch_chunks_def nth_append)
    then have "(p, chunk_of r) \<in> set (zip ps (batch_chunks E i b))"
      using j n len by (auto simp: in_set_zip intro!: exI[of _ j])
    then show "(p, chunk_of r) \<in> set (wal_log (Wl E) w)" by (simp add: l)
    show "record_fits r" "Type r \<in> {LogRecordNormal, LogRecordDeleted}" using j ro by simp_all
  qed
  have old: "stored_rec E d' k = stored_rec E d k" if "pending_rec b k = None" for k
  proof -
    have m: "mt_Get (Bt E) mt k = mt_Get (Bt E) (index d) k"
      using g[of k] placed_absent[OF batch_records_absent[OF that]] by simp
    show ?thesis
    proof (cases "mt_Get (Bt E) (index d) k")
      case None
      then show ?thesis using m by (simp add: stored_rec_def d'_def)
    next
      case (Some p)
      obtain c where c: "w_Read (Wl E) (dataFiles d) p = Inr c" "(p, c) \<in> set (wal_log (Wl E) (dataFiles d))"
        using stored[OF d Some] by blast
      then have "w_Read (Wl E) w p = Inr c" using Read_log[OF w(1), of p c] l by simp
      then show ?thesis using m Some c by (simp add: stored_rec_def d'_def)
    qed
  qed
  have new: "\<exists>p. (r\<lparr>BatchId := i\<rparr>, p) \<in> set (zip ?rs ps)
      \<and> mt_Get (Bt E) mt k = (if Type r = LogRecordDeleted \<or> IsExpired r now then None else Some p)"
    if r: "pending_rec b k = Some r" for k r
  proof -
    note br = batch_records_pending[OF r]
    obtain p where p: "(r\<lparr>BatchId := i\<rparr>, p) \<in> set (zip ?rs ps)"
      by (rule zip_left_exists[OF br(1)[of i] len])
    then show ?thesis
      using placed_present[OF len ro(1) p, of now] g[of k] br(2)
      by (intro exI[of _ p]) (simp add: IsExpired_def)
  qed
  have good: "\<exists>c r. (p, c) \<in> set (wal_log (Wl E) w) \<and> decodeLogRecord c = Some r \<and> good_record k r"
    if m: "mt_Get (Bt E) mt k = Some p" for k p
  proof (cases "pending_rec b k")
    case None
    then have "mt_Get (Bt E) (index d) k = Some p"
      using g[of k] placed_absent[OF batch_records_absent[OF None]] m by simp
    then obtain c r where "(p, c) \<in> set (wal_log (Wl E) (dataFiles d))" "decodeLogRecord c = Some r" "good_record k r"
      using d unfolding db_inv_def by blast
    then show ?thesis using l by auto
  next
    case (Some r)
    from new[OF Some] m have rp: "(r\<lparr>BatchId := i\<rparr>, p) \<in> set (zip ?rs ps)" and t: "Type r \<noteq> LogRecordDeleted"
      by (auto split: if_splits)
    show ?thesis
      using chunk[OF rp] t batch_records_pending(2)[OF Some] decode_chunk_of[of "r\<lparr>BatchId := i\<rparr>"]
      by (intro exI[of _ "chunk_of (r\<lparr>BatchId := i\<rparr>)"] exI[of _ "r\<lparr>BatchId := i\<rparr>"]) (simp add: good_record_def)
  qed
  show "dinv d'" using w mt good wat by (simp add: db_inv_def d'_def watcher_ok_def)
  show "db_view E t d' = batch_view E t d b" if t: "sint now \<le> sint t"
  proof
    fix k
    show "db_view E t d' k = batch_view E t d b k"
    proof (cases "pending_rec b k")
      case None
      then show ?thesis by (simp add: db_view_def batch_view_def old)
    next
      case (Some r)
      from new[OF Some] obtain p where rp: "(r\<lparr>BatchId := i\<rparr>, p) \<in> set (zip ?rs ps)"
        and m: "mt_Get (Bt E) mt k = (if Type r = LogRecordDeleted \<or> IsExpired r now then None else Some p)" by blast
      show ?thesis
      proof (cases "Type r = LogRecordDeleted \<or> IsExpired r now")
        case True
        then have "visible t r = None" using IsExpired_mono[of r now t] t by (auto simp: visible_def live_def)
        then show ?thesis using m True Some by (simp add: db_view_def batch_view_def stored_rec_def d'_def)
      next
        case False
        have "w_Read (Wl E) w p = Inr (chunk_of (r\<lparr>BatchId := i\<rparr>))" by (rule Read_log[OF w(1) chunk(1)[OF rp]])
        then have "stored_rec E d' k = Some (r\<lparr>BatchId := i\<rparr>)"
          using m False chunk(2)[OF rp] decode_chunk_of[of "r\<lparr>BatchId := i\<rparr>"] by (simp add: stored_rec_def d'_def)
        then show ?thesis using Some by (simp add: db_view_def batch_view_def)
      qed
    qed
  qed
qed

text \<open>What an unsuccessful commit leaves behind: the database as it was, a longer log.\<close>

definition commit_failed ::
    "('t, 'w) DB \<Rightarrow> ('t, 'w) DB \<Rightarrow> Batch \<Rightarrow> Batch \<Rightarrow> bool" where
  "commit_failed d d' b b' \<longleftrightarrow> dinv d' \<and> same_control d d' \<and> (\<forall>t. db_view E t d' = db_view E t d)
     \<and> db_watcher d' = db_watcher d \<and> batch_options b' = batch_options b \<and> \<not> committed b'"

definition commit_done ::
    "uint64 \<Rightarrow> int64 \<Rightarrow> ('t, 'w) DB \<Rightarrow> ('t, 'w) DB \<Rightarrow> Batch \<Rightarrow> Batch \<Rightarrow> bool" where
  "commit_done i now d d' b b' \<longleftrightarrow> dinv d' \<and> same_control d d'
     \<and> (\<forall>t. sint now \<le> sint t \<longrightarrow> db_view E t d' = batch_view E t d b)
     \<and> posted (options d) (batch_records i b) (db_watcher d) (db_watcher d')
     \<and> batch_options b' = batch_options b \<and> committed b'"

lemma commit_cases:
  assumes d: "dinv d" and b: "batch_open E b" and c: "\<not> closed d" "\<not> ReadOnly (batch_options b)"
    and ne: "pendingWrites b \<noteq> []"
  obtains
    (torn) e d' b' ps where "commit_body E i now d b = (Fail e, d', b')" "commit_failed d d' b b'"
      "log_grew E d d' ps (batch_chunks E i b)" "length ps < length (batch_chunks E i b)" "log_error E w_inv e"
  | (unsynced) e d' b' ps where "commit_body E i now d b = (Fail e, d', b')" "commit_failed d d' b b'"
      "log_grew E d d' ps (batch_chunks E i b)" "length ps = length (batch_chunks E i b)"
      "BatchSync (batch_options b)" "\<not> Sync (options d)" "log_error E w_inv e"
  | (applied) d' b' ps where "commit_body E i now d b = (Ok (), d', b')" "commit_done i now d d' b b'"
      "log_grew E d d' ps (batch_chunks E i b)" "length ps = length (batch_chunks E i b)"
proof -
  let ?cs = "batch_chunks E i b"
  let ?b = "b\<lparr>pendingWrites := batch_records i b\<rparr>"
  define w0 where "w0 = foldl (w_PendingWrites (Wl E)) (dataFiles d) ?cs"
  have di: "w_inv (dataFiles d)" "pend (dataFiles d) = []" "mt_inv bt_inv (index d)"
    and wk: "watcher_ok (options d) (db_watcher d)" using d by (simp_all add: db_inv_def watcher_ok_def)
  have w0: "w_inv w0" "wal_log (Wl E) w0 = wal_log (Wl E) (dataFiles d)" "pend w0 = ?cs"
    using fold_PendingWrites[OF di(1), of ?cs] di(2) by (simp_all add: w0_def)
  have nc: "\<not> committed b" "\<not> rollbacked b" using b by (simp_all add: batch_open_def)
  obtain x w where wr: "w_WriteAll (Wl E) w0 = (x, w)" by force
  note wi = WriteAll_inv[OF w0(1) wr]
  note body = commit_body_def[of E i now d b] encode_batch[OF b, of i, unfolded batch_records_def] Let_def
  show thesis
  proof (cases x)
    case (Inl e)
    obtain ps where ps: "length ps < length ?cs"
      and wl: "wal_log (Wl E) w = wal_log (Wl E) (dataFiles d) @ zip ps ?cs"
      using WriteAll_fail[OF w0(1) wr[unfolded Inl]] w0 by auto
    let ?w = "w_ClearPendingWrites (Wl E) w"
    have cl: "wal_log (Wl E) ?w = wal_log (Wl E) (dataFiles d) @ zip ps ?cs"
      using ClearPendingWrites_log[OF wi] wl by simp
    have gl: "dinv (d\<lparr>dataFiles := ?w\<rparr>)" "\<And>t. db_view E t (d\<lparr>dataFiles := ?w\<rparr>) = db_view E t d"
      using grown_log[OF d ClearPendingWrites_inv[OF wi] ClearPendingWrites_pend[OF wi]] cl by simp_all
    show thesis
    proof (rule torn[of e "d\<lparr>dataFiles := ?w\<rparr>" ?b ps])
      show "commit_body E i now d b = (Fail e, d\<lparr>dataFiles := ?w\<rparr>, ?b)"
        using c ne nc wr Inl by (simp add: body w0_def batch_records_def)
      show "commit_failed d (d\<lparr>dataFiles := ?w\<rparr>) b ?b"
        using gl nc by (simp add: commit_failed_def same_control_def)
      show "log_grew E d (d\<lparr>dataFiles := ?w\<rparr>) ps ?cs" using cl ps by (simp add: log_grew_def)
      show "log_error E w_inv e" using w0(1) wr Inl by (auto simp: log_error_def intro!: exI[of _ w0])
    qed (rule ps)
  next
    case (Inr ps)
    have ps: "length ps = length ?cs" and wl: "wal_log (Wl E) w = wal_log (Wl E) (dataFiles d) @ zip ps ?cs"
      and wp: "pend w = []"
      using WriteAll_ok[OF w0(1) wr[unfolded Inr]] w0 by auto
    have n: "length ps = length (pendingWrites b) + 1" using ps by (simp add: batch_chunks_def)
    obtain s w' where sy: "(if BatchSync (batch_options b) \<and> \<not> Sync (options d)
        then w_Sync (Wl E) w else (None, w)) = (s, w')" by force
    note sl = synced_log[OF wi wp sy]
    show thesis
    proof (cases s)
      case (Some e)
      have gl: "dinv (d\<lparr>dataFiles := w'\<rparr>)" "\<And>t. db_view E t (d\<lparr>dataFiles := w'\<rparr>) = db_view E t d"
        using grown_log[OF d sl(1,2)] sl(3) wl by simp_all
      show thesis
      proof (rule unsynced[of e "d\<lparr>dataFiles := w'\<rparr>" ?b ps])
        show "commit_body E i now d b = (Fail e, d\<lparr>dataFiles := w'\<rparr>, ?b)"
          using c ne nc wr Inr n sy Some by (simp add: body w0_def batch_records_def)
        show "commit_failed d (d\<lparr>dataFiles := w'\<rparr>) b ?b"
          using gl nc by (simp add: commit_failed_def same_control_def)
        show "log_grew E d (d\<lparr>dataFiles := w'\<rparr>) ps ?cs" using wl sl(3) ps by (simp add: log_grew_def)
        show "log_error E w_inv e"
          using wi sy Some by (auto simp: log_error_def intro!: exI[of _ w] split: if_splits)
      qed (use ps sy Some in \<open>auto split: if_splits\<close>)
    next
      case None
      obtain mt wat where ia: "index_all E now (options d) (batch_records i b) ps (index d) (db_watcher d)
          = Some (mt, wat)" "mt_inv bt_inv mt" "watcher_ok (options d) wat"
          "posted (options d) (batch_records i b) (db_watcher d) wat"
        and g: "\<And>k. mt_Get (Bt E) mt k = (case placed now (batch_records i b) ps k of
              None \<Rightarrow> mt_Get (Bt E) (index d) k | Some x \<Rightarrow> x)"
        by (rule index_all_ok[of "batch_records i b" ps "index d" "options d" "db_watcher d" now])
           (use n di(3) wk batch_records_open(1)[OF b] in auto)
      let ?d = "d\<lparr>dataFiles := w', index := mt, db_watcher := wat\<rparr>"
      have wl': "wal_log (Wl E) w' = wal_log (Wl E) (dataFiles d) @ zip ps ?cs" using wl sl(3) by simp
      note cs = committed_state[OF d b sl(1,2) wl' ps ia(2,3) g]
      show thesis
      proof (rule applied[of ?d "?b\<lparr>committed := True\<rparr>" ps])
        show "commit_body E i now d b = (Ok (), ?d, ?b\<lparr>committed := True\<rparr>)"
          using c ne nc wr Inr n sy None ia(1) by (simp add: body w0_def batch_records_def)
        show "commit_done i now d ?d b (?b\<lparr>committed := True\<rparr>)"
          using cs ia(4) by (simp add: commit_done_def same_control_def)
        show "log_grew E d ?d ps ?cs" using wl' ps by (simp add: log_grew_def)
      qed (rule ps)
    qed
  qed
qed

text \<open>With the deferred unlock, for a batch that holds the lock of the database.\<close>

lemma released_dinv [simp]: "dinv (released d) = dinv d"
  by (simp add: released_def db_inv_def)

lemma Commit_cases:
  assumes d: "dinv d" and b: "batch_open E b" and c: "\<not> closed d" "\<not> ReadOnly (batch_options b)"
    and ne: "pendingWrites b \<noteq> []" and w: "writer (mu d)"
  obtains
    (failed) e d1 b' ps where "batch_Commit E i now d b = (Fail e, released d1, b')" "commit_failed d d1 b b'"
      "log_grew E d d1 ps (batch_chunks E i b)"
      "length ps < length (batch_chunks E i b) \<or> BatchSync (batch_options b) \<and> \<not> Sync (options d)"
      "log_error E w_inv e"
  | (succeeded) d1 b' ps where "batch_Commit E i now d b = (Ok (), released d1, b')" "commit_done i now d d1 b b'"
      "log_grew E d d1 ps (batch_chunks E i b)" "length ps = length (batch_chunks E i b)"
proof (rule commit_cases[OF d b c ne, of i now])
  fix e d' b' ps
  assume a: "commit_body E i now d b = (Fail e, d', b')" "commit_failed d d' b b'"
    and g: "log_grew E d d' ps (batch_chunks E i b)" "length ps < length (batch_chunks E i b)" "log_error E w_inv e"
  have "writer (mu d')" "\<not> ReadOnly (batch_options b')"
    using a(2) w c(2) same_controlD(1)[of d d'] by (simp_all add: commit_failed_def)
  then show thesis using failed[of e d' b' ps] a g by (simp add: batch_Commit_def deferred_unlock_writer)
next
  fix e d' b' ps
  assume a: "commit_body E i now d b = (Fail e, d', b')" "commit_failed d d' b b'"
    and g: "log_grew E d d' ps (batch_chunks E i b)" "BatchSync (batch_options b)" "\<not> Sync (options d)"
      "log_error E w_inv e"
  have "writer (mu d')" "\<not> ReadOnly (batch_options b')"
    using a(2) w c(2) same_controlD(1)[of d d'] by (simp_all add: commit_failed_def)
  then show thesis using failed[of e d' b' ps] a g by (simp add: batch_Commit_def deferred_unlock_writer)
next
  fix d' b' ps
  assume a: "commit_body E i now d b = (Ok (), d', b')" "commit_done i now d d' b b'"
    and g: "log_grew E d d' ps (batch_chunks E i b)" "length ps = length (batch_chunks E i b)"
  have "writer (mu d')" "\<not> ReadOnly (batch_options b')"
    using a(2) w c(2) same_controlD(1)[of d d'] by (simp_all add: commit_done_def)
  then show thesis using succeeded[of d' b' ps] a g by (simp add: batch_Commit_def deferred_unlock_writer)
qed

text \<open>A batch without pending writes, and a batch rolled back, change nothing but the lock.\<close>

lemma Commit_empty:
  assumes "pendingWrites b = []" and "\<not> closed d" and "\<not> ReadOnly (batch_options b)" and "writer (mu d)"
  shows "batch_Commit E i now d b = (Ok (), released d, b)"
  using assms by (simp add: batch_Commit_def commit_body_def deferred_unlock_writer)

lemma Rollback_writer:
  assumes "\<not> ReadOnly (batch_options b)" and "writer (mu d)" and "\<not> committed b" and "\<not> rollbacked b"
  obtains b' where "batch_Rollback d b = (if closed d then Fail ErrDBClosed else Ok (), released d, b')"
  using assms by (cases "closed d") (simp_all add: batch_Rollback_def rollback_body_def deferred_unlock_writer)

lemma Commit_atomic:
  assumes "dinv d" and "batch_open E b" and "\<not> closed d" and "\<not> ReadOnly (batch_options b)"
    and "pendingWrites b \<noteq> []" and "writer (mu d)" and r: "batch_Commit E i now d b = (r, d', b')"
  shows "dinv d' \<and> mu d' = (mu d)\<lparr>writer := False\<rparr> \<and>
    (case r of
       Ok _ \<Rightarrow> (\<forall>t. sint now \<le> sint t \<longrightarrow> db_view E t d' = batch_view E t d b)
               \<and> (\<exists>ps. length ps = length (batch_chunks E i b) \<and> log_grew E d d' ps (batch_chunks E i b))
               \<and> posted (options d) (batch_records i b) (db_watcher d) (db_watcher d')
     | Fail _ \<Rightarrow> (\<forall>t. db_view E t d' = db_view E t d) \<and> db_watcher d' = db_watcher d
     | Panic \<Rightarrow> False)"
proof (rule Commit_cases[OF assms(1-6), of i now])
  fix e d1 b1 ps
  assume a: "batch_Commit E i now d b = (Fail e, released d1, b1)" and f: "commit_failed d d1 b b1"
  have "mu d1 = mu d" using f same_controlD(1)[of d d1] by (simp add: commit_failed_def)
  then show ?thesis using a f r by (auto simp: commit_failed_def)
next
  fix d1 b1 ps
  assume a: "batch_Commit E i now d b = (Ok (), released d1, b1)" and f: "commit_done i now d d1 b b1"
    and g: "log_grew E d d1 ps (batch_chunks E i b)" "length ps = length (batch_chunks E i b)"
  have "mu d1 = mu d" using f same_controlD(1)[of d d1] by (simp add: commit_done_def)
  moreover have "r = Ok ()" "d' = released d1" using a r by simp_all
  ultimately show ?thesis using f g by (auto simp: commit_done_def log_grew_def)
qed

end

section \<open>A database to run\<close>

text \<open>An empty database over the reference instance, with a watch queue of four events.\<close>

definition ref_options :: Options where
  "ref_options = \<lparr>DirPath = [47], SegmentSize = 1024, Sync = False, BytesPerSync = 0,
                   WatchQueueSize = 4, AutoMergeCronExpr = []\<rparr>"

definition ref_db :: "(item list, list_wal) DB" where
  "ref_db = \<lparr>dataFiles = \<lparr>lw_log = [], lw_pending = []\<rparr>, index = NewIndexer list_btree,
              options = ref_options, mu = \<lparr>writer = False, readers = 0\<rparr>, closed = False,
              mergeRunning = False, db_watcher = Some (NewWatcher 4), expiredCursorKey = []\<rparr>"

definition ref_locked :: "(item list, list_wal) DB" where
  "ref_locked = ref_db\<lparr>mu := \<lparr>writer = True, readers = 0\<rparr>\<rparr>"

definition ref_batch :: Batch where
  "ref_batch = snd (batch_Put ref_env [107] [118] ref_db newBatch)"

lemma ref_db_inv: "db_inv ref_env sorted_items list_wal_inv lw_pending ref_db"
  using ref.ix.new_law(1) ref.ix.get_new NewWatcher_inv(1)[of 4]
  by (simp add: db_inv_def ref_db_def list_wal_inv_def lw_limit_def NewIndexer_def indexType_def ref_env_def)

lemma ref_locked_inv: "db_inv ref_env sorted_items list_wal_inv lw_pending ref_locked"
  using ref_db_inv by (simp add: ref_locked_def db_inv_def)

lemma newBatch_open: "batch_open E newBatch"
  by (simp add: newBatch_def batch_open_def)

lemma ref_batch_open: "batch_open ref_env ref_batch"
  using put_record_spec(1)[OF newBatch_open, of "[107]" "[118]" ref_env 0]
  by (simp add: ref_batch_def batch_Put_def write_guard_def ref_db_def newBatch_def value_fits_def
      maxLogRecordHeaderSize_def)

section \<open>Atomicity of a commit\<close>

text \<open>
  Property C2. A batch is committed as a whole or not at all. Take a batch with pending writes that
  holds the database lock. \<open>Commit\<close> never panics and always releases the lock. When it
  returns nil, every later reader sees exactly what the batch saw: the pending writes over the
  stored keys; the log has grown by one chunk per record and the end-of-batch record, all
  under the batch id, and the events of the records are in the watch queue. When it returns
  an error (a failed write, maybe torn, or a failed sync), every reader at any time sees the
  database as it was before and no event is queued.
\<close>

theorem commit_atomic:
  assumes "engine E bt_inv w_inv pend" and "db_inv E bt_inv w_inv pend d" and "batch_open E b"
    and "\<not> closed d" and "\<not> ReadOnly (batch_options b)" and "pendingWrites b \<noteq> []" and "writer (mu d)"
    and "batch_Commit E i now d b = (r, d', b')"
  shows "db_inv E bt_inv w_inv pend d' \<and> mu d' = (mu d)\<lparr>writer := False\<rparr> \<and>
    (case r of
       Ok _ \<Rightarrow> (\<forall>t. sint now \<le> sint t \<longrightarrow> db_view E t d' = batch_view E t d b)
               \<and> (\<exists>ps. length ps = length (batch_chunks E i b) \<and> log_grew E d d' ps (batch_chunks E i b))
               \<and> posted (options d) (batch_records i b) (db_watcher d) (db_watcher d')
     | Fail _ \<Rightarrow> (\<forall>t. db_view E t d' = db_view E t d) \<and> db_watcher d' = db_watcher d
     | Panic \<Rightarrow> False)"
  by (rule engine.Commit_atomic[OF assms])

theorem commit_atomic_witness:
  "let (r, d', b') = batch_Commit ref_env 7 5 ref_locked ref_batch in
     r = Ok () \<and> (\<forall>t. sint (5 :: int64) \<le> sint t \<longrightarrow> db_view ref_env t d' = batch_view ref_env t ref_locked ref_batch)"
proof -
  have ok: "fst (batch_Commit ref_env 7 5 ref_locked ref_batch) = Ok ()" by code_simp
  have g: "\<not> closed ref_locked" "\<not> ReadOnly (batch_options ref_batch)" "pendingWrites ref_batch \<noteq> []"
    "writer (mu ref_locked)" by code_simp+
  obtain r d' b' where r: "batch_Commit ref_env 7 5 ref_locked ref_batch = (r, d', b')" by (cases "batch_Commit ref_env 7 5 ref_locked ref_batch")
  from commit_atomic[OF ref.engine_axioms ref_locked_inv ref_batch_open g r] ok r
  show ?thesis by simp
qed

end
