(* ===== verification/Recovery.thy ===== *)
theory Recovery
  imports Commit_Correct
begin

text \<open>
  \<open>DB.loadIndexFromWAL\<close>: the index is rebuilt from the log when a database is opened. The
  records of a batch are kept aside under the batch's identifier until the record that ends
  the batch is met; a record that has expired takes its key out of the index at once. The
  lemmas relate the rebuilt index to the one of the running database.
\<close>

section \<open>Loading\<close>

record IndexRecord =
  idx_key :: bytes
  recordType :: byte
  idx_position :: chunk_position

type_synonym index_records = "(uint64 \<times> IndexRecord list) list"

text \<open>\<open>indexRecords[batchId]\<close>, nil when absent.\<close>

definition get_records :: "index_records \<Rightarrow> uint64 \<Rightarrow> IndexRecord list" where
  "get_records recs batchId = (case map_of recs batchId of None \<Rightarrow> [] | Some xs \<Rightarrow> xs)"

definition mergeFinishedBatchID :: uint64 where "mergeFinishedBatchID = 0"

fun apply_records :: "('t, 'w) env \<Rightarrow> IndexRecord list \<Rightarrow> 't MemoryBTree \<Rightarrow> 't MemoryBTree" where
  "apply_records E [] mt = mt"
| "apply_records E (x # xs) mt =
     (let mt = (if recordType x = LogRecordNormal then fst (mt_Put (Bt E) mt (idx_key x) (idx_position x)) else mt);
          mt = (if recordType x = LogRecordDeleted then fst (mt_Delete (Bt E) mt (idx_key x)) else mt)
      in apply_records E xs mt)"

definition load_record ::
    "('t, 'w) env \<Rightarrow> int64 \<Rightarrow> chunk_position \<Rightarrow> bytes \<Rightarrow> 't MemoryBTree \<times> index_records
       \<Rightarrow> ('t MemoryBTree \<times> index_records) result" where
  "load_record E now position chunk s =
     (case s of (mt, recs) \<Rightarrow>
        (case decodeLogRecord chunk of
           None \<Rightarrow> Panic
         | Some r \<Rightarrow>
             if Type r = LogRecordBatchFinished
             then (case ParseBytes E (Key r) of
                     None \<Rightarrow> Fail (ErrExternal 0)
                   | Some batchId \<Rightarrow>
                       Ok (apply_records E (get_records recs batchId) mt, AList.delete batchId recs))
             else if Type r = LogRecordNormal \<and> BatchId r = mergeFinishedBatchID
             then Ok (fst (mt_Put (Bt E) mt (Key r) position), recs)
             else if IsExpired r now then Ok (fst (mt_Delete (Bt E) mt (Key r)), recs)
             else Ok (mt, AList.update (BatchId r)
                           (get_records recs (BatchId r)
                              @ [\<lparr>idx_key = Key r, recordType = Type r, idx_position = position\<rparr>]) recs)))"

fun load_chunks ::
    "('t, 'w) env \<Rightarrow> int64 \<Rightarrow> (chunk_position \<times> bytes) list \<Rightarrow> 't MemoryBTree \<times> index_records
       \<Rightarrow> ('t MemoryBTree \<times> index_records) result" where
  "load_chunks E now [] s = Ok s"
| "load_chunks E now ((position, chunk) # cs) s =
     (case load_record E now position chunk s of
        Ok s' \<Rightarrow> load_chunks E now cs s'
      | Fail e \<Rightarrow> Fail e
      | Panic \<Rightarrow> Panic)"

text \<open>
  The reader of the log, over the segments \<open>segments\<close>, skips every one up to
  \<open>mergeFinSegmentId\<close>; when none is left, \<open>CurrentSegmentId\<close> indexes beyond its readers and
  panics. An error of the reader within a skipped segment is not distinguished from one
  behind it. The database of an unsuccessful load is dropped by \<open>Open\<close>.
\<close>

definition loadIndexFromWAL ::
    "('t, 'w) env \<Rightarrow> uint32 list \<Rightarrow> uint32 \<Rightarrow> int64 \<Rightarrow> ('t, 'w) DB \<Rightarrow> ('t, 'w) DB result" where
  "loadIndexFromWAL E segments mergeFinSegmentId now d =
     (if \<forall>i \<in> set segments. i \<le> mergeFinSegmentId then Panic
      else case w_Chunks (Wl E) (dataFiles d) of
        (chunks, err) \<Rightarrow>
          (case load_chunks E now (filter (\<lambda>x. mergeFinSegmentId < SegmentId (fst x)) chunks) (index d, []) of
             Panic \<Rightarrow> Panic
           | Fail e \<Rightarrow> Fail e
           | Ok (mt, recs) \<Rightarrow> (case err of Some e \<Rightarrow> Fail e | None \<Rightarrow> Ok (d\<lparr>index := mt\<rparr>))))"

section \<open>Loading a batch\<close>

lemma load_chunks_append:
  "load_chunks E now (xs @ ys) s =
     (case load_chunks E now xs s of Ok s' \<Rightarrow> load_chunks E now ys s' | Fail e \<Rightarrow> Fail e | Panic \<Rightarrow> Panic)"
  by (induction xs arbitrary: s) (auto split: result.split)

lemma get_records_update [simp]:
  "get_records (AList.update i xs recs) j = (if j = i then xs else get_records recs j)"
  by (simp add: get_records_def update_conv)

lemma get_records_delete [simp]:
  "get_records (AList.delete i recs) j = (if j = i then [] else get_records recs j)"
  by (simp add: get_records_def delete_conv)

lemma get_records_Nil [simp]: "get_records [] j = []"
  by (simp add: get_records_def)

text \<open>The records of a batch that are kept aside.\<close>

definition aside :: "int64 \<Rightarrow> (log_record \<times> chunk_position) list \<Rightarrow> IndexRecord list" where
  "aside now xs = map (\<lambda>(r, p). \<lparr>idx_key = Key r, recordType = Type r, idx_position = p\<rparr>)
                    (filter (\<lambda>(r, p). \<not> IsExpired r now) xs)"

text \<open>
  Loading the log at time \<open>t\<close> gives the same view from \<open>t\<close> on, and leaves records aside
  under the identifiers of \<open>U\<close> only: those of batches whose end is missing.
\<close>

definition log_recoverable ::
    "('t, 'w) env \<Rightarrow> ('t \<Rightarrow> bool) \<Rightarrow> ('w \<Rightarrow> bool) \<Rightarrow> ('w \<Rightarrow> bytes list) \<Rightarrow> int64 \<Rightarrow> uint64 set
       \<Rightarrow> ('t, 'w) DB \<Rightarrow> bool" where
  "log_recoverable E bt_inv w_inv pend t U d \<longleftrightarrow>
     (\<exists>mt recs. load_chunks E t (wal_log (Wl E) (dataFiles d)) (NewIndexer (Bt E), []) = Ok (mt, recs)
        \<and> db_inv E bt_inv w_inv pend (d\<lparr>index := mt\<rparr>) \<and> (\<forall>j. j \<notin> U \<longrightarrow> get_records recs j = [])
        \<and> (\<forall>t'. sint t \<le> sint t' \<longrightarrow> db_view E t' (d\<lparr>index := mt\<rparr>) = db_view E t' d))"

context engine
begin

lemma load_batch:
  assumes "\<forall>(r, p) \<in> set xs. record_fits r \<and> Type r \<in> {LogRecordNormal, LogRecordDeleted} \<and> BatchId r = i"
    and "i \<noteq> 0" and "mt_inv bt_inv mt"
  shows "\<exists>mt' recs'. load_chunks E now (map (\<lambda>(r, p). (p, chunk_of r)) xs) (mt, recs) = Ok (mt', recs')
     \<and> mt_inv bt_inv mt'
     \<and> (\<forall>k. mt_Get (Bt E) mt' k
          = (if \<exists>(r, p) \<in> set xs. Key r = k \<and> IsExpired r now then None else mt_Get (Bt E) mt k))
     \<and> (\<forall>j. get_records recs' j = (if j = i then get_records recs i @ aside now xs else get_records recs j))"
  using assms
proof (induction xs arbitrary: mt recs)
  case Nil
  then show ?case by (simp add: aside_def)
next
  case (Cons a xs)
  obtain r p where a: "a = (r, p)" by (cases a)
  have r: "record_fits r" "Type r \<in> {LogRecordNormal, LogRecordDeleted}" "BatchId r = i"
    and xs: "\<forall>(r, p) \<in> set xs. record_fits r \<and> Type r \<in> {LogRecordNormal, LogRecordDeleted} \<and> BatchId r = i"
    using Cons.prems(1) a by auto
  have nf: "Type r \<noteq> LogRecordBatchFinished" "\<not> (Type r = LogRecordNormal \<and> BatchId r = mergeFinishedBatchID)"
    using r Cons.prems(2) by (auto simp: mergeFinishedBatchID_def)
  show ?case
  proof (cases "IsExpired r now")
    case True
    let ?mt = "fst (mt_Delete (Bt E) mt (Key r))"
    have l: "load_record E now p (chunk_of r) (mt, recs) = Ok (?mt, recs)"
      using decode_chunk_of[OF r(1)] nf True by (auto simp: load_record_def)
    have m: "mt_inv bt_inv ?mt" using ix.delete_inv Cons.prems(3) by simp
    obtain mt' recs' where IH: "load_chunks E now (map (\<lambda>(r, p). (p, chunk_of r)) xs) (?mt, recs) = Ok (mt', recs')"
      "mt_inv bt_inv mt'"
      "\<And>k. mt_Get (Bt E) mt' k
          = (if \<exists>(r, p) \<in> set xs. Key r = k \<and> IsExpired r now then None else mt_Get (Bt E) ?mt k)"
      "\<And>j. get_records recs' j = (if j = i then get_records recs i @ aside now xs else get_records recs j)"
      using Cons.IH[OF xs Cons.prems(2) m, of recs] by blast
    have g: "mt_Get (Bt E) ?mt k = (if k = Key r then None else mt_Get (Bt E) mt k)" for k
      by (rule ix.get_delete[OF Cons.prems(3)])
    show ?thesis
      using IH l a True g by (intro exI[of _ mt'] exI[of _ recs']) (auto simp: aside_def)
  next
    case False
    let ?recs = "AList.update i (get_records recs i
        @ [\<lparr>idx_key = Key r, recordType = Type r, idx_position = p\<rparr>]) recs"
    have l: "load_record E now p (chunk_of r) (mt, recs) = Ok (mt, ?recs)"
      using decode_chunk_of[OF r(1)] nf False r(3) by (auto simp: load_record_def)
    obtain mt' recs' where IH: "load_chunks E now (map (\<lambda>(r, p). (p, chunk_of r)) xs) (mt, ?recs) = Ok (mt', recs')"
      "mt_inv bt_inv mt'"
      "\<And>k. mt_Get (Bt E) mt' k
          = (if \<exists>(r, p) \<in> set xs. Key r = k \<and> IsExpired r now then None else mt_Get (Bt E) mt k)"
      "\<And>j. get_records recs' j = (if j = i then get_records ?recs i @ aside now xs else get_records ?recs j)"
      using Cons.IH[OF xs Cons.prems(2,3), of ?recs] by blast
    show ?thesis
      using IH l a False by (intro exI[of _ mt'] exI[of _ recs']) (auto simp: aside_def)
  qed
qed

lemma apply_records_get:
  assumes "mt_inv bt_inv mt" and "distinct (map idx_key xs)"
    and "\<forall>x \<in> set xs. recordType x \<in> {LogRecordNormal, LogRecordDeleted}"
  shows "mt_inv bt_inv (apply_records E xs mt)"
    and "x \<in> set xs \<Longrightarrow> mt_Get (Bt E) (apply_records E xs mt) (idx_key x)
           = (if recordType x = LogRecordDeleted then None else Some (idx_position x))"
    and "k \<notin> idx_key ` set xs \<Longrightarrow> mt_Get (Bt E) (apply_records E xs mt) k = mt_Get (Bt E) mt k"
proof -
  have "mt_inv bt_inv (apply_records E xs mt)
    \<and> (\<forall>x \<in> set xs. mt_Get (Bt E) (apply_records E xs mt) (idx_key x)
           = (if recordType x = LogRecordDeleted then None else Some (idx_position x)))
    \<and> (\<forall>k. k \<notin> idx_key ` set xs \<longrightarrow> mt_Get (Bt E) (apply_records E xs mt) k = mt_Get (Bt E) mt k)"
    using assms
  proof (induction xs arbitrary: mt)
    case Nil
    then show ?case by simp
  next
    case (Cons a xs)
    let ?mt = "if recordType a = LogRecordDeleted then fst (mt_Delete (Bt E) mt (idx_key a))
        else fst (mt_Put (Bt E) mt (idx_key a) (idx_position a))"
    have t: "recordType a = LogRecordNormal \<or> recordType a = LogRecordDeleted" using Cons.prems(3) by simp
    have e: "apply_records E (a # xs) mt = apply_records E xs ?mt" using t by auto
    have i: "mt_inv bt_inv ?mt" using ix.put_inv ix.delete_inv Cons.prems(1) by simp
    have g: "mt_Get (Bt E) ?mt k = (if k = idx_key a
        then (if recordType a = LogRecordDeleted then None else Some (idx_position a)) else mt_Get (Bt E) mt k)" for k
      using ix.get_put[OF Cons.prems(1)] ix.get_delete[OF Cons.prems(1)] by simp
    have "distinct (map idx_key xs)" "idx_key a \<notin> idx_key ` set xs"
      and "\<forall>x \<in> set xs. recordType x \<in> {LogRecordNormal, LogRecordDeleted}"
      using Cons.prems(2,3) by auto
    from Cons.IH[OF i this(1,3)] this(2) show ?case unfolding e using g by auto
  qed
  then show "mt_inv bt_inv (apply_records E xs mt)"
    and "x \<in> set xs \<Longrightarrow> mt_Get (Bt E) (apply_records E xs mt) (idx_key x)
           = (if recordType x = LogRecordDeleted then None else Some (idx_position x))"
    and "k \<notin> idx_key ` set xs \<Longrightarrow> mt_Get (Bt E) (apply_records E xs mt) k = mt_Get (Bt E) mt k"
    by blast+
qed

section \<open>A log that can be recovered\<close>

abbreviation recoverable :: "int64 \<Rightarrow> uint64 set \<Rightarrow> ('t, 'w) DB \<Rightarrow> bool" where
  "recoverable \<equiv> log_recoverable E bt_inv w_inv pend"

lemma batch_pairs:
  assumes b: "batch_open E b" and rp: "(r, p) \<in> set (zip (batch_records i b) ps)"
  shows "record_fits r" and "Type r \<in> {LogRecordNormal, LogRecordDeleted}" and "BatchId r = i"
proof -
  have "r \<in> set (batch_records i b)" using rp by (auto dest: set_zip_leftD)
  then show "record_fits r" and "Type r \<in> {LogRecordNormal, LogRecordDeleted}" and "BatchId r = i"
    using batch_records_open(2,3)[OF b, of i] by (auto simp: batch_records_def)
qed

lemma batch_pairs_all:
  assumes "batch_open E b"
  shows "\<forall>(r, p) \<in> set (zip (batch_records i b) ps).
    record_fits r \<and> Type r \<in> {LogRecordNormal, LogRecordDeleted} \<and> BatchId r = i"
proof
  fix x
  assume x: "x \<in> set (zip (batch_records i b) ps)"
  obtain r p where "x = (r, p)" by (rule prod.exhaust)
  then show "case x of (r, p) \<Rightarrow> record_fits r \<and> Type r \<in> {LogRecordNormal, LogRecordDeleted} \<and> BatchId r = i"
    using batch_pairs[OF assms, of r p i ps] x by simp
qed

lemma zip_chunks: "zip ps (map chunk_of rs) = map (\<lambda>(r, p). (p, chunk_of r)) (zip rs ps)"
  by (induction rs arbitrary: ps) (auto simp: zip_Cons zip_Cons1 split: list.split)

text \<open>A whole batch replayed: the index gets what \<open>Commit\<close> gives it.\<close>

lemma load_whole_batch:
  assumes b: "batch_open E b" and i: "i \<noteq> 0" and mt: "mt_inv bt_inv mt" and recs: "get_records recs i = []"
    and n: "length ps = length (batch_chunks E i b)"
  obtains mt' recs' where "load_chunks E t (zip ps (batch_chunks E i b)) (mt, recs) = Ok (mt', recs')"
    and "mt_inv bt_inv mt'" and "\<And>j. get_records recs' j = (if j = i then [] else get_records recs j)"
    and "\<And>k. mt_Get (Bt E) mt' k = (case placed t (batch_records i b) ps k of
              None \<Rightarrow> mt_Get (Bt E) mt k | Some x \<Rightarrow> x)"
proof -
  let ?rs = "batch_records i b"
  let ?xs = "zip ?rs ps"
  note bp = batch_pairs[OF b]
  have len: "length ps = Suc (length ?rs)" using n by (simp add: batch_chunks_def)
  then have pl: "ps = butlast ps @ [last ps]" "length (butlast ps) = length ?rs"
    by (metis append_butlast_last_id list.size(3) nat.distinct(1), simp)
  have z: "zip ps (batch_chunks E i b) = map (\<lambda>(r, p). (p, chunk_of r)) ?xs @ [(last ps, chunk_of (end_record E i))]"
  proof -
    have "zip ps (batch_chunks E i b) = zip (butlast ps @ [last ps]) (map chunk_of ?rs @ [chunk_of (end_record E i)])"
      using pl(1) by (simp add: batch_chunks_def)
    also have "\<dots> = zip (butlast ps) (map chunk_of ?rs) @ [(last ps, chunk_of (end_record E i))]"
      using pl(2) by (subst zip_append) simp_all
    also have "zip (butlast ps) (map chunk_of ?rs) = map (\<lambda>(r, p). (p, chunk_of r)) (zip ?rs (butlast ps))"
      by (rule zip_chunks)
    also have "zip ?rs (butlast ps) = ?xs"
      by (metis pl append_Nil2 zip_Nil zip_append)
    finally show ?thesis .
  qed
  have allb: "\<forall>(r, p) \<in> set ?xs. record_fits r \<and> Type r \<in> {LogRecordNormal, LogRecordDeleted} \<and> BatchId r = i"
    by (rule batch_pairs_all[OF b])
  obtain mt1 recs1 where l1: "load_chunks E t (map (\<lambda>(r, p). (p, chunk_of r)) ?xs) (mt, recs) = Ok (mt1, recs1)"
    "mt_inv bt_inv mt1"
    and g1: "\<And>k. mt_Get (Bt E) mt1 k = (if \<exists>(r, p) \<in> set ?xs. Key r = k \<and> IsExpired r t then None else mt_Get (Bt E) mt k)"
    and r1: "\<And>j. get_records recs1 j = (if j = i then aside t ?xs else get_records recs j)"
    using load_batch[OF allb i mt, of t recs] recs by auto
  have e: "decodeLogRecord (chunk_of (end_record E i)) = Some (end_record E i)"
    by (rule decode_chunk_of[OF end_record_fits])
  let ?mt = "apply_records E (aside t ?xs) mt1" and ?recs = "AList.delete i recs1"
  have l2: "load_chunks E t (zip ps (batch_chunks E i b)) (mt, recs) = Ok (?mt, ?recs)"
    unfolding z load_chunks_append l1(1) using e r1[of i] Parse_id by (simp add: load_record_def end_record_def)
  have dk: "distinct (map idx_key (aside t ?xs))"
  proof -
    have "map idx_key (aside t ?xs) = map (\<lambda>(r, p). Key r) (filter (\<lambda>(r, p). \<not> IsExpired r t) ?xs)"
      by (simp add: aside_def comp_def case_prod_unfold)
    moreover have "map (\<lambda>(r, p). Key r) ?xs = map Key ?rs"
    proof -
      have "map (\<lambda>(r, p). Key r) ?xs = map Key (map fst ?xs)" by (simp add: case_prod_unfold)
      also have "map fst ?xs = ?rs" using len by (simp add: map_fst_zip_take)
      finally show ?thesis .
    qed
    then have "distinct (map (\<lambda>(r, p). Key r) ?xs)" using batch_records_open(1)[OF b, of i] by simp
    ultimately show ?thesis by (metis distinct_map_filter)
  qed
  have ty: "\<forall>x \<in> set (aside t ?xs). recordType x \<in> {LogRecordNormal, LogRecordDeleted}"
    using allb by (fastforce simp: aside_def)
  note ar = apply_records_get[OF l1(2) dk ty]
  show ?thesis
  proof (rule that[OF l2 ar(1)])
    show "get_records ?recs j = (if j = i then [] else get_records recs j)" for j using r1[of j] by simp
    show "mt_Get (Bt E) ?mt k = (case placed t ?rs ps k of None \<Rightarrow> mt_Get (Bt E) mt k | Some x \<Rightarrow> x)" for k
    proof (cases "k \<in> Key ` set ?rs")
      case False
      then have "k \<notin> idx_key ` set (aside t ?xs)" "\<not> (\<exists>(r, p) \<in> set ?xs. Key r = k \<and> IsExpired r t)"
        by (auto simp: aside_def dest: set_zip_leftD)
      then show ?thesis using ar(3)[of k] g1[of k] placed_absent[OF False] by simp
    next
      case True
      then obtain r where r: "r \<in> set ?rs" "Key r = k" by blast
      have lp: "length ?rs \<le> length ps" using len by simp
      obtain p where rp: "(r, p) \<in> set ?xs" by (rule zip_left_exists[OF r(1) lp])
      note pp = placed_present[OF lp batch_records_open(1)[OF b] rp, of t]
      show ?thesis
      proof (cases "IsExpired r t")
        case True
        have "k \<notin> idx_key ` set (aside t ?xs)"
        proof
          assume "k \<in> idx_key ` set (aside t ?xs)"
          then obtain r' p' where "(r', p') \<in> set ?xs" "Key r' = k" "\<not> IsExpired r' t" by (auto simp: aside_def)
          moreover from this have "r' \<in> set ?rs" by (auto dest: set_zip_leftD)
          moreover have "inj_on Key (set ?rs)" using batch_records_open(1)[OF b, of i, unfolded distinct_map] by blast
          ultimately have "r' = r" "\<not> IsExpired r' t" using r by (simp_all add: inj_onD)
          then show False using True by simp
        qed
        moreover have "mt_Get (Bt E) mt1 k = None" using g1[of k] rp r(2) True by auto
        ultimately show ?thesis using ar(3)[of k] pp r(2) True by simp
      next
        case False
        let ?x = "\<lparr>idx_key = k, recordType = Type r, idx_position = p\<rparr>"
        have "?x \<in> set (aside t ?xs)" using rp False r(2) by (force simp: aside_def)
        from ar(2)[OF this] show ?thesis using pp r(2) False by simp
      qed
    qed
  qed
qed

lemma index_only_view:
  assumes "\<And>t. sint t0 \<le> sint t \<Longrightarrow> db_view E t (d\<lparr>index := mt\<rparr>) = db_view E t d" and "sint t0 \<le> sint t"
  shows "batch_view E t (d\<lparr>index := mt\<rparr>) b = batch_view E t d b"
  using assms by (simp add: batch_view_def fun_eq_iff split: option.split)

lemma recoverable_commit:
  assumes r: "recoverable t U d" and d: "dinv d" and b: "batch_open E b" and i: "i \<noteq> 0" "i \<notin> U"
    and cd: "commit_done i now d d' b b'" and le: "sint now \<le> sint t"
    and g: "log_grew E d d' ps (batch_chunks E i b)" and n: "length ps = length (batch_chunks E i b)"
  shows "recoverable t U d'"
proof -
  obtain mt recs where l: "load_chunks E t (wal_log (Wl E) (dataFiles d)) (NewIndexer (Bt E), []) = Ok (mt, recs)"
    and dm: "dinv (d\<lparr>index := mt\<rparr>)" and u: "\<And>j. j \<notin> U \<Longrightarrow> get_records recs j = []"
    and v: "\<And>t'. sint t \<le> sint t' \<Longrightarrow> db_view E t' (d\<lparr>index := mt\<rparr>) = db_view E t' d"
    using r unfolding log_recoverable_def by blast
  have mi: "mt_inv bt_inv mt" using dm by (simp add: db_inv_def)
  obtain mt' recs' where l': "load_chunks E t (zip ps (batch_chunks E i b)) (mt, recs) = Ok (mt', recs')"
    and mi': "mt_inv bt_inv mt'" and u': "\<And>j. get_records recs' j = (if j = i then [] else get_records recs j)"
    and g': "\<And>k. mt_Get (Bt E) mt' k = (case placed t (batch_records i b) ps k of
              None \<Rightarrow> mt_Get (Bt E) mt k | Some x \<Rightarrow> x)"
    using load_whole_batch[OF b i(1) mi u[OF i(2)] n, of t] by blast
  have w: "w_inv (dataFiles d')" "pend (dataFiles d') = []" "watcher_ok (options d) (db_watcher d')"
    using cd same_controlD(3)[of d d'] by (simp_all add: commit_done_def db_inv_def watcher_ok_def)
  have log: "wal_log (Wl E) (dataFiles d') = wal_log (Wl E) (dataFiles (d\<lparr>index := mt\<rparr>)) @ zip ps (batch_chunks E i b)"
    using g by (simp add: log_grew_def)
  have "d' = d\<lparr>dataFiles := dataFiles d', index := index d', db_watcher := db_watcher d'\<rparr>"
    using cd by (simp add: commit_done_def same_control_def)
  then have s: "d'\<lparr>index := mt'\<rparr> = d\<lparr>index := mt, dataFiles := dataFiles d', index := mt', db_watcher := db_watcher d'\<rparr>"
    by (cases d; cases d') simp
  have w3: "watcher_ok (options (d\<lparr>index := mt\<rparr>)) (db_watcher d')" using w(3) by simp
  have g3: "mt_Get (Bt E) mt' k = (case placed t (batch_records i b) ps k of
      None \<Rightarrow> mt_Get (Bt E) (index (d\<lparr>index := mt\<rparr>)) k | Some x \<Rightarrow> x)" for k
    using g'[of k] by (simp split: option.split)
  note cs = committed_state[OF dm b w(1,2) log n mi' w3 g3]
  have "db_view E t' (d'\<lparr>index := mt'\<rparr>) = db_view E t' d'" if t': "sint t \<le> sint t'" for t'
  proof -
    have "db_view E t' (d'\<lparr>index := mt'\<rparr>) = batch_view E t' (d\<lparr>index := mt\<rparr>) b"
      using cs(2)[OF t'] unfolding s by simp
    also have "\<dots> = batch_view E t' d b" by (rule index_only_view[OF v t'])
    also have "\<dots> = db_view E t' d'" using cd t' le by (simp add: commit_done_def)
    finally show ?thesis .
  qed
  moreover have "load_chunks E t (wal_log (Wl E) (dataFiles d')) (NewIndexer (Bt E), []) = Ok (mt', recs')"
    using l l' g by (simp add: log_grew_def load_chunks_append)
  moreover have "dinv (d'\<lparr>index := mt'\<rparr>)" using cs(1) unfolding s by simp
  ultimately show ?thesis unfolding log_recoverable_def using u' u by auto
qed

text \<open>A batch torn by a failed write stays invisible while none of its records has expired.\<close>

lemma recoverable_torn:
  assumes r: "recoverable t U d" and b: "batch_open E b" and i: "i \<noteq> 0"
    and cf: "commit_failed d d' b b'" and g: "log_grew E d d' ps (batch_chunks E i b)"
    and n: "length ps < length (batch_chunks E i b)" and x: "\<forall>r \<in> set (pendingWrites b). \<not> IsExpired r t"
  shows "recoverable t (insert i U) d'"
proof -
  obtain mt recs where l: "load_chunks E t (wal_log (Wl E) (dataFiles d)) (NewIndexer (Bt E), []) = Ok (mt, recs)"
    and dm: "dinv (d\<lparr>index := mt\<rparr>)" and u: "\<And>j. j \<notin> U \<Longrightarrow> get_records recs j = []"
    and v: "\<And>t'. sint t \<le> sint t' \<Longrightarrow> db_view E t' (d\<lparr>index := mt\<rparr>) = db_view E t' d"
    using r unfolding log_recoverable_def by blast
  have mi: "mt_inv bt_inv mt" using dm by (simp add: db_inv_def)
  let ?xs = "zip (batch_records i b) ps"
  have "zip ps (batch_chunks E i b) = zip ps (map chunk_of (batch_records i b))"
    using n by (simp add: batch_chunks_def zip_append2 less_Suc_eq_le)
  then have z: "zip ps (batch_chunks E i b) = map (\<lambda>(r, p). (p, chunk_of r)) ?xs" by (simp add: zip_chunks)
  have allb: "\<forall>(r, p) \<in> set ?xs. record_fits r \<and> Type r \<in> {LogRecordNormal, LogRecordDeleted} \<and> BatchId r = i"
    by (rule batch_pairs_all[OF b])
  have fresh: "\<not> (\<exists>(r, p) \<in> set ?xs. Key r = k \<and> IsExpired r t)" for k
    using x by (auto simp: batch_records_def IsExpired_def dest!: set_zip_leftD)
  obtain mt' recs' where l': "load_chunks E t (zip ps (batch_chunks E i b)) (mt, recs) = Ok (mt', recs')"
    and mi': "mt_inv bt_inv mt'" and g': "\<And>k. mt_Get (Bt E) mt' k = mt_Get (Bt E) mt k"
    and u': "\<And>j. j \<noteq> i \<Longrightarrow> get_records recs' j = get_records recs j"
    using load_batch[OF allb i mi, of t recs] fresh unfolding z by auto
  have dd: "d' = d\<lparr>dataFiles := dataFiles d', index := index d', db_watcher := db_watcher d'\<rparr>" "dinv d'"
    "db_watcher d' = db_watcher d" using cf unfolding commit_failed_def same_control_def by blast+
  have w: "w_inv (dataFiles d')" "pend (dataFiles d') = []" using dd(2) by (simp_all add: db_inv_def)
  have sub: "set (wal_log (Wl E) (dataFiles (d\<lparr>index := mt\<rparr>))) \<subseteq> set (wal_log (Wl E) (dataFiles d'))"
    using g by (auto simp: log_grew_def)
  note gl = grown_log[OF dm w sub]
  have st: "stored_rec E (d'\<lparr>index := mt'\<rparr>) = stored_rec E (d\<lparr>index := mt, dataFiles := dataFiles d'\<rparr>)"
    using g' by (auto simp: stored_rec_def fun_eq_iff split: option.split)
  have "db_view E t' (d'\<lparr>index := mt'\<rparr>) = db_view E t' d'" if t': "sint t \<le> sint t'" for t'
  proof -
    have "db_view E t' (d'\<lparr>index := mt'\<rparr>) = db_view E t' (d\<lparr>index := mt, dataFiles := dataFiles d'\<rparr>)"
      by (simp add: db_view_def st fun_eq_iff)
    also have "\<dots> = db_view E t' d" using gl(3)[of t'] v[OF t'] by simp
    also have "\<dots> = db_view E t' d'" using cf by (simp add: commit_failed_def)
    finally show ?thesis .
  qed
  moreover have "load_chunks E t (wal_log (Wl E) (dataFiles d')) (NewIndexer (Bt E), []) = Ok (mt', recs')"
    using l l' g by (simp add: log_grew_def load_chunks_append)
  moreover have "dinv (d'\<lparr>index := mt'\<rparr>)"
    using gl(1) mi' dd by (simp add: db_inv_def g')
  ultimately show ?thesis
    unfolding log_recoverable_def using u' u by (intro exI[of _ mt'] exI[of _ recs']) simp
qed

text \<open>Reading, and anything else that keeps log and view, keeps the log recoverable.\<close>

lemma recoverable_same:
  assumes "recoverable t U d" and "dataFiles d' = dataFiles d" and "options d' = options d" and "dinv d'"
    and "\<And>t'. sint t \<le> sint t' \<Longrightarrow> db_view E t' d' = db_view E t' d"
  shows "recoverable t U d'"
proof -
  obtain mt recs where l: "load_chunks E t (wal_log (Wl E) (dataFiles d)) (NewIndexer (Bt E), []) = Ok (mt, recs)"
    and dm: "dinv (d\<lparr>index := mt\<rparr>)" and u: "\<And>j. j \<notin> U \<Longrightarrow> get_records recs j = []"
    and v: "\<And>t'. sint t \<le> sint t' \<Longrightarrow> db_view E t' (d\<lparr>index := mt\<rparr>) = db_view E t' d"
    using assms(1) unfolding log_recoverable_def by blast
  have "db_view E t' (d'\<lparr>index := mt\<rparr>) = db_view E t' (d\<lparr>index := mt\<rparr>)" for t'
    using assms(2) by (auto simp: db_view_def stored_rec_def fun_eq_iff split: option.split)
  moreover have "dinv (d'\<lparr>index := mt\<rparr>)" using dm assms(2-4) by (simp add: db_inv_def)
  ultimately show ?thesis unfolding log_recoverable_def using l u v assms(2,5) by auto
qed

text \<open>The load itself, on a database that has just been opened.\<close>

lemma load_recoverable:
  assumes r: "recoverable t U d" and f: "\<forall>x \<in> set (wal_log (Wl E) (dataFiles d)). mergeFin < SegmentId (fst x)"
    and s: "\<exists>i \<in> set segments. mergeFin < i"
    and d: "dinv d" and oo: "dataFiles d0 = dataFiles d" "index d0 = NewIndexer (Bt E)" "options d0 = options d"
      "db_watcher d0 = db_watcher d"
  obtains d' where "loadIndexFromWAL E segments mergeFin t d0 = Ok d'" and "dinv d'"
    and "\<And>t'. sint t \<le> sint t' \<Longrightarrow> db_view E t' d' = db_view E t' d"
proof -
  obtain mt recs where l: "load_chunks E t (wal_log (Wl E) (dataFiles d)) (NewIndexer (Bt E), []) = Ok (mt, recs)"
    and dm: "dinv (d\<lparr>index := mt\<rparr>)"
    and v: "\<And>t'. sint t \<le> sint t' \<Longrightarrow> db_view E t' (d\<lparr>index := mt\<rparr>) = db_view E t' d"
    using r unfolding log_recoverable_def by blast
  have c: "w_Chunks (Wl E) (dataFiles d) = (wal_log (Wl E) (dataFiles d), None)"
    using Chunks_eof[of "dataFiles d"] d by (simp add: wal_log_def db_inv_def prod_eq_iff)
  have "filter (\<lambda>x. mergeFin < SegmentId (fst x)) (wal_log (Wl E) (dataFiles d)) = wal_log (Wl E) (dataFiles d)"
    using f by (simp add: filter_id_conv)
  moreover have "\<not> (\<forall>i \<in> set segments. i \<le> mergeFin)" using s by (auto simp: not_le)
  ultimately have "loadIndexFromWAL E segments mergeFin t d0 = Ok (d0\<lparr>index := mt\<rparr>)"
    using l oo by (simp add: loadIndexFromWAL_def c)
  moreover have "dinv (d0\<lparr>index := mt\<rparr>)" using dm oo by (simp add: db_inv_def)
  moreover have "db_view E t' (d0\<lparr>index := mt\<rparr>) = db_view E t' (d\<lparr>index := mt\<rparr>)" for t'
    using oo by (auto simp: db_view_def stored_rec_def fun_eq_iff split: option.split)
  ultimately show ?thesis using that v by simp
qed

end

end
