(* ===== verification/Database.thy ===== *)
theory Database
  imports Recovery
begin

text \<open>
  The operations of \<^verbatim>\<open>db.go\<close> on single keys: each opens a batch from the pool,
  performs one operation and commits it (or rolls it back). An operation that blocks on the
  database lock for ever is \<open>None\<close>. The abstract specification is a map from keys to values
  with expiry times (\<open>kv_step\<close>); the refinement shows that runs of the database are runs of
  this map, up to writes that fail.
\<close>

section \<open>One write, one read\<close>

text \<open>
  The shape shared by \<open>Put\<close>, \<open>PutWithTTL\<close>, \<open>Delete\<close>, \<open>Expire\<close> and
  \<open>Persist\<close>. The batch put back into the pool is reset, so a batch from the pool is
  \<open>newBatch\<close> up to its options, which \<open>init\<close> overwrites.
\<close>

definition single_write ::
    "('t, 'w) env \<Rightarrow> uint64 \<Rightarrow> int64 \<Rightarrow> (('t, 'w) DB \<Rightarrow> Batch \<Rightarrow> unit result \<times> ('t, 'w) DB \<times> Batch)
       \<Rightarrow> ('t, 'w) DB \<Rightarrow> (unit result \<times> ('t, 'w) DB) option" where
  "single_write E batchId now op d =
     (case batch_init False False newBatch d of
        None \<Rightarrow> None
      | Some (b, d) \<Rightarrow>
          Some (case op d b of
                  (Panic, d, b) \<Rightarrow> (Panic, d)
                | (Fail e, d, b) \<Rightarrow>
                    (case batch_Rollback d b of (Panic, d, b) \<Rightarrow> (Panic, d) | (_, d, b) \<Rightarrow> (Fail e, d))
                | (Ok _, d, b) \<Rightarrow> (case batch_Commit E batchId now d b of (r, d, b) \<Rightarrow> (r, d))))"

text \<open>
  The shape shared by \<open>Get\<close>, \<open>Exist\<close> and \<open>TTL\<close>: a read-only batch, whose
  \<open>Commit\<close> is deferred and its result ignored.
\<close>

definition single_read ::
    "('t, 'w) env \<Rightarrow> (('t, 'w) DB \<Rightarrow> Batch \<Rightarrow> 'a result \<times> ('t, 'w) DB)
       \<Rightarrow> ('t, 'w) DB \<Rightarrow> ('a result \<times> ('t, 'w) DB) option" where
  "single_read E op d =
     (case batch_init True False newBatch d of
        None \<Rightarrow> None
      | Some (b, d) \<Rightarrow>
          Some (case op d b of
                  (r, d) \<Rightarrow> (case batch_Commit E 0 0 d b of (Panic, d, b) \<Rightarrow> (Panic, d) | (_, d, b) \<Rightarrow> (r, d))))"

definition db_Put where
  "db_Put E batchId now key value d =
     single_write E batchId now (\<lambda>d b. case batch_Put E key value d b of (r, b) \<Rightarrow> (r, d, b)) d"

text \<open>\<open>now1\<close> is the clock when the batch operation runs, \<open>now\<close> when it is committed.\<close>

definition db_PutWithTTL where
  "db_PutWithTTL E batchId now1 now key value ttl d =
     single_write E batchId now (\<lambda>d b. case batch_PutWithTTL E now1 key value ttl d b of (r, b) \<Rightarrow> (r, d, b)) d"

definition db_Get where
  "db_Get E now key d = single_read E (batch_Get E now key) d"

definition db_Delete where
  "db_Delete E batchId now key d =
     single_write E batchId now (\<lambda>d b. case batch_Delete E key d b of (r, b) \<Rightarrow> (r, d, b)) d"

definition db_Exist where
  "db_Exist E now key d = single_read E (batch_Exist E now key) d"

definition db_Expire where
  "db_Expire E batchId now1 now2 now key ttl d =
     single_write E batchId now (batch_Expire E now1 now2 key ttl) d"

definition db_TTL where
  "db_TTL E now key d = single_read E (batch_TTL E now key) d"

definition db_Persist where
  "db_Persist E batchId now1 now key d = single_write E batchId now (batch_Persist E now1 key) d"

section \<open>Watch, Sync, Stat, Close, options\<close>

text \<open>The channel handed to the consumer is named by the watcher that feeds it.\<close>

definition db_Watch :: "('t, 'w) DB \<Rightarrow> watcher option result" where
  "db_Watch d = (if WatchQueueSize (options d) \<le> 0 then Fail ErrWatchDisabled else Ok (db_watcher d))"

text \<open>Running a section of code under the database lock, released on every way out.\<close>

definition with_Lock :: "(('t, 'w) DB \<Rightarrow> 'a \<times> ('t, 'w) DB) \<Rightarrow> ('t, 'w) DB \<Rightarrow> ('a \<times> ('t, 'w) DB) option" where
  "with_Lock body d =
     (case mutex_Lock (mu d) of
        None \<Rightarrow> None
      | Some m \<Rightarrow>
          (case body (d\<lparr>mu := m\<rparr>) of
             (x, d) \<Rightarrow> (case mutex_Unlock (mu d) of None \<Rightarrow> None | Some m \<Rightarrow> Some (x, d\<lparr>mu := m\<rparr>))))"

definition db_Sync where
  "db_Sync E d = with_Lock
     (\<lambda>d. case w_Sync (Wl E) (dataFiles d) of (e, w) \<Rightarrow> (e, d\<lparr>dataFiles := w\<rparr>)) d"

text \<open>\<open>Stat\<close>, with the size of the directory (\<open>None\<close> for an error) as an argument.\<close>

record Stat =
  KeysNum :: nat
  DiskSize :: int64

definition db_Stat :: "('t, 'w) env \<Rightarrow> int64 option \<Rightarrow> ('t, 'w) DB \<Rightarrow> (Stat option \<times> ('t, 'w) DB) option" where
  "db_Stat E diskSize d = with_Lock
     (\<lambda>d. (case diskSize of None \<Rightarrow> None
           | Some n \<Rightarrow> Some \<lparr>KeysNum = mt_Size (Bt E) (index d), DiskSize = n\<rparr>, d)) d"

text \<open>
  \<open>Close\<close> waits while a merge runs (\<open>None\<close>). What \<open>Close\<close> of the log does to it is the
  argument \<open>wclose\<close>; the errors of closing the hint file and of releasing the file lock are
  arguments too. The files are closed first: an error after that leaves them closed and the
  database with \<open>closed = False\<close>. Closing a watcher twice panics (\<open>None\<close> of
  \<open>close_watcher\<close>).
\<close>

definition close_watcher :: "('t, 'w) DB \<Rightarrow> ('t, 'w) DB option" where
  "close_watcher d =
     (if 0 < WatchQueueSize (options d)
      then case db_watcher d of
             None \<Rightarrow> None
           | Some w \<Rightarrow> if doneClosed w then None else Some (d\<lparr>db_watcher := Some (watcher_Close w)\<rparr>)
      else Some d)"

definition closeFiles ::
    "('w \<Rightarrow> go_error option \<times> 'w) \<Rightarrow> go_error option \<Rightarrow> ('t, 'w) DB \<Rightarrow> go_error option \<times> ('t, 'w) DB" where
  "closeFiles wclose hintErr d =
     (case wclose (dataFiles d) of
        (Some e, w) \<Rightarrow> (Some e, d\<lparr>dataFiles := w\<rparr>)
      | (None, w) \<Rightarrow> (hintErr, d\<lparr>dataFiles := w\<rparr>))"

definition close_body ::
    "('w \<Rightarrow> go_error option \<times> 'w) \<Rightarrow> go_error option \<Rightarrow> go_error option \<Rightarrow> ('t, 'w) DB \<Rightarrow> unit result \<times> ('t, 'w) DB" where
  "close_body wclose hintErr lockErr d =
     (case closeFiles wclose hintErr d of
        (Some e, d) \<Rightarrow> (Fail e, d)
      | (None, d) \<Rightarrow>
          (case lockErr of
             Some e \<Rightarrow> (Fail e, d)
           | None \<Rightarrow>
               (case close_watcher d of
                  None \<Rightarrow> (Panic, d)
                | Some d \<Rightarrow> (Ok (), d\<lparr>closed := True\<rparr>))))"

definition db_Close ::
    "('w \<Rightarrow> go_error option \<times> 'w) \<Rightarrow> go_error option \<Rightarrow> go_error option \<Rightarrow> ('t, 'w) DB \<Rightarrow> (unit result \<times> ('t, 'w) DB) option" where
  "db_Close wclose hintErr lockErr d =
     (if mergeRunning d then None else with_Lock (close_body wclose hintErr lockErr) d)"

text \<open>\<open>checkOptions\<close>; \<open>parses\<close> stands for the cron parser.\<close>

definition checkOptions :: "(bytes \<Rightarrow> go_error option) \<Rightarrow> Options \<Rightarrow> unit result" where
  "checkOptions parses opts =
     (if DirPath opts = [] then Fail (ErrText ''database dir path is empty'')
      else if SegmentSize opts \<le>s 0 then Fail (ErrText ''database data file size must be greater than 0'')
      else if 0 < length (AutoMergeCronExpr opts)
      then (case parses (AutoMergeCronExpr opts) of Some e \<Rightarrow> Fail e | None \<Rightarrow> Ok ())
      else Ok ())"

section \<open>The specification: a map with expiry times\<close>

type_synonym kv = "bytes \<Rightarrow> (bytes \<times> int64) option"

text \<open>The map as a reader at time \<open>t\<close> sees it.\<close>

definition kv_at :: "int64 \<Rightarrow> kv \<Rightarrow> kv" where
  "kv_at t M k = (case M k of None \<Rightarrow> None | Some (v, e) \<Rightarrow> entry_at t v e)"

lemma kv_at_upd [simp]: "kv_at t (M(k \<mapsto> (v, e))) = (kv_at t M)(k := entry_at t v e)"
  by (auto simp: kv_at_def)

lemma kv_at_del [simp]: "kv_at t (M(k := None)) = (kv_at t M)(k := None)"
  by (auto simp: kv_at_def)

lemma kv_at_empty [simp]: "kv_at t (\<lambda>k. None) = (\<lambda>k. None)"
  by (auto simp: kv_at_def)

datatype request =
    ReqPut bytes bytes
  | ReqPutWithTTL bytes bytes int64
  | ReqGet bytes
  | ReqDelete bytes
  | ReqExist bytes
  | ReqExpire bytes int64
  | ReqTTL bytes
  | ReqPersist bytes

datatype response =
    RspDone "unit result"
  | RspValue "bytes result"
  | RspBool "bool result"
  | RspTTL "int64 result"

fun req_key :: "request \<Rightarrow> bytes" where
  "req_key (ReqPut k v) = k"
| "req_key (ReqPutWithTTL k v ttl) = k"
| "req_key (ReqGet k) = k"
| "req_key (ReqDelete k) = k"
| "req_key (ReqExist k) = k"
| "req_key (ReqExpire k ttl) = k"
| "req_key (ReqTTL k) = k"
| "req_key (ReqPersist k) = k"

text \<open>The lengths a record can hold.\<close>

fun req_fits :: "request \<Rightarrow> bool" where
  "req_fits (ReqPut k v) = value_fits k v"
| "req_fits (ReqPutWithTTL k v ttl) = value_fits k v"
| "req_fits (ReqDelete k) = value_fits k []"
| "req_fits _ = True"

fun rejected :: "go_error \<Rightarrow> request \<Rightarrow> response" where
  "rejected e (ReqGet k) = RspValue (Fail e)"
| "rejected e (ReqExist k) = RspBool (Fail e)"
| "rejected e (ReqTTL k) = RspTTL (Fail e)"
| "rejected e _ = RspDone (Fail e)"

text \<open>A write succeeds, or fails with the error \<open>fault\<close> and changes nothing.\<close>

definition kv_write :: "go_error option \<Rightarrow> kv \<Rightarrow> kv \<Rightarrow> response \<times> kv" where
  "kv_write fault M M' =
     (case fault of None \<Rightarrow> (RspDone (Ok ()), M') | Some e \<Rightarrow> (RspDone (Fail e), M))"

definition kv_step :: "int64 \<Rightarrow> go_error option \<Rightarrow> request \<Rightarrow> kv \<Rightarrow> response \<times> kv" where
  "kv_step now fault req M =
     (if req_key req = [] then (rejected ErrKeyIsEmpty req, M)
      else case req of
        ReqPut k v \<Rightarrow> kv_write fault M (M(k \<mapsto> (v, 0)))
      | ReqPutWithTTL k v ttl \<Rightarrow> kv_write fault M (M(k \<mapsto> (v, now + ttl)))
      | ReqDelete k \<Rightarrow> kv_write fault M (M(k := None))
      | ReqExpire k ttl \<Rightarrow>
          (case kv_at now M k of
             None \<Rightarrow> (RspDone (Fail ErrKeyNotFound), M)
           | Some (v, e) \<Rightarrow> kv_write fault M (M(k \<mapsto> (v, now + ttl))))
      | ReqPersist k \<Rightarrow>
          (case kv_at now M k of
             None \<Rightarrow> (RspDone (Fail ErrKeyNotFound), M)
           | Some (v, e) \<Rightarrow> kv_write fault M (M(k \<mapsto> (v, 0))))
      | ReqGet k \<Rightarrow>
          (RspValue (case kv_at now M k of None \<Rightarrow> Fail ErrKeyNotFound | Some (v, e) \<Rightarrow> Ok v), M)
      | ReqExist k \<Rightarrow> (RspBool (Ok (kv_at now M k \<noteq> None)), M)
      | ReqTTL k \<Rightarrow>
          (RspTTL (case kv_at now M k of
                     None \<Rightarrow> Fail ErrKeyNotFound
                   | Some (v, e) \<Rightarrow> Ok (if 0 <s e then e - now else - 1)), M))"

section \<open>Requests to the database\<close>

text \<open>
  The identifier the batch gets and the readings of the clock: \<open>t_op\<close> and
  \<open>t_op2\<close> in the operation, \<open>t_commit\<close> in the commit.
\<close>

record ticket =
  batch_id :: uint64
  t_op :: int64
  t_op2 :: int64
  t_commit :: int64

fun db_request :: "('t, 'w) env \<Rightarrow> ticket \<Rightarrow> request \<Rightarrow> ('t, 'w) DB \<Rightarrow> (response \<times> ('t, 'w) DB) option" where
  "db_request E x (ReqPut k v) d = map_option (map_prod RspDone id) (db_Put E (batch_id x) (t_commit x) k v d)"
| "db_request E x (ReqPutWithTTL k v ttl) d =
     map_option (map_prod RspDone id) (db_PutWithTTL E (batch_id x) (t_op x) (t_commit x) k v ttl d)"
| "db_request E x (ReqGet k) d = map_option (map_prod RspValue id) (db_Get E (t_op x) k d)"
| "db_request E x (ReqDelete k) d = map_option (map_prod RspDone id) (db_Delete E (batch_id x) (t_commit x) k d)"
| "db_request E x (ReqExist k) d = map_option (map_prod RspBool id) (db_Exist E (t_op x) k d)"
| "db_request E x (ReqExpire k ttl) d =
     map_option (map_prod RspDone id) (db_Expire E (batch_id x) (t_op x) (t_op2 x) (t_commit x) k ttl d)"
| "db_request E x (ReqTTL k) d = map_option (map_prod RspTTL id) (db_TTL E (t_op x) k d)"
| "db_request E x (ReqPersist k) d =
     map_option (map_prod RspDone id) (db_Persist E (batch_id x) (t_op x) (t_commit x) k d)"

fun db_run :: "('t, 'w) env \<Rightarrow> (ticket \<times> request) list \<Rightarrow> ('t, 'w) DB \<Rightarrow> (response list \<times> ('t, 'w) DB) option" where
  "db_run E [] d = Some ([], d)"
| "db_run E ((x, req) # xs) d =
     (case db_request E x req d of
        None \<Rightarrow> None
      | Some (rsp, d') \<Rightarrow> (case db_run E xs d' of None \<Rightarrow> None | Some (rsps, d'') \<Rightarrow> Some (rsp # rsps, d'')))"

fun kv_run :: "((ticket \<times> request) \<times> go_error option) list \<Rightarrow> kv \<Rightarrow> response list \<times> kv" where
  "kv_run [] M = ([], M)"
| "kv_run (((x, req), fault) # xs) M =
     (case kv_step (t_op x) fault req M of
        (rsp, M') \<Rightarrow> (case kv_run xs M' of (rsps, M'') \<Rightarrow> (rsp # rsps, M'')))"

text \<open>The clock does not run backwards.\<close>

fun clock_ok :: "int64 \<Rightarrow> (ticket \<times> request) list \<Rightarrow> bool" where
  "clock_ok now [] = True"
| "clock_ok now ((x, req) # xs) =
     (sint now \<le> sint (t_op x) \<and> sint (t_op x) \<le> sint (t_commit x) \<and> clock_ok (t_commit x) xs)"

end
