(* ===== verification/Database_Spec.thy ===== *)
theory Database_Spec
  imports Database
begin

text \<open>
  The database refines the map with expiry times: each request answers as the map does, the
  invariant holds again, the lock is free again; by induction, so does every run.
\<close>

section \<open>The lock is invisible\<close>

definition idle :: "('t, 'w) DB \<Rightarrow> bool" where
  "idle d \<longleftrightarrow> \<not> writer (mu d) \<and> readers (mu d) = 0"

definition locked :: "('t, 'w) DB \<Rightarrow> ('t, 'w) DB" where
  "locked d = d\<lparr>mu := (mu d)\<lparr>writer := True\<rparr>\<rparr>"

definition rlocked :: "('t, 'w) DB \<Rightarrow> ('t, 'w) DB" where
  "rlocked d = d\<lparr>mu := (mu d)\<lparr>readers := Suc (readers (mu d))\<rparr>\<rparr>"

lemma db_view_mu [simp]: "db_view E t (d\<lparr>mu := m\<rparr>) = db_view E t d"
  by (auto simp: db_view_def stored_rec_def fun_eq_iff split: option.split)

lemma db_inv_mu [simp]: "db_inv E bt_inv w_inv pend (d\<lparr>mu := m\<rparr>) = db_inv E bt_inv w_inv pend d"
  by (simp add: db_inv_def)

lemma batch_view_mu [simp]: "batch_view E t (d\<lparr>mu := m\<rparr>) b = batch_view E t d b"
  by (auto simp: batch_view_def fun_eq_iff split: option.split)

text \<open>Reading leaves everything but the index alone.\<close>

lemma same_from_control:
  assumes "same_from E now d d'"
  shows "mu d' = mu d" and "closed d' = closed d" and "options d' = options d" and "dataFiles d' = dataFiles d"
  using assms by (cases d; cases d'; simp add: same_from_def)+

lemma locked_simps [simp]:
  "db_view E t (locked d) = db_view E t d" "batch_view E t (locked d) b = batch_view E t d b"
  "db_inv E bt_inv w_inv pend (locked d) = db_inv E bt_inv w_inv pend d"
  "closed (locked d) = closed d" "writer (mu (locked d))" "options (locked d) = options d"
  "dataFiles (locked d) = dataFiles d" "dataFiles (rlocked d) = dataFiles d"
  "db_view E t (rlocked d) = db_view E t d" "batch_view E t (rlocked d) b = batch_view E t d b"
  "db_inv E bt_inv w_inv pend (rlocked d) = db_inv E bt_inv w_inv pend d"
  "closed (rlocked d) = closed d" "options (rlocked d) = options d"
  by (simp_all add: locked_def rlocked_def)

lemma mutex_idle:
  assumes "idle d"
  shows "(mu (locked d))\<lparr>writer := False\<rparr> = mu d"
  using assms by (simp add: idle_def locked_def)

text \<open>The batches the pool hands out for a write and for a read.\<close>

definition write_batch :: Batch where
  "write_batch = newBatch\<lparr>batch_options := \<lparr>BatchSync = False, ReadOnly = False\<rparr>\<rparr>"

definition read_batch :: Batch where
  "read_batch = newBatch\<lparr>batch_options := \<lparr>BatchSync = False, ReadOnly = True\<rparr>\<rparr>"

lemma pool_batch [simp]:
  "batch_open E write_batch" "batch_open E read_batch" "batch_options write_batch = \<lparr>BatchSync = False, ReadOnly = False\<rparr>"
  "batch_options read_batch = \<lparr>BatchSync = False, ReadOnly = True\<rparr>"
  "pending_rec write_batch k = None" "pending_rec read_batch k = None"
  "batch_view E t d write_batch = db_view E t d" "batch_view E t d read_batch = db_view E t d"
  by (simp_all add: write_batch_def read_batch_def newBatch_def batch_open_def pending_rec_def batch_view_def fun_eq_iff)

lemma init_write: "idle d \<Longrightarrow> batch_init False False newBatch d = Some (write_batch, locked d)"
  by (simp add: batch_init_def batch_lock_def mutex_Lock_def idle_def write_batch_def locked_def)

lemma init_read: "\<not> writer (mu d) \<Longrightarrow> batch_init True False newBatch d = Some (read_batch, rlocked d)"
  by (simp add: batch_init_def batch_lock_def mutex_RLock_def read_batch_def rlocked_def)

lemma single_write_idle:
  assumes "idle d"
  shows "single_write E i now op d = Some (case op (locked d) write_batch of
      (Panic, d, b) \<Rightarrow> (Panic, d)
    | (Fail e, d, b) \<Rightarrow> (case batch_Rollback d b of (Panic, d, b) \<Rightarrow> (Panic, d) | (_, d, b) \<Rightarrow> (Fail e, d))
    | (Ok _, d, b) \<Rightarrow> (case batch_Commit E i now d b of (r, d, b) \<Rightarrow> (r, d)))"
  using assms by (simp add: single_write_def init_write)

definition db_map :: "('t, 'w) env \<Rightarrow> ('t, 'w) DB \<Rightarrow> kv" where
  "db_map E d k = map_option (\<lambda>r. (Value r, Expire r)) (stored_rec E d k)"

fun clock_end :: "int64 \<Rightarrow> (ticket \<times> request) list \<Rightarrow> int64" where
  "clock_end now [] = now"
| "clock_end now ((x, req) # xs) = clock_end (t_commit x) xs"

section \<open>Outcomes of a single operation\<close>

context engine
begin

definition settled :: "('t, 'w) DB \<Rightarrow> ('t, 'w) DB \<Rightarrow> bool" where
  "settled d d' \<longleftrightarrow> dinv d' \<and> mu d' = mu d \<and> closed d' = closed d \<and> options d' = options d
     \<and> set (wal_log (Wl E) (dataFiles d)) \<subseteq> set (wal_log (Wl E) (dataFiles d'))"

lemma settled_idle: "settled d d' \<Longrightarrow> idle d \<Longrightarrow> idle d'"
  by (simp add: settled_def idle_def)

lemma settled_trans: "settled d d1 \<Longrightarrow> settled d1 d2 \<Longrightarrow> settled d d2"
  by (auto simp: settled_def)

lemma log_grew_subset:
  "log_grew E (locked d) d1 ps cs \<Longrightarrow> set (wal_log (Wl E) (dataFiles d)) \<subseteq> set (wal_log (Wl E) (dataFiles d1))"
  by (auto simp: log_grew_def)

text \<open>The log stays one that can be recovered from time \<open>now\<close> on.\<close>

definition keeps_log :: "int64 \<Rightarrow> uint64 \<Rightarrow> ('t, 'w) DB \<Rightarrow> ('t, 'w) DB \<Rightarrow> bool" where
  "keeps_log now j d d' \<longleftrightarrow>
     (\<forall>t. sint now \<le> sint t \<longrightarrow> j \<noteq> 0 \<longrightarrow> recoverable t {} d \<longrightarrow> recoverable t {} d')"

lemma keeps_log_same:
  assumes "dataFiles d' = dataFiles d" and "options d' = options d" and "dinv d'"
    and "\<And>t. sint now \<le> sint t \<Longrightarrow> db_view E t d' = db_view E t d"
  shows "keeps_log now j d d'"
  using recoverable_same[OF _ assms(1-3)] assms(4) by (auto simp: keeps_log_def)

lemma keeps_log_later: "keeps_log now j d d' \<Longrightarrow> sint now \<le> sint now' \<Longrightarrow> keeps_log now' j d d'"
  by (simp add: keeps_log_def)

text \<open>A fault of a write is an error of the log and is reported; without one the log keeps up.\<close>

definition outcome ::
    "go_error option \<Rightarrow> response \<Rightarrow> int64 \<Rightarrow> uint64 \<Rightarrow> ('t, 'w) DB \<Rightarrow> ('t, 'w) DB \<Rightarrow> bool" where
  "outcome fault rsp now j d d' \<longleftrightarrow>
     (case fault of
        None \<Rightarrow> keeps_log now j d d'
      | Some e \<Rightarrow> log_error E w_inv e \<and> rsp = RspDone (Fail e))"

text \<open>A write that reached its commit.\<close>

lemma write_committed:
  assumes d: "dinv d" and i: "idle d" and c: "\<not> closed d" and b: "batch_open E b" "\<not> ReadOnly (batch_options b)"
  obtains r d' b' where "batch_Commit E j now (locked d) b = (r, d', b')" and "settled d d'"
    and "r = Ok () \<and> (\<forall>t. sint now \<le> sint t \<longrightarrow> db_view E t d' = batch_view E t d b) \<and> keeps_log now j d d'
       \<or> (\<exists>e. r = Fail e \<and> log_error E w_inv e) \<and> (\<forall>t. db_view E t d' = db_view E t d) \<and> pendingWrites b \<noteq> []"
proof (cases "pendingWrites b = []")
  case True
  have "batch_view E t d b = db_view E t d" for t
    using True by (simp add: batch_view_def pending_rec_def fun_eq_iff)
  then show ?thesis
    using that Commit_empty[OF True, of "locked d" j now] c b d i mutex_idle[OF i]
      keeps_log_same[of "released (locked d)" d now j] by (simp add: settled_def)
next
  case False
  have l: "dinv (locked d)" "\<not> closed (locked d)" "writer (mu (locked d))" using d c by simp_all
  show ?thesis
  proof (rule Commit_cases[OF l(1) b(1) l(2) b(2) False l(3), of j now])
    fix e d1 b' ps
    assume a: "batch_Commit E j now (locked d) b = (Fail e, released d1, b')"
      and f: "commit_failed (locked d) d1 b b'" and g: "log_grew E (locked d) d1 ps (batch_chunks E j b)"
      and le: "log_error E w_inv e"
    show ?thesis
      using that[OF a] f le same_controlD(1-3)[of "locked d" d1] mutex_idle[OF i] False log_grew_subset[OF g]
      by (simp add: commit_failed_def settled_def)
  next
    fix d1 b' ps
    assume a: "batch_Commit E j now (locked d) b = (Ok (), released d1, b')"
      and f: "commit_done j now (locked d) d1 b b'" and g: "log_grew E (locked d) d1 ps (batch_chunks E j b)"
      and n: "length ps = length (batch_chunks E j b)"
    have d1: "dinv d1" "options d1 = options d"
      using f same_controlD(3)[of "locked d" d1] by (simp_all add: commit_done_def)
    have "keeps_log now j d (released d1)"
      unfolding keeps_log_def
    proof (intro allI impI)
      fix t
      assume t: "sint now \<le> sint t" and j: "j \<noteq> 0" and rd: "recoverable t {} d"
      from rd have "recoverable t {} (locked d)" by (rule recoverable_same) (simp_all add: d)
      from recoverable_commit[OF this l(1) b(1) j _ f t g n] have "recoverable t {} d1" by simp
      then show "recoverable t {} (released d1)" by (rule recoverable_same) (simp_all add: d1)
    qed
    moreover have sc: "same_control (locked d) d1" and v: "\<forall>t. sint now \<le> sint t \<longrightarrow> db_view E t d1 = batch_view E t d b"
      using f by (simp_all add: commit_done_def)
    moreover have "settled d (released d1)"
      using d1 same_controlD(1,2)[OF sc] mutex_idle[OF i] log_grew_subset[OF g] by (simp add: settled_def)
    ultimately show ?thesis using that[OF a] by simp
  qed
qed

text \<open>An operation of a write batch either prepares an update of the view, or fails.\<close>

lemma single_write_ok:
  assumes d: "dinv d" and i: "idle d" and c: "\<not> closed d"
    and op: "op (locked d) write_batch = (Ok (), locked d, b)" and b: "batch_open E b" "same_batch write_batch b"
  obtains r d' where "single_write E j now op d = Some (r, d')" and "settled d d'"
    and "r = Ok () \<and> (\<forall>t. sint now \<le> sint t \<longrightarrow> db_view E t d' = batch_view E t d b) \<and> keeps_log now j d d'
       \<or> (\<exists>e. r = Fail e \<and> log_error E w_inv e) \<and> (\<forall>t. db_view E t d' = db_view E t d)"
proof -
  have ro: "\<not> ReadOnly (batch_options b)" using same_batchD[OF b(2)] by simp
  obtain r d' b' where w: "batch_Commit E j now (locked d) b = (r, d', b')" "settled d d'"
    "r = Ok () \<and> (\<forall>t. sint now \<le> sint t \<longrightarrow> db_view E t d' = batch_view E t d b) \<and> keeps_log now j d d'
       \<or> (\<exists>e. r = Fail e \<and> log_error E w_inv e) \<and> (\<forall>t. db_view E t d' = db_view E t d) \<and> pendingWrites b \<noteq> []"
    by (rule write_committed[OF d i c b(1) ro, of j now])
  show ?thesis
  proof (rule that[of r d'])
    show "single_write E j now op d = Some (r, d')"
      using w(1) by (simp add: single_write_idle[OF i] op)
    show "settled d d'" by (rule w(2))
    show "r = Ok () \<and> (\<forall>t. sint now \<le> sint t \<longrightarrow> db_view E t d' = batch_view E t d b) \<and> keeps_log now j d d'
       \<or> (\<exists>e. r = Fail e \<and> log_error E w_inv e) \<and> (\<forall>t. db_view E t d' = db_view E t d)"
      using w(3) by (elim disjE conjE) simp_all
  qed
qed

lemma single_write_fail:
  assumes i: "idle d" and op: "op (locked d) write_batch = (Fail e, d1, write_batch)"
    and q: "quiet now0 (locked d) d1"
  obtains d' where "single_write E j now op d = Some (Fail e, d')" and "settled d d'" and "dataFiles d' = dataFiles d"
    and "\<And>t. sint now0 \<le> sint t \<Longrightarrow> db_view E t d' = db_view E t d"
proof -
  have d1: "same_from E now0 (locked d) d1" "dinv d1" using q by (simp_all add: quiet_def)
  then have k: "mu d1 = mu (locked d)" "closed d1 = closed d" "options d1 = options d" "dataFiles d1 = dataFiles d"
    using same_from_control[OF d1(1)] by simp_all
  have w: "writer (mu d1)" using k by simp
  have nc: "\<not> committed write_batch" "\<not> rollbacked write_batch"
    by (simp_all add: write_batch_def newBatch_def)
  obtain b' where "batch_Rollback d1 write_batch = (if closed d1 then Fail ErrDBClosed else Ok (), released d1, b')"
    by (rule Rollback_writer[of write_batch d1]) (use w nc in auto)
  then have "single_write E j now op d = Some (Fail e, released d1)"
    by (simp add: single_write_idle[OF i] op)
  moreover have "dataFiles (released d1) = dataFiles d" using k by simp
  moreover have "settled d (released d1)" using d1(2) k mutex_idle[OF i] by (simp add: settled_def)
  moreover have "db_view E t (released d1) = db_view E t d" if "sint now0 \<le> sint t" for t
    using q that by (simp add: quiet_def same_from_def)
  ultimately show ?thesis using that by blast
qed

lemma single_read_spec:
  assumes d: "dinv d" and i: "idle d" and c: "\<not> closed d"
    and q: "quiet now (rlocked d) (snd (op (rlocked d) read_batch))"
  obtains d' where "single_read E op d = Some (fst (op (rlocked d) read_batch), d')" and "settled d d'"
    and "dataFiles d' = dataFiles d"
    and "\<And>t. sint now \<le> sint t \<Longrightarrow> db_view E t d' = db_view E t d"
proof -
  define r d1 where "r = fst (op (rlocked d) read_batch)" and "d1 = snd (op (rlocked d) read_batch)"
  have op: "op (rlocked d) read_batch = (r, d1)" by (simp add: r_def d1_def)
  have q1: "quiet now (rlocked d) d1" using q by (simp add: d1_def)
  have d1: "same_from E now (rlocked d) d1" "dinv d1" using q1 by (simp_all add: quiet_def)
  then have k: "mu d1 = mu (rlocked d)" "closed d1 = closed d" "options d1 = options d" "dataFiles d1 = dataFiles d"
    using same_from_control[OF d1(1)] by simp_all
  let ?d = "d1\<lparr>mu := mu d\<rparr>"
  have "(mu (rlocked d))\<lparr>readers := readers (mu d)\<rparr> = mu d" by (simp add: rlocked_def)
  then have "batch_Commit E 0 0 d1 read_batch = (Ok (), ?d, read_batch)"
    using k c by (simp add: batch_Commit_def commit_body_def deferred_unlock_def batch_unlock_def
        mutex_RUnlock_def) (simp add: rlocked_def)
  then have "single_read E op d = Some (r, ?d)"
    using i by (simp add: single_read_def init_read idle_def op)
  moreover have "dataFiles ?d = dataFiles d" using k by simp
  moreover have "settled d ?d" using d1(2) k by (simp add: settled_def)
  moreover have "db_view E t ?d = db_view E t d" if "sint now \<le> sint t" for t
    using q1 that by (simp add: quiet_def same_from_def)
  ultimately show ?thesis using that by (simp add: r_def)
qed

section \<open>Each request refines the map\<close>

definition rep :: "int64 \<Rightarrow> ('t, 'w) DB \<Rightarrow> kv \<Rightarrow> bool" where
  "rep now d M \<longleftrightarrow> (\<forall>t. sint now \<le> sint t \<longrightarrow> db_view E t d = kv_at t M)"

lemma rep_now: "rep now d M \<Longrightarrow> db_view E now d k = kv_at now M k"
  by (simp add: rep_def)

lemma rep_later: "rep now d M \<Longrightarrow> sint now \<le> sint now' \<Longrightarrow> rep now' d M"
  by (simp add: rep_def)

lemma write_ok_refines:
  assumes "dinv d" and "idle d" and "\<not> closed d" and r: "rep now0 d M" and le: "sint now0 \<le> sint now"
    and op: "op (locked d) write_batch = (Ok (), locked d, b)" and b: "batch_open E b" "same_batch write_batch b"
    and v: "\<And>t. sint now \<le> sint t \<Longrightarrow> batch_view E t (locked d) b = kv_at t M'"
  shows "\<exists>fault rsp d' M''. map_option (map_prod RspDone id) (single_write E j now op d) = Some (rsp, d')
           \<and> kv_write fault M M' = (rsp, M'') \<and> settled d d' \<and> rep now d' M'' \<and> outcome fault rsp now j d d'"
proof -
  obtain x d' where w: "single_write E j now op d = Some (x, d')" "settled d d'"
    "x = Ok () \<and> (\<forall>t. sint now \<le> sint t \<longrightarrow> db_view E t d' = batch_view E t d b) \<and> keeps_log now j d d'
       \<or> (\<exists>e. x = Fail e \<and> log_error E w_inv e) \<and> (\<forall>t. db_view E t d' = db_view E t d)"
    by (rule single_write_ok[where op = op, OF assms(1-3) op b, of j now])
  from w(3) show ?thesis
  proof
    assume "x = Ok () \<and> (\<forall>t. sint now \<le> sint t \<longrightarrow> db_view E t d' = batch_view E t d b) \<and> keeps_log now j d d'"
    then show ?thesis
      using w(1,2) v by (intro exI[of _ None] exI[of _ "RspDone x"] exI[of _ d'] exI[of _ M'])
        (simp add: kv_write_def rep_def outcome_def)
  next
    assume "(\<exists>e. x = Fail e \<and> log_error E w_inv e) \<and> (\<forall>t. db_view E t d' = db_view E t d)"
    then obtain e where "x = Fail e" "log_error E w_inv e" "\<And>t. db_view E t d' = db_view E t d" by blast
    then show ?thesis
      using w(1,2) r le by (intro exI[of _ "Some e"] exI[of _ "RspDone x"] exI[of _ d'] exI[of _ M])
        (simp add: kv_write_def rep_def outcome_def)
  qed
qed

lemma write_fail_refines:
  assumes "idle d" and "rep now0 d M" and "sint now0 \<le> sint now"
    and op: "op (locked d) write_batch = (Fail e, d1, write_batch)" and q: "quiet now0 (locked d) d1"
  shows "\<exists>d'. map_option (map_prod RspDone id) (single_write E j now op d) = Some (RspDone (Fail e), d')
           \<and> settled d d' \<and> rep now d' M \<and> keeps_log now j' d d'"
proof (rule single_write_fail[where op = op, OF assms(1) op q, of j now])
  fix d'
  assume "single_write E j now op d = Some (Fail e, d')" and "settled d d'"
    and "dataFiles d' = dataFiles d" and "\<And>t. sint now0 \<le> sint t \<Longrightarrow> db_view E t d' = db_view E t d"
  then show ?thesis using assms(2,3) keeps_log_same[of d' d now j']
    by (intro exI[of _ d']) (simp add: rep_def settled_def)
qed

lemma read_refines:
  assumes "dinv d" and "idle d" and "\<not> closed d" and "rep now0 d M" and "sint now0 \<le> sint now"
    and op: "fst (op (rlocked d) read_batch) = x" and q: "quiet now0 (rlocked d) (snd (op (rlocked d) read_batch))"
  shows "\<exists>d'. map_option (map_prod f id) (single_read E op d) = Some (f x, d') \<and> settled d d' \<and> rep now d' M
           \<and> keeps_log now j d d'"
proof (rule single_read_spec[where op = op, OF assms(1-3) q])
  fix d'
  assume "single_read E op d = Some (fst (op (rlocked d) read_batch), d')" and "settled d d'"
    and "dataFiles d' = dataFiles d" and "\<And>t. sint now0 \<le> sint t \<Longrightarrow> db_view E t d' = db_view E t d"
  then show ?thesis using assms(4,5) op keeps_log_same[of d' d now j]
    by (intro exI[of _ d']) (simp add: rep_def settled_def)
qed

text \<open>A request with an empty key is refused before anything is looked at.\<close>

lemma empty_write_guard: "write_guard [] d b = Some ErrKeyIsEmpty"
  by (simp add: write_guard_def)

lemma writable_write_batch: "k \<noteq> [] \<Longrightarrow> \<not> closed d \<Longrightarrow> writable k (locked d) write_batch"
  by (simp add: writable_def)

definition refines :: "ticket \<Rightarrow> request \<Rightarrow> ('t, 'w) DB \<Rightarrow> kv \<Rightarrow> bool" where
  "refines x req d M \<longleftrightarrow> (\<exists>fault rsp d' M'. db_request E x req d = Some (rsp, d')
     \<and> kv_step (t_op x) fault req M = (rsp, M') \<and> settled d d' \<and> rep (t_commit x) d' M'
     \<and> outcome fault rsp (t_commit x) (batch_id x) d d')"

lemma refines_noop:
  assumes "\<exists>d'. db_request E x req d = Some (rsp, d') \<and> settled d d' \<and> rep (t_commit x) d' M
      \<and> keeps_log (t_commit x) (batch_id x) d d'"
    and "kv_step (t_op x) None req M = (rsp, M)"
  shows "refines x req d M"
  unfolding refines_def outcome_def using assms by (intro exI[of _ None]) auto

lemma refines_empty_key:
  assumes "dinv d" and "idle d" and "\<not> closed d" and "rep (t_op x) d M" and "sint (t_op x) \<le> sint (t_commit x)"
    and "req_key req = []"
  shows "refines x req d M"
proof -
  have q: "quiet (t_op x) (locked d) (locked d)" "quiet (t_op x) (rlocked d) (rlocked d)"
    using assms(1) by (simp_all add: quiet_refl)
  note wf = write_fail_refines[OF assms(2,4,5) _ q(1), of _ ErrKeyIsEmpty "batch_id x" "batch_id x"]
  note rd = read_refines[OF assms(1-5)]
  have "\<exists>rsp d'. db_request E x req d = Some (rsp, d') \<and> rsp = rejected ErrKeyIsEmpty req
      \<and> settled d d' \<and> rep (t_commit x) d' M \<and> keeps_log (t_commit x) (batch_id x) d d'"
  proof (cases req)
    case (ReqPut k v)
    then show ?thesis using assms(6) wf by (simp add: db_Put_def batch_Put_def empty_write_guard)
  next
    case (ReqPutWithTTL k v ttl)
    then show ?thesis using assms(6) wf by (simp add: db_PutWithTTL_def batch_PutWithTTL_def empty_write_guard)
  next
    case (ReqGet k)
    then show ?thesis using assms(6) q rd[where op = "batch_Get E (t_op x) k" and f = RspValue] by (simp add: db_Get_def batch_Get_def)
  next
    case (ReqDelete k)
    then show ?thesis using assms(6) wf by (simp add: db_Delete_def batch_Delete_def empty_write_guard)
  next
    case (ReqExist k)
    then show ?thesis using assms(6) q rd[where op = "batch_Exist E (t_op x) k" and f = RspBool] by (simp add: db_Exist_def batch_Exist_def)
  next
    case (ReqExpire k ttl)
    then show ?thesis using assms(6) wf by (simp add: db_Expire_def batch_Expire_def empty_write_guard)
  next
    case (ReqTTL k)
    then show ?thesis using assms(6) q rd[where op = "batch_TTL E (t_op x) k" and f = RspTTL] by (simp add: db_TTL_def batch_TTL_def)
  next
    case (ReqPersist k)
    then show ?thesis using assms(6) wf by (simp add: db_Persist_def batch_Persist_def empty_write_guard)
  qed
  then show ?thesis
    using assms(6) refines_noop[of x req d "rejected ErrKeyIsEmpty req" M] by (simp add: kv_step_def)
qed

text \<open>The writing requests, key by key.\<close>

lemma refines_Put:
  assumes "dinv d" and "idle d" and "\<not> closed d" and r: "rep (t_op x) d M" and le: "sint (t_op x) \<le> sint (t_commit x)"
    and k: "k \<noteq> []" and fits: "value_fits k v"
  shows "refines x (ReqPut k v) d M"
proof (rule batch_Put_spec[OF pool_batch(1) writable_write_batch[OF k assms(3)] fits, of E])
  fix b'
  assume b: "batch_Put E k v (locked d) write_batch = (Ok (), b')" "batch_open E b'" "same_batch write_batch b'"
    and v: "\<And>t. batch_view E t (locked d) b' = (batch_view E t (locked d) write_batch)(k \<mapsto> (v, 0))"
  have "batch_view E t (locked d) b' = kv_at t (M(k \<mapsto> (v, 0)))" if "sint (t_commit x) \<le> sint t" for t
    using v[of t] rep_later[OF r le] that by (simp add: rep_def)
  from write_ok_refines[OF assms(1-5) _ b(2,3) this, of "\<lambda>d b. case batch_Put E k v d b of (r, b) \<Rightarrow> (r, d, b)"]
  show ?thesis using b(1) k by (simp add: refines_def kv_step_def db_Put_def)
qed

lemma refines_PutWithTTL:
  assumes "dinv d" and "idle d" and "\<not> closed d" and r: "rep (t_op x) d M" and le: "sint (t_op x) \<le> sint (t_commit x)"
    and k: "k \<noteq> []" and fits: "value_fits k v"
  shows "refines x (ReqPutWithTTL k v ttl) d M"
proof (rule batch_PutWithTTL_spec[OF pool_batch(1) writable_write_batch[OF k assms(3)] fits, of E "t_op x" ttl])
  fix b'
  let ?e = "t_op x + ttl"
  assume b: "batch_PutWithTTL E (t_op x) k v ttl (locked d) write_batch = (Ok (), b')" "batch_open E b'"
      "same_batch write_batch b'"
    and v: "\<And>t. batch_view E t (locked d) b' = (batch_view E t (locked d) write_batch)(k := entry_at t v ?e)"
  have "batch_view E t (locked d) b' = kv_at t (M(k \<mapsto> (v, ?e)))" if "sint (t_commit x) \<le> sint t" for t
    using v[of t] rep_later[OF r le] that by (simp add: rep_def)
  from write_ok_refines[OF assms(1-5) _ b(2,3) this,
      of "\<lambda>d b. case batch_PutWithTTL E (t_op x) k v ttl d b of (r, b) \<Rightarrow> (r, d, b)"]
  show ?thesis using b(1) k by (simp add: refines_def kv_step_def db_PutWithTTL_def)
qed

lemma refines_Delete:
  assumes "dinv d" and "idle d" and "\<not> closed d" and r: "rep (t_op x) d M" and le: "sint (t_op x) \<le> sint (t_commit x)"
    and k: "k \<noteq> []" and fits: "value_fits k []"
  shows "refines x (ReqDelete k) d M"
proof (rule batch_Delete_spec[OF pool_batch(1) writable_write_batch[OF k assms(3)] fits, of E])
  fix b' r'
  assume b: "batch_Delete E k (locked d) write_batch = (Ok (), b')" "batch_open E b'" "same_batch write_batch b'"
    and v: "\<And>t. batch_view E t (locked d) b' = (batch_view E t (locked d) write_batch)(k := None)"
  have "batch_view E t (locked d) b' = kv_at t (M(k := None))" if "sint (t_commit x) \<le> sint t" for t
    using v[of t] rep_later[OF r le] that by (simp add: rep_def)
  from write_ok_refines[OF assms(1-5) _ b(2,3) this, of "\<lambda>d b. case batch_Delete E k d b of (r, b) \<Rightarrow> (r, d, b)"]
  show ?thesis using b(1) k by (simp add: refines_def kv_step_def db_Delete_def)
qed

lemma refines_Expire:
  assumes "dinv d" and "idle d" and "\<not> closed d" and r: "rep (t_op x) d M" and le: "sint (t_op x) \<le> sint (t_commit x)"
    and k: "k \<noteq> []"
  shows "refines x (ReqExpire k ttl) d M"
proof -
  have l: "dinv (locked d)" using assms(1) by simp
  note spec = batch_Expire_spec[OF l pool_batch(1) writable_write_batch[OF k assms(3)], of "t_op x" "t_op2 x" ttl]
  have m: "batch_view E (t_op x) (locked d) write_batch k = kv_at (t_op x) M k" using rep_now[OF r] by simp
  show ?thesis
  proof (cases "kv_at (t_op x) M k")
    case None
    then obtain d' where "batch_Expire E (t_op x) (t_op2 x) k ttl (locked d) write_batch
        = (Fail ErrKeyNotFound, d', write_batch)" "quiet (t_op x) (locked d) d'"
      using spec m by auto
    from write_fail_refines[where op = "batch_Expire E (t_op x) (t_op2 x) k ttl", OF assms(2) r le this]
    show ?thesis using None k by (intro refines_noop) (simp_all add: kv_step_def db_Expire_def)
  next
    case (Some ve)
    obtain v e where ve: "ve = (v, e)" by (cases ve)
    let ?e = "t_op x + ttl"
    obtain b' where b: "batch_Expire E (t_op x) (t_op2 x) k ttl (locked d) write_batch = (Ok (), locked d, b')"
      "batch_open E b'" "same_batch write_batch b'"
      and v: "\<forall>t. batch_view E t (locked d) b' = (batch_view E t (locked d) write_batch)(k := entry_at t v ?e)"
      using spec m Some ve by auto
    have "batch_view E t (locked d) b' = kv_at t (M(k \<mapsto> (v, ?e)))" if "sint (t_commit x) \<le> sint t" for t
      using v rep_later[OF r le] that by (simp add: rep_def)
    from write_ok_refines[where op = "batch_Expire E (t_op x) (t_op2 x) k ttl", OF assms(1-5) b this]
    show ?thesis using Some ve k by (simp add: refines_def kv_step_def db_Expire_def)
  qed
qed

lemma refines_Persist:
  assumes "dinv d" and "idle d" and "\<not> closed d" and r: "rep (t_op x) d M" and le: "sint (t_op x) \<le> sint (t_commit x)"
    and k: "k \<noteq> []"
  shows "refines x (ReqPersist k) d M"
proof -
  have l: "dinv (locked d)" using assms(1) by simp
  note spec = batch_Persist_spec[OF l pool_batch(1) writable_write_batch[OF k assms(3)], of "t_op x"]
  have m: "batch_view E (t_op x) (locked d) write_batch k = kv_at (t_op x) M k" using rep_now[OF r] by simp
  show ?thesis
  proof (cases "kv_at (t_op x) M k")
    case None
    then obtain d' where "batch_Persist E (t_op x) k (locked d) write_batch
        = (Fail ErrKeyNotFound, d', write_batch)" "quiet (t_op x) (locked d) d'"
      using spec m by auto
    from write_fail_refines[where op = "batch_Persist E (t_op x) k", OF assms(2) r le this]
    show ?thesis using None k by (intro refines_noop) (simp_all add: kv_step_def db_Persist_def)
  next
    case (Some ve)
    obtain v e where ve: "ve = (v, e)" by (cases ve)
    obtain b' where b: "batch_Persist E (t_op x) k (locked d) write_batch = (Ok (), locked d, b')"
      "batch_open E b'" "same_batch write_batch b'"
      and v: "\<forall>t. batch_view E t (locked d) b' = (batch_view E t (locked d) write_batch)(k \<mapsto> (v, 0))"
      using spec m Some ve by auto
    have "batch_view E t (locked d) b' = kv_at t (M(k \<mapsto> (v, 0)))" if "sint (t_commit x) \<le> sint t" for t
      using v rep_later[OF r le] that by (simp add: rep_def)
    from write_ok_refines[where op = "batch_Persist E (t_op x) k", OF assms(1-5) b this]
    show ?thesis using Some ve k by (simp add: refines_def kv_step_def db_Persist_def)
  qed
qed

text \<open>The reading requests.\<close>

lemma refines_read:
  assumes a: "dinv d" "idle d" "\<not> closed d" "rep (t_op x) d M" "sint (t_op x) \<le> sint (t_commit x)"
    and k: "k \<noteq> []"
  shows "refines x (ReqGet k) d M" and "refines x (ReqExist k) d M" and "refines x (ReqTTL k) d M"
proof -
  have l: "dinv (rlocked d)" "\<not> closed (rlocked d)" using a by simp_all
  note sp = l(1) pool_batch(2) k l(2)
  have m: "db_view E (t_op x) d k = kv_at (t_op x) M k" by (rule rep_now[OF a(4)])
  show "refines x (ReqGet k) d M"
    using read_refines[where op = "batch_Get E (t_op x) k" and f = RspValue, OF a batch_Get_spec[OF sp]] k
    by (intro refines_noop) (simp_all add: kv_step_def db_Get_def m)
  show "refines x (ReqExist k) d M"
    using read_refines[where op = "batch_Exist E (t_op x) k" and f = RspBool, OF a batch_Exist_spec[OF sp]] k
    by (intro refines_noop) (simp_all add: kv_step_def db_Exist_def m)
  have t: "(case pending_rec read_batch k of
            Some r \<Rightarrow> if Expire r = 0 then Ok (- 1)
                      else if live (t_op x) r then Ok (Expire r - t_op x) else Fail ErrKeyNotFound
          | None \<Rightarrow> (case db_view E (t_op x) (rlocked d) k of
                       None \<Rightarrow> Fail ErrKeyNotFound
                     | Some (v, e) \<Rightarrow> if 0 <s e then Ok (e - t_op x) else Ok (- 1)))
      = (case kv_at (t_op x) M k of
                     None \<Rightarrow> Fail ErrKeyNotFound
                   | Some (v, e) \<Rightarrow> Ok (if 0 <s e then e - t_op x else - 1))"
    by (simp add: m split: option.split)
  show "refines x (ReqTTL k) d M"
    using read_refines[where op = "batch_TTL E (t_op x) k" and f = RspTTL, OF a batch_TTL_spec[OF sp]] k
    unfolding t by (intro refines_noop) (simp_all add: kv_step_def db_TTL_def)
qed

lemma request_refines:
  assumes a: "dinv d" "idle d" "\<not> closed d" "rep (t_op x) d M" "sint (t_op x) \<le> sint (t_commit x)"
    and f: "req_fits req"
  shows "refines x req d M"
proof (cases "req_key req = []")
  case True
  then show ?thesis by (rule refines_empty_key[OF a])
next
  case False
  then show ?thesis
    using f refines_Put[OF a] refines_PutWithTTL[OF a] refines_Delete[OF a] refines_Expire[OF a]
      refines_Persist[OF a] refines_read[OF a]
    by (cases req) simp_all
qed

lemma clock_end_le: "clock_ok now xs \<Longrightarrow> sint now \<le> sint (clock_end now xs)"
  by (induction now xs rule: clock_ok.induct) auto

lemma run_refines:
  assumes "dinv d" and "idle d" and "\<not> closed d" and "rep now d M" and "clock_ok now xs"
    and "\<forall>(x, req) \<in> set xs. req_fits req"
  shows "\<exists>faults d'. length faults = length xs \<and> db_run E xs d = Some (fst (kv_run (zip xs faults) M), d')
           \<and> settled d d' \<and> rep (clock_end now xs) d' (snd (kv_run (zip xs faults) M))
           \<and> (\<forall>e. Some e \<in> set faults \<longrightarrow> log_error E w_inv e \<and> RspDone (Fail e) \<in> set (fst (kv_run (zip xs faults) M)))
           \<and> (set faults \<subseteq> {None} \<longrightarrow> (\<forall>(x, req) \<in> set xs. batch_id x \<noteq> 0)
                \<longrightarrow> (\<forall>t. sint (clock_end now xs) \<le> sint t \<longrightarrow> recoverable t {} d \<longrightarrow> recoverable t {} d'))"
  using assms
proof (induction xs arbitrary: now d M)
  case Nil
  then show ?case by (simp add: settled_def)
next
  case (Cons a xs)
  obtain x req where a: "a = (x, req)" by (cases a)
  have c: "sint now \<le> sint (t_op x)" "sint (t_op x) \<le> sint (t_commit x)" "clock_ok (t_commit x) xs" "req_fits req"
    using Cons.prems(5,6) a by auto
  have "refines x req d M"
    by (rule request_refines[OF Cons.prems(1-3) rep_later[OF Cons.prems(4) c(1)] c(2,4)])
  then obtain fault rsp d1 M1 where q: "db_request E x req d = Some (rsp, d1)"
    "kv_step (t_op x) fault req M = (rsp, M1)" "settled d d1" "rep (t_commit x) d1 M1"
    and o: "outcome fault rsp (t_commit x) (batch_id x) d d1"
    unfolding refines_def by blast
  have d1: "dinv d1" "\<not> closed d1" "idle d1"
    using q(3) Cons.prems(2,3) settled_idle by (auto simp: settled_def)
  have fx: "\<forall>(x, req) \<in> set xs. req_fits req" using Cons.prems(6) by simp
  obtain faults d' where r: "length faults = length xs"
    "db_run E xs d1 = Some (fst (kv_run (zip xs faults) M1), d')"
    "settled d1 d'" "rep (clock_end (t_commit x) xs) d' (snd (kv_run (zip xs faults) M1))"
    and rf: "\<forall>e. Some e \<in> set faults \<longrightarrow> log_error E w_inv e \<and> RspDone (Fail e) \<in> set (fst (kv_run (zip xs faults) M1))"
    and rl: "set faults \<subseteq> {None} \<longrightarrow> (\<forall>(x, req) \<in> set xs. batch_id x \<noteq> 0)
        \<longrightarrow> (\<forall>t. sint (clock_end (t_commit x) xs) \<le> sint t \<longrightarrow> recoverable t {} d1 \<longrightarrow> recoverable t {} d')"
    using Cons.IH[OF d1(1,3,2) q(4) c(3) fx] by blast
  have run: "kv_run (zip (a # xs) (fault # faults)) M
      = (rsp # fst (kv_run (zip xs faults) M1), snd (kv_run (zip xs faults) M1))"
    using q(2) a by (simp add: case_prod_beta)
  have first: "log_error E w_inv e \<and> rsp = RspDone (Fail e)" if "fault = Some e" for e
    using o that by (simp add: outcome_def)
  have log: "recoverable t {} d'"
    if f: "set (fault # faults) \<subseteq> {None}" and i: "\<forall>(x, req) \<in> set (a # xs). batch_id x \<noteq> 0"
      and t: "sint (clock_end now (a # xs)) \<le> sint t" and l: "recoverable t {} d" for t
  proof -
    have "sint (t_commit x) \<le> sint t" using clock_end_le[OF c(3)] t a by simp
    then have "recoverable t {} d1" using o f i l a by (simp add: outcome_def keeps_log_def)
    then show ?thesis using rl f i t a by simp
  qed
  show ?case
  proof (intro exI[of _ "fault # faults"] exI[of _ d'] conjI allI impI)
    show "length (fault # faults) = length (a # xs)" using r(1) by simp
    show "db_run E (a # xs) d = Some (fst (kv_run (zip (a # xs) (fault # faults)) M), d')"
      unfolding run using q(1) r(2) a by simp
    show "settled d d'" by (rule settled_trans[OF q(3) r(3)])
    show "rep (clock_end now (a # xs)) d' (snd (kv_run (zip (a # xs) (fault # faults)) M))"
      unfolding run using r(4) a by simp
    fix e
    assume "Some e \<in> set (fault # faults)"
    then show "log_error E w_inv e" and "RspDone (Fail e) \<in> set (fst (kv_run (zip (a # xs) (fault # faults)) M))"
      unfolding run using rf first by auto
  qed (rule log)
qed

text \<open>The map a database holds, expired entries included.\<close>

lemma rep_db_map:
  assumes "dinv d"
  shows "rep now d (db_map E d)"
proof -
  have "db_view E t d k = kv_at t (db_map E d) k" for t k
  proof (cases "mt_Get (Bt E) (index d) k")
    case None
    then show ?thesis by (simp add: db_view_def kv_at_def db_map_def stored_rec_def)
  next
    case (Some p)
    obtain r where "good_record k r" "stored_rec E d k = Some r" using stored[OF assms Some] by blast
    then show ?thesis by (simp add: db_view_def kv_at_def db_map_def good_record_def visible_entry)
  qed
  then show ?thesis by (simp add: rep_def fun_eq_iff)
qed

lemma database_run:
  assumes "dinv d" and "idle d" and "\<not> closed d" and "clock_ok now xs" and "\<forall>(x, req) \<in> set xs. req_fits req"
  shows "\<exists>faults d'. length faults = length xs
           \<and> db_run E xs d = Some (fst (kv_run (zip xs faults) (db_map E d)), d')
           \<and> dinv d' \<and> idle d'
           \<and> (\<forall>t. sint (clock_end now xs) \<le> sint t
                \<longrightarrow> db_view E t d' = kv_at t (snd (kv_run (zip xs faults) (db_map E d))))
           \<and> (\<forall>e. Some e \<in> set faults \<longrightarrow> log_error E w_inv e)"
proof -
  obtain faults d' where "length faults = length xs"
    "db_run E xs d = Some (fst (kv_run (zip xs faults) (db_map E d)), d')" "settled d d'"
    "rep (clock_end now xs) d' (snd (kv_run (zip xs faults) (db_map E d)))"
    "\<forall>e. Some e \<in> set faults \<longrightarrow> log_error E w_inv e"
    using run_refines[OF assms(1-3) rep_db_map[OF assms(1)] assms(4,5)] by blast
  then show ?thesis
    using settled_idle[OF _ assms(2)] by (intro exI[of _ faults] exI[of _ d']) (auto simp: settled_def rep_def)
qed

end

section \<open>The database is a map with expiry times\<close>

text \<open>
  Property C1. Every run of single-key requests (Put, PutWithTTL, Get, Delete, Exist, Expire,
  TTL, Persist, with empty keys and missing keys among them) on an open database behaves
  like the same run on a map from keys to values with expiry times. The answers are the
  map's answers, no request panics or blocks, and afterwards the database holds what the map
  holds, its invariant holds and its lock is free. The map may differ from an ideal one only
  in that a write can fail and then changes nothing; such a failure carries an error that the
  log returned.
\<close>

theorem database_refines_map:
  assumes "engine E bt_inv w_inv pend" and "db_inv E bt_inv w_inv pend d" and "idle d" and "\<not> closed d"
    and "clock_ok now xs" and "\<forall>(x, req) \<in> set xs. req_fits req"
  shows "\<exists>faults d'. length faults = length xs
           \<and> db_run E xs d = Some (fst (kv_run (zip xs faults) (db_map E d)), d')
           \<and> db_inv E bt_inv w_inv pend d' \<and> idle d'
           \<and> (\<forall>t. sint (clock_end now xs) \<le> sint t
                \<longrightarrow> db_view E t d' = kv_at t (snd (kv_run (zip xs faults) (db_map E d))))
           \<and> (\<forall>e. Some e \<in> set faults \<longrightarrow> log_error E w_inv e)"
  by (rule engine.database_run[OF assms])

definition example_run :: "(ticket \<times> request) list" where
  "example_run =
     [(\<lparr>batch_id = 1, t_op = 10, t_op2 = 10, t_commit = 10\<rparr>, ReqPut [1] [65]),
      (\<lparr>batch_id = 2, t_op = 20, t_op2 = 20, t_commit = 21\<rparr>, ReqExpire [1] 50),
      (\<lparr>batch_id = 3, t_op = 30, t_op2 = 30, t_commit = 30\<rparr>, ReqTTL [1]),
      (\<lparr>batch_id = 4, t_op = 69, t_op2 = 69, t_commit = 69\<rparr>, ReqGet [1]),
      (\<lparr>batch_id = 5, t_op = 70, t_op2 = 70, t_commit = 70\<rparr>, ReqGet [1])]"

theorem database_refines_map_witness:
  "\<exists>faults d'. length faults = length example_run
     \<and> db_run ref_env example_run ref_db
         = Some (fst (kv_run (zip example_run faults) (db_map ref_env ref_db)), d')
     \<and> fst (the (db_run ref_env example_run ref_db))
         = [RspDone (Ok ()), RspDone (Ok ()), RspTTL (Ok 40), RspValue (Ok [65]), RspValue (Fail ErrKeyNotFound)]"
proof -
  have i: "idle ref_db" "\<not> closed ref_db" by (simp_all add: idle_def ref_db_def)
  have c: "clock_ok 0 example_run" "\<forall>(x, req) \<in> set example_run. req_fits req"
    by (simp_all add: example_run_def value_fits_def maxLogRecordHeaderSize_def)
  have r: "fst (the (db_run ref_env example_run ref_db))
      = [RspDone (Ok ()), RspDone (Ok ()), RspTTL (Ok 40), RspValue (Ok [65]), RspValue (Fail ErrKeyNotFound)]"
    by code_simp
  show ?thesis
    using database_refines_map[OF ref.engine_axioms ref_db_inv i c] r by blast
qed

end
