(* ===== verification/Restart.thy ===== *)
theory Restart
  imports Database_Spec
begin

text \<open>
  Durability: what a database holds when a run of requests ends is what it holds after it is
  opened again on the same log. And its limits: a batch whose write was torn stays invisible
  only as long as none of its records has expired.
\<close>

section \<open>Opening\<close>

text \<open>The database \<open>Open\<close> makes before it loads the index; the watcher is made after.\<close>

definition new_db :: "('t, 'w) env \<Rightarrow> Options \<Rightarrow> 'w \<Rightarrow> ('t, 'w) DB" where
  "new_db E opts files =
     \<lparr>dataFiles = files, index = NewIndexer (Bt E), options = opts, mu = \<lparr>writer = False, readers = 0\<rparr>,
      closed = False, mergeRunning = False, db_watcher = None, expiredCursorKey = []\<rparr>"

definition enable_watch :: "('t, 'w) DB \<Rightarrow> ('t, 'w) DB" where
  "enable_watch d =
     (if 0 < WatchQueueSize (options d)
      then d\<lparr>db_watcher := Some (NewWatcher (WatchQueueSize (options d)))\<rparr> else d)"

text \<open>
  \<open>Open\<close> on a directory without merge files: the log loaded, the watch enabled. Nothing is
  skipped, as segments are numbered from 1, and there is always one.
\<close>

definition open_log :: "('t, 'w) env \<Rightarrow> int64 \<Rightarrow> Options \<Rightarrow> 'w \<Rightarrow> ('t, 'w) DB result" where
  "open_log E now opts files =
     (case loadIndexFromWAL E [1] 0 now (new_db E opts files) of
        Ok d \<Rightarrow> Ok (enable_watch d) | Fail e \<Rightarrow> Fail e | Panic \<Rightarrow> Panic)"

lemma enable_watch_simps [simp]:
  "db_view E t (enable_watch d) = db_view E t d" "idle (enable_watch d) = idle d" "closed (enable_watch d) = closed d"
  by (auto simp: enable_watch_def db_view_def stored_rec_def idle_def fun_eq_iff split: option.split)

lemma enable_watch_inv:
  assumes "db_inv E bt_inv w_inv pend (d\<lparr>db_watcher := x\<rparr>)"
  shows "db_inv E bt_inv w_inv pend (enable_watch d)"
  using assms NewWatcher_inv(1)[of "WatchQueueSize (options d)"] by (auto simp: db_inv_def enable_watch_def)

text \<open>No answer reports an error of the log.\<close>

definition no_log_error :: "response list \<Rightarrow> bool" where
  "no_log_error rsps \<longleftrightarrow> (\<forall>n. RspDone (Fail (ErrExternal n)) \<notin> set rsps)"

context engine
begin

lemma log_error_external: "log_error E w_inv e \<Longrightarrow> \<exists>n. e = ErrExternal n"
  using WriteAll_error Sync_error by (auto simp: log_error_def)

lemma recoverable_new:
  assumes "dinv d" and "wal_log (Wl E) (dataFiles d) = []"
  shows "recoverable t {} d"
proof -
  have none: "mt_Get (Bt E) (index d) k = None" for k
  proof (cases "mt_Get (Bt E) (index d) k")
    case (Some p)
    then show ?thesis using stored[OF assms(1) Some] assms(2) by auto
  qed
  have "db_view E t' (d\<lparr>index := NewIndexer (Bt E)\<rparr>) = db_view E t' d" for t'
    using none ix.get_new by (auto simp: db_view_def stored_rec_def fun_eq_iff)
  moreover have "dinv (d\<lparr>index := NewIndexer (Bt E)\<rparr>)" using assms ix.new_law(1) by (simp add: db_inv_def)
  ultimately show ?thesis using assms(2) by (auto simp: log_recoverable_def)
qed

lemma open_recoverable:
  assumes r: "recoverable t {} d" and d: "dinv d" and f: "\<forall>x \<in> set (wal_log (Wl E) (dataFiles d)). 0 < SegmentId (fst x)"
  obtains d' where "open_log E t (options d) (dataFiles d) = Ok d'" and "dinv d'" and "idle d'" and "\<not> closed d'"
    and "\<And>t'. sint t \<le> sint t' \<Longrightarrow> db_view E t' d' = db_view E t' d"
proof -
  let ?d0 = "(new_db E (options d) (dataFiles d))"
  let ?d1 = "?d0\<lparr>db_watcher := db_watcher d\<rparr>"
  obtain d1 where l: "loadIndexFromWAL E [1] 0 t ?d1 = Ok d1" and i: "dinv d1"
    and v: "\<And>t'. sint t \<le> sint t' \<Longrightarrow> db_view E t' d1 = db_view E t' d"
    using load_recoverable[OF r f _ d, of "[1]" ?d1] by (auto simp: new_db_def)
  obtain mt where mt: "loadIndexFromWAL E [1] 0 t ?d0 = Ok (?d0\<lparr>index := mt\<rparr>)" "d1 = ?d1\<lparr>index := mt\<rparr>"
    using l by (auto simp: loadIndexFromWAL_def new_db_def split: prod.splits result.splits option.splits)
  have vd: "db_view E t' (?d0\<lparr>index := mt\<rparr>) = db_view E t' d1" for t'
    by (auto simp: mt(2) db_view_def stored_rec_def fun_eq_iff split: option.split)
  have "dinv (?d0\<lparr>index := mt, db_watcher := db_watcher d\<rparr>)" using i mt(2) by (simp add: new_db_def)
  from enable_watch_inv[OF this] have "dinv (enable_watch (?d0\<lparr>index := mt\<rparr>))" .
  then show ?thesis
    using that[of "enable_watch (?d0\<lparr>index := mt\<rparr>)"] mt(1) v vd
    by (simp add: open_log_def) (simp add: new_db_def idle_def)
qed

lemma run_recovers:
  assumes d: "dinv d" "idle d" "\<not> closed d"
    and xs: "clock_ok now xs" "\<forall>(x, req) \<in> set xs. req_fits req \<and> batch_id x \<noteq> 0"
    and run: "db_run E xs d = Some (rsps, d')" and ok: "no_log_error rsps"
    and t: "sint (clock_end now xs) \<le> sint t" and rec: "recoverable t {} d"
  shows "recoverable t {} d'" and "dinv d'"
proof -
  have fits: "\<forall>(x, req) \<in> set xs. req_fits req" and ids: "\<forall>(x, req) \<in> set xs. batch_id x \<noteq> 0" using xs(2) by auto
  obtain faults d1 where r: "db_run E xs d = Some (fst (kv_run (zip xs faults) (db_map E d)), d1)" "settled d d1"
    and rf: "\<forall>e. Some e \<in> set faults \<longrightarrow> log_error E w_inv e
        \<and> RspDone (Fail e) \<in> set (fst (kv_run (zip xs faults) (db_map E d)))"
    and rl: "set faults \<subseteq> {None} \<longrightarrow> (\<forall>(x, req) \<in> set xs. batch_id x \<noteq> 0)
        \<longrightarrow> (\<forall>t. sint (clock_end now xs) \<le> sint t \<longrightarrow> recoverable t {} d \<longrightarrow> recoverable t {} d1)"
    using run_refines[OF d(1-3) rep_db_map[OF d(1)] xs(1) fits] by blast
  have e: "d1 = d'" "rsps = fst (kv_run (zip xs faults) (db_map E d))" using r(1) run by simp_all
  have "set faults \<subseteq> {None}"
  proof
    fix x
    assume x: "x \<in> set faults"
    show "x \<in> {None}"
    proof (rule ccontr)
      assume "x \<notin> {None}"
      then obtain e' where xe: "x = Some e'" by auto
      with x rf have le: "log_error E w_inv e'" and m: "RspDone (Fail e') \<in> set rsps" unfolding e(2) by blast+
      obtain n where "e' = ErrExternal n" using log_error_external[OF le] by blast
      then show False using m ok by (simp add: no_log_error_def)
    qed
  qed
  then show "recoverable t {} d'" using rl ids t rec e(1) by blast
  show "dinv d'" using r(2) e(1) by (simp add: settled_def)
qed

lemma run_recoverable:
  assumes d: "dinv d" "idle d" "\<not> closed d" "wal_log (Wl E) (dataFiles d) = []"
    and xs: "clock_ok now xs" "\<forall>(x, req) \<in> set xs. req_fits req \<and> batch_id x \<noteq> 0"
    and run: "db_run E xs d = Some (rsps, d')" and ok: "no_log_error rsps"
    and t: "sint (clock_end now xs) \<le> sint t"
  shows "recoverable t {} d'" and "dinv d'"
  using run_recovers[OF d(1-3) xs run ok t recoverable_new[OF d(1,4)]] by blast+

lemma restart_run:
  assumes d: "dinv d" "idle d" "\<not> closed d" "wal_log (Wl E) (dataFiles d) = []"
    and xs: "clock_ok now xs" "\<forall>(x, req) \<in> set xs. req_fits req \<and> batch_id x \<noteq> 0"
    and run: "db_run E xs d = Some (rsps, d')" and ok: "no_log_error rsps"
    and t: "sint (clock_end now xs) \<le> sint t"
    and f: "\<forall>x \<in> set (wal_log (Wl E) (dataFiles d')). 0 < SegmentId (fst x)"
  shows "\<exists>d''. open_log E t (options d') (dataFiles d') = Ok d'' \<and> dinv d'' \<and> idle d'' \<and> \<not> closed d''
     \<and> (\<forall>t'. sint t \<le> sint t' \<longrightarrow> db_view E t' d'' = db_view E t' d')"
  using open_recoverable[OF run_recoverable[OF d xs run ok t] f] by metis

lemma torn_commit:
  assumes d: "dinv d" and b: "batch_open E b" and c: "\<not> closed d" "\<not> ReadOnly (batch_options b)"
    and ne: "pendingWrites b \<noteq> []" and w: "writer (mu d)" and i: "i \<noteq> 0"
    and rec: "recoverable t U d" and fail: "batch_Commit E i now d b = (Fail e, d', b')"
    and torn: "\<not> BatchSync (batch_options b) \<or> Sync (options d)"
    and x: "\<forall>r \<in> set (pendingWrites b). \<not> IsExpired r t"
  shows "recoverable t (insert i U) d'"
proof (rule Commit_cases[OF d b c ne w, of i now])
  fix e1 d1 b1 ps
  assume a: "batch_Commit E i now d b = (Fail e1, released d1, b1)" and f: "commit_failed d d1 b b1"
    and g: "log_grew E d d1 ps (batch_chunks E i b)"
    and n: "length ps < length (batch_chunks E i b) \<or> BatchSync (batch_options b) \<and> \<not> Sync (options d)"
  have n': "length ps < length (batch_chunks E i b)" using n torn by blast
  have r1: "recoverable t (insert i U) d1" by (rule recoverable_torn[OF rec b i f g n' x])
  have d': "d' = released d1" using a fail by simp
  have "dinv d1" using f by (simp add: commit_failed_def)
  with r1 show ?thesis unfolding d' by (intro recoverable_same[OF r1]) simp_all
next
  fix d1 b1 ps
  assume "batch_Commit E i now d b = (Ok (), released d1, b1)"
  then show ?thesis using fail by simp
qed

end

section \<open>Properties\<close>

text \<open>
  Durability. Start from a database with an empty log, run any requests in the
  order of the clock, each under a nonzero batch identifier, and let no answer report an
  error of the log. Opening the log again at any later time succeeds, without a panic, and gives an
  open, unlocked database in which every reader from that time on sees what the old database
  holds.
\<close>

lemma restart_preserves_database:
  assumes "engine E bt_inv w_inv pend" and "db_inv E bt_inv w_inv pend d" and "idle d" and "\<not> closed d"
    and "wal_log (Wl E) (dataFiles d) = []" and "clock_ok now xs"
    and "\<forall>(x, req) \<in> set xs. req_fits req \<and> batch_id x \<noteq> 0"
    and "db_run E xs d = Some (rsps, d')" and "no_log_error rsps" and "sint (clock_end now xs) \<le> sint t"
    and "\<forall>x \<in> set (wal_log (Wl E) (dataFiles d')). 0 < SegmentId (fst x)"
  shows "\<exists>d''. open_log E t (options d') (dataFiles d') = Ok d'' \<and> db_inv E bt_inv w_inv pend d''
     \<and> idle d'' \<and> \<not> closed d''
     \<and> (\<forall>t'. sint t \<le> sint t' \<longrightarrow> db_view E t' d'' = db_view E t' d')"
  by (rule engine.restart_run[OF assms])

lemma restart_example:
  "let (rsps, d') = the (db_run ref_env example_run ref_db) in
     \<exists>d''. open_log ref_env 70 (options d') (dataFiles d') = Ok d''
       \<and> (\<forall>t'. sint (70 :: int64) \<le> sint t' \<longrightarrow> db_view ref_env t' d'' = db_view ref_env t' d')"
proof -
  obtain rsps d' where r: "db_run ref_env example_run ref_db = Some (rsps, d')"
  proof -
    have "db_run ref_env example_run ref_db \<noteq> None" by code_simp
    then show ?thesis using that by auto
  qed
  have i: "idle ref_db" "\<not> closed ref_db" "wal_log (Wl ref_env) (dataFiles ref_db) = []"
    by (simp_all add: idle_def ref_db_def wal_log_def ref_env_def list_wal_ops_def)
  have c: "clock_ok 0 example_run" "\<forall>(x, req) \<in> set example_run. req_fits req \<and> batch_id x \<noteq> 0"
    by (simp_all add: example_run_def value_fits_def maxLogRecordHeaderSize_def)
  have "map_option fst (db_run ref_env example_run ref_db)
      = Some [RspDone (Ok ()), RspDone (Ok ()), RspTTL (Ok 40), RspValue (Ok [65]), RspValue (Fail ErrKeyNotFound)]"
    by code_simp
  then have ok: "no_log_error rsps" using r by (auto simp: no_log_error_def)
  have "map_option (\<lambda>x. list_all (\<lambda>x. 0 < SegmentId (fst x)) (lw_log (dataFiles (snd x))))
      (db_run ref_env example_run ref_db) = Some True"
    by code_simp
  then have f: "\<forall>x \<in> set (wal_log (Wl ref_env) (dataFiles d')). 0 < SegmentId (fst x)"
    using r by (simp add: wal_log_def ref_env_def list_wal_ops_def list_all_iff)
  have t: "sint (clock_end 0 example_run) \<le> sint (70 :: int64)" by (simp add: example_run_def)
  from restart_preserves_database[OF ref.engine_axioms ref_db_inv i c r ok t f] show ?thesis
    by (auto simp: r)
qed

text \<open>
  Property C24. A batch whose write failed is invisible after a restart as well, on one
  condition. If the log was recoverable at time \<open>t\<close> (loading it then gives what readers
  see), a commit fails without a failed sync, and none of its records has expired at
  \<open>t\<close>, then the log, with the torn batch in it, is still recoverable at \<open>t\<close>: only
  the torn batch's own identifier has records left aside.
\<close>

theorem torn_batch_stays_invisible:
  assumes "engine E bt_inv w_inv pend" and "db_inv E bt_inv w_inv pend d" and "batch_open E b"
    and "\<not> closed d" and "\<not> ReadOnly (batch_options b)" and "pendingWrites b \<noteq> []" and "writer (mu d)"
    and "i \<noteq> 0" and "log_recoverable E bt_inv w_inv pend t U d"
    and "batch_Commit E i now d b = (Fail e, d', b')"
    and "\<not> BatchSync (batch_options b) \<or> Sync (options d)"
    and "\<forall>r \<in> set (pendingWrites b). \<not> IsExpired r t"
  shows "log_recoverable E bt_inv w_inv pend t (insert i U) d'"
  by (rule engine.torn_commit[OF assms])

text \<open>A log on a failing disk: of a batch only the first chunk gets through.\<close>

definition torn_WriteAll :: "list_wal \<Rightarrow> (go_error + chunk_position list) \<times> list_wal" where
  "torn_WriteAll w =
     (if lw_pending w = [] then (Inr [], w)
      else if 2 \<le> length (lw_pending w) \<and> int (length (lw_log w) + 1) < lw_limit
      then (Inl (ErrExternal 7), w\<lparr>lw_log := lw_log w @ [(lw_pos (length (lw_log w)), hd (lw_pending w))]\<rparr>)
      else (Inl (ErrExternal 7), w))"

definition torn_wal_ops :: "list_wal wal_ops" where
  "torn_wal_ops = list_wal_ops\<lparr>w_WriteAll := torn_WriteAll\<rparr>"

interpretation torn_wl: wal_lib torn_wal_ops list_wal_inv lw_pending
proof
  fix w p c
  assume "list_wal_inv w" and "(p, c) \<in> set (wal_log torn_wal_ops w)"
  then show "w_Read torn_wal_ops w p = Inr c"
    by (simp add: torn_wal_ops_def list_wal_ops_def wal_log_def lw_distinct)
next
  fix w x w'
  assume "list_wal_inv w" and "w_WriteAll torn_wal_ops w = (x, w')"
  then show "list_wal_inv w'"
    by (auto simp: torn_wal_ops_def torn_WriteAll_def list_wal_inv_def split: if_splits)
next
  fix w ps w'
  assume "list_wal_inv w" and "w_WriteAll torn_wal_ops w = (Inr ps, w')"
  then show "length ps = length (lw_pending w) \<and> lw_pending w' = []
      \<and> wal_log torn_wal_ops w' = wal_log torn_wal_ops w @ zip ps (lw_pending w)"
    by (auto simp: torn_wal_ops_def torn_WriteAll_def split: if_splits)
next
  fix w e w'
  assume "list_wal_inv w" and "w_WriteAll torn_wal_ops w = (Inl e, w')"
  then consider "w' = w" "0 < length (lw_pending w)"
    | c cs where "lw_pending w = c # cs" "1 < length (lw_pending w)" "lw_log w' = lw_log w @ [(lw_pos (length (lw_log w)), c)]"
    by (cases "lw_pending w") (auto simp: torn_wal_ops_def torn_WriteAll_def Suc_le_eq split: if_splits)
  then show "\<exists>ps. length ps < length (lw_pending w)
      \<and> wal_log torn_wal_ops w' = wal_log torn_wal_ops w @ zip ps (lw_pending w)"
  proof cases
    case 1
    then show ?thesis by (intro exI[of _ "[]"]) simp
  next
    case 2
    then show ?thesis
      by (intro exI[of _ "[lw_pos (length (lw_log w))]"]) (simp add: torn_wal_ops_def list_wal_ops_def wal_log_def)
  qed
next
  fix w e
  assume "list_wal_inv w" and "fst (w_WriteAll torn_wal_ops w) = Inl e"
  then show "\<exists>n. e = ErrExternal n"
    by (auto simp: torn_wal_ops_def torn_WriteAll_def split: if_splits)
qed (simp_all add: torn_wal_ops_def list_wal_ops_def wal_log_def list_wal_inv_def)

definition torn_env :: "(item list, list_wal) env" where
  "torn_env = ref_env\<lparr>Wl := torn_wal_ops\<rparr>"

interpretation torn: engine torn_env sorted_items list_wal_inv lw_pending
proof -
  have "btree_lib (Bt torn_env) sorted_items" and "wal_lib (Wl torn_env) list_wal_inv lw_pending"
    by (simp_all add: torn_env_def ref_env_def list_bt.btree_lib_axioms torn_wl.wal_lib_axioms)
  moreover have "engine_axioms torn_env"
    using ref.Parse_id ref.Id_length by unfold_locales (simp_all add: torn_env_def)
  ultimately show "engine torn_env sorted_items list_wal_inv lw_pending"
    by (simp add: engine_def)
qed

text \<open>A database with one key, and a batch that gives this key a new value with an expiry time.\<close>

definition one_key_run :: "(ticket \<times> request) list" where
  "one_key_run = [(\<lparr>batch_id = 1, t_op = 1, t_op2 = 1, t_commit = 1\<rparr>, ReqPut [1] [65])]"

definition one_key :: "(item list, list_wal) DB" where
  "one_key = locked (snd (the (db_run ref_env one_key_run ref_db)))"

definition ttl_batch :: Batch where
  "ttl_batch = snd (batch_PutWithTTL torn_env 2 [1] [66] 5 one_key write_batch)"

definition after_failure :: "(item list, list_wal) DB" where
  "after_failure = fst (snd (batch_Commit torn_env 2 2 one_key ttl_batch))"

lemma one_key_inv: "db_inv torn_env sorted_items list_wal_inv lw_pending one_key"
proof -
  have i: "idle ref_db" "\<not> closed ref_db" by (simp_all add: idle_def ref_db_def)
  have c: "clock_ok 0 one_key_run" "\<forall>(x, req) \<in> set one_key_run. req_fits req"
    by (simp_all add: one_key_run_def value_fits_def maxLogRecordHeaderSize_def)
  obtain d' where "db_run ref_env one_key_run ref_db \<noteq> None"
    and d': "the (db_run ref_env one_key_run ref_db) = d'" "db_inv ref_env sorted_items list_wal_inv lw_pending (snd d')"
    using ref.database_run[OF ref_db_inv i c] by force
  then show ?thesis
    by (simp add: one_key_def db_inv_def torn_env_def ref_env_def torn_wal_ops_def wal_log_def list_wal_ops_def)
      (simp add: locked_def)
qed

lemma ttl_batch_open: "batch_open torn_env ttl_batch"
  using put_record_spec(1)[OF pool_batch(1), of "[1]" "[66]" torn_env 7]
  by (simp add: ttl_batch_def batch_PutWithTTL_def write_guard_def one_key_def value_fits_def
      maxLogRecordHeaderSize_def)

lemma one_key_guards: "\<not> closed one_key" "\<not> ReadOnly (batch_options ttl_batch)" "pendingWrites ttl_batch \<noteq> []"
  "writer (mu one_key)" "\<not> BatchSync (batch_options ttl_batch) \<or> Sync (options one_key)"
  "\<forall>r \<in> set (pendingWrites ttl_batch). \<not> IsExpired r 3"
  by code_simp+

lemma one_key_recoverable: "log_recoverable torn_env sorted_items list_wal_inv lw_pending 3 {} one_key"
proof -
  have "load_chunks torn_env 3 (wal_log (Wl torn_env) (dataFiles one_key)) (NewIndexer (Bt torn_env), [])
      = Ok (index one_key, [])"
    by code_simp
  moreover have "one_key\<lparr>index := index one_key\<rparr> = one_key" by simp
  ultimately show ?thesis using one_key_inv unfolding log_recoverable_def by (metis get_records_Nil)
qed

theorem torn_batch_stays_invisible_witness:
  "log_recoverable torn_env sorted_items list_wal_inv lw_pending 3 {2} after_failure
     \<and> fst (batch_Commit torn_env 2 2 one_key ttl_batch) = Fail (ErrExternal 7)
     \<and> length (lw_log (dataFiles after_failure)) = 3"
proof (intro conjI)
  show f: "fst (batch_Commit torn_env 2 2 one_key ttl_batch) = Fail (ErrExternal 7)"
    and "length (lw_log (dataFiles after_failure)) = 3" by code_simp+
  have r: "batch_Commit torn_env 2 2 one_key ttl_batch
      = (Fail (ErrExternal 7), after_failure, snd (snd (batch_Commit torn_env 2 2 one_key ttl_batch)))"
    using f by (simp add: after_failure_def prod_eq_iff)
  have i: "(2 :: uint64) \<noteq> 0" by simp
  show "log_recoverable torn_env sorted_items list_wal_inv lw_pending 3 {2} after_failure"
    by (rule torn_batch_stays_invisible[OF torn.engine_axioms one_key_inv ttl_batch_open one_key_guards(1-4) i
          one_key_recoverable r one_key_guards(5,6)])
qed

text \<open>
  Property C35. The condition of the last property is needed. There are a database with a key
  that never expires, and a batch giving this key a value with a short life, whose commit
  fails half way through its write and reports it. The running database still answers with
  the old value; opened again after the new value would have expired, it has lost the key:
  loading takes a key out of the index for an expired record whether or not its batch was
  completed.
\<close>

theorem torn_expired_batch_loses_key:
  "\<exists>d b d' b' e d''. db_inv torn_env sorted_items list_wal_inv lw_pending d \<and> batch_open torn_env b
     \<and> batch_Commit torn_env 2 2 d b = (Fail e, d', b')
     \<and> db_view torn_env 20 d' [1] = Some ([65], 0)
     \<and> open_log torn_env 20 (options d') (dataFiles d') = Ok d''
     \<and> db_view torn_env 20 d'' [1] = None"
proof -
  have f: "fst (batch_Commit torn_env 2 2 one_key ttl_batch) = Fail (ErrExternal 7)" by code_simp
  have r: "batch_Commit torn_env 2 2 one_key ttl_batch
      = (Fail (ErrExternal 7), after_failure, snd (snd (batch_Commit torn_env 2 2 one_key ttl_batch)))"
    using f by (simp add: after_failure_def prod_eq_iff)
  have v: "db_view torn_env 20 after_failure [1] = Some ([65], 0)" by code_simp
  have "(case open_log torn_env 20 (options after_failure) (dataFiles after_failure) of
      Ok d'' \<Rightarrow> db_view torn_env 20 d'' [1] = None | _ \<Rightarrow> False)" by code_simp
  then obtain d'' where "open_log torn_env 20 (options after_failure) (dataFiles after_failure) = Ok d''"
    "db_view torn_env 20 d'' [1] = None" by (auto split: result.splits)
  then show ?thesis using one_key_inv ttl_batch_open r v by blast
qed

end
