(* ===== verification/Traversal.thy ===== *)
theory Traversal
  imports Database_Spec
begin

text \<open>
  The traversals of \<^verbatim>\<open>db.go\<close>: \<open>Ascend\<close>, \<open>Descend\<close>, their ranges, and
  the key-only variants with a regular expression and a filter of expired keys. Each runs a
  callback of the caller, whose state is passed along, over entries of the index under the
  read lock. The clock is read anew for every entry; as no key comes twice in a traversal,
  \<open>now\<close> gives the reading by key.
\<close>

section \<open>The callbacks\<close>

text \<open>\<open>DB.checkValue\<close>: \<open>None\<close> when the decoder panics, \<open>Some None\<close> for nil.\<close>

definition checkValue :: "int64 \<Rightarrow> bytes \<Rightarrow> bytes option option" where
  "checkValue now chunk =
     (case decodeLogRecord chunk of
        None \<Rightarrow> None
      | Some r \<Rightarrow> Some (if Type r \<noteq> LogRecordDeleted \<and> \<not> IsExpired r now then Some (Value r) else None))"

type_synonym 's value_handler = "bytes \<Rightarrow> bytes \<Rightarrow> 's \<Rightarrow> (bool \<times> go_error option) \<times> 's"
type_synonym 's key_handler = "bytes \<Rightarrow> 's \<Rightarrow> (bool \<times> go_error option) \<times> 's"

text \<open>
  The state of the caller's callback is \<open>None\<close> once the traversal has panicked.
  \<open>onErr\<close> is what the code returns for a failed read: the error, or nil.
\<close>

definition value_cb ::
    "('t, 'w) env \<Rightarrow> (bytes \<Rightarrow> int64) \<Rightarrow> ('t, 'w) DB \<Rightarrow> (go_error \<Rightarrow> go_error option)
       \<Rightarrow> 's value_handler \<Rightarrow> 's option handler" where
  "value_cb E now d onErr handleFn key pos s =
     (case s of
        None \<Rightarrow> ((False, None), None)
      | Some x \<Rightarrow>
          (case w_Read (Wl E) (dataFiles d) pos of
             Inl e \<Rightarrow> ((False, onErr e), Some x)
           | Inr chunk \<Rightarrow>
               (case checkValue (now key) chunk of
                  None \<Rightarrow> ((False, None), None)
                | Some None \<Rightarrow> ((True, None), Some x)
                | Some (Some v) \<Rightarrow> (case handleFn key v x of (c, x') \<Rightarrow> (c, Some x')))))"

definition key_cb ::
    "('t, 'w) env \<Rightarrow> (bytes \<Rightarrow> int64) \<Rightarrow> ('t, 'w) DB \<Rightarrow> (bytes \<Rightarrow> bool) option \<Rightarrow> bool
       \<Rightarrow> 's key_handler \<Rightarrow> 's option handler" where
  "key_cb E now d reg filterExpired handleFn key pos s =
     (case s of
        None \<Rightarrow> ((False, None), None)
      | Some x \<Rightarrow>
          if (case reg of None \<Rightarrow> False | Some match \<Rightarrow> \<not> match key) then ((True, None), Some x)
          else if filterExpired
          then (case w_Read (Wl E) (dataFiles d) pos of
                  Inl e \<Rightarrow> ((False, Some e), Some x)
                | Inr chunk \<Rightarrow>
                    (case checkValue (now key) chunk of
                       None \<Rightarrow> ((False, None), None)
                     | Some None \<Rightarrow> ((True, None), Some x)
                     | Some (Some v) \<Rightarrow> (case handleFn key x of (c, x') \<Rightarrow> (c, Some x'))))
          else (case handleFn key x of (c, x') \<Rightarrow> (c, Some x')))"

section \<open>The traversals\<close>

definition with_RLock :: "(('t, 'w) DB \<Rightarrow> 'a) \<Rightarrow> ('t, 'w) DB \<Rightarrow> ('a \<times> ('t, 'w) DB) option" where
  "with_RLock body d =
     (case mutex_RLock (mu d) of
        None \<Rightarrow> None
      | Some m \<Rightarrow> (case mutex_RUnlock m of
                     None \<Rightarrow> None
                   | Some m' \<Rightarrow> Some (body (d\<lparr>mu := m\<rparr>), d\<lparr>mu := m'\<rparr>)))"

definition db_Ascend where
  "db_Ascend E now handleFn s d = with_RLock
     (\<lambda>d. mt_Ascend (Bt E) (index d) (value_cb E now d Some handleFn) (Some s)) d"

definition db_AscendRange where
  "db_AscendRange E now startKey endKey handleFn s d = with_RLock
     (\<lambda>d. mt_AscendRange (Bt E) (index d) startKey endKey (value_cb E now d (\<lambda>e. None) handleFn) (Some s)) d"

definition db_AscendGreaterOrEqual where
  "db_AscendGreaterOrEqual E now key handleFn s d = with_RLock
     (\<lambda>d. mt_AscendGreaterOrEqual (Bt E) (index d) key (value_cb E now d (\<lambda>e. None) handleFn) (Some s)) d"

definition db_Descend where
  "db_Descend E now handleFn s d = with_RLock
     (\<lambda>d. mt_Descend (Bt E) (index d) (value_cb E now d (\<lambda>e. None) handleFn) (Some s)) d"

definition db_DescendRange where
  "db_DescendRange E now startKey endKey handleFn s d = with_RLock
     (\<lambda>d. mt_DescendRange (Bt E) (index d) startKey endKey (value_cb E now d (\<lambda>e. None) handleFn) (Some s)) d"

definition db_DescendLessOrEqual where
  "db_DescendLessOrEqual E now key handleFn s d = with_RLock
     (\<lambda>d. mt_DescendLessOrEqual (Bt E) (index d) key (value_cb E now d (\<lambda>e. None) handleFn) (Some s)) d"

text \<open>\<open>regexp.Compile\<close> is a parameter: the error, or the test of a key.\<close>

type_synonym regexp = "bytes \<Rightarrow> go_error + (bytes \<Rightarrow> bool)"

definition compile_pattern :: "regexp \<Rightarrow> bytes \<Rightarrow> go_error + (bytes \<Rightarrow> bool) option" where
  "compile_pattern compile pattern =
     (if 0 < length pattern
      then (case compile pattern of Inl e \<Rightarrow> Inl e | Inr match \<Rightarrow> Inr (Some match))
      else Inr None)"

definition keys_result :: "'s \<Rightarrow> (go_error + 's option) \<Rightarrow> unit result \<times> 's option" where
  "keys_result s x =
     (case x of Inl e \<Rightarrow> (Fail e, Some s) | Inr None \<Rightarrow> (Panic, None) | Inr (Some s') \<Rightarrow> (Ok (), Some s'))"

definition db_AscendKeys where
  "db_AscendKeys E compile now pattern filterExpired handleFn s d = with_RLock
     (\<lambda>d. keys_result s (case compile_pattern compile pattern of
        Inl e \<Rightarrow> Inl e
      | Inr reg \<Rightarrow> Inr (mt_Ascend (Bt E) (index d) (key_cb E now d reg filterExpired handleFn) (Some s)))) d"

definition db_AscendKeysRange where
  "db_AscendKeysRange E compile now startKey endKey pattern filterExpired handleFn s d = with_RLock
     (\<lambda>d. keys_result s (case compile_pattern compile pattern of
        Inl e \<Rightarrow> Inl e
      | Inr reg \<Rightarrow> Inr (mt_AscendRange (Bt E) (index d) startKey endKey
                          (key_cb E now d reg filterExpired handleFn) (Some s)))) d"

definition db_DescendKeys where
  "db_DescendKeys E compile now pattern filterExpired handleFn s d = with_RLock
     (\<lambda>d. keys_result s (case compile_pattern compile pattern of
        Inl e \<Rightarrow> Inl e
      | Inr reg \<Rightarrow> Inr (mt_Descend (Bt E) (index d) (key_cb E now d reg filterExpired handleFn) (Some s)))) d"

definition db_DescendKeysRange where
  "db_DescendKeysRange E compile now startKey endKey pattern filterExpired handleFn s d = with_RLock
     (\<lambda>d. keys_result s (case compile_pattern compile pattern of
        Inl e \<Rightarrow> Inl e
      | Inr reg \<Rightarrow> Inr (mt_DescendRange (Bt E) (index d) startKey endKey
                          (key_cb E now d reg filterExpired handleFn) (Some s)))) d"

section \<open>What a traversal hands to its callback\<close>

text \<open>The callback goes on when it returned true and no error.\<close>

definition go_on :: "(bool \<times> go_error option) \<times> 's \<Rightarrow> bool \<times> 's" where
  "go_on x = (case x of ((c, e), s) \<Rightarrow> (c \<and> e = None, s))"

definition db_keys :: "('t, 'w) env \<Rightarrow> ('t, 'w) DB \<Rightarrow> bytes list" where
  "db_keys E d = map fst (mt_entries (Bt E) (index d))"

definition live_pairs :: "('t, 'w) env \<Rightarrow> (bytes \<Rightarrow> int64) \<Rightarrow> ('t, 'w) DB \<Rightarrow> bytes list \<Rightarrow> (bytes \<times> bytes) list" where
  "live_pairs E now d ks =
     List.map_filter (\<lambda>k. map_option (\<lambda>(v, e). (k, v)) (db_view E (now k) d k)) ks"

definition live_keys ::
    "('t, 'w) env \<Rightarrow> (bytes \<Rightarrow> int64) \<Rightarrow> ('t, 'w) DB \<Rightarrow> (bytes \<Rightarrow> bool) option \<Rightarrow> bool \<Rightarrow> bytes list \<Rightarrow> bytes list" where
  "live_keys E now d reg filterExpired ks =
     filter (\<lambda>k. (\<forall>m. reg = Some m \<longrightarrow> m k) \<and> (filterExpired \<longrightarrow> db_view E (now k) d k \<noteq> None)) ks"

text \<open>What \<open>filterExpired\<close> asks of a key: that it is alive, or only that it is in the index.\<close>

definition wanted :: "('t, 'w) env \<Rightarrow> (bytes \<Rightarrow> int64) \<Rightarrow> ('t, 'w) DB \<Rightarrow> bool \<Rightarrow> bytes \<Rightarrow> bool" where
  "wanted E now d filterExpired k =
     (if filterExpired then db_view E (now k) d k \<noteq> None else stored_rec E d k \<noteq> None)"

definition run_pairs :: "'s value_handler \<Rightarrow> (bytes \<times> bytes) list \<Rightarrow> 's \<Rightarrow> 's" where
  "run_pairs h xs s = visit (\<lambda>(k, v) s. go_on (h k v s)) xs s"

definition run_keys :: "'s key_handler \<Rightarrow> bytes list \<Rightarrow> 's \<Rightarrow> 's" where
  "run_keys h xs s = visit (\<lambda>k s. go_on (h k s)) xs s"

declare List.map_filter_simps [simp]

lemma map_fst_filter: "map fst (filter (\<lambda>e. p (fst e)) xs) = filter p (map fst xs)"
  by (simp add: filter_map comp_def)

lemmas range_filters =
  map_fst_filter[where p = "\<lambda>k. a \<le> k \<and> k < b" for a b] map_fst_filter[where p = "\<lambda>k. k \<le> a \<and> b < k" for a b]
  map_fst_filter[where p = "\<lambda>k. a \<le> k" for a] map_fst_filter[where p = "\<lambda>k. k \<le> a" for a]

lemma live_pairs_filter:
  "live_pairs E now d (filter p ks) = filter (\<lambda>x. p (fst x)) (live_pairs E now d ks)"
  by (induction ks) (auto simp: live_pairs_def split: option.splits prod.splits)

lemma map_filter_append: "List.map_filter f (xs @ ys) = List.map_filter f xs @ List.map_filter f ys"
  by (induction xs) (auto split: option.split)

lemma live_pairs_rev: "live_pairs E now d (rev ks) = rev (live_pairs E now d ks)"
  by (induction ks) (auto simp: live_pairs_def map_filter_append split: option.splits)

lemma live_keys_filter:
  "live_keys E now d reg f (filter p ks) = filter p (live_keys E now d reg f ks)"
  by (simp add: live_keys_def conj_commute)

lemma live_keys_rev: "live_keys E now d reg f (rev ks) = rev (live_keys E now d reg f ks)"
  by (simp add: live_keys_def rev_filter)

lemma live_pairs_set:
  "(k, v) \<in> set (live_pairs E now d ks) \<longleftrightarrow> k \<in> set ks \<and> (\<exists>e. db_view E (now k) d k = Some (v, e))"
  by (induction ks) (auto simp: live_pairs_def split: option.splits)

lemma live_pairs_keys: "map fst (live_pairs E now d ks) = filter (\<lambda>k. db_view E (now k) d k \<noteq> None) ks"
  by (induction ks) (auto simp: live_pairs_def split: option.splits)

lemma with_RLock_free:
  assumes "\<not> writer (mu d)"
  shows "with_RLock body d = Some (body (rlocked d), d)"
  using assms by (simp add: with_RLock_def mutex_RLock_def mutex_RUnlock_def rlocked_def)

context engine
begin

lemma value_cb_visit:
  assumes d: "dinv d" and es: "set es \<subseteq> set (mt_entries (Bt E) (index d))"
  shows "visit (handle_entry (value_cb E now d onErr h)) es (Some s)
       = Some (run_pairs h (live_pairs E now d (map fst es)) s)"
  using es
proof (induction es arbitrary: s)
  case Nil
  then show ?case by (simp add: run_pairs_def live_pairs_def)
next
  case (Cons a es)
  obtain k p where a: "a = (k, p)" by (cases a)
  have i: "mt_inv bt_inv (index d)" using d by (simp add: db_inv_def)
  have "mt_Get (Bt E) (index d) k = Some p" using ix.entries_get[OF i, of k p] Cons.prems a by simp
  then obtain c r where r: "w_Read (Wl E) (dataFiles d) p = Inr c" "decodeLogRecord c = Some r"
    "good_record k r" "stored_rec E d k = Some r"
    using stored[OF d] by blast
  have IH: "visit (handle_entry (value_cb E now d onErr h)) es (Some s)
      = Some (run_pairs h (live_pairs E now d (map fst es)) s)" for s
    using Cons by simp
  have v: "db_view E (now k) d k = visible (now k) r" using r(4) by (simp add: db_view_def)
  show ?case
  proof (cases "live (now k) r")
    case False
    then have "checkValue (now k) c = Some None" using r(2) by (auto simp: checkValue_def live_def)
    then have "handle_entry (value_cb E now d onErr h) a (Some s) = (True, Some s)"
      using r(1) a by (simp add: handle_entry_def value_cb_def)
    moreover have "live_pairs E now d (map fst (a # es)) = live_pairs E now d (map fst es)"
      using False v a by (simp add: live_pairs_def visible_def)
    ultimately show ?thesis using IH by simp
  next
    case True
    then have cv: "checkValue (now k) c = Some (Some (Value r))" using r(2) by (auto simp: checkValue_def live_def)
    have lp: "live_pairs E now d (map fst (a # es)) = (k, Value r) # live_pairs E now d (map fst es)"
      using True v a by (simp add: live_pairs_def visible_def)
    obtain go er s' where h: "h k (Value r) s = ((go, er), s')" by (metis prod.exhaust)
    have "handle_entry (value_cb E now d onErr h) a (Some s) = (go \<and> er = None, Some s')"
      using cv r(1) a h by (simp add: handle_entry_def value_cb_def)
    then show ?thesis
      unfolding lp using IH[of s'] h by (simp add: run_pairs_def go_on_def)
  qed
qed

lemma key_cb_visit:
  assumes d: "dinv d" and es: "set es \<subseteq> set (mt_entries (Bt E) (index d))"
  shows "visit (handle_entry (key_cb E now d reg f h)) es (Some s)
       = Some (run_keys h (live_keys E now d reg f (map fst es)) s)"
  using es
proof (induction es arbitrary: s)
  case Nil
  then show ?case by (simp add: run_keys_def live_keys_def)
next
  case (Cons a es)
  obtain k p where a: "a = (k, p)" by (cases a)
  have i: "mt_inv bt_inv (index d)" using d by (simp add: db_inv_def)
  have "mt_Get (Bt E) (index d) k = Some p" using ix.entries_get[OF i, of k p] Cons.prems a by simp
  then obtain c r where r: "w_Read (Wl E) (dataFiles d) p = Inr c" "decodeLogRecord c = Some r"
    "good_record k r" "stored_rec E d k = Some r"
    using stored[OF d] by blast
  have IH: "visit (handle_entry (key_cb E now d reg f h)) es (Some s)
      = Some (run_keys h (live_keys E now d reg f (map fst es)) s)" for s
    using Cons by simp
  have v: "db_view E (now k) d k = visible (now k) r" using r(4) by (simp add: db_view_def)
  have cv: "checkValue (now k) c = Some (if live (now k) r then Some (Value r) else None)"
    using r(2) by (auto simp: checkValue_def live_def)
  obtain go er s' where h: "h k s = ((go, er), s')" by (metis prod.exhaust)
  show ?case
  proof (cases "(\<forall>m. reg = Some m \<longrightarrow> m k) \<and> (f \<longrightarrow> live (now k) r)")
    case True
    then have lk: "live_keys E now d reg f (map fst (a # es)) = k # live_keys E now d reg f (map fst es)"
      using v a by (auto simp: live_keys_def visible_def)
    have "handle_entry (key_cb E now d reg f h) a (Some s) = (go \<and> er = None, Some s')"
      using True cv r(1) a h by (cases reg) (simp_all add: handle_entry_def key_cb_def)
    then show ?thesis
      unfolding lk using IH[of s'] h by (simp add: run_keys_def go_on_def)
  next
    case False
    then have lk: "live_keys E now d reg f (map fst (a # es)) = live_keys E now d reg f (map fst es)"
      using v a by (auto simp: live_keys_def visible_def)
    have "handle_entry (key_cb E now d reg f h) a (Some s) = (True, Some s)"
      using False cv r(1) a by (cases reg) (auto simp: handle_entry_def key_cb_def)
    then show ?thesis unfolding lk using IH by simp
  qed
qed

lemma rlocked_live [simp]:
  "live_pairs E now (rlocked d) ks = live_pairs E now d ks"
  "live_keys E now (rlocked d) reg f ks = live_keys E now d reg f ks"
  "index (rlocked d) = index d" "dataFiles (rlocked d) = dataFiles d"
  by (simp_all add: live_pairs_def live_keys_def rlocked_def)

lemma pair_traversals:
  fixes d :: "('t, 'w) DB" and h :: "'s value_handler" and now :: "bytes \<Rightarrow> int64"
  assumes d: "dinv d" and w: "\<not> writer (mu d)"
  defines "xs \<equiv> live_pairs E now d (db_keys E d)"
  shows "db_Ascend E now h s d = Some (Some (run_pairs h xs s), d)"
    and "db_Descend E now h s d = Some (Some (run_pairs h (rev xs) s), d)"
    and "db_AscendRange E now a b h s d = Some (Some (run_pairs h (filter (\<lambda>x. a \<le> fst x \<and> fst x < b) xs) s), d)"
    and "db_DescendRange E now a b h s d
           = Some (Some (run_pairs h (filter (\<lambda>x. fst x \<le> a \<and> b < fst x) (rev xs)) s), d)"
    and "db_AscendGreaterOrEqual E now a h s d = Some (Some (run_pairs h (filter (\<lambda>x. a \<le> fst x) xs) s), d)"
    and "db_DescendLessOrEqual E now a h s d
           = Some (Some (run_pairs h (filter (\<lambda>x. fst x \<le> a) (rev xs)) s), d)"
proof -
  have i: "mt_inv bt_inv (index d)" using d by (simp add: db_inv_def)
  have l: "dinv (rlocked d)" using d by simp
  have v: "visit (handle_entry (value_cb E now (rlocked d) oe h)) es (Some s)
      = Some (run_pairs h (live_pairs E now d (map fst es)) s)"
    if "set es \<subseteq> set (mt_entries (Bt E) (index d))" for es oe
    using value_cb_visit[OF l, of es now oe h s] that by simp
  note ds = with_RLock_free[OF w] traversal_entries[OF i] v xs_def db_keys_def range_filters live_pairs_filter
    live_pairs_rev rev_map[symmetric] filter_is_subset subset_refl
  show "db_Ascend E now h s d = Some (Some (run_pairs h xs s), d)"
    by (simp add: db_Ascend_def ds)
  show "db_Descend E now h s d = Some (Some (run_pairs h (rev xs) s), d)"
    by (simp add: db_Descend_def ds)
  show "db_AscendRange E now a b h s d = Some (Some (run_pairs h (filter (\<lambda>x. a \<le> fst x \<and> fst x < b) xs) s), d)"
    by (simp add: db_AscendRange_def ds)
  show "db_DescendRange E now a b h s d
           = Some (Some (run_pairs h (filter (\<lambda>x. fst x \<le> a \<and> b < fst x) (rev xs)) s), d)"
    by (simp add: db_DescendRange_def ds)
  show "db_AscendGreaterOrEqual E now a h s d = Some (Some (run_pairs h (filter (\<lambda>x. a \<le> fst x) xs) s), d)"
    by (simp add: db_AscendGreaterOrEqual_def ds)
  show "db_DescendLessOrEqual E now a h s d
           = Some (Some (run_pairs h (filter (\<lambda>x. fst x \<le> a) (rev xs)) s), d)"
    by (simp add: db_DescendLessOrEqual_def ds)
qed

lemma key_traversals:
  fixes d :: "('t, 'w) DB" and h :: "'s key_handler" and now :: "bytes \<Rightarrow> int64" and f :: bool
  assumes d: "dinv d" and w: "\<not> writer (mu d)" and c: "compile_pattern compile pat = Inr reg"
  defines "ks \<equiv> live_keys E now d reg f (db_keys E d)"
  shows "db_AscendKeys E compile now pat f h s d = Some ((Ok (), Some (run_keys h ks s)), d)"
    and "db_DescendKeys E compile now pat f h s d = Some ((Ok (), Some (run_keys h (rev ks) s)), d)"
    and "db_AscendKeysRange E compile now a b pat f h s d
           = Some ((Ok (), Some (run_keys h (filter (\<lambda>k. a \<le> k \<and> k < b) ks) s)), d)"
    and "db_DescendKeysRange E compile now a b pat f h s d
           = Some ((Ok (), Some (run_keys h (filter (\<lambda>k. k \<le> a \<and> b < k) (rev ks)) s)), d)"
proof -
  have i: "mt_inv bt_inv (index d)" using d by (simp add: db_inv_def)
  have l: "dinv (rlocked d)" using d by simp
  have v: "visit (handle_entry (key_cb E now (rlocked d) reg f h)) es (Some s)
      = Some (run_keys h (live_keys E now d reg f (map fst es)) s)"
    if "set es \<subseteq> set (mt_entries (Bt E) (index d))" for es
    using key_cb_visit[OF l, of es now reg f h s] that by simp
  note ds = with_RLock_free[OF w] c keys_result_def traversal_entries[OF i] v ks_def db_keys_def range_filters
    live_keys_filter live_keys_rev rev_map[symmetric] filter_is_subset subset_refl
  show "db_AscendKeys E compile now pat f h s d = Some ((Ok (), Some (run_keys h ks s)), d)"
    by (simp add: db_AscendKeys_def ds)
  show "db_DescendKeys E compile now pat f h s d = Some ((Ok (), Some (run_keys h (rev ks) s)), d)"
    by (simp add: db_DescendKeys_def ds)
  show "db_AscendKeysRange E compile now a b pat f h s d
           = Some ((Ok (), Some (run_keys h (filter (\<lambda>k. a \<le> k \<and> k < b) ks) s)), d)"
    by (simp add: db_AscendKeysRange_def ds)
  show "db_DescendKeysRange E compile now a b pat f h s d
           = Some ((Ok (), Some (run_keys h (filter (\<lambda>k. k \<le> a \<and> b < k) (rev ks)) s)), d)"
    by (simp add: db_DescendKeysRange_def ds)
qed

lemma db_keys_sorted: "dinv d \<Longrightarrow> sorted_wrt (<) (db_keys E d)"
  using ix.entries_sorted by (simp add: db_inv_def db_keys_def)

lemma db_keys_view:
  assumes "dinv d" and "db_view E t d k \<noteq> None"
  shows "k \<in> set (db_keys E d)"
proof -
  have i: "mt_inv bt_inv (index d)" using assms(1) by (simp add: db_inv_def)
  obtain p where "mt_Get (Bt E) (index d) k = Some p"
    using assms(2) by (auto simp: db_view_def stored_rec_def split: option.splits)
  then have "(k, p) \<in> set (mt_entries (Bt E) (index d))" using ix.entries_get[OF i] by simp
  then show ?thesis by (force simp: db_keys_def)
qed

lemma live_pairs_db:
  assumes "dinv d"
  shows "sorted_wrt (<) (map fst (live_pairs E now d (db_keys E d)))"
    and "(k, v) \<in> set (live_pairs E now d (db_keys E d)) \<longleftrightarrow> (\<exists>e. db_view E (now k) d k = Some (v, e))"
  using db_keys_sorted[OF assms] db_keys_view[OF assms, of "now k" k]
  by (auto simp: live_pairs_keys live_pairs_set sorted_wrt_filter)

lemma db_keys_stored:
  assumes "dinv d"
  shows "k \<in> set (db_keys E d) \<longleftrightarrow> stored_rec E d k \<noteq> None"
proof -
  have i: "mt_inv bt_inv (index d)" using assms by (simp add: db_inv_def)
  have "k \<in> set (db_keys E d) \<longleftrightarrow> (\<exists>p. (k, p) \<in> set (mt_entries (Bt E) (index d)))" by (force simp: db_keys_def)
  also have "\<dots> \<longleftrightarrow> (\<exists>p. mt_Get (Bt E) (index d) k = Some p)" by (simp add: ix.entries_get[OF i])
  also have "\<dots> \<longleftrightarrow> stored_rec E d k \<noteq> None"
  proof
    assume "\<exists>p. mt_Get (Bt E) (index d) k = Some p"
    then obtain p where p: "mt_Get (Bt E) (index d) k = Some p" by blast
    obtain c r where "stored_rec E d k = Some r" using stored[OF assms p] by blast
    then show "stored_rec E d k \<noteq> None" by simp
  qed (auto simp: stored_rec_def split: option.splits)
  finally show ?thesis .
qed

lemma live_keys_db:
  assumes "dinv d"
  shows "sorted_wrt (<) (live_keys E now d reg f (db_keys E d))"
    and "k \<in> set (live_keys E now d reg f (db_keys E d)) \<longleftrightarrow> (\<forall>m. reg = Some m \<longrightarrow> m k) \<and> wanted E now d f k"
  using db_keys_sorted[OF assms] db_keys_view[OF assms, of "now k" k] db_keys_stored[OF assms, of k]
  by (auto simp: live_keys_def wanted_def sorted_wrt_filter)

lemma traversals_complete:
  assumes "dinv d" and "\<not> writer (mu d)"
  shows "\<exists>xs. sorted_wrt (<) (map fst xs)
    \<and> (\<forall>k v. (k, v) \<in> set xs \<longleftrightarrow> (\<exists>e. db_view E (now k) d k = Some (v, e)))
    \<and> db_Ascend E now h s d = Some (Some (run_pairs h xs s), d)
    \<and> db_Descend E now h s d = Some (Some (run_pairs h (rev xs) s), d)
    \<and> db_AscendRange E now a b h s d = Some (Some (run_pairs h (filter (\<lambda>x. a \<le> fst x \<and> fst x < b) xs) s), d)
    \<and> db_DescendRange E now a b h s d
        = Some (Some (run_pairs h (filter (\<lambda>x. fst x \<le> a \<and> b < fst x) (rev xs)) s), d)
    \<and> db_AscendGreaterOrEqual E now a h s d = Some (Some (run_pairs h (filter (\<lambda>x. a \<le> fst x) xs) s), d)
    \<and> db_DescendLessOrEqual E now a h s d
        = Some (Some (run_pairs h (filter (\<lambda>x. fst x \<le> a) (rev xs)) s), d)"
  by (intro exI[of _ "live_pairs E now d (db_keys E d)"] conjI allI live_pairs_db[OF assms(1)]
      pair_traversals[OF assms])

lemma key_traversals_complete:
  assumes "dinv d" and "\<not> writer (mu d)"
  shows "case compile_pattern compile pat of
     Inl e \<Rightarrow>
       db_AscendKeys E compile now pat f h s d = Some ((Fail e, Some s), d)
       \<and> db_DescendKeys E compile now pat f h s d = Some ((Fail e, Some s), d)
       \<and> db_AscendKeysRange E compile now a b pat f h s d = Some ((Fail e, Some s), d)
       \<and> db_DescendKeysRange E compile now a b pat f h s d = Some ((Fail e, Some s), d)
   | Inr reg \<Rightarrow>
       \<exists>ks. sorted_wrt (<) ks
       \<and> (\<forall>k. k \<in> set ks \<longleftrightarrow> (\<forall>m. reg = Some m \<longrightarrow> m k) \<and> wanted E now d f k)
       \<and> db_AscendKeys E compile now pat f h s d = Some ((Ok (), Some (run_keys h ks s)), d)
       \<and> db_DescendKeys E compile now pat f h s d = Some ((Ok (), Some (run_keys h (rev ks) s)), d)
       \<and> db_AscendKeysRange E compile now a b pat f h s d
           = Some ((Ok (), Some (run_keys h (filter (\<lambda>k. a \<le> k \<and> k < b) ks) s)), d)
       \<and> db_DescendKeysRange E compile now a b pat f h s d
           = Some ((Ok (), Some (run_keys h (filter (\<lambda>k. k \<le> a \<and> b < k) (rev ks)) s)), d)"
proof (cases "compile_pattern compile pat")
  case (Inl e)
  then show ?thesis
    by (simp add: db_AscendKeys_def db_DescendKeys_def db_AscendKeysRange_def db_DescendKeysRange_def keys_result_def
        with_RLock_free[OF assms(2)])
next
  case (Inr reg)
  show ?thesis
    unfolding Inr sum.case
    by (intro exI[of _ "live_keys E now d reg f (db_keys E d)"] conjI allI live_keys_db[OF assms(1)]
        key_traversals[OF assms Inr])
qed

end

section \<open>Properties\<close>

text \<open>
  Property C22. There is one ordered list of the pairs that are alive when the traversal reads
  them, each key once, and every traversal runs the callback over it until the callback stops:
  \<open>Ascend\<close> from the front, \<open>Descend\<close> from the back, the ranges over the part from
  the first bound, which is included, to the second, which is not, and the half-open ones
  from their bound, which is included. No traversal panics, blocks or changes the database.
\<close>

theorem traversals_visit_live_pairs:
  assumes "engine E bt_inv w_inv pend" and "db_inv E bt_inv w_inv pend d" and "\<not> writer (mu d)"
  shows "\<exists>xs. sorted_wrt (<) (map fst xs)
    \<and> (\<forall>k v. (k, v) \<in> set xs \<longleftrightarrow> (\<exists>e. db_view E (now k) d k = Some (v, e)))
    \<and> db_Ascend E now h s d = Some (Some (run_pairs h xs s), d)
    \<and> db_Descend E now h s d = Some (Some (run_pairs h (rev xs) s), d)
    \<and> db_AscendRange E now a b h s d = Some (Some (run_pairs h (filter (\<lambda>x. a \<le> fst x \<and> fst x < b) xs) s), d)
    \<and> db_DescendRange E now a b h s d
        = Some (Some (run_pairs h (filter (\<lambda>x. fst x \<le> a \<and> b < fst x) (rev xs)) s), d)
    \<and> db_AscendGreaterOrEqual E now a h s d = Some (Some (run_pairs h (filter (\<lambda>x. a \<le> fst x) xs) s), d)
    \<and> db_DescendLessOrEqual E now a h s d
        = Some (Some (run_pairs h (filter (\<lambda>x. fst x \<le> a) (rev xs)) s), d)"
  by (rule engine.traversals_complete[OF assms])

text \<open>Three keys, the second with an expiry time that is over.\<close>

definition three_keys :: "(item list, list_wal) DB" where
  "three_keys = snd (the (db_run ref_env
     [(\<lparr>batch_id = 1, t_op = 1, t_op2 = 1, t_commit = 1\<rparr>, ReqPut [1] [65]),
      (\<lparr>batch_id = 2, t_op = 2, t_op2 = 2, t_commit = 2\<rparr>, ReqPutWithTTL [2] [66] 5),
      (\<lparr>batch_id = 3, t_op = 3, t_op2 = 3, t_commit = 3\<rparr>, ReqPut [3] [67])] ref_db))"

lemma three_keys_inv: "db_inv ref_env sorted_items list_wal_inv lw_pending three_keys" "\<not> writer (mu three_keys)"
proof -
  let ?xs = "[(\<lparr>batch_id = 1, t_op = 1, t_op2 = 1, t_commit = 1\<rparr>, ReqPut [1] [65]),
      (\<lparr>batch_id = 2, t_op = 2, t_op2 = 2, t_commit = 2\<rparr>, ReqPutWithTTL [2] [66] 5),
      (\<lparr>batch_id = 3, t_op = 3, t_op2 = 3, t_commit = 3\<rparr>, ReqPut [3] [67])]"
  have i: "idle ref_db" "\<not> closed ref_db" by (simp_all add: idle_def ref_db_def)
  have c: "clock_ok 0 ?xs" "\<forall>(x, req) \<in> set ?xs. req_fits req"
    by (simp_all add: value_fits_def maxLogRecordHeaderSize_def)
  from ref.database_run[OF ref_db_inv i c]
  show "db_inv ref_env sorted_items list_wal_inv lw_pending three_keys" "\<not> writer (mu three_keys)"
    unfolding three_keys_def idle_def by force+
qed

definition collect :: "(bytes \<times> bytes) list value_handler" where
  "collect k v acc = ((True, None), acc @ [(k, v)])"

theorem traversals_visit_live_pairs_witness:
  "(\<exists>xs. db_Ascend ref_env (\<lambda>k. 7) collect [] three_keys = Some (Some (run_pairs collect xs []), three_keys)
     \<and> sorted_wrt (<) (map fst xs))
   \<and> map_option fst (db_Ascend ref_env (\<lambda>k. 7) collect [] three_keys) = Some (Some [([1], [65]), ([3], [67])])
   \<and> map_option fst (db_AscendRange ref_env (\<lambda>k. 7) [1] [3] collect [] three_keys) = Some (Some [([1], [65])])"
proof (intro conjI)
  show "\<exists>xs. db_Ascend ref_env (\<lambda>k. 7) collect [] three_keys = Some (Some (run_pairs collect xs []), three_keys)
     \<and> sorted_wrt (<) (map fst xs)"
    using traversals_visit_live_pairs[OF ref.engine_axioms three_keys_inv, of "\<lambda>k. 7" collect "[]"] by blast
  show "map_option fst (db_Ascend ref_env (\<lambda>k. 7) collect [] three_keys) = Some (Some [([1], [65]), ([3], [67])])"
    by code_simp
  show "map_option fst (db_AscendRange ref_env (\<lambda>k. 7) [1] [3] collect [] three_keys) = Some (Some [([1], [65])])"
    by code_simp
qed

text \<open>
  Property C27. Each of the four key traversals runs the callback, in order and until it stops,
  over exactly the keys of its range that match the pattern (every key matches the empty one)
  and are wanted: with the filter of expired keys on, those that are alive when the traversal
  reads them, with the filter off every key of the index. The ranges include their first bound
  and exclude the second. A pattern that does not compile is returned as the error, without
  a call of the callback. In no case does a traversal panic, block or change the database.
\<close>

theorem key_traversals_visit_live_keys:
  assumes "engine E bt_inv w_inv pend" and "db_inv E bt_inv w_inv pend d" and "\<not> writer (mu d)"
  shows "case compile_pattern compile pat of
     Inl e \<Rightarrow>
       db_AscendKeys E compile now pat f h s d = Some ((Fail e, Some s), d)
       \<and> db_DescendKeys E compile now pat f h s d = Some ((Fail e, Some s), d)
       \<and> db_AscendKeysRange E compile now a b pat f h s d = Some ((Fail e, Some s), d)
       \<and> db_DescendKeysRange E compile now a b pat f h s d = Some ((Fail e, Some s), d)
   | Inr reg \<Rightarrow>
       \<exists>ks. sorted_wrt (<) ks
       \<and> (\<forall>k. k \<in> set ks \<longleftrightarrow> (\<forall>m. reg = Some m \<longrightarrow> m k) \<and> wanted E now d f k)
       \<and> db_AscendKeys E compile now pat f h s d = Some ((Ok (), Some (run_keys h ks s)), d)
       \<and> db_DescendKeys E compile now pat f h s d = Some ((Ok (), Some (run_keys h (rev ks) s)), d)
       \<and> db_AscendKeysRange E compile now a b pat f h s d
           = Some ((Ok (), Some (run_keys h (filter (\<lambda>k. a \<le> k \<and> k < b) ks) s)), d)
       \<and> db_DescendKeysRange E compile now a b pat f h s d
           = Some ((Ok (), Some (run_keys h (filter (\<lambda>k. k \<le> a \<and> b < k) (rev ks)) s)), d)"
  by (rule engine.key_traversals_complete[OF assms])

text \<open>Patterns are compared for being unequal here, and the pattern \<open>[0]\<close> does not compile.\<close>

definition unequal :: regexp where
  "unequal p = (if p = [0] then Inl (ErrExternal 1) else Inr (\<lambda>k. k \<noteq> p))"

definition gather :: "bytes list key_handler" where
  "gather k acc = ((True, None), acc @ [k])"

theorem key_traversals_visit_live_keys_witness:
  "(\<exists>ks. db_AscendKeys ref_env unequal (\<lambda>k. 7) [3] True gather [] three_keys = Some ((Ok (), Some (run_keys gather ks [])), three_keys)
      \<and> run_keys gather ks [] = [[1]])
   \<and> (\<exists>ks. db_DescendKeys ref_env unequal (\<lambda>k. 7) [3] False gather [] three_keys
        = Some ((Ok (), Some (run_keys gather (rev ks) [])), three_keys) \<and> run_keys gather (rev ks) [] = [[2], [1]])
   \<and> db_AscendKeys ref_env unequal (\<lambda>k. 7) [0] True gather [] three_keys = Some ((Fail (ErrExternal 1), Some []), three_keys)"
proof -
  have c: "compile_pattern unequal [3] = Inr (Some (\<lambda>k. k \<noteq> [3]))" "compile_pattern unequal [0] = Inl (ErrExternal 1)"
    by (simp_all add: compile_pattern_def unequal_def)
  have r: "map_option fst (db_AscendKeys ref_env unequal (\<lambda>k. 7) [3] True gather [] three_keys) = Some (Ok (), Some [[1]])"
    "map_option fst (db_DescendKeys ref_env unequal (\<lambda>k. 7) [3] False gather [] three_keys) = Some (Ok (), Some [[2], [1]])"
    by code_simp+
  note t = key_traversals_visit_live_keys[OF ref.engine_axioms three_keys_inv, where compile = unequal and now = "\<lambda>k. 7" and h = gather and s = "[]"]
  have "\<exists>ks. db_AscendKeys ref_env unequal (\<lambda>k. 7) [3] True gather [] three_keys = Some ((Ok (), Some (run_keys gather ks [])), three_keys)"
    using t[of "[3]" True] unfolding c sum.case by blast
  moreover have "\<exists>ks. db_DescendKeys ref_env unequal (\<lambda>k. 7) [3] False gather [] three_keys
      = Some ((Ok (), Some (run_keys gather (rev ks) [])), three_keys)"
    using t[of "[3]" False] unfolding c sum.case by blast
  moreover have "db_AscendKeys ref_env unequal (\<lambda>k. 7) [0] True gather [] three_keys = Some ((Fail (ErrExternal 1), Some []), three_keys)"
    using t[of "[0]" True] unfolding c sum.case by blast
  ultimately show ?thesis using r by (elim exE) (intro conjI exI; simp)
qed

end
