(* ===== verification/Expiry.thy ===== *)
theory Expiry
  imports Traversal
begin

text \<open>
  \<open>DB.DeleteExpiredKeys\<close>: a goroutine that takes the database lock and removes expired
  keys from the index, a hundred positions at a time, from \<open>expiredCursorKey\<close> upwards. Its
  loop may run for ever, so it is a partial function into \<open>option\<close>: not returning is
  \<open>None\<close>.
\<close>

section \<open>The goroutine\<close>

definition select_positions :: "('t, 'w) env \<Rightarrow> ('t, 'w) DB \<Rightarrow> chunk_position list" where
  "select_positions E d =
     mt_AscendGreaterOrEqual (Bt E) (index d) (expiredCursorKey d)
       (\<lambda>k pos positions.
          let positions = positions @ [pos]
          in if 100 \<le> length positions then ((False, None), positions) else ((True, None), positions)) []"

fun sweep :: "('t, 'w) env \<Rightarrow> int64 \<Rightarrow> chunk_position list \<Rightarrow> ('t, 'w) DB \<Rightarrow> unit result \<times> ('t, 'w) DB" where
  "sweep E now [] d = (Ok (), d)"
| "sweep E now (pos # ps) d =
     (case w_Read (Wl E) (dataFiles d) pos of
        Inl e \<Rightarrow> (Fail e, d)
      | Inr chunk \<Rightarrow>
          (case decodeLogRecord chunk of
             None \<Rightarrow> (Panic, d)
           | Some r \<Rightarrow>
               (let d = (if IsExpired r now then index_Delete E (Key r) d else d)
                in sweep E now ps (d\<lparr>expiredCursorKey := Key r\<rparr>))))"

text \<open>One turn of the loop: \<open>Inl\<close> when the goroutine returns, \<open>Inr\<close> when it goes on.\<close>

definition expire_round ::
    "('t, 'w) env \<Rightarrow> int64 \<Rightarrow> ('t, 'w) DB \<Rightarrow> (unit result \<times> ('t, 'w) DB) + ('t, 'w) DB" where
  "expire_round E now d =
     (let positions = select_positions E d in
      if length positions = 0 then Inl (Ok (), d\<lparr>expiredCursorKey := []\<rparr>)
      else (case sweep E now positions d of
              (Ok _, d) \<Rightarrow> Inr d
            | (r, d) \<Rightarrow> Inl (r, d)))"

partial_function (option) expire_loop ::
    "('t, 'w) env \<Rightarrow> int64 \<Rightarrow> ('t, 'w) DB \<Rightarrow> (unit result \<times> ('t, 'w) DB) option" where
  "expire_loop E now d =
     (case expire_round E now d of Inl x \<Rightarrow> Some x | Inr d' \<Rightarrow> expire_loop E now d')"

definition expire_goroutine ::
    "('t, 'w) env \<Rightarrow> int64 \<Rightarrow> ('t, 'w) DB \<Rightarrow> (unit result \<times> ('t, 'w) DB) option" where
  "expire_goroutine E now d =
     (case mutex_Lock (mu d) of
        None \<Rightarrow> None
      | Some m \<Rightarrow>
          (case expire_loop E now (d\<lparr>mu := m\<rparr>) of
             None \<Rightarrow> None
           | Some (r, d) \<Rightarrow> (case mutex_Unlock (mu d) of None \<Rightarrow> None | Some m \<Rightarrow> Some (r, d\<lparr>mu := m\<rparr>))))"

text \<open>
  What the caller gets: nil when the timeout fires first (the goroutine goes on in the
  background), else what the goroutine sent; it waits for ever (\<open>None\<close>) if there is
  neither.
\<close>

definition db_DeleteExpiredKeys ::
    "('t, 'w) env \<Rightarrow> bool \<Rightarrow> int64 \<Rightarrow> ('t, 'w) DB \<Rightarrow> unit result option" where
  "db_DeleteExpiredKeys E timedOut now d =
     (if timedOut then Some (Ok ()) else map_option fst (expire_goroutine E now d))"

section \<open>One round\<close>

definition expired_key :: "('t, 'w) env \<Rightarrow> int64 \<Rightarrow> ('t, 'w) DB \<Rightarrow> bytes \<Rightarrow> bool" where
  "expired_key E now d k \<longleftrightarrow> (\<exists>r. stored_rec E d k = Some r \<and> IsExpired r now)"

text \<open>The keys the cursor has not passed.\<close>

definition ahead :: "('t, 'w) env \<Rightarrow> ('t, 'w) DB \<Rightarrow> (bytes \<times> chunk_position) list" where
  "ahead E d = filter (\<lambda>e. expiredCursorKey d \<le> fst e) (mt_entries (Bt E) (index d))"

definition index_same :: "('t, 'w) DB \<Rightarrow> ('t, 'w) DB \<Rightarrow> bool" where
  "index_same d d' \<longleftrightarrow> d' = d\<lparr>index := index d', expiredCursorKey := expiredCursorKey d'\<rparr>"

lemma index_sameD:
  assumes "index_same d d'"
  shows "dataFiles d' = dataFiles d" and "mu d' = mu d" and "closed d' = closed d" and "options d' = options d"
  using assms by (cases d; cases d'; simp add: index_same_def)+

lemma index_same_refl [simp]: "index_same d d"
  by (simp add: index_same_def)

lemma index_same_trans: "index_same d d1 \<Longrightarrow> index_same d1 d2 \<Longrightarrow> index_same d d2"
  by (cases d; cases d1; cases d2) (simp add: index_same_def)

lemma cursor_simps [simp]:
  "stored_rec E (d\<lparr>expiredCursorKey := k\<rparr>) k' = stored_rec E d k'"
  "db_view E t (d\<lparr>expiredCursorKey := k\<rparr>) = db_view E t d"
  "db_inv E bt_inv w_inv pend (d\<lparr>expiredCursorKey := k\<rparr>) = db_inv E bt_inv w_inv pend d"
  by (auto simp: stored_rec_def db_view_def db_inv_def fun_eq_iff split: option.split)

lemma last_sorted:
  fixes xs :: "('a :: linorder \<times> 'b) list"
  assumes "sorted_wrt (<) (map fst xs)" and "xs \<noteq> []" and "x \<in> set xs"
  shows "fst x \<le> fst (last xs)"
  using assms
proof (induction xs)
  case Nil
  then show ?case by simp
next
  case (Cons a xs)
  show ?case
  proof (cases "xs = []")
    case True
    then show ?thesis using Cons.prems by simp
  next
    case False
    then have "fst a < fst (last xs)" using Cons.prems(1) last_in_set[of xs] by simp
    then show ?thesis using Cons False by (auto intro: less_imp_le)
  qed
qed

context engine
begin

lemma select_ahead:
  assumes "dinv d"
  shows "select_positions E d = map snd (take 100 (ahead E d))"
proof -
  have i: "mt_inv bt_inv (index d)" using assms by (simp add: db_inv_def)
  let ?h = "\<lambda>k pos positions.
          let positions = positions @ [pos]
          in if 100 \<le> length positions then ((False, None), positions) else ((True, None), positions)"
  have "handle_entry ?h = (\<lambda>x acc. (length (acc @ [snd x]) < 100, acc @ [snd x]))"
    by (intro ext) (auto simp: handle_entry_def Let_def)
  then have "select_positions E d = visit (\<lambda>x acc. (length (acc @ [snd x]) < 100, acc @ [snd x])) (ahead E d) []"
    unfolding select_positions_def AscendGreaterOrEqual_entries[OF i] ahead_def by (simp only:)
  then show ?thesis using visit_take[of "[]" 100 snd "ahead E d"] by (simp add: take_map)
qed

lemma ahead_get:
  assumes "dinv d"
  shows "(k, p) \<in> set (ahead E d) \<longleftrightarrow> mt_Get (Bt E) (index d) k = Some p \<and> expiredCursorKey d \<le> k"
proof -
  have "mt_inv bt_inv (index d)" using assms by (simp add: db_inv_def)
  from ix.entries_get[OF this, of k p] show ?thesis by (auto simp: ahead_def)
qed

lemma ahead_sorted:
  assumes "dinv d"
  shows "sorted_wrt (<) (map fst (ahead E d))"
proof -
  have "mt_inv bt_inv (index d)" using assms by (simp add: db_inv_def)
  from ix.entries_sorted[OF this] show ?thesis
    by (simp add: ahead_def map_fst_filter[where p = "\<lambda>k. expiredCursorKey d \<le> k"] sorted_wrt_filter)
qed

text \<open>A sweep removes the expired keys among those it visits and leaves the cursor at the last.\<close>

lemma sweep_spec:
  assumes "dinv d" and "distinct (map fst es)" and "\<forall>(k, p) \<in> set es. mt_Get (Bt E) (index d) k = Some p"
  obtains d' where "sweep E now (map snd es) d = (Ok (), d')" and "dinv d'" and "index_same d d'"
    and "\<And>k. mt_Get (Bt E) (index d') k
           = (if k \<in> fst ` set es \<and> expired_key E now d k then None else mt_Get (Bt E) (index d) k)"
    and "\<And>t. sint now \<le> sint t \<Longrightarrow> db_view E t d' = db_view E t d"
    and "expiredCursorKey d' = (if es = [] then expiredCursorKey d else fst (last es))"
  using assms
proof (induction es arbitrary: d thesis)
  case Nil
  then show ?case by simp
next
  case (Cons a es)
  obtain k p where a: "a = (k, p)" by (cases a)
  have kp: "mt_Get (Bt E) (index d) k = Some p" using Cons.prems(4) a by simp
  obtain c r where r: "w_Read (Wl E) (dataFiles d) p = Inr c" "decodeLogRecord c = Some r"
    "good_record k r" "stored_rec E d k = Some r"
    using stored[OF Cons.prems(2) kp] by blast
  have kr: "Key r = k" using r(3) by (simp add: good_record_def)
  define d1 where "d1 = (if IsExpired r now then index_Delete E k d else d)\<lparr>expiredCursorKey := k\<rparr>"
  have x: "expired_key E now d k \<longleftrightarrow> IsExpired r now" using r(4) by (simp add: expired_key_def)
  have d1: "dinv d1" "index_same d d1" using Cons.prems(2) index_Delete_inv
    by (simp_all add: d1_def index_same_def) (simp add: index_Delete_def)
  have g1: "mt_Get (Bt E) (index d1) k' = (if k' = k \<and> IsExpired r now then None else mt_Get (Bt E) (index d) k')" for k'
    using index_Delete_get[OF Cons.prems(2), of k k'] by (auto simp: d1_def)
  have s1: "stored_rec E d1 k' = stored_rec E d k'" if "k' \<noteq> k" for k'
    using that index_Delete_stored[OF Cons.prems(2), of k k'] by (simp add: d1_def)
  have v1: "db_view E t d1 = db_view E t d" if "sint now \<le> sint t" for t
    using index_Delete_expired[OF Cons.prems(2) r(4), of now] that by (simp add: d1_def same_from_def)
  have es: "distinct (map fst es)" "k \<notin> fst ` set es" using Cons.prems(3) a by auto
  have e1: "\<forall>(k', p') \<in> set es. mt_Get (Bt E) (index d1) k' = Some p'"
    using Cons.prems(4) es(2) by (force simp: g1)
  obtain d' where IH: "sweep E now (map snd es) d1 = (Ok (), d')" "dinv d'" "index_same d1 d'"
    "\<And>k. mt_Get (Bt E) (index d') k
           = (if k \<in> fst ` set es \<and> expired_key E now d1 k then None else mt_Get (Bt E) (index d1) k)"
    "\<And>t. sint now \<le> sint t \<Longrightarrow> db_view E t d' = db_view E t d1"
    "expiredCursorKey d' = (if es = [] then expiredCursorKey d1 else fst (last es))"
    using Cons.IH[OF _ d1(1) es(1) e1] by blast
  show ?case
  proof (rule Cons.prems(1)[of d'])
    show "sweep E now (map snd (a # es)) d = (Ok (), d')"
      using IH(1)[unfolded d1_def] r(1,2) kr a by (cases "IsExpired r now") (simp_all add: Let_def)
    show "dinv d'" "index_same d d'" using IH(2,3) index_same_trans[OF d1(2)] by simp_all
    show "db_view E t d' = db_view E t d" if "sint now \<le> sint t" for t using IH(5) v1 that by simp
    show "expiredCursorKey d' = (if a # es = [] then expiredCursorKey d else fst (last (a # es)))"
      using IH(6) a by (simp add: d1_def)
    show "mt_Get (Bt E) (index d') k'
        = (if k' \<in> fst ` set (a # es) \<and> expired_key E now d k' then None else mt_Get (Bt E) (index d) k')" for k'
    proof (cases "k' = k")
      case True
      then show ?thesis using IH(4)[of k'] g1[of k'] es(2) a x by simp
    next
      case False
      then have "expired_key E now d1 k' = expired_key E now d k'" using s1 by (simp add: expired_key_def)
      then show ?thesis using IH(4)[of k'] g1[of k'] a False by simp
    qed
  qed
qed

section \<open>The loop\<close>

text \<open>What a round does when there are keys ahead of the cursor.\<close>

lemma expire_round_done:
  assumes "dinv d" and "ahead E d = []"
  shows "expire_round E now d = Inl (Ok (), d\<lparr>expiredCursorKey := []\<rparr>)"
  using select_ahead[OF assms(1)] assms(2) by (simp add: expire_round_def)

lemma expire_round_step:
  assumes d: "dinv d" and ne: "ahead E d \<noteq> []"
  obtains d' where "expire_round E now d = Inr d'" and "dinv d'" and "index_same d d'"
    and "\<And>k. mt_Get (Bt E) (index d') k
           = (if k \<in> fst ` set (take 100 (ahead E d)) \<and> expired_key E now d k then None else mt_Get (Bt E) (index d) k)"
    and "\<And>t. sint now \<le> sint t \<Longrightarrow> db_view E t d' = db_view E t d"
    and "expiredCursorKey d' = fst (last (take 100 (ahead E d)))"
proof -
  let ?es = "take 100 (ahead E d)"
  have "distinct (map fst (ahead E d))" using ahead_sorted[OF d] by (simp only: strict_sorted_iff)
  then have di: "distinct (map fst ?es)" by (simp add: take_map[symmetric])
  have "\<forall>(k, p) \<in> set ?es. mt_Get (Bt E) (index d) k = Some p"
    using ahead_get[OF d] by (auto dest: in_set_takeD)
  note sw = sweep_spec[OF d di this, of now]
  show ?thesis
    by (rule sw) (use ne that in \<open>simp add: expire_round_def select_ahead[OF d] Let_def\<close>)
qed

lemma stored_rec_same:
  assumes "index_same d d'" and "mt_Get (Bt E) (index d') k = mt_Get (Bt E) (index d) k"
  shows "stored_rec E d' k = stored_rec E d k"
  using assms(2) index_sameD(1)[OF assms(1)] by (simp add: stored_rec_def split: option.split)

text \<open>The greatest key, unexpired and not passed by the cursor, keeps the loop going.\<close>

definition stuck :: "int64 \<Rightarrow> bytes \<Rightarrow> ('t, 'w) DB \<Rightarrow> bool" where
  "stuck now g d \<longleftrightarrow> dinv d \<and> mt_Get (Bt E) (index d) g \<noteq> None \<and> \<not> expired_key E now d g
     \<and> expiredCursorKey d \<le> g \<and> (\<forall>k. mt_Get (Bt E) (index d) k \<noteq> None \<longrightarrow> k \<le> g)"

lemma stuck_round:
  assumes s: "stuck now g d"
  obtains d' where "expire_round E now d = Inr d'" and "stuck now g d'"
proof -
  have d: "dinv d" using s by (simp add: stuck_def)
  obtain p where p: "mt_Get (Bt E) (index d) g = Some p" using s by (auto simp: stuck_def)
  then have "(g, p) \<in> set (ahead E d)" using s ahead_get[OF d] by (simp add: stuck_def)
  then have ne: "ahead E d \<noteq> []" by auto
  show ?thesis
  proof (rule expire_round_step[OF d ne, of now])
    fix d'
    assume r: "expire_round E now d = Inr d'" and i: "dinv d'" "index_same d d'"
      and g: "\<And>k. mt_Get (Bt E) (index d') k
           = (if k \<in> fst ` set (take 100 (ahead E d)) \<and> expired_key E now d k then None else mt_Get (Bt E) (index d) k)"
      and c: "expiredCursorKey d' = fst (last (take 100 (ahead E d)))"
    have gg: "mt_Get (Bt E) (index d') g = mt_Get (Bt E) (index d) g" using g[of g] s by (simp add: stuck_def)
    obtain k q where l: "last (take 100 (ahead E d)) = (k, q)" by (cases "last (take 100 (ahead E d))")
    have "last (take 100 (ahead E d)) \<in> set (take 100 (ahead E d))" using ne by (intro last_in_set) simp
    then have "(k, q) \<in> set (ahead E d)" using l by (auto dest: in_set_takeD)
    then have "k \<le> g" using ahead_get[OF d, of k q] s by (auto simp: stuck_def)
    moreover have "\<not> expired_key E now d' g" using stored_rec_same[OF i(2) gg] s by (simp add: stuck_def expired_key_def)
    moreover have "k' \<le> g" if "mt_Get (Bt E) (index d') k' \<noteq> None" for k'
      using that g[of k'] s by (auto simp: stuck_def split: if_splits)
    ultimately have "stuck now g d'" using i(1) gg p c l by (simp add: stuck_def)
    then show ?thesis using that r by blast
  qed
qed

lemma stuck_loop:
  assumes "stuck now g d"
  shows "expire_loop E now d = None"
proof -
  have "E' = E \<longrightarrow> \<not> stuck now' g d'" if "expire_loop E' now' d' = Some y" for E' :: "('t, 'w) env" and now' d' y
    using that
  proof (rule expire_loop.raw_induct[rotated])
    fix loop :: "('t, 'w) env \<Rightarrow> int64 \<Rightarrow> ('t, 'w) DB \<Rightarrow> (unit result \<times> ('t, 'w) DB) option" and E' now' d' y
    assume IH: "\<And>E' now' d' y. loop E' now' d' = Some y \<Longrightarrow> E' = E \<longrightarrow> \<not> stuck now' g d'"
      and y: "(case expire_round E' now' d' of Inl x \<Rightarrow> Some x | Inr d1 \<Rightarrow> loop E' now' d1) = Some y"
    show "E' = E \<longrightarrow> \<not> stuck now' g d'"
    proof (intro impI notI)
      assume "E' = E" and "stuck now' g d'"
      then obtain d1 where "expire_round E' now' d' = Inr d1" "stuck now' g d1" using stuck_round by blast
      then show False using y IH[of E' now' d1 y] \<open>E' = E\<close> by simp
    qed
  qed
  then show ?thesis using assms by (cases "expire_loop E now d") auto
qed

text \<open>The keys that a round leaves ahead of the cursor.\<close>

lemma round_keys:
  assumes d: "dinv d" and ne: "ahead E d \<noteq> []"
  defines "es \<equiv> take 100 (ahead E d)"
  obtains d' where "expire_round E now d = Inr d'" and "dinv d'" and "index_same d d'"
    and "\<And>t. sint now \<le> sint t \<Longrightarrow> db_view E t d' = db_view E t d"
    and "\<And>k. k \<in> fst ` set es \<Longrightarrow> \<not> expired_key E now d' k"
    and "\<And>k. expired_key E now d' k \<Longrightarrow> expired_key E now d k"
    and "fst ` set (ahead E d') = {k \<in> fst ` set (ahead E d). fst (last es) \<le> k
             \<and> \<not> (k \<in> fst ` set es \<and> expired_key E now d k)}"
    and "\<And>k. k \<notin> fst ` set es \<Longrightarrow> expired_key E now d' k = expired_key E now d k"
    and "expiredCursorKey d' = fst (last es)"
proof (rule expire_round_step[OF d ne, of now, folded es_def])
  fix d'
  assume r: "expire_round E now d = Inr d'" and i: "dinv d'" "index_same d d'"
    and g: "\<And>k. mt_Get (Bt E) (index d') k
           = (if k \<in> fst ` set es \<and> expired_key E now d k then None else mt_Get (Bt E) (index d) k)"
    and v: "\<And>t. sint now \<le> sint t \<Longrightarrow> db_view E t d' = db_view E t d"
    and c: "expiredCursorKey d' = fst (last es)"
  have "last es \<in> set es" using ne by (intro last_in_set) (simp add: es_def)
  then have "last es \<in> set (ahead E d)" unfolding es_def by (rule in_set_takeD)
  then have cur: "expiredCursorKey d \<le> fst (last es)" by (simp add: ahead_def)
  have key: "k \<in> fst ` set (ahead E d0) \<longleftrightarrow> mt_Get (Bt E) (index d0) k \<noteq> None \<and> expiredCursorKey d0 \<le> k"
    if "dinv d0" for d0 k
    using ahead_get[OF that, of k] by (force simp: image_iff)
  have keys: "fst ` set (ahead E d') = {k \<in> fst ` set (ahead E d). fst (last es) \<le> k
             \<and> \<not> (k \<in> fst ` set es \<and> expired_key E now d k)}"
    using g c cur by (auto simp only: set_eq_iff key[OF i(1)] key[OF d] mem_Collect_eq split: if_splits)
  have same: "expired_key E now d' k = expired_key E now d k"
    if "mt_Get (Bt E) (index d') k = mt_Get (Bt E) (index d) k" for k
    using stored_rec_same[OF i(2) that] by (simp add: expired_key_def)
  have lost: "\<not> expired_key E now d' k" if "mt_Get (Bt E) (index d') k = None" for k
    using not_stored[OF that] by (simp add: expired_key_def)
  show thesis
  proof (rule that[OF r i v _ _ keys _ c])
    show "\<not> expired_key E now d' k" if "k \<in> fst ` set es" for k
      using g[of k] that same[of k] lost[of k] by (cases "expired_key E now d k") simp_all
    show "expired_key E now d k" if "expired_key E now d' k" for k
      using g[of k] that same[of k] lost[of k] by (auto split: if_splits)
    show "expired_key E now d' k = expired_key E now d k" if "k \<notin> fst ` set es" for k
      using g[of k] that same[of k] by simp
  qed
qed

text \<open>When the greatest key has expired, the loop reaches it and ends.\<close>

definition clears :: "int64 \<Rightarrow> ('t, 'w) DB \<Rightarrow> bool" where
  "clears now d \<longleftrightarrow> dinv d \<and> (\<forall>k \<in> fst ` set (ahead E d).
     \<exists>g \<in> fst ` set (ahead E d). k \<le> g \<and> expired_key E now d g)"

lemma clears_round:
  assumes s: "clears now d" and ne: "ahead E d \<noteq> []"
  obtains d' where "expire_round E now d = Inr d'" and "clears now d'" and "index_same d d'"
    and "fst ` set (ahead E d') \<subset> fst ` set (ahead E d)"
    and "\<And>k. expired_key E now d' k \<Longrightarrow> expired_key E now d k"
    and "\<And>k. expired_key E now d' k \<Longrightarrow> expiredCursorKey d \<le> k \<Longrightarrow> expiredCursorKey d' \<le> k"
    and "\<And>t. sint now \<le> sint t \<Longrightarrow> db_view E t d' = db_view E t d"
proof -
  have d: "dinv d" using s by (simp add: clears_def)
  let ?a = "ahead E d"
  define es where "es = take 100 ?a"
  have len: "1 \<le> length es" using ne by (cases ?a) (simp_all add: es_def)
  have esn: "es \<noteq> []" using len by auto
  have rest: "fst (last es) < k" if "k \<in> fst ` set ?a" "k \<notin> fst ` set es" for k
  proof -
    from that obtain x where x: "x \<in> set ?a" "k = fst x" by auto
    have "set ?a = set es \<union> set (drop 100 ?a)" unfolding es_def by (metis append_take_drop_id set_append)
    then have xd: "x \<in> set (drop 100 ?a)" using x that(2) by auto
    have "sorted_wrt (<) (map fst (es @ drop 100 ?a))" using ahead_sorted[OF d] by (simp add: es_def)
    then show ?thesis using xd last_in_set[OF esn] x(2) by (auto simp: sorted_wrt_append)
  qed
  have up: "k \<le> fst (last es)" if "k \<in> fst ` set es" for k
  proof -
    have "sorted_wrt (<) (map fst es)"
      using ahead_sorted[OF d] unfolding es_def by (simp add: take_map[symmetric] sorted_wrt_take)
    then show ?thesis using that last_sorted[of es] esn by auto
  qed
  show ?thesis
  proof (rule round_keys[OF d ne, of now, folded es_def])
    fix d'
    assume r: "expire_round E now d = Inr d'" and i: "dinv d'" "index_same d d'"
      and v: "\<And>t. sint now \<le> sint t \<Longrightarrow> db_view E t d' = db_view E t d"
      and gone: "\<And>k. k \<in> fst ` set es \<Longrightarrow> \<not> expired_key E now d' k"
      and old: "\<And>k. expired_key E now d' k \<Longrightarrow> expired_key E now d k"
      and keys: "fst ` set (ahead E d') = {k \<in> fst ` set ?a. fst (last es) \<le> k
             \<and> \<not> (k \<in> fst ` set es \<and> expired_key E now d k)}"
      and same: "\<And>k. k \<notin> fst ` set es \<Longrightarrow> expired_key E now d' k = expired_key E now d k"
      and c: "expiredCursorKey d' = fst (last es)"
    let ?l = "fst (last es)"
    have l: "?l \<in> fst ` set ?a" "?l \<in> fst ` set es"
      using last_in_set[OF esn] by (auto simp: es_def dest: in_set_takeD)
    obtain g where g: "g \<in> fst ` set ?a" "?l \<le> g" "expired_key E now d g" using s l(1) unfolding clears_def by blast
    have top: "\<exists>g' \<in> fst ` set (ahead E d'). k \<le> g' \<and> expired_key E now d' g'" if k: "k \<in> fst ` set (ahead E d')" for k
    proof -
      have ka: "k \<in> fst ` set ?a" using k keys by blast
      obtain g' where g': "g' \<in> fst ` set ?a" "k \<le> g'" "expired_key E now d g'"
        using s ka unfolding clears_def by blast
      have "g' \<notin> fst ` set es"
      proof
        assume e: "g' \<in> fst ` set es"
        have "?l \<le> k" using k keys by blast
        then have "k = g'" using up[OF e] g'(2) by simp
        then show False using k keys e g'(3) by blast
      qed
      then show ?thesis using g' rest[OF g'(1)] same[of g'] keys by (intro bexI[of _ g']) auto
    qed
    have strict: "fst ` set (ahead E d') \<subset> fst ` set ?a"
    proof (cases "g \<in> fst ` set es")
      case True
      then show ?thesis using g keys by blast
    next
      case False
      then have "es \<noteq> ?a" using g(1) by auto
      then have "length es = 100" by (auto simp: es_def)
      then obtain x y zs where es: "es = x # y # zs" by (cases es; cases "tl es") auto
      have "sorted_wrt (<) (map fst es)"
        using ahead_sorted[OF d] unfolding es_def by (simp add: take_map[symmetric] sorted_wrt_take)
      then have "fst x < ?l" using last_in_set[of "y # zs"] by (auto simp: es)
      then have "fst x \<notin> fst ` set (ahead E d')" unfolding keys by (simp add: not_le[symmetric])
      moreover have "x \<in> set ?a" using in_set_takeD[of x 100 ?a] es by (simp add: es_def[symmetric])
      ultimately show ?thesis using keys by blast
    qed
    show ?thesis
    proof (rule that[OF r _ i(2) strict old _ v])
      show "clears now d'" using i(1) top by (simp add: clears_def)
      show "expiredCursorKey d' \<le> k" if x: "expired_key E now d' k" and le: "expiredCursorKey d \<le> k" for k
      proof -
        obtain q where "mt_Get (Bt E) (index d) k = Some q"
          using old[OF x] by (auto simp: expired_key_def stored_rec_def split: option.splits)
        then have "(k, q) \<in> set ?a" using ahead_get[OF d] le by blast
        then have "k \<in> fst ` set ?a" by force
        then show ?thesis using rest gone x c by (metis less_imp_le)
      qed
    qed
  qed
qed

lemma clears_loop:
  assumes "clears now d"
  shows "\<exists>d'. expire_loop E now d = Some (Ok (), d') \<and> dinv d' \<and> index_same d d' \<and> expiredCursorKey d' = []
     \<and> (\<forall>k. expired_key E now d' k \<longrightarrow> expired_key E now d k \<and> k < expiredCursorKey d)
     \<and> (\<forall>t. sint now \<le> sint t \<longrightarrow> db_view E t d' = db_view E t d)"
  using assms
proof (induction "card (fst ` set (ahead E d))" arbitrary: d rule: less_induct)
  case less
  have d: "dinv d" using less.prems by (simp add: clears_def)
  show ?case
  proof (cases "ahead E d = []")
    case True
    have "k < expiredCursorKey d" if x: "expired_key E now d k" for k
    proof (rule ccontr)
      assume "\<not> k < expiredCursorKey d"
      then have le: "expiredCursorKey d \<le> k" by simp
      from x obtain q where "mt_Get (Bt E) (index d) k = Some q"
        by (auto simp: expired_key_def stored_rec_def split: option.splits)
      then show False using ahead_get[OF d, of k q] le True by simp
    qed
    then show ?thesis using expire_round_done[OF d True] d
      by (subst expire_loop.simps) (simp add: expired_key_def index_same_def)
  next
    case False
    show ?thesis
    proof (rule clears_round[OF less.prems False])
      fix d1
      assume r: "expire_round E now d = Inr d1" and c: "clears now d1" and i: "index_same d d1"
        and sub: "fst ` set (ahead E d1) \<subset> fst ` set (ahead E d)"
        and old: "\<And>k. expired_key E now d1 k \<Longrightarrow> expired_key E now d k"
        and cur: "\<And>k. expired_key E now d1 k \<Longrightarrow> expiredCursorKey d \<le> k \<Longrightarrow> expiredCursorKey d1 \<le> k"
        and v: "\<And>t. sint now \<le> sint t \<Longrightarrow> db_view E t d1 = db_view E t d"
      have "card (fst ` set (ahead E d1)) < card (fst ` set (ahead E d))" by (rule psubset_card_mono[OF _ sub]) simp
      from less.hyps[OF this c] obtain d' where d': "expire_loop E now d1 = Some (Ok (), d')" "dinv d'"
        "index_same d1 d'" "expiredCursorKey d' = []" "\<forall>k. expired_key E now d' k \<longrightarrow> expired_key E now d1 k \<and> k < expiredCursorKey d1"
        "\<forall>t. sint now \<le> sint t \<longrightarrow> db_view E t d' = db_view E t d1" by blast
      have "k < expiredCursorKey d" if "expired_key E now d' k" for k
        using d'(5) that cur[of k] by (metis not_le)
      moreover have "expire_loop E now d = Some (Ok (), d')"
        using d'(1) r by (subst expire_loop.simps) simp
      moreover have "index_same d d'" by (rule index_same_trans[OF i d'(3)])
      ultimately show ?thesis using d'(2,4-6) old v by (intro exI[of _ d']) auto
    qed
  qed
qed

text \<open>The goroutine takes the lock, runs the loop and lets go of the lock.\<close>

lemma stored_rec_mu [simp]: "stored_rec E (d\<lparr>mu := m\<rparr>) k = stored_rec E d k"
  by (simp add: stored_rec_def split: option.split)

lemma expired_key_mu [simp]: "expired_key E now (d\<lparr>mu := m\<rparr>) k = expired_key E now d k"
  by (simp add: expired_key_def)

lemma goroutine_idle:
  assumes "idle d"
  shows "expire_goroutine E now d =
    (case expire_loop E now (locked d) of
       None \<Rightarrow> None
     | Some (r, d) \<Rightarrow> (case mutex_Unlock (mu d) of None \<Rightarrow> None | Some m \<Rightarrow> Some (r, d\<lparr>mu := m\<rparr>)))"
  using assms by (simp add: expire_goroutine_def mutex_Lock_def idle_def locked_def)

lemma goroutine_ends:
  assumes d: "dinv d" and i: "idle d"
    and top: "\<forall>k. mt_Get (Bt E) (index d) k \<noteq> None \<and> expiredCursorKey d \<le> k
        \<longrightarrow> (\<exists>g. k \<le> g \<and> expired_key E now d g)"
  shows "\<exists>d'. expire_goroutine E now d = Some (Ok (), d') \<and> dinv d' \<and> idle d' \<and> expiredCursorKey d' = []
     \<and> (\<forall>k. expiredCursorKey d \<le> k \<longrightarrow> \<not> expired_key E now d' k)
     \<and> (\<forall>t. sint now \<le> sint t \<longrightarrow> db_view E t d' = db_view E t d)"
proof -
  have ld: "dinv (locked d)" using d by simp
  have "clears now (locked d)"
    unfolding clears_def
  proof (intro conjI ballI ld)
    fix k
    assume "k \<in> fst ` set (ahead E (locked d))"
    then obtain p where "(k, p) \<in> set (ahead E (locked d))" by auto
    then have k: "mt_Get (Bt E) (index d) k = Some p" "expiredCursorKey d \<le> k"
      using ahead_get[OF ld, of k p] by (simp_all add: locked_def)
    then obtain g where g: "k \<le> g" "expired_key E now d g" using top by blast
    obtain q where "mt_Get (Bt E) (index d) g = Some q"
      using g(2) by (auto simp: expired_key_def stored_rec_def split: option.splits)
    then have "(g, q) \<in> set (ahead E (locked d))"
      using ahead_get[OF ld, of g q] k(2) g(1) by (simp add: locked_def)
    then show "\<exists>g \<in> fst ` set (ahead E (locked d)). k \<le> g \<and> expired_key E now (locked d) g"
      using g by (force simp: locked_def)
  qed
  from clears_loop[OF this] obtain d' where d': "expire_loop E now (locked d) = Some (Ok (), d')" "dinv d'"
    "index_same (locked d) d'" "expiredCursorKey d' = []"
    "\<forall>k. expired_key E now d' k \<longrightarrow> k < expiredCursorKey (locked d)"
    "\<forall>t. sint now \<le> sint t \<longrightarrow> db_view E t d' = db_view E t d" by auto
  let ?d = "d'\<lparr>mu := (mu d')\<lparr>writer := False\<rparr>\<rparr>"
  have m: "mu d' = mu (locked d)" by (rule index_sameD(2)[OF d'(3)])
  have "expire_goroutine E now d = Some (Ok (), ?d)"
    using d'(1) m by (simp add: goroutine_idle[OF i] mutex_Unlock_def)
  moreover have "idle ?d" using m i by (simp add: idle_def locked_def)
  moreover have "\<not> expired_key E now ?d k" if "expiredCursorKey d \<le> k" for k
  proof
    assume "expired_key E now ?d k"
    then have "k < expiredCursorKey d" using d'(5) by (simp add: locked_def)
    then show False using that by simp
  qed
  ultimately show ?thesis using d'(2,4,6) by (intro exI[of _ ?d]) simp
qed

lemma goroutine_hangs:
  assumes "dinv d" and i: "idle d" and "mt_Get (Bt E) (index d) g \<noteq> None" and "\<not> expired_key E now d g"
    and "expiredCursorKey d \<le> g" and "\<forall>k. mt_Get (Bt E) (index d) k \<noteq> None \<longrightarrow> k \<le> g"
  shows "expire_goroutine E now d = None"
proof -
  have "stuck now g (locked d)" using assms by (simp add: stuck_def locked_def)
  from stuck_loop[OF this] show ?thesis by (simp add: goroutine_idle[OF i])
qed

end

section \<open>Properties\<close>

text \<open>
  Property C28. If no key of the index beyond the cursor is greater than every expired one,
  that is, if the greatest key has expired, then the goroutine of \<open>DeleteExpiredKeys\<close>
  returns nil with the lock free: every expired key that the cursor had not passed is gone
  from the index, no later reader sees a difference, and the cursor is back at the start.
\<close>

theorem delete_expired_ends:
  assumes "engine E bt_inv w_inv pend" and "db_inv E bt_inv w_inv pend d" and "idle d"
    and "\<forall>k. mt_Get (Bt E) (index d) k \<noteq> None \<and> expiredCursorKey d \<le> k
        \<longrightarrow> (\<exists>g. k \<le> g \<and> expired_key E now d g)"
  shows "\<exists>d'. expire_goroutine E now d = Some (Ok (), d') \<and> db_inv E bt_inv w_inv pend d' \<and> idle d'
     \<and> expiredCursorKey d' = [] \<and> (\<forall>k. expiredCursorKey d \<le> k \<longrightarrow> \<not> expired_key E now d' k)
     \<and> (\<forall>t. sint now \<le> sint t \<longrightarrow> db_view E t d' = db_view E t d)"
  by (rule engine.goroutine_ends[OF assms])

text \<open>
  Property C29. If the greatest key of the index has not expired, and the cursor has not
  passed it, the goroutine of \<open>DeleteExpiredKeys\<close> never returns and never lets go of the
  database lock, because the cursor is included in the next scan. A caller whose timeout
  fires gets nil all the same, one without waits for ever.
\<close>

theorem delete_expired_hangs:
  assumes "engine E bt_inv w_inv pend" and "db_inv E bt_inv w_inv pend d" and "idle d"
    and "mt_Get (Bt E) (index d) g \<noteq> None" and "\<not> expired_key E now d g"
    and "expiredCursorKey d \<le> g" and "\<forall>k. mt_Get (Bt E) (index d) k \<noteq> None \<longrightarrow> k \<le> g"
  shows "expire_goroutine E now d = None \<and> db_DeleteExpiredKeys E True now d = Some (Ok ())
     \<and> db_DeleteExpiredKeys E False now d = None"
  using engine.goroutine_hangs[OF assms] by (simp add: db_DeleteExpiredKeys_def)

text \<open>At time 7 the second of the three keys has expired; at time 9 of the two keys the last.\<close>

lemma three_keys_index: "mt_Get list_btree (index three_keys) k \<noteq> None \<longleftrightarrow> k \<in> {[1], [2], [3]}"
proof -
  have i: "mt_inv sorted_items (index three_keys)" using three_keys_inv(1) by (simp add: db_inv_def)
  have "map fst (mt_entries list_btree (index three_keys)) = [[1], [2], [3]]" by code_simp
  moreover have "mt_Get list_btree (index three_keys) = map_of (mt_entries list_btree (index three_keys))"
    using list_bt.ix.get_law[OF i] by auto
  ultimately have "dom (mt_Get list_btree (index three_keys)) = {[1], [2], [3]}"
    by (metis dom_map_of_conv_image_fst list.set(1) list.set(2) set_map)
  then show ?thesis by blast
qed

lemma ref_Bt [simp]: "Bt ref_env = list_btree"
  by (simp add: ref_env_def)

theorem delete_expired_hangs_witness:
  "expire_goroutine ref_env 7 three_keys = None \<and> db_DeleteExpiredKeys ref_env True 7 three_keys = Some (Ok ())
     \<and> db_DeleteExpiredKeys ref_env False 7 three_keys = None"
proof (rule delete_expired_hangs[OF ref.engine_axioms three_keys_inv(1)])
  have "writer (mu three_keys) = False" "readers (mu three_keys) = 0" by code_simp+
  then show "idle three_keys" by (simp add: idle_def)
  show "mt_Get (Bt ref_env) (index three_keys) [3] \<noteq> None" using three_keys_index[of "[3]"] by simp
  have "map_option (\<lambda>r. IsExpired r 7) (stored_rec ref_env three_keys [3]) = Some False" by code_simp
  then show "\<not> expired_key ref_env 7 three_keys [3]" by (auto simp: expired_key_def)
  have "expiredCursorKey three_keys = []" by code_simp
  then show "expiredCursorKey three_keys \<le> [3]" by simp
  show "\<forall>k. mt_Get (Bt ref_env) (index three_keys) k \<noteq> None \<longrightarrow> k \<le> [3]"
    unfolding ref_Bt three_keys_index by auto
qed

definition two_keys :: "(item list, list_wal) DB" where
  "two_keys = index_Delete ref_env [3] three_keys"

theorem delete_expired_ends_witness:
  "\<exists>d'. expire_goroutine ref_env 9 two_keys = Some (Ok (), d') \<and> db_inv ref_env sorted_items list_wal_inv lw_pending d'
     \<and> idle d' \<and> expiredCursorKey d' = []
     \<and> (\<forall>k. expiredCursorKey two_keys \<le> k \<longrightarrow> \<not> expired_key ref_env 9 d' k)
     \<and> (\<forall>t. sint (9 :: int64) \<le> sint t \<longrightarrow> db_view ref_env t d' = db_view ref_env t two_keys)"
proof (rule delete_expired_ends[OF ref.engine_axioms])
  show "db_inv ref_env sorted_items list_wal_inv lw_pending two_keys"
    unfolding two_keys_def by (rule ref.index_Delete_inv[OF three_keys_inv(1)])
  have "writer (mu two_keys) = False" "readers (mu two_keys) = 0" by code_simp+
  then show "idle two_keys" by (simp add: idle_def)
  have "map_option (\<lambda>r. IsExpired r 9) (stored_rec ref_env two_keys [2]) = Some True" by code_simp
  then have x: "expired_key ref_env 9 two_keys [2]" by (auto simp: expired_key_def)
  have "k \<le> [2]" if "mt_Get (Bt ref_env) (index two_keys) k \<noteq> None" for k
    using ref.index_Delete_get[OF three_keys_inv(1), of "[3]" k] that three_keys_index[of k]
    by (auto simp: two_keys_def split: if_splits)
  then show "\<forall>k. mt_Get (Bt ref_env) (index two_keys) k \<noteq> None \<and> expiredCursorKey two_keys \<le> k
        \<longrightarrow> (\<exists>g. k \<le> g \<and> expired_key ref_env 9 two_keys g)"
    using x by blast
qed

end
