(* ===== verification/Iterator.thy ===== *)
theory Iterator
  imports Traversal
begin

text \<open>
  \<^verbatim>\<open>iterator.go\<close>: the iterator over a database. It runs over a clone of the index made
  when it was created, filters by a prefix, and reads each value from the log when it gets
  there. Its operations take no lock; the database they act on is an argument, since other
  requests may have run since the last one. As in the traversals, \<open>now\<close> gives the
  reading of the clock by key.
\<close>

section \<open>The iterator\<close>

record Item =
  Item_Key :: bytes
  Item_Value :: bytes

record IteratorOptions =
  Prefix :: bytes
  Reverse :: bool
  ContinueOnError :: bool

text \<open>\<open>db_set\<close>: the pointer to the database is not nil.\<close>

record 't Iterator =
  indexIter :: "'t memoryBTreeIterator option"
  db_set :: bool
  iter_options :: IteratorOptions
  lastError :: "go_error option"
  currentItem :: "Item option"

text \<open>\<open>None\<close>: the call panics.\<close>

definition iter_Close :: "'t Iterator \<Rightarrow> 't Iterator option" where
  "iter_Close it =
     (if \<not> db_set it then Some it
      else case indexIter it of
             None \<Rightarrow> Some it
           | Some c \<Rightarrow> (case it_Close c of
                          None \<Rightarrow> None
                        | Some _ \<Rightarrow> Some (it\<lparr>indexIter := None, db_set := False\<rparr>)))"

text \<open>
  The loop of \<open>skipToNext\<close>; the outer \<open>None\<close> is a loop that does not end, the inner one a
  panic.
\<close>

partial_function (option) skip_loop ::
    "('t, 'w) env \<Rightarrow> (bytes \<Rightarrow> int64) \<Rightarrow> ('t, 'w) DB \<Rightarrow> 't Iterator \<Rightarrow> 't Iterator option option" where
  "skip_loop E now d it =
     (case indexIter it of
        None \<Rightarrow> Some None
      | Some c \<Rightarrow>
          if \<not> it_Valid c then Some (Some it)
          else
            (let key = (case it_Key c of None \<Rightarrow> [] | Some k \<Rightarrow> k);
                 prefixLen = length (Prefix (iter_options it));
                 advance = it\<lparr>indexIter := Some (it_Next (Bt E) c)\<rparr>
             in if 0 < prefixLen \<and> (prefixLen > length key \<or> Prefix (iter_options it) \<noteq> take prefixLen key)
                then skip_loop E now d advance
                else
                  (case it_Value c of
                     None \<Rightarrow> skip_loop E now d advance
                   | Some position \<Rightarrow>
                       (case w_Read (Wl E) (dataFiles d) position of
                          Inl err \<Rightarrow>
                            if \<not> ContinueOnError (iter_options it)
                            then Some (iter_Close (it\<lparr>lastError := Some err\<rparr>))
                            else skip_loop E now d (advance\<lparr>lastError := Some err\<rparr>)
                        | Inr chunk \<Rightarrow>
                            (case decodeLogRecord chunk of
                               None \<Rightarrow> Some None
                             | Some record \<Rightarrow>
                                 if Type record = LogRecordDeleted \<or> IsExpired record (now key)
                                 then skip_loop E now d advance
                                 else Some (Some (it\<lparr>currentItem :=
                                        Some \<lparr>Item_Key = Key record, Item_Value = Value record\<rparr>\<rparr>)))))))"

declare skip_loop.simps [code]

definition skipToNext ::
    "('t, 'w) env \<Rightarrow> (bytes \<Rightarrow> int64) \<Rightarrow> ('t, 'w) DB \<Rightarrow> 't Iterator \<Rightarrow> 't Iterator option option" where
  "skipToNext E now d it = skip_loop E now d (it\<lparr>currentItem := None\<rparr>)"

definition NewIterator where
  "NewIterator E now opts d =
     skipToNext E now d
       \<lparr>indexIter = Some (mt_Iterator (Bt E) (index d) (Reverse opts)), db_set = True, iter_options = opts,
        lastError = None, currentItem = None\<rparr>"

text \<open>The guard shared by \<open>Rewind\<close>, \<open>Seek\<close> and \<open>Next\<close>.\<close>

definition move ::
    "('t, 'w) env \<Rightarrow> (bytes \<Rightarrow> int64) \<Rightarrow> ('t, 'w) DB \<Rightarrow> ('t memoryBTreeIterator \<Rightarrow> 't memoryBTreeIterator)
       \<Rightarrow> 't Iterator \<Rightarrow> 't Iterator option option" where
  "move E now d f it =
     (if \<not> db_set it then Some (Some it)
      else case indexIter it of
             None \<Rightarrow> Some (Some it)
           | Some c \<Rightarrow> skipToNext E now d (it\<lparr>indexIter := Some (f c)\<rparr>))"

definition iter_Rewind where
  "iter_Rewind E now d it = move E now d (it_Rewind (Bt E)) it"

definition iter_Seek where
  "iter_Seek E now d key it = move E now d (it_Seek (Bt E) key) it"

definition iter_Next where
  "iter_Next E now d it = move E now d (it_Next (Bt E)) it"

definition iter_Valid :: "'t Iterator \<Rightarrow> bool" where
  "iter_Valid it =
     (if \<not> db_set it then False else case indexIter it of None \<Rightarrow> False | Some c \<Rightarrow> it_Valid c)"

definition iter_Item :: "'t Iterator \<Rightarrow> Item option" where
  "iter_Item it = currentItem it"

definition iter_Err :: "'t Iterator \<Rightarrow> go_error option" where
  "iter_Err it = lastError it"

section \<open>What is left for an iterator\<close>

definition has_prefix :: "bytes \<Rightarrow> bytes \<Rightarrow> bool" where
  "has_prefix p k \<longleftrightarrow> take (length p) k = p"

text \<open>
  The pairs still to come: those with the prefix among the live pairs of the database
  \<open>d\<close> at the entries that the cursor has not passed.
\<close>

definition to_come :: "('t, 'w) env \<Rightarrow> (bytes \<Rightarrow> int64) \<Rightarrow> ('t, 'w) DB \<Rightarrow> bytes \<Rightarrow> (bytes \<times> chunk_position) list
    \<Rightarrow> (bytes \<times> bytes) list" where
  "to_come E now d p es = filter (\<lambda>x. has_prefix p (fst x)) (live_pairs E now d (map fst es))"

definition as_item :: "bytes \<times> bytes \<Rightarrow> Item" where
  "as_item x = \<lparr>Item_Key = fst x, Item_Value = snd x\<rparr>"

text \<open>The program of a caller: take the item, let other requests run, call \<open>Next\<close>.\<close>

fun drain ::
    "('t, 'w) env \<Rightarrow> (bytes \<Rightarrow> int64) \<Rightarrow> (ticket \<times> request) list list \<Rightarrow> ('t, 'w) DB \<Rightarrow> 't Iterator
       \<Rightarrow> Item list option" where
  "drain E now [] d it = (if iter_Valid it then None else Some [])"
| "drain E now (xs # xss) d it =
     (if \<not> iter_Valid it then Some []
      else case (iter_Item it, db_run E xs d) of
             (Some i, Some (_, d')) \<Rightarrow>
               (case iter_Next E now d' it of
                  Some (Some it') \<Rightarrow> map_option ((#) i) (drain E now xss d' it')
                | _ \<Rightarrow> None)
           | _ \<Rightarrow> None)"

lemma to_come_Nil [simp]: "to_come E now d p [] = []"
  by (simp add: to_come_def live_pairs_def)

lemma to_come_Cons:
  "to_come E now d p ((k, pos) # es) =
     (if has_prefix p k then case db_view E (now k) d k of None \<Rightarrow> to_come E now d p es
                             | Some (v, e) \<Rightarrow> (k, v) # to_come E now d p es
      else to_come E now d p es)"
  by (auto simp: to_come_def live_pairs_def split: option.split)

lemma prefix_test: "(p \<noteq> [] \<and> (length k < length p \<or> p \<noteq> take (length p) k)) \<longleftrightarrow> \<not> has_prefix p k"
  by (auto simp: has_prefix_def)

section \<open>The iterator sees a snapshot\<close>

lemma set_dropWhile_le: "set (dropWhile P xs) \<subseteq> set xs"
  by (induction xs) auto

lemma rest_subset: "set (it_rest_entries B c) \<subseteq> set (it_entries B c)"
proof -
  have "set (it_rest B c) \<subseteq> set (it_items B c)"
    by (cases "it_valid c"; cases "it_current c") (simp_all add: it_rest_def set_dropWhile_le)
  then show ?thesis unfolding it_rest_entries_def it_entries_def set_map by (rule image_mono)
qed

text \<open>The index iterator of \<open>it\<close> runs over entries of the database \<open>d0\<close>.\<close>

definition over ::
    "('t, 'w) env \<Rightarrow> ('t \<Rightarrow> bool) \<Rightarrow> ('t, 'w) DB \<Rightarrow> 't memoryBTreeIterator \<Rightarrow> bool" where
  "over E bt_inv d0 c \<longleftrightarrow> it_inv (Bt E) bt_inv c \<and> set (it_entries (Bt E) c) \<subseteq> set (mt_entries (Bt E) (index d0))"

lemma clock_ok_append: "clock_ok now (xs @ ys) \<longleftrightarrow> clock_ok now xs \<and> clock_ok (clock_end now xs) ys"
  by (induction now xs rule: clock_ok.induct) auto

context engine
begin

lemma Seek_keeps:
  assumes "it_inv (Bt E) bt_inv c" and "it_rest_entries (Bt E) c \<noteq> []"
  shows "it_entries (Bt E) (it_Seek (Bt E) key c) = it_entries (Bt E) c" and "it_reverse (it_Seek (Bt E) key c) = it_reverse c"
proof -
  have "it_valid c" using cursor.valid_law[OF assms(1)] assms(2) by (simp add: it_Valid_def)
  note s = Seek_spec[OF assms(1) this, of key]
  show "it_entries (Bt E) (it_Seek (Bt E) key c) = it_entries (Bt E) c" and "it_reverse (it_Seek (Bt E) key c) = it_reverse c"
    using s it_items_cong[of "it_Seek (Bt E) key c" c "Bt E"] by (simp_all add: it_entries_def)
qed

definition log_kept :: "('t, 'w) DB \<Rightarrow> ('t, 'w) DB \<Rightarrow> bool" where
  "log_kept d0 d \<longleftrightarrow> dinv d0 \<and> w_inv (dataFiles d) \<and> set (wal_log (Wl E) (dataFiles d0)) \<subseteq> set (wal_log (Wl E) (dataFiles d))"

lemma log_kept_read:
  assumes "log_kept d0 d" and "(k, p) \<in> set (mt_entries (Bt E) (index d0))"
  obtains chunk r where "w_Read (Wl E) (dataFiles d) p = Inr chunk" and "decodeLogRecord chunk = Some r"
    and "Key r = k" and "\<And>t. db_view E t d0 k = visible t r"
proof -
  have d0: "dinv d0" and w: "w_inv (dataFiles d)" using assms(1) by (simp_all add: log_kept_def)
  have "mt_inv bt_inv (index d0)" using d0 by (simp add: db_inv_def)
  from ix.entries_get[OF this, of k p] have "mt_Get (Bt E) (index d0) k = Some p" using assms(2) by simp
  from stored[OF d0 this] obtain c r where c: "decodeLogRecord c = Some r" "good_record k r"
    "stored_rec E d0 k = Some r" "(p, c) \<in> set (wal_log (Wl E) (dataFiles d0))" by blast
  have "w_Read (Wl E) (dataFiles d) p = Inr c"
    using Read_log[OF w] c(4) assms(1) by (auto simp: log_kept_def)
  then show ?thesis using that c by (simp add: db_view_def good_record_def)
qed

lemma over_Next: "over E bt_inv d0 c \<Longrightarrow> over E bt_inv d0 (it_Next (Bt E) c)"
  by (simp add: over_def cursor.next_inv cursor.next_all)

text \<open>
  Skipping ends at the first pair still to come, and with an exhausted cursor if there is none.
\<close>

definition skipped ::
    "(bytes \<Rightarrow> int64) \<Rightarrow> ('t, 'w) DB \<Rightarrow> 't Iterator \<Rightarrow> 't memoryBTreeIterator \<Rightarrow> 't memoryBTreeIterator \<Rightarrow> Item option \<Rightarrow> bool" where
  "skipped now d0 it c c' x \<longleftrightarrow>
     over E bt_inv d0 c' \<and> it_entries (Bt E) c' = it_entries (Bt E) c \<and> it_reverse c' = it_reverse c
     \<and> (case to_come E now d0 (Prefix (iter_options it)) (it_rest_entries (Bt E) c) of
          [] \<Rightarrow> it_rest_entries (Bt E) c' = [] \<and> x = currentItem it
        | y # ys \<Rightarrow> it_rest_entries (Bt E) c' \<noteq> [] \<and> x = Some (as_item y)
             \<and> to_come E now d0 (Prefix (iter_options it)) (it_rest_entries (Bt E) c') = y # ys
             \<and> to_come E now d0 (Prefix (iter_options it)) (tl (it_rest_entries (Bt E) c')) = ys)"

lemma skip_loop_spec:
  assumes l: "log_kept d0 d" and "indexIter it = Some c" and "over E bt_inv d0 c"
  shows "\<exists>c' x. skip_loop E now d it = Some (Some (it\<lparr>indexIter := Some c', currentItem := x\<rparr>))
           \<and> skipped now d0 it c c' x"
  using assms(2,3)
proof (induction "length (it_rest_entries (Bt E) c)" arbitrary: c it)
  case 0
  then have inv: "it_inv (Bt E) bt_inv c" and r: "it_rest_entries (Bt E) c = []" by (simp_all add: over_def)
  then have "\<not> it_Valid c" by (simp add: cursor.valid_law)
  then have "skip_loop E now d it = Some (Some it)" by (subst skip_loop.simps) (simp add: 0(2))
  moreover have "it\<lparr>indexIter := Some c, currentItem := currentItem it\<rparr> = it" using 0(2) by simp
  moreover have "skipped now d0 it c c (currentItem it)" using 0(3) r by (simp add: skipped_def)
  ultimately show ?case by metis
next
  case (Suc n)
  note ov = Suc.prems(2)
  have inv: "it_inv (Bt E) bt_inv c" using ov by (simp add: over_def)
  obtain k p es where r: "it_rest_entries (Bt E) c = (k, p) # es"
    using Suc.hyps(2) by (cases "it_rest_entries (Bt E) c") auto
  have v: "it_Valid c" "it_Key c = Some k" "it_Value c = Some p"
    using r by (simp_all add: cursor.valid_law[OF inv] cursor.key_law[OF inv] cursor.value_law[OF inv])
  have "(k, p) \<in> set (mt_entries (Bt E) (index d0))" using rest_subset[of "Bt E" c] ov r by (auto simp: over_def)
  from log_kept_read[OF l this] obtain chunk rec where
    rd: "w_Read (Wl E) (dataFiles d) p = Inr chunk" "decodeLogRecord chunk = Some rec" "Key rec = k"
        "\<And>t. db_view E t d0 k = visible t rec" by blast
  let ?px = "Prefix (iter_options it)" and ?it1 = "it\<lparr>indexIter := Some (it_Next (Bt E) c)\<rparr>"
  have unfold: "skip_loop E now d it =
      (if \<not> has_prefix ?px k \<or> \<not> live (now k) rec then skip_loop E now d ?it1
       else Some (Some (it\<lparr>currentItem := Some \<lparr>Item_Key = k, Item_Value = Value rec\<rparr>\<rparr>)))"
    by (subst skip_loop.simps)
       (simp add: Suc.prems(1) v rd live_def prefix_test Let_def)
  have tc: "to_come E now d0 ?px ((k, p) # es) =
      (if \<not> has_prefix ?px k \<or> \<not> live (now k) rec then to_come E now d0 ?px es
       else (k, Value rec) # to_come E now d0 ?px es)"
    using rd(4) by (simp add: to_come_Cons visible_def)
  show ?case
  proof (cases "\<not> has_prefix ?px k \<or> \<not> live (now k) rec")
    case True
    have es: "it_rest_entries (Bt E) (it_Next (Bt E) c) = es" using r by (simp add: cursor.next_rest[OF inv])
    have n: "n = length (it_rest_entries (Bt E) (it_Next (Bt E) c))" using Suc.hyps(2) r es by simp
    obtain c' x where "skip_loop E now d ?it1 = Some (Some (?it1\<lparr>indexIter := Some c', currentItem := x\<rparr>))"
      "skipped now d0 ?it1 (it_Next (Bt E) c) c' x"
      using Suc.hyps(1)[OF n, of ?it1] over_Next[OF ov] by auto
    moreover from this(2) have "skipped now d0 it c c' x"
      using True tc r es
      by (cases "to_come E now d0 ?px es") (simp_all add: skipped_def cursor.next_all[OF inv] cursor.next_backwards[OF inv])
    ultimately show ?thesis using True unfold by auto
  next
    case False
    have "it\<lparr>currentItem := y\<rparr> = it\<lparr>indexIter := Some c, currentItem := y\<rparr>" for y using Suc.prems(1) by simp
    moreover have "skipped now d0 it c c (Some \<lparr>Item_Key = k, Item_Value = Value rec\<rparr>)"
      using False tc r ov by (simp add: skipped_def as_item_def)
    ultimately show ?thesis using False unfold by metis
  qed
qed

text \<open>An iterator that still has the pairs \<open>xs\<close> to give.\<close>

definition positioned ::
    "(bytes \<Rightarrow> int64) \<Rightarrow> ('t, 'w) DB \<Rightarrow> IteratorOptions \<Rightarrow> (bytes \<times> chunk_position) list \<Rightarrow> (bytes \<times> bytes) list
       \<Rightarrow> 't Iterator \<Rightarrow> bool" where
  "positioned now d0 opts es xs it \<longleftrightarrow>
     (\<exists>c. indexIter it = Some c \<and> db_set it \<and> iter_options it = opts \<and> over E bt_inv d0 c
        \<and> it_entries (Bt E) c = es \<and> it_reverse c = Reverse opts
        \<and> (it_rest_entries (Bt E) c \<noteq> []) = (xs \<noteq> [])
        \<and> currentItem it = (case xs of [] \<Rightarrow> None | x # _ \<Rightarrow> Some (as_item x))
        \<and> to_come E now d0 (Prefix opts) (tl (it_rest_entries (Bt E) c)) = tl xs)"

lemma skip_positioned:
  assumes "log_kept d0 d" and "indexIter it = Some c" and "over E bt_inv d0 c" and "db_set it"
    and "it_reverse c = Reverse (iter_options it)"
  shows "\<exists>it'. skipToNext E now d it = Some (Some it')
           \<and> positioned now d0 (iter_options it) (it_entries (Bt E) c)
               (to_come E now d0 (Prefix (iter_options it)) (it_rest_entries (Bt E) c)) it'"
proof -
  let ?it = "it\<lparr>currentItem := None\<rparr>"
  let ?xs = "to_come E now d0 (Prefix (iter_options it)) (it_rest_entries (Bt E) c)"
  obtain c' x where s: "skip_loop E now d ?it = Some (Some (?it\<lparr>indexIter := Some c', currentItem := x\<rparr>))"
    and k: "skipped now d0 ?it c c' x"
    using skip_loop_spec[OF assms(1), where it = ?it and c = c and now = now] assms(2,3) by auto
  have "positioned now d0 (iter_options it) (it_entries (Bt E) c) ?xs (?it\<lparr>indexIter := Some c', currentItem := x\<rparr>)"
    using k assms(4,5) by (cases ?xs) (simp_all add: positioned_def skipped_def)
  then show ?thesis using s by (auto simp: skipToNext_def)
qed

lemma positioned_Valid: "positioned now d0 opts es xs it \<Longrightarrow> iter_Valid it \<longleftrightarrow> xs \<noteq> []"
  by (auto simp: positioned_def iter_Valid_def over_def cursor.valid_law)

lemma positioned_Item: "positioned now d0 opts es (x # xs) it \<Longrightarrow> iter_Item it = Some (as_item x)"
  by (auto simp: positioned_def iter_Item_def)

text \<open>A move of the index iterator that keeps its entries.\<close>

lemma positioned_move:
  assumes l: "log_kept d0 d" and p: "positioned now d0 opts es xs it"
    and f: "\<And>c. it_inv (Bt E) bt_inv c \<Longrightarrow> it_inv (Bt E) bt_inv (f c) \<and> it_entries (Bt E) (f c) = it_entries (Bt E) c
              \<and> it_reverse (f c) = it_reverse c"
    and r: "\<And>c. it_inv (Bt E) bt_inv c \<Longrightarrow> it_entries (Bt E) c = es \<Longrightarrow> it_reverse c = Reverse opts \<Longrightarrow>
              (it_rest_entries (Bt E) c \<noteq> []) = (xs \<noteq> []) \<Longrightarrow>
              to_come E now d0 (Prefix opts) (tl (it_rest_entries (Bt E) c)) = tl xs \<Longrightarrow>
              to_come E now d0 (Prefix opts) (it_rest_entries (Bt E) (f c)) = ys"
  shows "\<exists>it'. move E now d f it = Some (Some it') \<and> positioned now d0 opts es ys it'"
proof -
  obtain c where c: "indexIter it = Some c" "db_set it" "iter_options it = opts" "over E bt_inv d0 c"
    "it_entries (Bt E) c = es" "it_reverse c = Reverse opts"
    "(it_rest_entries (Bt E) c \<noteq> []) = (xs \<noteq> [])"
    "to_come E now d0 (Prefix opts) (tl (it_rest_entries (Bt E) c)) = tl xs"
    using p by (auto simp: positioned_def)
  have i: "it_inv (Bt E) bt_inv c" using c(4) by (simp add: over_def)
  have "over E bt_inv d0 (f c)" using c(4) f[OF i] by (simp add: over_def)
  from skip_positioned[OF l _ this, of "it\<lparr>indexIter := Some (f c)\<rparr>" now] show ?thesis
    using c f[OF i] r[OF i] by (simp add: move_def)
qed

lemma positioned_Next:
  assumes "log_kept d0 d" and "positioned now d0 opts es xs it"
  shows "\<exists>it'. iter_Next E now d it = Some (Some it') \<and> positioned now d0 opts es (tl xs) it'"
  unfolding iter_Next_def
  by (rule positioned_move[OF assms])
     (simp_all add: cursor.next_inv cursor.next_all cursor.next_backwards cursor.next_rest)

lemma positioned_Rewind:
  assumes "log_kept d0 d" and "positioned now d0 opts es xs it"
  shows "\<exists>it'. iter_Rewind E now d it = Some (Some it')
           \<and> positioned now d0 opts es (to_come E now d0 (Prefix opts) es) it'"
  unfolding iter_Rewind_def
  by (rule positioned_move[OF assms])
     (simp_all add: cursor.rewind_inv cursor.rewind_all cursor.rewind_rest Rewind_spec)

lemma positioned_Seek:
  assumes l: "log_kept d0 d" and p: "positioned now d0 opts es xs it"
  shows "\<exists>it'. iter_Seek E now d key it = Some (Some it')
           \<and> positioned now d0 opts es
               (if xs = [] then []
                else to_come E now d0 (Prefix opts)
                       (dropWhile (\<lambda>e. if Reverse opts then key < fst e else fst e < key) es)) it'"
proof (cases "xs = []")
  case True
  have "it_inv (Bt E) bt_inv (it_Seek (Bt E) key c) \<and> it_entries (Bt E) (it_Seek (Bt E) key c) = it_entries (Bt E) c
      \<and> it_reverse (it_Seek (Bt E) key c) = it_reverse c" if "it_inv (Bt E) bt_inv c" for c
    using that by (cases "it_rest_entries (Bt E) c = []") (simp_all add: cursor.seek_stuck cursor.seek_inv Seek_keeps)
  then show ?thesis
    unfolding iter_Seek_def using True by (intro positioned_move[OF l p]) (simp_all add: cursor.seek_stuck)
next
  case False
  have "it_inv (Bt E) bt_inv (it_Seek (Bt E) key c) \<and> it_entries (Bt E) (it_Seek (Bt E) key c) = it_entries (Bt E) c
      \<and> it_reverse (it_Seek (Bt E) key c) = it_reverse c" if "it_inv (Bt E) bt_inv c" for c
    using that by (cases "it_rest_entries (Bt E) c = []") (simp_all add: cursor.seek_stuck cursor.seek_inv Seek_keeps)
  then show ?thesis
    unfolding iter_Seek_def using False by (intro positioned_move[OF l p]) (simp_all add: cursor.seek_rest)
qed

lemma New_positioned:
  assumes d: "dinv d"
  shows "\<exists>it. NewIterator E now opts d = Some (Some it)
           \<and> positioned now d opts (if Reverse opts then rev (mt_entries (Bt E) (index d)) else mt_entries (Bt E) (index d))
               (to_come E now d (Prefix opts)
                 (if Reverse opts then rev (mt_entries (Bt E) (index d)) else mt_entries (Bt E) (index d))) it"
proof -
  let ?c = "mt_Iterator (Bt E) (index d) (Reverse opts)"
  have t: "bt_inv (tree (index d))" using d by (simp add: db_inv_def mt_inv_def)
  have e: "it_entries (Bt E) ?c = (if Reverse opts then rev (mt_entries (Bt E) (index d)) else mt_entries (Bt E) (index d))"
    "it_rest_entries (Bt E) ?c = it_entries (Bt E) ?c"
    using new_iterator_spec[OF t, of "Reverse opts"]
    by (simp_all add: mt_Iterator_def it_entries_def it_rest_entries_def mt_entries_def rev_map)
  have o: "over E bt_inv d ?c"
    using new_iterator_spec[OF t, of "Reverse opts"] e(1) by (simp add: over_def mt_Iterator_def)
  have b: "it_reverse ?c = Reverse opts" by (simp add: mt_Iterator_def newMemoryBTreeIterator_def)
  have "log_kept d d" using d by (simp add: log_kept_def db_inv_def)
  from skip_positioned[OF this _ o, of "\<lparr>indexIter = Some ?c, db_set = True, iter_options = opts,
        lastError = None, currentItem = None\<rparr>" now] e b
  show ?thesis by (simp add: NewIterator_def)
qed

text \<open>Reading on while other requests run.\<close>

lemma run_settled:
  assumes "dinv d" and "idle d" and "\<not> closed d" and "clock_ok now xs" and "\<forall>(x, req) \<in> set xs. req_fits req"
  obtains rsps d' where "db_run E xs d = Some (rsps, d')" and "settled d d'"
  using run_refines[OF assms(1-3) rep_db_map[OF assms(1)] assms(4,5)] by blast

lemma drain_positioned:
  assumes "log_kept d0 d" and "dinv d" and "idle d" and "\<not> closed d" and "positioned now d0 opts es xs it"
    and "length xs \<le> length rs" and "clock_ok t (concat rs)" and "\<forall>(x, req) \<in> set (concat rs). req_fits req"
  shows "drain E now rs d it = Some (map as_item xs)"
  using assms
proof (induction rs arbitrary: d it xs t)
  case Nil
  then show ?case using positioned_Valid[OF Nil.prems(5)] by simp
next
  case (Cons r rs)
  show ?case
  proof (cases xs)
    case Nil
    then show ?thesis using positioned_Valid[OF Cons.prems(5)] by simp
  next
    case x: (Cons x ys)
    have c: "clock_ok t r" "clock_ok (clock_end t r) (concat rs)" using Cons.prems(7) by (simp_all add: clock_ok_append)
    obtain rsps d1 where d1: "db_run E r d = Some (rsps, d1)" "settled d d1"
      using run_settled[OF Cons.prems(2-4) c(1)] Cons.prems(8) by auto
    have k: "log_kept d0 d1" using d1(2) Cons.prems(1) by (auto simp: log_kept_def settled_def db_inv_def)
    obtain it' where it': "iter_Next E now d1 it = Some (Some it')" "positioned now d0 opts es ys it'"
      using positioned_Next[OF k Cons.prems(5)] x by auto
    have "drain E now rs d1 it' = Some (map as_item ys)"
      using Cons.IH[OF k _ _ _ it'(2) _ c(2)] d1(2) settled_idle[OF d1(2) Cons.prems(3)] Cons.prems(4,6,8) x
      by (simp add: settled_def)
    then show ?thesis
      using positioned_Valid[OF Cons.prems(5)] positioned_Item[of now d0 opts es x ys it] Cons.prems(5) d1(1) it'(1) x
      by simp
  qed
qed

text \<open>The pairs of a new iterator, in its direction.\<close>

lemma to_come_filter: "to_come E now d p (filter (\<lambda>e. q (fst e)) es) = filter (\<lambda>x. q (fst x)) (to_come E now d p es)"
  by (simp add: to_come_def map_fst_filter live_pairs_filter conj_commute)

lemma to_come_rev: "to_come E now d p (rev es) = rev (to_come E now d p es)"
  by (simp add: to_come_def rev_map[symmetric] live_pairs_rev rev_filter)

definition new_pairs :: "(bytes \<Rightarrow> int64) \<Rightarrow> ('t, 'w) DB \<Rightarrow> IteratorOptions \<Rightarrow> (bytes \<times> bytes) list" where
  "new_pairs now d opts =
     to_come E now d (Prefix opts)
       (if Reverse opts then rev (mt_entries (Bt E) (index d)) else mt_entries (Bt E) (index d))"

lemma new_pairs_db:
  assumes "dinv d"
  shows "sorted_wrt (\<lambda>a b. if Reverse opts then b < a else a < b) (map fst (new_pairs now d opts))"
    and "(k, v) \<in> set (new_pairs now d opts)
       \<longleftrightarrow> has_prefix (Prefix opts) k \<and> (\<exists>e. db_view E (now k) d k = Some (v, e))"
    and "length (new_pairs now d opts) \<le> mt_Size (Bt E) (index d)"
proof -
  let ?ys = "to_come E now d (Prefix opts) (mt_entries (Bt E) (index d))"
  have y: "?ys = filter (\<lambda>x. has_prefix (Prefix opts) (fst x)) (live_pairs E now d (db_keys E d))"
    by (simp add: to_come_def db_keys_def)
  have n: "new_pairs now d opts = (if Reverse opts then rev ?ys else ?ys)"
    by (simp add: new_pairs_def to_come_rev)
  have "sorted_wrt (<) (map fst ?ys)"
    using live_pairs_db(1)[OF assms, of now] by (simp add: y sorted_wrt_map sorted_wrt_filter)
  then show "sorted_wrt (\<lambda>a b. if Reverse opts then b < a else a < b) (map fst (new_pairs now d opts))"
    by (simp add: n rev_map[symmetric] sorted_wrt_rev)
  show "(k, v) \<in> set (new_pairs now d opts)
       \<longleftrightarrow> has_prefix (Prefix opts) k \<and> (\<exists>e. db_view E (now k) d k = Some (v, e))"
    using live_pairs_db(2)[OF assms, of k v now] by (auto simp: n y)
  have i: "mt_inv bt_inv (index d)" using assms by (simp add: db_inv_def)
  have "length (map fst (live_pairs E now d (db_keys E d))) \<le> length (db_keys E d)"
    unfolding live_pairs_keys by (rule length_filter_le)
  then show "length (new_pairs now d opts) \<le> mt_Size (Bt E) (index d)"
    by (auto simp: n y ix.size_law[OF i] db_keys_def intro: order_trans[OF length_filter_le])
qed

lemma iterator_snapshot:
  assumes "dinv d" and "idle d" and "\<not> closed d" and "clock_ok t (concat rs)"
    and "\<forall>(x, req) \<in> set (concat rs). req_fits req" and "mt_Size (Bt E) (index d) \<le> length rs"
  shows "\<exists>it. NewIterator E now opts d = Some (Some it)
           \<and> drain E now rs d it = Some (map as_item (new_pairs now d opts))"
proof -
  obtain it es where it: "NewIterator E now opts d = Some (Some it)"
    "positioned now d opts es (new_pairs now d opts) it"
    using New_positioned[OF assms(1), of now opts] by (auto simp: new_pairs_def)
  have "log_kept d d" using assms(1) by (simp add: log_kept_def db_inv_def)
  from drain_positioned[OF this assms(1-3) it(2) _ assms(4,5)] it(1) assms(6) new_pairs_db(3)[OF assms(1), of now opts]
  show ?thesis by auto
qed

lemma dropWhile_entries:
  assumes "dinv d" and "es = (if b then rev (mt_entries (Bt E) (index d)) else mt_entries (Bt E) (index d))"
  shows "dropWhile (\<lambda>e. if b then key < fst e else fst e < key) es
       = filter (\<lambda>e. if b then fst e \<le> key else key \<le> fst e) es"
proof -
  have "sorted_wrt (<) (map fst (mt_entries (Bt E) (index d)))"
    using ix.entries_sorted assms(1) by (simp add: db_inv_def)
  then have s: "sorted_wrt (\<lambda>x y. (\<lambda>a c. if b then c < a else a < c) (fst x) (fst y)) es"
    by (simp add: assms(2) sorted_wrt_map sorted_wrt_rev)
  have "filter (\<lambda>e. \<not> (if b then key < fst e else fst e < key)) es = dropWhile (\<lambda>e. if b then key < fst e else fst e < key) es"
    by (rule sorted_filter_dropWhile[where r = "\<lambda>a c. if b then c < a else a < c" and f = fst])
       (use s in \<open>auto split: if_splits\<close>)
  moreover have "filter (\<lambda>e. \<not> (if b then key < fst e else fst e < key)) es
      = filter (\<lambda>e. if b then fst e \<le> key else key \<le> fst e) es"
    by (rule filter_cong) auto
  ultimately show ?thesis by simp
qed

lemma iterator_seek:
  assumes d: "dinv d" and i: "idle d" and o: "\<not> closed d" and n: "NewIterator E now opts d = Some (Some it)"
    and v: "iter_Valid it" and len: "mt_Size (Bt E) (index d) \<le> length rs"
    and c: "clock_ok t (concat rs)" "\<forall>(x, req) \<in> set (concat rs). req_fits req"
  shows "\<exists>it1. iter_Seek E now d key it = Some (Some it1)
           \<and> drain E now rs d it1
               = Some (map as_item (filter (\<lambda>x. if Reverse opts then fst x \<le> key else key \<le> fst x) (new_pairs now d opts)))
           \<and> (\<exists>it2. iter_Rewind E now d it1 = Some (Some it2)
                \<and> drain E now rs d it2 = Some (map as_item (new_pairs now d opts)))
           \<and> (\<not> iter_Valid it1 \<longrightarrow> (\<exists>it2. iter_Seek E now d key' it1 = Some (Some it2) \<and> \<not> iter_Valid it2))"
proof -
  let ?es = "if Reverse opts then rev (mt_entries (Bt E) (index d)) else mt_entries (Bt E) (index d)"
  let ?ps = "new_pairs now d opts" and ?q = "\<lambda>k. if Reverse opts then k \<le> key else key \<le> k"
  have l: "log_kept d d" using d by (simp add: log_kept_def db_inv_def)
  have p: "positioned now d opts ?es ?ps it"
    using New_positioned[OF d, of now opts] n by (simp add: new_pairs_def)
  have ne: "?ps \<noteq> []" using positioned_Valid[OF p] v by simp
  have "to_come E now d (Prefix opts) (dropWhile (\<lambda>e. if Reverse opts then key < fst e else fst e < key) ?es)
      = filter (\<lambda>x. ?q (fst x)) ?ps"
    unfolding dropWhile_entries[OF d refl] new_pairs_def by (rule to_come_filter)
  then obtain it1 where it1: "iter_Seek E now d key it = Some (Some it1)"
    "positioned now d opts ?es (filter (\<lambda>x. ?q (fst x)) ?ps) it1"
    using positioned_Seek[OF l p, of key] ne by auto
  obtain it2 where it2: "iter_Rewind E now d it1 = Some (Some it2)" "positioned now d opts ?es ?ps it2"
    using positioned_Rewind[OF l it1(2)] by (auto simp: new_pairs_def)
  have len': "length ?ps \<le> length rs" using new_pairs_db(3)[OF d, of now opts] len by simp
  then have "length (filter (\<lambda>x. ?q (fst x)) ?ps) \<le> length rs" using length_filter_le order_trans by blast
  then have "drain E now rs d it1 = Some (map as_item (filter (\<lambda>x. ?q (fst x)) ?ps))"
    by (rule drain_positioned[OF l d i o it1(2) _ c])
  moreover have "drain E now rs d it2 = Some (map as_item ?ps)"
    by (rule drain_positioned[OF l d i o it2(2) len' c])
  moreover have "\<exists>it3. iter_Seek E now d key' it1 = Some (Some it3) \<and> \<not> iter_Valid it3" if "\<not> iter_Valid it1"
    using positioned_Seek[OF l it1(2), of key'] positioned_Valid[OF it1(2)] positioned_Valid that by auto
  ultimately show ?thesis using it1(1) it2(1) by blast
qed

lemma iterator_properties:
  assumes "dinv d" and "idle d" and "\<not> closed d" and "clock_ok t (concat rs)"
    and "\<forall>(x, req) \<in> set (concat rs). req_fits req" and "mt_Size (Bt E) (index d) \<le> length rs"
  shows "\<exists>it ps. NewIterator E now opts d = Some (Some it)
           \<and> sorted_wrt (\<lambda>a b. if Reverse opts then b < a else a < b) (map fst ps)
           \<and> (\<forall>k v. (k, v) \<in> set ps \<longleftrightarrow> has_prefix (Prefix opts) k \<and> (\<exists>e. db_view E (now k) d k = Some (v, e)))
           \<and> drain E now rs d it = Some (map as_item ps)"
  using iterator_snapshot[OF assms, of now opts] new_pairs_db[OF assms(1), where now = now and opts = opts] by blast

lemma seek_properties:
  assumes "dinv d" and "idle d" and "\<not> closed d" and "NewIterator E now opts d = Some (Some it)"
    and "iter_Valid it" and "mt_Size (Bt E) (index d) \<le> length rs"
    and "clock_ok t (concat rs)" and "\<forall>(x, req) \<in> set (concat rs). req_fits req"
  shows "\<exists>it1 ps. iter_Seek E now d key it = Some (Some it1)
           \<and> sorted_wrt (\<lambda>a b. if Reverse opts then b < a else a < b) (map fst ps)
           \<and> (\<forall>k v. (k, v) \<in> set ps \<longleftrightarrow> has_prefix (Prefix opts) k \<and> (\<exists>e. db_view E (now k) d k = Some (v, e)))
           \<and> drain E now rs d it1
               = Some (map as_item (filter (\<lambda>x. if Reverse opts then fst x \<le> key else key \<le> fst x) ps))
           \<and> (\<exists>it2. iter_Rewind E now d it1 = Some (Some it2) \<and> drain E now rs d it2 = Some (map as_item ps))
           \<and> (\<not> iter_Valid it1 \<longrightarrow> (\<exists>it2. iter_Seek E now d key' it1 = Some (Some it2) \<and> \<not> iter_Valid it2))"
  using iterator_seek[OF assms, of key key'] new_pairs_db[OF assms(1), where now = now and opts = opts] by blast

end

section \<open>Properties\<close>

text \<open>
  Property C16. An iterator is a snapshot. Whatever requests run between its creation and its
  \<open>Next\<close> calls, it gives exactly the pairs that the database held when it was created
  (as far as they have not expired when it reaches them), each once, in the order asked for
  and restricted to the prefix; then it is no longer valid. No call panics or loops.
\<close>

theorem iterator_is_a_snapshot:
  assumes "engine E bt_inv w_inv pend" and "db_inv E bt_inv w_inv pend d" and "idle d" and "\<not> closed d"
    and "clock_ok t (concat rs)" and "\<forall>(x, req) \<in> set (concat rs). req_fits req"
    and "mt_Size (Bt E) (index d) \<le> length rs"
  shows "\<exists>it ps. NewIterator E now opts d = Some (Some it)
           \<and> sorted_wrt (\<lambda>a b. if Reverse opts then b < a else a < b) (map fst ps)
           \<and> (\<forall>k v. (k, v) \<in> set ps \<longleftrightarrow> has_prefix (Prefix opts) k \<and> (\<exists>e. db_view E (now k) d k = Some (v, e)))
           \<and> drain E now rs d it = Some (map as_item ps)"
  by (rule engine.iterator_properties[OF assms])

text \<open>A key is deleted and one is overwritten while the iterator runs.\<close>

definition busy_run :: "(ticket \<times> request) list list" where
  "busy_run =
     [[(\<lparr>batch_id = 4, t_op = 4, t_op2 = 4, t_commit = 4\<rparr>, ReqDelete [3]),
       (\<lparr>batch_id = 5, t_op = 4, t_op2 = 4, t_commit = 4\<rparr>, ReqPut [1] [70])], [], []]"

lemma three_keys_open: "idle three_keys" "\<not> closed three_keys" "mt_Size (Bt ref_env) (index three_keys) = 3"
proof -
  have "readers (mu three_keys) = 0" by code_simp
  then show "idle three_keys" using three_keys_inv(2) by (simp add: idle_def)
  show "\<not> closed three_keys" by code_simp
  show "mt_Size (Bt ref_env) (index three_keys) = 3" by code_simp
qed

lemma busy_drain:
  "(case NewIterator ref_env (\<lambda>k. 4) \<lparr>Prefix = [], Reverse = False, ContinueOnError = False\<rparr> three_keys of
      Some (Some it) \<Rightarrow> drain ref_env (\<lambda>k. 4) busy_run three_keys it | _ \<Rightarrow> None)
   = Some [\<lparr>Item_Key = [1], Item_Value = [65]\<rparr>, \<lparr>Item_Key = [2], Item_Value = [66]\<rparr>, \<lparr>Item_Key = [3], Item_Value = [67]\<rparr>]"
  by code_simp

theorem iterator_is_a_snapshot_witness:
  "\<exists>it ps. NewIterator ref_env (\<lambda>k. 4) \<lparr>Prefix = [], Reverse = False, ContinueOnError = False\<rparr> three_keys = Some (Some it)
     \<and> drain ref_env (\<lambda>k. 4) busy_run three_keys it = Some (map as_item ps)
     \<and> map as_item ps = [\<lparr>Item_Key = [1], Item_Value = [65]\<rparr>, \<lparr>Item_Key = [2], Item_Value = [66]\<rparr>,
                         \<lparr>Item_Key = [3], Item_Value = [67]\<rparr>]"
proof -
  have c: "clock_ok 0 (concat busy_run)" "\<forall>(x, req) \<in> set (concat busy_run). req_fits req"
    by (simp_all add: busy_run_def value_fits_def maxLogRecordHeaderSize_def)
  have l: "mt_Size (Bt ref_env) (index three_keys) \<le> length busy_run"
    unfolding three_keys_open(3) by (simp add: busy_run_def)
  from iterator_is_a_snapshot[OF ref.engine_axioms three_keys_inv(1) three_keys_open(1,2) c l]
  obtain it ps where it: "NewIterator ref_env (\<lambda>k. 4) \<lparr>Prefix = [], Reverse = False, ContinueOnError = False\<rparr> three_keys
        = Some (Some it)" "drain ref_env (\<lambda>k. 4) busy_run three_keys it = Some (map as_item ps)" by blast
  then have "map as_item ps = [\<lparr>Item_Key = [1], Item_Value = [65]\<rparr>, \<lparr>Item_Key = [2], Item_Value = [66]\<rparr>,
                         \<lparr>Item_Key = [3], Item_Value = [67]\<rparr>]"
    using busy_drain by simp
  with it show ?thesis by metis
qed

text \<open>
  Property C30. \<open>Seek\<close> on a valid iterator moves it to the pairs at or beyond the key, in
  its direction, even backwards, and \<open>Rewind\<close> brings all its pairs back. But a
  \<open>Seek\<close> that finds nothing leaves an iterator which no later \<open>Seek\<close> can
  revive, whatever the key: only \<open>Rewind\<close> can.
\<close>

theorem seek_and_rewind:
  assumes "engine E bt_inv w_inv pend" and "db_inv E bt_inv w_inv pend d" and "idle d" and "\<not> closed d"
    and "NewIterator E now opts d = Some (Some it)" and "iter_Valid it"
    and "mt_Size (Bt E) (index d) \<le> length rs"
    and "clock_ok t (concat rs)" and "\<forall>(x, req) \<in> set (concat rs). req_fits req"
  shows "\<exists>it1 ps. iter_Seek E now d key it = Some (Some it1)
           \<and> sorted_wrt (\<lambda>a b. if Reverse opts then b < a else a < b) (map fst ps)
           \<and> (\<forall>k v. (k, v) \<in> set ps \<longleftrightarrow> has_prefix (Prefix opts) k \<and> (\<exists>e. db_view E (now k) d k = Some (v, e)))
           \<and> drain E now rs d it1
               = Some (map as_item (filter (\<lambda>x. if Reverse opts then fst x \<le> key else key \<le> fst x) ps))
           \<and> (\<exists>it2. iter_Rewind E now d it1 = Some (Some it2) \<and> drain E now rs d it2 = Some (map as_item ps))
           \<and> (\<not> iter_Valid it1 \<longrightarrow> (\<exists>it2. iter_Seek E now d key' it1 = Some (Some it2) \<and> \<not> iter_Valid it2))"
  by (rule engine.seek_properties[OF assms])

theorem seek_and_rewind_witness:
  "\<exists>it it1 it2. NewIterator ref_env (\<lambda>k. 4) \<lparr>Prefix = [], Reverse = False, ContinueOnError = False\<rparr> three_keys
        = Some (Some it)
     \<and> iter_Seek ref_env (\<lambda>k. 4) three_keys [9] it = Some (Some it1) \<and> \<not> iter_Valid it1
     \<and> iter_Seek ref_env (\<lambda>k. 4) three_keys [1] it1 = Some (Some it2) \<and> \<not> iter_Valid it2"
proof -
  let ?o = "\<lparr>Prefix = [], Reverse = False, ContinueOnError = False\<rparr>"
  have e: "(case NewIterator ref_env (\<lambda>k. 4) ?o three_keys of
      Some (Some it) \<Rightarrow> iter_Valid it \<and> (case iter_Seek ref_env (\<lambda>k. 4) three_keys [9] it of
         Some (Some it1) \<Rightarrow> \<not> iter_Valid it1 | _ \<Rightarrow> False) | _ \<Rightarrow> False)"
    by code_simp
  then obtain it it1 where it: "NewIterator ref_env (\<lambda>k. 4) ?o three_keys = Some (Some it)" "iter_Valid it"
    "iter_Seek ref_env (\<lambda>k. 4) three_keys [9] it = Some (Some it1)" "\<not> iter_Valid it1"
    by (auto split: option.splits)
  have c: "clock_ok 0 (concat busy_run)" "\<forall>(x, req) \<in> set (concat busy_run). req_fits req"
    by (simp_all add: busy_run_def value_fits_def maxLogRecordHeaderSize_def)
  have l: "mt_Size (Bt ref_env) (index three_keys) \<le> length busy_run"
    unfolding three_keys_open(3) by (simp add: busy_run_def)
  from seek_and_rewind[OF ref.engine_axioms three_keys_inv(1) three_keys_open(1,2) it(1,2) l c, of "[9]" "[1]"] it
  show ?thesis by auto
qed

end
