(* ===== verification/Transaction.thy ===== *)
theory Transaction
  imports Database_Spec
begin

text \<open>
  A batch of several operations, from \<open>NewBatch\<close> to \<open>Commit\<close> or \<open>Rollback\<close>, as the user of
  \<^verbatim>\<open>batch.go\<close> sees it: every operation answers from the writes of the batch over the
  database, which itself only changes at the end.
\<close>

section \<open>Runs of a batch\<close>

fun batch_request ::
    "('t, 'w) env \<Rightarrow> ticket \<Rightarrow> request \<Rightarrow> ('t, 'w) DB \<Rightarrow> Batch \<Rightarrow> response \<times> ('t, 'w) DB \<times> Batch" where
  "batch_request E x (ReqPut k v) d b = (case batch_Put E k v d b of (r, b) \<Rightarrow> (RspDone r, d, b))"
| "batch_request E x (ReqPutWithTTL k v ttl) d b =
     (case batch_PutWithTTL E (t_op x) k v ttl d b of (r, b) \<Rightarrow> (RspDone r, d, b))"
| "batch_request E x (ReqGet k) d b = (case batch_Get E (t_op x) k d b of (r, d) \<Rightarrow> (RspValue r, d, b))"
| "batch_request E x (ReqDelete k) d b = (case batch_Delete E k d b of (r, b) \<Rightarrow> (RspDone r, d, b))"
| "batch_request E x (ReqExist k) d b = (case batch_Exist E (t_op x) k d b of (r, d) \<Rightarrow> (RspBool r, d, b))"
| "batch_request E x (ReqExpire k ttl) d b =
     (case batch_Expire E (t_op x) (t_op2 x) k ttl d b of (r, d, b) \<Rightarrow> (RspDone r, d, b))"
| "batch_request E x (ReqTTL k) d b = (case batch_TTL E (t_op x) k d b of (r, d) \<Rightarrow> (RspTTL r, d, b))"
| "batch_request E x (ReqPersist k) d b =
     (case batch_Persist E (t_op x) k d b of (r, d, b) \<Rightarrow> (RspDone r, d, b))"

fun batch_run ::
    "('t, 'w) env \<Rightarrow> (ticket \<times> request) list \<Rightarrow> ('t, 'w) DB \<Rightarrow> Batch \<Rightarrow> response list \<times> ('t, 'w) DB \<times> Batch" where
  "batch_run E [] d b = ([], d, b)"
| "batch_run E ((x, req) # xs) d b =
     (case batch_request E x req d b of
        (rsp, d, b) \<Rightarrow> (case batch_run E xs d b of (rsps, d, b) \<Rightarrow> (rsp # rsps, d, b)))"

section \<open>The specification\<close>

text \<open>
  The map with the writes of the batch, and the keys it has written. The keys count in two
  places: \<open>Expire\<close> of a written key reads the clock a second time, and \<open>TTL\<close> of a written
  key answers \<open>-1\<close> when the batch has deleted it.
\<close>

fun is_write :: "request \<Rightarrow> bool" where
  "is_write (ReqGet k) = False"
| "is_write (ReqExist k) = False"
| "is_write (ReqTTL k) = False"
| "is_write _ = True"

definition pending_ttl :: "int64 \<Rightarrow> (bytes \<times> int64) option \<Rightarrow> int64 result" where
  "pending_ttl now ent =
     (case ent of
        None \<Rightarrow> Ok (- 1)
      | Some (v, e) \<Rightarrow>
          if e = 0 then Ok (- 1) else if entry_at now v e = None then Fail ErrKeyNotFound else Ok (e - now))"

definition tx_step :: "bool \<Rightarrow> ticket \<Rightarrow> request \<Rightarrow> kv \<Rightarrow> bytes set \<Rightarrow> response \<times> kv \<times> bytes set" where
  "tx_step ro x req M W =
     (if req_key req = [] then (rejected ErrKeyIsEmpty req, M, W)
      else if ro \<and> is_write req then (rejected ErrReadOnlyBatch req, M, W)
      else case req of
        ReqPut k v \<Rightarrow> (RspDone (Ok ()), M(k \<mapsto> (v, 0)), insert k W)
      | ReqPutWithTTL k v ttl \<Rightarrow> (RspDone (Ok ()), M(k \<mapsto> (v, t_op x + ttl)), insert k W)
      | ReqDelete k \<Rightarrow> (RspDone (Ok ()), M(k := None), insert k W)
      | ReqExpire k ttl \<Rightarrow>
          (case kv_at (t_op x) M k of
             None \<Rightarrow> (RspDone (Fail ErrKeyNotFound), M, W)
           | Some (v, e) \<Rightarrow>
               (RspDone (Ok ()), M(k \<mapsto> (v, (if k \<in> W then t_op2 x else t_op x) + ttl)), insert k W))
      | ReqPersist k \<Rightarrow>
          (case kv_at (t_op x) M k of
             None \<Rightarrow> (RspDone (Fail ErrKeyNotFound), M, W)
           | Some (v, e) \<Rightarrow> (RspDone (Ok ()), M(k \<mapsto> (v, 0)), if e = 0 then W else insert k W))
      | ReqTTL k \<Rightarrow>
          (if k \<in> W then RspTTL (pending_ttl (t_op x) (M k)) else fst (kv_step (t_op x) None req M), M, W)
      | _ \<Rightarrow> (fst (kv_step (t_op x) None req M), M, W))"

fun tx_run :: "bool \<Rightarrow> (ticket \<times> request) list \<Rightarrow> kv \<Rightarrow> bytes set \<Rightarrow> response list \<times> kv \<times> bytes set" where
  "tx_run ro [] M W = ([], M, W)"
| "tx_run ro ((x, req) # xs) M W =
     (case tx_step ro x req M W of
        (rsp, M, W) \<Rightarrow> (case tx_run ro xs M W of (rsps, M, W) \<Rightarrow> (rsp # rsps, M, W)))"

text \<open>The clock runs from \<open>now\<close> to the end \<open>tc\<close> of the batch.\<close>

fun tx_clock :: "int64 \<Rightarrow> (ticket \<times> request) list \<Rightarrow> int64 \<Rightarrow> bool" where
  "tx_clock now [] tc = (sint now \<le> sint tc)"
| "tx_clock now ((x, req) # xs) tc = (sint now \<le> sint (t_op x) \<and> tx_clock (t_op x) xs tc)"

section \<open>The batch over its map\<close>

text \<open>What a pending record says of its key.\<close>

definition pending_entry :: "log_record \<Rightarrow> (bytes \<times> int64) option" where
  "pending_entry r = (if Type r = LogRecordDeleted then None else Some (Value r, Expire r))"

definition tx_rel :: "('t, 'w) env \<Rightarrow> int64 \<Rightarrow> ('t, 'w) DB \<Rightarrow> Batch \<Rightarrow> kv \<Rightarrow> bytes set \<Rightarrow> bool" where
  "tx_rel E now d b M W \<longleftrightarrow>
     dom (pending_rec b) = W
     \<and> (\<forall>k r. pending_rec b k = Some r \<longrightarrow> M k = pending_entry r \<and> (Type r = LogRecordDeleted \<longrightarrow> Expire r = 0))
     \<and> (\<forall>t k. sint now \<le> sint t \<longrightarrow> k \<notin> W \<longrightarrow> db_view E t d k = kv_at t M k)"

lemma kv_at_entry: "kv_at t M k = (case M k of None \<Rightarrow> None | Some (v, e) \<Rightarrow> entry_at t v e)"
  by (simp add: kv_at_def)

lemma tx_view:
  assumes "tx_rel E now d b M W" and "sint now \<le> sint t"
  shows "batch_view E t d b = kv_at t M"
proof
  fix k
  show "batch_view E t d b k = kv_at t M k"
  proof (cases "pending_rec b k")
    case None
    then have "k \<notin> W" using assms(1) by (auto simp: tx_rel_def)
    then show ?thesis using None assms by (simp add: tx_rel_def batch_view_def)
  next
    case (Some r)
    then have "M k = pending_entry r" using assms(1) by (simp add: tx_rel_def)
    then show ?thesis using Some by (simp add: batch_view_def visible_entry kv_at_entry pending_entry_def)
  qed
qed

lemma tx_write:
  assumes "tx_rel E now d b M W" and "pending_rec b' = (pending_rec b)(k \<mapsto> r)"
    and "Type r = LogRecordDeleted \<longrightarrow> Expire r = 0"
  shows "tx_rel E now d b' (M(k := pending_entry r)) (insert k W)"
  using assms by (auto simp: tx_rel_def kv_at_entry split: if_splits)

lemma tx_later: "tx_rel E now d b M W \<Longrightarrow> sint now \<le> sint now' \<Longrightarrow> tx_rel E now' d b M W"
  by (auto simp: tx_rel_def)

lemma tx_same: "tx_rel E now d b M W \<Longrightarrow> same_from E now d d' \<Longrightarrow> tx_rel E now d' b M W"
  by (auto simp: tx_rel_def same_from_def)

lemma tx_written: "tx_rel E now d b M W \<Longrightarrow> k \<in> W \<longleftrightarrow> pending_rec b k \<noteq> None"
  by (auto simp: tx_rel_def)

lemma tx_pending: "tx_rel E now d b M W \<Longrightarrow> pending_rec b k = Some r \<Longrightarrow> M k = pending_entry r \<and> (Type r = LogRecordDeleted \<longrightarrow> Expire r = 0)"
  by (simp add: tx_rel_def)

section \<open>Each operation\<close>

context engine
begin

definition tx_ok :: "ticket \<Rightarrow> request \<Rightarrow> ('t, 'w) DB \<Rightarrow> Batch \<Rightarrow> kv \<Rightarrow> bytes set \<Rightarrow> bool" where
  "tx_ok x req d b M W \<longleftrightarrow> (\<exists>rsp d' b' M' W'. batch_request E x req d b = (rsp, d', b')
     \<and> tx_step (ReadOnly (batch_options b)) x req M W = (rsp, M', W')
     \<and> batch_open E b' \<and> same_batch b b' \<and> quiet (t_op x) d d' \<and> tx_rel E (t_op x) d' b' M' W')"

lemma same_batch_refl [simp]: "same_batch b b"
  by (simp add: same_batch_def)

text \<open>An operation that records nothing.\<close>

lemma tx_ok_quiet:
  assumes "batch_open E b" and "tx_rel E (t_op x) d b M W" and "batch_request E x req d b = (rsp, d', b)"
    and "quiet (t_op x) d d'" and "tx_step (ReadOnly (batch_options b)) x req M W = (rsp, M, W)"
  shows "tx_ok x req d b M W"
  using assms tx_same[OF assms(2), of d'] by (auto simp: tx_ok_def quiet_def)

text \<open>An operation that records \<open>r\<close> for its key.\<close>

lemma tx_ok_write:
  assumes "dinv d" and "tx_rel E (t_op x) d b M W" and "batch_request E x req d b = (rsp, d, b')"
    and "batch_open E b'" and "same_batch b b'" and "pending_rec b' = (pending_rec b)(k \<mapsto> r)"
    and "Type r = LogRecordDeleted \<longrightarrow> Expire r = 0"
    and "tx_step (ReadOnly (batch_options b)) x req M W = (rsp, M(k := pending_entry r), insert k W)"
  shows "tx_ok x req d b M W"
  using assms tx_write[OF assms(2,6,7)] quiet_refl[OF assms(1)] by (auto simp: tx_ok_def)

lemma tx_refused:
  assumes "dinv d" and "batch_open E b" and "\<not> closed d" and "tx_rel E (t_op x) d b M W"
    and "req_key req = [] \<or> ReadOnly (batch_options b) \<and> is_write req"
  shows "tx_ok x req d b M W"
proof (rule tx_ok_quiet[where d' = d])
  let ?e = "if req_key req = [] then ErrKeyIsEmpty else ErrReadOnlyBatch"
  show "batch_request E x req d b = (rejected ?e req, d, b)"
    using assms(3,5) by (cases req) (auto simp: batch_Put_def batch_PutWithTTL_def batch_Delete_def batch_Expire_def
        batch_Persist_def batch_Get_def batch_Exist_def batch_TTL_def write_guard_def)
  show "tx_step (ReadOnly (batch_options b)) x req M W = (rejected ?e req, M, W)"
    using assms(5) by (auto simp: tx_step_def)
qed (use assms quiet_refl in auto)

lemma tx_put:
  assumes d: "dinv d" and b: "batch_open E b" and w: "writable k d b" and r: "tx_rel E (t_op x) d b M W" and f: "value_fits k v"
  shows "tx_ok x (ReqPut k v) d b M W" and "tx_ok x (ReqPutWithTTL k v ttl) d b M W"
proof -
  have k: "k \<noteq> []" "\<not> ReadOnly (batch_options b)" and g: "write_guard k d b = None"
    using w by (simp_all add: writable_def write_guard_None)
  have e: "\<exists>r. pending_rec (put_record E k v e b) = (pending_rec b)(k \<mapsto> r) \<and> pending_entry r = Some (v, e) \<and> Type r \<noteq> LogRecordDeleted" for e
  proof -
    obtain r where "pending_rec (put_record E k v e b) = (pending_rec b)(k \<mapsto> r)" "Value r = v" "Type r = LogRecordNormal" "Expire r = e"
      using put_record_spec(3)[OF b f, of e] by blast
    then show ?thesis by (intro exI[of _ r]) (simp add: pending_entry_def)
  qed
  note ps = put_record_spec(1,2)[OF b f]
  obtain r0 where "pending_rec (put_record E k v 0 b) = (pending_rec b)(k \<mapsto> r0)" "pending_entry r0 = Some (v, 0)" "Type r0 \<noteq> LogRecordDeleted"
    using e by blast
  then show "tx_ok x (ReqPut k v) d b M W"
    using k g by (intro tx_ok_write[OF d r _ ps[of 0], of _ _ k r0]) (simp_all add: batch_Put_def tx_step_def)
  obtain r1 where "pending_rec (put_record E k v (t_op x + ttl) b) = (pending_rec b)(k \<mapsto> r1)"
    "pending_entry r1 = Some (v, t_op x + ttl)" "Type r1 \<noteq> LogRecordDeleted"
    using e by blast
  then show "tx_ok x (ReqPutWithTTL k v ttl) d b M W"
    using k g by (intro tx_ok_write[OF d r _ ps[of "t_op x + ttl"], of _ _ k r1]) (simp_all add: batch_PutWithTTL_def tx_step_def)
qed

lemma tx_delete:
  assumes d: "dinv d" and b: "batch_open E b" and w: "writable k d b" and r: "tx_rel E (t_op x) d b M W" and f: "value_fits k []"
  shows "tx_ok x (ReqDelete k) d b M W"
proof (rule batch_Delete_spec[OF b w f])
  fix b' r'
  assume a: "batch_Delete E k d b = (Ok (), b')" "batch_open E b'" "same_batch b b'"
    "pending_rec b' = (pending_rec b)(k \<mapsto> r')" "Type r' = LogRecordDeleted" "Expire r' = 0"
  show ?thesis
    by (rule tx_ok_write[OF d r _ a(2-4)]) (use a w in \<open>simp_all add: tx_step_def writable_def pending_entry_def\<close>)
qed

lemma tx_reads:
  assumes d: "dinv d" and b: "batch_open E b" and c: "\<not> closed d" and k: "k \<noteq> []" and r: "tx_rel E (t_op x) d b M W"
  shows "tx_ok x (ReqGet k) d b M W" and "tx_ok x (ReqExist k) d b M W" and "tx_ok x (ReqTTL k) d b M W"
proof -
  have v: "batch_view E (t_op x) d b k = kv_at (t_op x) M k" using tx_view[OF r] by simp
  show "tx_ok x (ReqGet k) d b M W"
  proof (rule tx_ok_quiet[OF b r _ batch_Get_spec(2)[OF d b k c]])
    show "batch_request E x (ReqGet k) d b = (RspValue (fst (batch_Get E (t_op x) k d b)), snd (batch_Get E (t_op x) k d b), b)"
      by (simp add: case_prod_beta)
  qed (use k v batch_Get_spec(1)[OF d b k c] in \<open>simp add: tx_step_def kv_step_def\<close>)
  show "tx_ok x (ReqExist k) d b M W"
  proof (rule tx_ok_quiet[OF b r _ batch_Exist_spec(2)[OF d b k c]])
    show "batch_request E x (ReqExist k) d b = (RspBool (fst (batch_Exist E (t_op x) k d b)), snd (batch_Exist E (t_op x) k d b), b)"
      by (simp add: case_prod_beta)
  qed (use k v batch_Exist_spec(1)[OF d b k c] in \<open>simp add: tx_step_def kv_step_def\<close>)
  have "fst (batch_TTL E (t_op x) k d b) = (if k \<in> W then pending_ttl (t_op x) (M k)
      else (case kv_at (t_op x) M k of None \<Rightarrow> Fail ErrKeyNotFound | Some (v, e) \<Rightarrow> Ok (if 0 <s e then e - t_op x else - 1)))"
  proof (cases "pending_rec b k")
    case None
    then have "k \<notin> W" using tx_written[OF r] by simp
    then show ?thesis using None v batch_TTL_spec(1)[OF d b k c, of "t_op x"]
      by (auto simp: batch_view_def split: option.split)
  next
    case (Some p)
    then have "k \<in> W" using tx_written[OF r] by simp
    then show ?thesis using Some batch_TTL_spec(1)[OF d b k c, of "t_op x"] tx_pending[OF r Some]
      by (auto simp: pending_ttl_def pending_entry_def live_def expired_entry)
  qed
  then show "tx_ok x (ReqTTL k) d b M W"
    by (intro tx_ok_quiet[OF b r _ batch_TTL_spec(2)[OF d b k c]]) (use k in \<open>auto simp: tx_step_def kv_step_def case_prod_beta\<close>)
qed

end

section \<open>Expire and Persist\<close>

context engine
begin

lemma edit_pending:
  assumes "batch_open E b" and l: "lookupPendingWrites E b k = Some i" and "live now (pendingWrites b ! i)"
  shows "pending_rec (update_pending i (\<lambda>r. r\<lparr>Expire := e\<rparr>) b) = (pending_rec b)(k \<mapsto> (pendingWrites b ! i)\<lparr>Expire := e\<rparr>)"
    and "batch_open E (update_pending i (\<lambda>r. r\<lparr>Expire := e\<rparr>) b)" and "same_batch b (update_pending i (\<lambda>r. r\<lparr>Expire := e\<rparr>) b)"
    and "pending_entry ((pendingWrites b ! i)\<lparr>Expire := e\<rparr>) = Some (Value (pendingWrites b ! i), e)"
    and "Type ((pendingWrites b ! i)\<lparr>Expire := e\<rparr>) \<noteq> LogRecordDeleted"
proof -
  have inv: "batch_inv E b" using assms(1) by (simp add: batch_open_def)
  show "pending_rec (update_pending i (\<lambda>r. r\<lparr>Expire := e\<rparr>) b) = (pending_rec b)(k \<mapsto> (pendingWrites b ! i)\<lparr>Expire := e\<rparr>)"
    using pending_update[OF inv l, of "\<lambda>r. r\<lparr>Expire := e\<rparr>"] by (auto simp: fun_eq_iff)
qed (use expire_pending[OF assms] assms(3) in \<open>simp_all add: pending_entry_def live_def\<close>)

lemma edit_stored:
  assumes "batch_open E b" and n: "pending_rec b k = None" and g: "good_record k r"
  shows "pending_rec (appendPendingWrites E k (r\<lparr>Expire := e\<rparr>) b) = (pending_rec b)(k \<mapsto> r\<lparr>Expire := e\<rparr>)"
    and "batch_open E (appendPendingWrites E k (r\<lparr>Expire := e\<rparr>) b)" and "same_batch b (appendPendingWrites E k (r\<lparr>Expire := e\<rparr>) b)"
    and "pending_entry (r\<lparr>Expire := e\<rparr>) = Some (Value r, e)" and "Type (r\<lparr>Expire := e\<rparr>) \<noteq> LogRecordDeleted"
  using pending_append[OF n good_record_open(3)[OF g], of E e] expire_stored[OF assms] g
  by (auto simp: fun_eq_iff pending_entry_def good_record_def)

text \<open>The three stages, with what the map says of the key.\<close>

lemma tx_edit:
  assumes d: "dinv d" and b: "batch_open E b" and r: "tx_rel E (t_op x) d b M W" and k: "k \<noteq> []"
    and pending: "\<And>i. lookupPendingWrites E b k = Some i \<Longrightarrow> k \<in> W \<Longrightarrow> live (t_op x) (pendingWrites b ! i)
        \<Longrightarrow> kv_at (t_op x) M k = Some (Value (pendingWrites b ! i), Expire (pendingWrites b ! i)) \<Longrightarrow> tx_ok x req d b M W"
    and stored: "\<And>p c q. lookupPendingWrites E b k = None \<Longrightarrow> k \<notin> W \<Longrightarrow> pending_rec b k = None \<Longrightarrow> good_record k q
        \<Longrightarrow> mt_Get (Bt E) (index d) k = Some p \<Longrightarrow> w_Read (Wl E) (dataFiles d) p = Inr c \<Longrightarrow> decodeLogRecord c = Some q
        \<Longrightarrow> Type q \<noteq> LogRecordDeleted \<Longrightarrow> \<not> IsExpired q (t_op x) \<Longrightarrow> kv_at (t_op x) M k = Some (Value q, Expire q) \<Longrightarrow> tx_ok x req d b M W"
    and missing: "kv_at (t_op x) M k = None \<Longrightarrow> tx_step (ReadOnly (batch_options b)) x req M W = (RspDone (Fail ErrKeyNotFound), M, W)"
    and gone: "\<And>i. lookupPendingWrites E b k = Some i \<Longrightarrow> \<not> live (t_op x) (pendingWrites b ! i)
        \<Longrightarrow> batch_request E x req d b = (RspDone (Fail ErrKeyNotFound), d, b)"
      "lookupPendingWrites E b k = None \<Longrightarrow> mt_Get (Bt E) (index d) k = None
        \<Longrightarrow> batch_request E x req d b = (RspDone (Fail ErrKeyNotFound), d, b)"
      "\<And>p c q. lookupPendingWrites E b k = None \<Longrightarrow> mt_Get (Bt E) (index d) k = Some p \<Longrightarrow> w_Read (Wl E) (dataFiles d) p = Inr c
        \<Longrightarrow> decodeLogRecord c = Some q \<Longrightarrow> Key q = k \<Longrightarrow> IsExpired q (t_op x)
        \<Longrightarrow> batch_request E x req d b = (RspDone (Fail ErrKeyNotFound), index_Delete E k d, b)"
  shows "tx_ok x req d b M W"
proof -
  have v: "batch_view E (t_op x) d b k = kv_at (t_op x) M k" using tx_view[OF r] by simp
  note fail = tx_ok_quiet[OF b r _ _ missing]
  show ?thesis
  proof (rule read_cases[OF d b, of k "t_op x"])
    fix i
    assume l: "lookupPendingWrites E b k = Some i" and p: "pending_rec b k = Some (pendingWrites b ! i)"
      and w: "batch_view E (t_op x) d b k = visible (t_op x) (pendingWrites b ! i)"
    have "k \<in> W" using tx_written[OF r] p by simp
    then show ?thesis
      using pending[OF l] fail[OF gone(1)[OF l] quiet_refl[OF d]] v w by (cases "live (t_op x) (pendingWrites b ! i)") (simp_all add: visible_def)
  next
    assume "lookupPendingWrites E b k = None" "mt_Get (Bt E) (index d) k = None" "batch_view E (t_op x) d b k = None"
    then show ?thesis using fail[OF gone(2) quiet_refl[OF d]] v by simp
  next
    fix p c q
    assume a: "lookupPendingWrites E b k = None" "mt_Get (Bt E) (index d) k = Some p"
      "w_Read (Wl E) (dataFiles d) p = Inr c" "decodeLogRecord c = Some q" and n: "pending_rec b k = None"
      and g: "good_record k q" and s: "stored_rec E d k = Some q"
      and w: "batch_view E (t_op x) d b k = entry_at (t_op x) (Value q) (Expire q)"
    have t: "Key q = k" "Type q \<noteq> LogRecordDeleted" using g by (simp_all add: good_record_def)
    show ?thesis
    proof (cases "IsExpired q (t_op x)")
      case True
      then show ?thesis using fail[OF gone(3)[OF a t(1)] quiet_expired[OF d s]] v w by (simp add: expired_entry)
    next
      case False
      have "k \<notin> W" using tx_written[OF r] n by simp
      then show ?thesis using stored[OF a(1) _ n g a(2-4) t(2) False] v w not_expired_entry[OF False] by simp
    qed
  qed
qed

lemma tx_expire:
  assumes d: "dinv d" and b: "batch_open E b" and w: "writable k d b" and r: "tx_rel E (t_op x) d b M W"
  shows "tx_ok x (ReqExpire k ttl) d b M W"
proof -
  have k: "k \<noteq> []" "\<not> ReadOnly (batch_options b)" and g: "write_guard k d b = None"
    using w by (simp_all add: writable_def write_guard_None)
  show ?thesis
  proof (rule tx_edit[OF d b r k(1)])
    fix i
    assume a: "lookupPendingWrites E b k = Some i" "k \<in> W" "live (t_op x) (pendingWrites b ! i)"
      "kv_at (t_op x) M k = Some (Value (pendingWrites b ! i), Expire (pendingWrites b ! i))"
    note e = edit_pending[OF b a(1,3), where e = "t_op2 x + ttl"]
    show "tx_ok x (ReqExpire k ttl) d b M W"
      by (rule tx_ok_write[OF d r _ e(2,3,1)])
        (use a e(4,5) k g in \<open>simp_all add: batch_Expire_def Let_def live_def tx_step_def\<close>)
  next
    fix p c q
    assume a: "lookupPendingWrites E b k = None" "k \<notin> W" "pending_rec b k = None" "good_record k q"
      "mt_Get (Bt E) (index d) k = Some p" "w_Read (Wl E) (dataFiles d) p = Inr c" "decodeLogRecord c = Some q"
      "Type q \<noteq> LogRecordDeleted" "\<not> IsExpired q (t_op x)" "kv_at (t_op x) M k = Some (Value q, Expire q)"
    note e = edit_stored[OF b a(3,4), where e = "t_op x + ttl"]
    show "tx_ok x (ReqExpire k ttl) d b M W"
      by (rule tx_ok_write[OF d r _ e(2,3,1)]) (use a e(4,5) k g in \<open>simp_all add: batch_Expire_def tx_step_def\<close>)
  qed (use k g in \<open>auto simp: batch_Expire_def Let_def live_def tx_step_def\<close>)
qed

lemma tx_persist:
  assumes d: "dinv d" and b: "batch_open E b" and w: "writable k d b" and r: "tx_rel E (t_op x) d b M W"
  shows "tx_ok x (ReqPersist k) d b M W"
proof -
  have k: "k \<noteq> []" "\<not> ReadOnly (batch_options b)" and g: "write_guard k d b = None"
    using w by (simp_all add: writable_def write_guard_None)
  show ?thesis
  proof (rule tx_edit[OF d b r k(1)])
    fix i
    assume a: "lookupPendingWrites E b k = Some i" "k \<in> W" "live (t_op x) (pendingWrites b ! i)"
      "kv_at (t_op x) M k = Some (Value (pendingWrites b ! i), Expire (pendingWrites b ! i))"
    note e = edit_pending[OF b a(1,3), where e = "0"]
    show "tx_ok x (ReqPersist k) d b M W"
      by (rule tx_ok_write[OF d r _ e(2,3,1)])
        (use a e(4,5) k g in \<open>auto simp: batch_Persist_def Let_def live_def tx_step_def\<close>)
  next
    fix p c q
    assume a: "lookupPendingWrites E b k = None" "k \<notin> W" "pending_rec b k = None" "good_record k q"
      "mt_Get (Bt E) (index d) k = Some p" "w_Read (Wl E) (dataFiles d) p = Inr c" "decodeLogRecord c = Some q"
      "Type q \<noteq> LogRecordDeleted" "\<not> IsExpired q (t_op x)" and m: "kv_at (t_op x) M k = Some (Value q, Expire q)"
    show "tx_ok x (ReqPersist k) d b M W"
    proof (cases "Expire q = 0")
      case True
      have "M k = Some (Value q, 0)" using m True by (auto simp: kv_at_entry entry_at_def split: option.splits if_splits)
      then have "M(k \<mapsto> (Value q, 0)) = M" by auto
      then show ?thesis
        by (intro tx_ok_quiet[OF b r _ quiet_refl[OF d]])
          (use a True m k g in \<open>simp_all add: batch_Persist_def tx_step_def\<close>)
    next
      case False
      note e = edit_stored[OF b a(3,4), where e = "0"]
      show ?thesis
        by (rule tx_ok_write[OF d r _ e(2,3,1)]) (use a m False e(4,5) k g in \<open>simp_all add: batch_Persist_def tx_step_def\<close>)
    qed
  qed (use k g in \<open>auto simp: batch_Persist_def Let_def live_def tx_step_def\<close>)
qed

end

section \<open>The whole batch\<close>

lemma tx_clock_end: "tx_clock now xs tc \<Longrightarrow> sint now \<le> sint tc"
  by (induction now xs tc rule: tx_clock.induct) auto

context engine
begin

lemma quiet_later: "quiet now d d' \<Longrightarrow> sint now \<le> sint now' \<Longrightarrow> quiet now' d d'"
  by (auto simp: quiet_def same_from_def)

lemma quiet_trans: "quiet now d d1 \<Longrightarrow> quiet now d1 d2 \<Longrightarrow> quiet now d d2"
  by (cases d; cases d1; cases d2) (auto simp: quiet_def same_from_def)

lemma tx_request:
  assumes d: "dinv d" and b: "batch_open E b" and c: "\<not> closed d" and r: "tx_rel E (t_op x) d b M W" and f: "req_fits req"
  shows "tx_ok x req d b M W"
proof (cases "req_key req = [] \<or> ReadOnly (batch_options b) \<and> is_write req")
  case True
  then show ?thesis by (rule tx_refused[OF d b c r])
next
  case False
  then have w: "is_write req \<Longrightarrow> writable (req_key req) d b" and k: "req_key req \<noteq> []" using c by (auto simp: writable_def)
  show ?thesis
    by (cases req) (use f k w tx_put[OF d b _ r] tx_delete[OF d b _ r] tx_expire[OF d b _ r] tx_persist[OF d b _ r]
        tx_reads[OF d b c _ r] in simp_all)
qed

lemma tx_run_ok:
  assumes "dinv d" and "batch_open E b" and "\<not> closed d" and "tx_rel E now d b M W"
    and "tx_clock now xs tc" and "\<forall>(x, req) \<in> set xs. req_fits req"
  shows "\<exists>rsps d' b' M' W'. batch_run E xs d b = (rsps, d', b')
     \<and> tx_run (ReadOnly (batch_options b)) xs M W = (rsps, M', W')
     \<and> batch_open E b' \<and> same_batch b b' \<and> quiet tc d d' \<and> tx_rel E tc d' b' M' W'"
  using assms
proof (induction xs arbitrary: now d b M W)
  case Nil
  then show ?case using tx_later[OF Nil.prems(4)] quiet_refl by simp
next
  case (Cons a xs)
  obtain x req where a: "a = (x, req)" by (cases a)
  have c: "sint now \<le> sint (t_op x)" "tx_clock (t_op x) xs tc" and f: "req_fits req" using Cons.prems(5,6) a by auto
  from tx_request[OF Cons.prems(1-3) tx_later[OF Cons.prems(4) c(1)] f] obtain rsp d1 b1 M1 W1 where s:
    "batch_request E x req d b = (rsp, d1, b1)" "tx_step (ReadOnly (batch_options b)) x req M W = (rsp, M1, W1)"
    "batch_open E b1" "same_batch b b1" "quiet (t_op x) d d1" "tx_rel E (t_op x) d1 b1 M1 W1"
    unfolding tx_ok_def by blast
  have k: "dinv d1" "\<not> closed d1" "batch_options b1 = batch_options b"
    using s(5) same_from_control(2)[of E "t_op x" d d1] Cons.prems(3) same_batchD[OF s(4)] by (simp_all add: quiet_def)
  obtain rsps d' b' M' W' where t: "batch_run E xs d1 b1 = (rsps, d', b')"
    "tx_run (ReadOnly (batch_options b1)) xs M1 W1 = (rsps, M', W')"
    "batch_open E b'" "same_batch b1 b'" "quiet tc d1 d'" "tx_rel E tc d' b' M' W'"
    using Cons.IH[OF k(1) s(3) k(2) s(6) c(2)] Cons.prems(6) by auto
  have "quiet tc d d'" by (rule quiet_trans[OF quiet_later[OF s(5) tx_clock_end[OF c(2)]] t(5)])
  moreover have "same_batch b b'" using s(4) t(4) by (cases b; cases b1; cases b') (simp add: same_batch_def)
  ultimately show ?case using s t k(3) a by simp
qed

text \<open>The end of a batch that can write, and of one that cannot.\<close>

lemma tx_end_write:
  assumes d: "dinv d" "idle d" "\<not> closed d" and q: "quiet tc (locked d) d2" and b: "batch_open E b" "\<not> ReadOnly (batch_options b)"
  obtains r d3 b3 d4 b4 where "batch_Commit E j tc d2 b = (r, d3, b3)" and "dinv d3" and "idle d3"
    and "r = Ok () \<and> (\<forall>t. sint tc \<le> sint t \<longrightarrow> db_view E t d3 = batch_view E t d2 b)
       \<or> (\<exists>e. r = Fail e \<and> log_error E w_inv e) \<and> (\<forall>t. db_view E t d3 = db_view E t d2)"
    and "batch_Rollback d2 b = (Ok (), d4, b4)" and "dinv d4" and "idle d4" and "\<And>t. db_view E t d4 = db_view E t d2"
proof -
  have c: "mu d2 = mu (locked d)" "\<not> closed d2" "dinv d2"
    using q same_from_control[of E tc "locked d" d2] d(3) by (simp_all add: quiet_def)
  let ?d = "d2\<lparr>mu := mu d\<rparr>"
  have l: "locked ?d = d2" using c(1) by (simp add: locked_def)
  have i: "dinv ?d" "idle ?d" "\<not> closed ?d" using c d(2) by (simp_all add: idle_def)
  obtain r d3 b3 where w: "batch_Commit E j tc (locked ?d) b = (r, d3, b3)" "settled ?d d3"
    "r = Ok () \<and> (\<forall>t. sint tc \<le> sint t \<longrightarrow> db_view E t d3 = batch_view E t ?d b) \<and> keeps_log tc j ?d d3
       \<or> (\<exists>e. r = Fail e \<and> log_error E w_inv e) \<and> (\<forall>t. db_view E t d3 = db_view E t ?d) \<and> pendingWrites b \<noteq> []"
    by (rule write_committed[OF i b])
  have o: "\<not> committed b" "\<not> rollbacked b" "writer (mu d2)" using b(1) c(1) by (simp_all add: batch_open_def)
  obtain b4 where rb: "batch_Rollback d2 b = (if closed d2 then Fail ErrDBClosed else Ok (), released d2, b4)"
    by (rule Rollback_writer[OF b(2) o(3,1,2)])
  have "idle (released d2)" using c(1) d(2) by (simp add: released_def idle_def locked_def)
  then show ?thesis
    using that[of r d3 b3 "released d2" b4] w l settled_idle[OF w(2) i(2)] c(2,3) rb
    by (auto simp: settled_def)
qed

lemma tx_end_read:
  assumes d: "dinv d" "idle d" "\<not> closed d" and q: "quiet tc (rlocked d) d2" and b: "batch_open E b" "ReadOnly (batch_options b)"
  shows "batch_Commit E j tc d2 b = (Ok (), d2\<lparr>mu := mu d\<rparr>, b)"
    and "batch_Rollback d2 b = (Ok (), d2\<lparr>mu := mu d\<rparr>, b\<lparr>rollbacked := True\<rparr>)"
proof -
  have c: "mu d2 = mu (rlocked d)" "\<not> closed d2"
    using q same_from_control[of E tc "rlocked d" d2] d(3) by (simp_all add: quiet_def)
  have m: "(mu (rlocked d))\<lparr>readers := readers (mu d)\<rparr> = mu d" "readers (mu (rlocked d)) = Suc (readers (mu d))"
    by (simp_all add: rlocked_def)
  show "batch_Commit E j tc d2 b = (Ok (), d2\<lparr>mu := mu d\<rparr>, b)"
    using b(2) c m by (simp add: batch_Commit_def commit_body_def deferred_unlock_def batch_unlock_def mutex_RUnlock_def)
  show "batch_Rollback d2 b = (Ok (), d2\<lparr>mu := mu d\<rparr>, b\<lparr>rollbacked := True\<rparr>)"
    using b c m by (simp add: batch_open_def batch_Rollback_def rollback_body_def deferred_unlock_def batch_unlock_def mutex_RUnlock_def Let_def)
qed

end

section \<open>The whole batch\<close>

lemma tx_run_read_only: "tx_run True xs M W = (rsps, M', W') \<Longrightarrow> M' = M \<and> W' = W"
proof (induction xs arbitrary: rsps M' W')
  case (Cons a xs)
  obtain x req where a: "a = (x, req)" by (cases a)
  have "\<exists>rsp. tx_step True x req M W = (rsp, M, W)" by (cases req) (auto simp: tx_step_def)
  then show ?case using Cons a by (auto split: prod.splits)
qed simp

context engine
begin

lemma transaction:
  assumes d: "dinv d" "idle d" "\<not> closed d" and c: "tx_clock now xs tc" and f: "\<forall>(x, req) \<in> set xs. req_fits req"
  shows "\<exists>b d1 rsps d2 b2 M W r d3 b3 d4 b4.
     NewBatch opts d = Some (b, d1) \<and> batch_run E xs d1 b = (rsps, d2, b2)
     \<and> tx_run (ReadOnly opts) xs (db_map E d) {} = (rsps, M, W)
     \<and> dinv d2 \<and> \<not> closed d2 \<and> batch_open E b2 \<and> batch_options b2 = opts \<and> (\<not> ReadOnly opts \<longrightarrow> writer (mu d2))
     \<and> (\<forall>t. sint tc \<le> sint t \<longrightarrow> db_view E t d2 = db_view E t d)
     \<and> batch_Commit E j tc d2 b2 = (r, d3, b3) \<and> dinv d3 \<and> idle d3
     \<and> (r = Ok () \<and> (\<forall>t. sint tc \<le> sint t \<longrightarrow> db_view E t d3 = kv_at t M)
        \<or> (\<exists>e. r = Fail e \<and> log_error E w_inv e) \<and> (\<forall>t. sint tc \<le> sint t \<longrightarrow> db_view E t d3 = db_view E t d))
     \<and> batch_Rollback d2 b2 = (Ok (), d4, b4) \<and> dinv d4 \<and> idle d4
     \<and> (\<forall>t. sint tc \<le> sint t \<longrightarrow> db_view E t d4 = db_view E t d)"
proof -
  define b :: Batch where "b = \<lparr>pendingWrites = [], pendingWritesMap = [], batch_options = opts, committed = False, rollbacked = False\<rparr>"
  define d1 where "d1 = (if ReadOnly opts then rlocked d else locked d)"
  have nb: "NewBatch opts d = Some (b, d1)"
    using d(2) by (simp add: NewBatch_def batch_lock_def mutex_Lock_def mutex_RLock_def idle_def b_def d1_def locked_def rlocked_def)
  have b: "batch_open E b" "batch_options b = opts" and p: "pending_rec b k = None" for k
    by (simp_all add: b_def batch_open_def pending_rec_def)
  have d1: "dinv d1" "\<not> closed d1" "\<And>t. db_view E t d1 = db_view E t d" using d by (simp_all add: d1_def)
  have m: "db_view E t d = kv_at t (db_map E d)" for t using rep_db_map[OF d(1), of t] by (simp add: rep_def)
  have "tx_rel E now d1 b (db_map E d) {}" using p d1(3) m by (auto simp: tx_rel_def dom_def)
  from tx_run_ok[OF d1(1) b(1) d1(2) this c f] obtain rsps d2 b2 M W where run: "batch_run E xs d1 b = (rsps, d2, b2)"
    "tx_run (ReadOnly opts) xs (db_map E d) {} = (rsps, M, W)" "batch_open E b2" "same_batch b b2" "quiet tc d1 d2"
    "tx_rel E tc d2 b2 M W" unfolding b(2) by blast
  have o: "batch_options b2 = opts" using same_batchD[OF run(4)] b(2) by simp
  have same: "db_view E t d2 = db_view E t d" if "sint tc \<le> sint t" for t
    using run(5) d1(3) that by (simp add: quiet_def same_from_def)
  have e2: "dinv d2" "\<not> closed d2" "\<not> ReadOnly opts \<longrightarrow> writer (mu d2)"
    using run(5) d1(2) same_from_control[of E tc d1 d2] by (simp_all add: quiet_def d1_def locked_def)
  note start = nb run(1,2,3) o e2
  show ?thesis
  proof (cases "ReadOnly opts")
    case True
    have q: "quiet tc (rlocked d) d2" using run(5) True by (simp add: d1_def)
    have ro: "ReadOnly (batch_options b2)" using o True by simp
    note e = tx_end_read[OF d q run(3) ro]
    have "M = db_map E d" using tx_run_read_only run(2) True by metis
    moreover have "dinv (d2\<lparr>mu := mu d\<rparr>)" "idle (d2\<lparr>mu := mu d\<rparr>)" using q d(2) by (simp_all add: quiet_def idle_def)
    ultimately show ?thesis using start e same m
      by (intro exI[of _ b] exI[of _ d1] exI[of _ rsps] exI[of _ d2] exI[of _ b2] exI[of _ M] exI[of _ W] exI[of _ "Ok ()"]
          exI[of _ "d2\<lparr>mu := mu d\<rparr>"] exI[of _ b2] exI[of _ "b2\<lparr>rollbacked := True\<rparr>"]) simp
  next
    case False
    have q: "quiet tc (locked d) d2" using run(5) False by (simp add: d1_def)
    have wr: "\<not> ReadOnly (batch_options b2)" using o False by simp
    show ?thesis
    proof (rule tx_end_write[OF d q run(3) wr, of j])
      fix r d3 b3 d4 b4
      assume e: "batch_Commit E j tc d2 b2 = (r, d3, b3)" "dinv d3" "idle d3"
        "r = Ok () \<and> (\<forall>t. sint tc \<le> sint t \<longrightarrow> db_view E t d3 = batch_view E t d2 b2)
         \<or> (\<exists>e. r = Fail e \<and> log_error E w_inv e) \<and> (\<forall>t. db_view E t d3 = db_view E t d2)"
        "batch_Rollback d2 b2 = (Ok (), d4, b4)" "dinv d4" "idle d4" and s4: "\<And>t. db_view E t d4 = db_view E t d2"
      have "r = Ok () \<and> (\<forall>t. sint tc \<le> sint t \<longrightarrow> db_view E t d3 = kv_at t M)
        \<or> (\<exists>e. r = Fail e \<and> log_error E w_inv e) \<and> (\<forall>t. sint tc \<le> sint t \<longrightarrow> db_view E t d3 = db_view E t d)"
        using e(4) same tx_view[OF run(6)] by (elim disjE conjE) simp_all
      moreover have "\<forall>t. sint tc \<le> sint t \<longrightarrow> db_view E t d4 = db_view E t d" using same s4 by simp
      ultimately show ?thesis using start e(1-3,5-7) same by blast
    qed
  qed
qed

end

end
