(* ===== verification/Request_Log.thy ===== *)
theory Request_Log
  imports Transaction
begin

text \<open>
  What one request of \<^verbatim>\<open>db.go\<close> adds to the log: nothing, or the chunks of one batch, all of
  them when it succeeds and perhaps only some when it reports an error of the log. And
  whatever holds of the log through its own operations holds through the requests.
\<close>

section \<open>The operation in a request\<close>

lemma is_write_op:
  assumes "is_write req"
  obtains op where "\<And>d. db_request E x req d = map_option (map_prod RspDone id) (single_write E (batch_id x) (t_commit x) op d)"
    and "\<And>d b. batch_request E x req d b = (case op d b of (r, d, b) \<Rightarrow> (RspDone r, d, b))"
proof (cases req)
  case (ReqPut k v)
  show ?thesis
    by (rule that[of "\<lambda>d b. case batch_Put E k v d b of (r, b) \<Rightarrow> (r, d, b)"]) (simp_all add: ReqPut db_Put_def split: prod.split)
next
  case (ReqPutWithTTL k v ttl)
  show ?thesis
    by (rule that[of "\<lambda>d b. case batch_PutWithTTL E (t_op x) k v ttl d b of (r, b) \<Rightarrow> (r, d, b)"])
      (simp_all add: ReqPutWithTTL db_PutWithTTL_def split: prod.split)
next
  case (ReqDelete k)
  show ?thesis
    by (rule that[of "\<lambda>d b. case batch_Delete E k d b of (r, b) \<Rightarrow> (r, d, b)"]) (simp_all add: ReqDelete db_Delete_def split: prod.split)
next
  case (ReqExpire k ttl)
  show ?thesis
    by (rule that[of "batch_Expire E (t_op x) (t_op2 x) k ttl"]) (simp_all add: ReqExpire db_Expire_def)
next
  case (ReqPersist k)
  show ?thesis
    by (rule that[of "batch_Persist E (t_op x) k"]) (simp_all add: ReqPersist db_Persist_def)
qed (use assms in simp_all)

section \<open>The index of a request\<close>

text \<open>Outside the keys \<open>K\<close> the index may lose entries, and changes none.\<close>

definition index_keeps :: "('t, 'w) env \<Rightarrow> bytes set \<Rightarrow> ('t, 'w) DB \<Rightarrow> ('t, 'w) DB \<Rightarrow> bool" where
  "index_keeps E K d d' \<longleftrightarrow>
     (\<forall>k. k \<notin> K \<longrightarrow> mt_Get (Bt E) (index d') k = None \<or> mt_Get (Bt E) (index d') k = mt_Get (Bt E) (index d) k)"

lemma index_keeps_same: "index d' = index d \<Longrightarrow> index_keeps E K d d'"
  by (simp add: index_keeps_def)

lemma index_keeps_trans: "index_keeps E K d d1 \<Longrightarrow> index_keeps E L d1 d2 \<Longrightarrow> index_keeps E (K \<union> L) d d2"
  unfolding index_keeps_def by (metis UnCI)

lemma index_keeps_index: "index d1 = index d \<Longrightarrow> index d2 = index d' \<Longrightarrow> index_keeps E K d1 d2 = index_keeps E K d d'"
  by (simp add: index_keeps_def)

lemma deferred_unlock_index: "index (fst (snd (deferred_unlock x))) = index (fst (snd x))"
  by (auto simp: deferred_unlock_def batch_unlock_def split: prod.split option.split)

lemma rollback_index: "index (fst (snd (batch_Rollback d b))) = index d"
  by (simp add: batch_Rollback_def deferred_unlock_index rollback_body_def Let_def)

context engine
begin

lemma delete_keeps: "mt_inv bt_inv (index d) \<Longrightarrow> index_keeps E K d (index_Delete E k d)"
  using ix.get_delete by (simp add: index_keeps_def index_Delete_def)

lemma batch_request_keeps:
  "mt_inv bt_inv (index d) \<Longrightarrow> index_keeps E {} d (fst (snd (batch_request E x req d b)))"
  by (cases req) (auto simp: batch_Put_def batch_PutWithTTL_def batch_Delete_def batch_Expire_def batch_Persist_def
      batch_Get_def batch_Exist_def batch_TTL_def Let_def delete_keeps index_keeps_same split: option.split sum.split prod.split)

lemma index_all_keeps:
  "index_all E now opts rs ps mt w = Some (mt', w') \<Longrightarrow> mt_inv bt_inv mt \<Longrightarrow> k \<notin> Key ` set rs \<Longrightarrow> mt_Get (Bt E) mt' k = mt_Get (Bt E) mt k"
proof (induction rs arbitrary: ps mt w)
  case (Cons r rs)
  obtain p ps' where ps: "ps = p # ps'" using Cons.prems(1) by (cases ps) auto
  obtain w1 where r: "index_all E now opts rs ps' (index_write E now r p mt) w1 = Some (mt', w')"
    using Cons.prems(1) by (auto simp: ps Let_def split: option.splits)
  note g = index_write_get[OF Cons.prems(2), of now r p]
  show ?case using Cons.IH[OF r g(1)] g(2)[of k] Cons.prems(3) by simp
qed simp

lemma commit_keeps:
  assumes "mt_inv bt_inv (index d)"
  shows "index_keeps E (Key ` set (batch_records i b)) d (fst (snd (batch_Commit E i now d b)))"
proof -
  have "index_keeps E (Key ` set (batch_records i b)) d (fst (snd (commit_body E i now d b)))"
    using index_all_keeps[OF _ assms]
    by (auto simp: commit_body_def Let_def index_keeps_same index_keeps_def batch_records_def split: option.split sum.split prod.split)
  then show ?thesis by (simp add: batch_Commit_def index_keeps_def deferred_unlock_index)
qed

end

section \<open>The chunks of a request\<close>

context engine
begin

text \<open>How the log and the view of \<open>d'\<close> come from those of \<open>d\<close>; \<open>e\<close> is an error of the log that is returned.\<close>

definition wrote :: "int64 \<Rightarrow> uint64 \<Rightarrow> ('t, 'w) DB \<Rightarrow> ('t, 'w) DB \<Rightarrow> go_error option \<Rightarrow> bool" where
  "wrote now i d d' e \<longleftrightarrow>
     wal_log (Wl E) (dataFiles d') = wal_log (Wl E) (dataFiles d) \<and> e = None
       \<and> (\<forall>t. sint now \<le> sint t \<longrightarrow> db_view E t d' = db_view E t d) \<and> index_keeps E {} d d'
     \<or> (\<exists>b ps. batch_open E b \<and> log_grew E d d' ps (batch_chunks E i b)
          \<and> (case e of
               None \<Rightarrow> length ps = length (batch_chunks E i b)
                 \<and> (\<forall>t. sint now \<le> sint t \<longrightarrow> db_view E t d' = batch_view E t d b)
                 \<and> index_keeps E (Key ` set (batch_records i b)) d d'
             | Some e \<Rightarrow> log_error E w_inv e))"

lemma commit_wrote:
  assumes d: "dinv d1" "\<not> closed d1" "writer (mu d1)" and b: "batch_open E b" "\<not> ReadOnly (batch_options b)"
    and q: "dataFiles d1 = dataFiles d" "\<And>t. sint now \<le> sint t \<Longrightarrow> db_view E t d1 = db_view E t d" and x: "index_keeps E {} d d1"
  obtains r d' b' e where "batch_Commit E i now d1 b = (r, d', b')" and "wrote now i d d' e"
    and "r = (case e of None \<Rightarrow> Ok () | Some e \<Rightarrow> Fail e)"
proof (cases "pendingWrites b = []")
  case True
  then show ?thesis
    using that[OF Commit_empty[OF True d(2) b(2) d(3)], of None] q x by (simp add: wrote_def index_keeps_def)
next
  case False
  have v: "batch_view E t d1 b = batch_view E t d b" if "sint now \<le> sint t" for t
    using q(2)[OF that] by (simp add: batch_view_def fun_eq_iff split: option.split)
  show ?thesis
  proof (rule Commit_cases[OF d(1) b(1) d(2) b(2) False d(3), of i now])
    fix e dd b' ps
    assume a: "batch_Commit E i now d1 b = (Fail e, released dd, b')" "log_grew E d1 dd ps (batch_chunks E i b)" "log_error E w_inv e"
    then have "wrote now i d (released dd) (Some e)"
      using b(1) q(1) unfolding wrote_def by (intro disjI2 exI[of _ b] exI[of _ ps]) (simp add: log_grew_def)
    then show ?thesis using that[OF a(1)] by simp
  next
    fix dd b' ps
    assume a: "batch_Commit E i now d1 b = (Ok (), released dd, b')" "commit_done i now d1 dd b b'"
      "log_grew E d1 dd ps (batch_chunks E i b)" "length ps = length (batch_chunks E i b)"
    have "db_view E t dd = batch_view E t d b" if "sint now \<le> sint t" for t
      using a(2) v[OF that] that by (simp add: commit_done_def)
    moreover have "index_keeps E (Key ` set (batch_records i b)) d (released dd)"
      using index_keeps_trans[OF x commit_keeps[of d1 i b now]] d(1) a(1) by (simp add: db_inv_def)
    ultimately have "wrote now i d (released dd) None"
      using b(1) q(1) a(3,4) unfolding wrote_def by (intro disjI2 exI[of _ b] exI[of _ ps]) (simp add: log_grew_def)
    then show ?thesis using that[OF a(1)] by simp
  qed
qed

lemma single_write_wrote:
  assumes i: "idle d" "\<not> closed d" and op: "op (locked d) write_batch = (r, d1, b)" and q: "quiet now0 (locked d) d1"
    and le: "sint now0 \<le> sint now" and b: "batch_open E b" "same_batch write_batch b" and np: "r \<noteq> Panic" and x: "index_keeps E {} d d1"
  obtains x d' e where "single_write E j now op d = Some (x, d')" and "wrote now j d d' e" and "\<forall>e'. e = Some e' \<longrightarrow> x = Fail e'"
proof -
  have k: "dinv d1" "mu d1 = mu (locked d)" "closed d1 = closed d" "dataFiles d1 = dataFiles d"
    using q same_from_control[of E now0 "locked d" d1] by (simp_all add: quiet_def)
  have v: "db_view E t d1 = db_view E t d" if "sint now \<le> sint t" for t
    using q le that by (simp add: quiet_def same_from_def)
  have ro: "\<not> ReadOnly (batch_options b)" using same_batchD[OF b(2)] by simp
  have wr: "writer (mu d1)" "\<not> closed d1" "\<not> committed b" "\<not> rollbacked b" using k(2,3) i(2) b(1) by (simp_all add: batch_open_def)
  show ?thesis
  proof (cases r)
    case (Ok u)
    obtain r2 d' b' e where c: "batch_Commit E j now d1 b = (r2, d', b')" "wrote now j d d' e" "r2 = (case e of None \<Rightarrow> Ok () | Some e \<Rightarrow> Fail e)"
      by (rule commit_wrote[OF k(1) wr(2,1) b(1) ro k(4) v x])
    show ?thesis by (rule that[of r2 d' e]) (use c Ok op in \<open>simp_all add: single_write_idle[OF i(1)]\<close>)
  next
    case (Fail e)
    obtain b' where rb: "batch_Rollback d1 b = (if closed d1 then Fail ErrDBClosed else Ok (), released d1, b')"
      by (rule Rollback_writer[OF ro wr(1,3,4)])
    show ?thesis
      by (rule that[of "Fail e" "released d1" None]) (use rb Fail op k(4) v x in \<open>simp_all add: single_write_idle[OF i(1)] wrote_def index_keeps_def\<close>)
  qed (use np in simp)
qed

lemma single_read_same:
  assumes d: "dinv d" "idle d" "\<not> closed d" and q: "quiet now (rlocked d) (snd (op (rlocked d) read_batch))"
    and x: "index_keeps E {} (rlocked d) (snd (op (rlocked d) read_batch))" and r: "single_read E op d = Some (x, d')"
  shows "dataFiles d' = dataFiles d \<and> (\<forall>t. sint now \<le> sint t \<longrightarrow> db_view E t d' = db_view E t d) \<and> index_keeps E {} d d'"
proof -
  obtain y d1 where o: "op (rlocked d) read_batch = (y, d1)" by (cases "op (rlocked d) read_batch")
  obtain r2 d2 b2 where c: "batch_Commit E 0 0 d1 read_batch = (r2, d2, b2)" by (cases "batch_Commit E 0 0 d1 read_batch")
  have "batch_records 0 read_batch = []" by (simp add: batch_records_def read_batch_def newBatch_def)
  moreover have "mt_inv bt_inv (index d1)" using q o by (simp add: quiet_def db_inv_def)
  ultimately have "index_keeps E {} d1 d2" using commit_keeps[of d1 0 read_batch 0] c by simp
  moreover have "index_keeps E {} d d1" using x o by (simp add: index_keeps_def rlocked_def)
  ultimately have "index_keeps E {} d d2" "index_keeps E {} d d1" using index_keeps_trans by force+
  then have "index_keeps E {} d d'"
    using r c d(2) by (auto simp: single_read_def init_read idle_def o split: result.splits)
  then show ?thesis
    by (rule_tac single_read_spec[where op = op, OF d q]) (use r in simp)
qed

lemma request_wrote:
  assumes d: "dinv d" "idle d" "\<not> closed d" and f: "req_fits req" and le: "sint (t_op x) \<le> sint (t_commit x)"
    and r: "db_request E x req d = Some (rsp, d')"
  obtains e where "wrote (t_commit x) (batch_id x) d d' e" and "\<forall>e'. e = Some e' \<longrightarrow> rsp = RspDone (Fail e')"
proof -
  have m: "tx_rel E (t_op x) d0 b (db_map E d) {}" if "\<And>k. pending_rec b k = None" "\<And>t. db_view E t d0 = db_view E t d" for d0 b
    using that rep_db_map[OF d(1), of "t_op x"] by (auto simp: tx_rel_def dom_def rep_def)
  show ?thesis
  proof (cases "is_write req")
    case True
    have "tx_ok x req (locked d) write_batch (db_map E d) {}" by (rule tx_request) (use d f m in simp_all)
    then obtain rsp0 d1 b1 M W where t: "batch_request E x req (locked d) write_batch = (rsp0, d1, b1)"
      "tx_step False x req (db_map E d) {} = (rsp0, M, W)"
      "batch_open E b1" "same_batch write_batch b1" "quiet (t_op x) (locked d) d1"
      unfolding tx_ok_def by auto
    show ?thesis
    proof (rule is_write_op[OF True, of E x])
      fix op
      assume o: "\<And>d. db_request E x req d = map_option (map_prod RspDone id) (single_write E (batch_id x) (t_commit x) op d)"
        "\<And>d b. batch_request E x req d b = (case op d b of (r, d, b) \<Rightarrow> (RspDone r, d, b))"
      obtain r1 where r1: "op (locked d) write_batch = (r1, d1, b1)" "rsp0 = RspDone r1" using t(1) o(2) by (auto split: prod.splits)
      have np: "r1 \<noteq> Panic" using t(2) r1(2) True by (cases req) (auto simp: tx_step_def split: if_splits option.splits prod.splits)
      have ik: "index_keeps E {} d d1"
        using batch_request_keeps[of "locked d" x req write_batch] d(1) t(1) by (simp add: index_keeps_def db_inv_def locked_def)
      obtain x2 d2 e where w: "single_write E (batch_id x) (t_commit x) op d = Some (x2, d2)" "wrote (t_commit x) (batch_id x) d d2 e"
        "\<forall>e'. e = Some e' \<longrightarrow> x2 = Fail e'"
        by (rule single_write_wrote[where op = op, OF d(2,3) r1(1) t(5) le t(3,4) np ik, of "batch_id x"])
      have "rsp = RspDone x2" "d' = d2" using r o(1) w(1) by simp_all
      then show ?thesis using that[OF w(2)[folded \<open>d' = d2\<close>]] w(3) by simp
    qed
  next
    case False
    have "tx_ok x req (rlocked d) read_batch (db_map E d) {}" by (rule tx_request) (use d f m in simp_all)
    then obtain rsp0 d1 b1 where t: "batch_request E x req (rlocked d) read_batch = (rsp0, d1, b1)" "quiet (t_op x) (rlocked d) d1"
      unfolding tx_ok_def by blast
    have ik: "index_keeps E {} (rlocked d) d1"
      using batch_request_keeps[of "rlocked d" x req read_batch] d(1) t(1) by (simp add: db_inv_def rlocked_def)
    have "dataFiles d' = dataFiles d \<and> (\<forall>t. sint (t_op x) \<le> sint t \<longrightarrow> db_view E t d' = db_view E t d) \<and> index_keeps E {} d d'"
    proof (cases req)
      case (ReqGet k)
      then have "snd (batch_Get E (t_op x) k (rlocked d) read_batch) = d1"
        using t by (cases "batch_Get E (t_op x) k (rlocked d) read_batch") simp
      from single_read_same[where op = "batch_Get E (t_op x) k", OF d, unfolded this, OF t(2) ik] show ?thesis using r ReqGet by (auto simp: db_Get_def)
    next
      case (ReqExist k)
      then have "snd (batch_Exist E (t_op x) k (rlocked d) read_batch) = d1"
        using t by (cases "batch_Exist E (t_op x) k (rlocked d) read_batch") simp
      from single_read_same[where op = "batch_Exist E (t_op x) k", OF d, unfolded this, OF t(2) ik] show ?thesis using r ReqExist by (auto simp: db_Exist_def)
    next
      case (ReqTTL k)
      then have "snd (batch_TTL E (t_op x) k (rlocked d) read_batch) = d1"
        using t by (cases "batch_TTL E (t_op x) k (rlocked d) read_batch") simp
      from single_read_same[where op = "batch_TTL E (t_op x) k", OF d, unfolded this, OF t(2) ik] show ?thesis using r ReqTTL by (auto simp: db_TTL_def)
    qed (use False in simp_all)
    then have "wrote (t_commit x) (batch_id x) d d' None" using le by (simp add: wrote_def)
    then show ?thesis using that by simp
  qed
qed

end

section \<open>What the operations of the log keep\<close>

definition log_closed :: "('t, 'w) env \<Rightarrow> ('w \<Rightarrow> bool) \<Rightarrow> bool" where
  "log_closed E P \<longleftrightarrow>
     (\<forall>w. P w \<longrightarrow> (\<forall>c. P (w_PendingWrites (Wl E) w c)) \<and> P (snd (w_WriteAll (Wl E) w))
        \<and> P (w_ClearPendingWrites (Wl E) w) \<and> P (snd (w_Sync (Wl E) w)))"

lemma deferred_unlock_files: "dataFiles (fst (snd (deferred_unlock x))) = dataFiles (fst (snd x))"
  by (auto simp: deferred_unlock_def batch_unlock_def split: prod.split option.split)

lemma commit_files:
  assumes c: "log_closed E P" and p: "P (dataFiles d)"
  shows "P (dataFiles (fst (snd (batch_Commit E i now d b))))"
proof -
  have "P w \<Longrightarrow> P (foldl (w_PendingWrites (Wl E)) w cs)" for w cs
    using c by (induction cs arbitrary: w) (simp_all add: log_closed_def)
  then have f: "P (foldl (w_PendingWrites (Wl E)) (dataFiles d) cs)" for cs using p by blast
  have w: "P w'" if "w_WriteAll (Wl E) w = (x, w')" "P w" for w x w' using c that unfolding log_closed_def by (metis snd_conv)
  have s: "P w'" if "w_Sync (Wl E) w = (x, w')" "P w" for w x w' using c that unfolding log_closed_def by (metis snd_conv)
  have cl: "P (w_ClearPendingWrites (Wl E) w)" if "P w" for w using c that by (simp add: log_closed_def)
  have "P (dataFiles (fst (snd (commit_body E i now d b))))"
    using p by (auto simp: commit_body_def Let_def dest!: w[OF _ f] dest: s intro: cl split: option.split sum.split prod.split)
  then show ?thesis by (simp add: batch_Commit_def deferred_unlock_files)
qed

lemma rollback_files: "dataFiles (fst (snd (batch_Rollback d b))) = dataFiles d"
  by (simp add: batch_Rollback_def deferred_unlock_files rollback_body_def Let_def)

lemma batch_request_files: "dataFiles (fst (snd (batch_request E x req d b))) = dataFiles d"
  by (cases req) (auto simp: batch_Put_def batch_PutWithTTL_def batch_Delete_def batch_Expire_def batch_Persist_def
      batch_Get_def batch_Exist_def batch_TTL_def index_Delete_def Let_def split: option.split sum.split prod.split)

lemma batch_init_files: "batch_init ro sync b d = Some (b', d') \<Longrightarrow> dataFiles d' = dataFiles d"
  by (auto simp: batch_init_def batch_lock_def Let_def split: option.splits if_splits)

lemma single_write_files:
  assumes c: "log_closed E P" and p: "P (dataFiles d)" and op: "\<And>d b. dataFiles (fst (snd (op d b))) = dataFiles d"
    and w: "single_write E i now op d = Some (x, d')"
  shows "P (dataFiles d')"
proof -
  obtain b d0 where b: "batch_init False False newBatch d = Some (b, d0)"
    using w by (auto simp: single_write_def split: option.splits)
  obtain r d1 b1 where o: "op d0 b = (r, d1, b1)" by (cases "op d0 b")
  have p1: "P (dataFiles d1)" using op[of d0 b] o batch_init_files[OF b] p by simp
  obtain r2 d2 b2 where cm: "batch_Commit E i now d1 b1 = (r2, d2, b2)" by (cases "batch_Commit E i now d1 b1")
  obtain r3 d3 b3 where rb: "batch_Rollback d1 b1 = (r3, d3, b3)" by (cases "batch_Rollback d1 b1")
  have "d' = (case r of Ok _ \<Rightarrow> d2 | Fail _ \<Rightarrow> d3 | Panic \<Rightarrow> d1)"
    using w by (auto simp: single_write_def b o cm rb split: result.splits)
  then show ?thesis
    using p1 commit_files[OF c p1, of i now b1] rollback_files[of d1 b1] by (auto simp: cm rb split: result.split)
qed

lemma single_read_files:
  assumes c: "log_closed E P" and p: "P (dataFiles d)" and op: "\<And>d b. dataFiles (snd (op d b)) = dataFiles d"
    and w: "single_read E op d = Some (x, d')"
  shows "P (dataFiles d')"
proof -
  obtain b d0 where b: "batch_init True False newBatch d = Some (b, d0)"
    using w by (auto simp: single_read_def split: option.splits)
  obtain r d1 where o: "op d0 b = (r, d1)" by (cases "op d0 b")
  have p1: "P (dataFiles d1)" using op[of d0 b] o batch_init_files[OF b] p by simp
  show ?thesis
    using w commit_files[OF c p1, of 0 0 b] by (auto simp: single_read_def b o split: result.splits prod.splits)
qed

lemma request_files:
  assumes c: "log_closed E P" and p: "P (dataFiles d)" and r: "db_request E x req d = Some (rsp, d')"
  shows "P (dataFiles d')"
proof (cases "is_write req")
  case True
  show ?thesis
  proof (rule is_write_op[OF True, of E x])
    fix op
    assume o: "\<And>d. db_request E x req d = map_option (map_prod RspDone id) (single_write E (batch_id x) (t_commit x) op d)"
      "\<And>d b. batch_request E x req d b = (case op d b of (r, d, b) \<Rightarrow> (RspDone r, d, b))"
    have "dataFiles (fst (snd (op d b))) = dataFiles d" for d b
      using batch_request_files[of E x req d b] o(2)[of d b] by (cases "op d b") simp
    moreover obtain y where "single_write E (batch_id x) (t_commit x) op d = Some (y, d')" using r o(1) by auto
    ultimately show ?thesis using single_write_files[OF c p] by blast
  qed
next
  case False
  show ?thesis
  proof (cases req)
    case (ReqGet k)
    have "dataFiles (snd (batch_Get E (t_op x) k d b)) = dataFiles d" for d :: "('a, 'b) DB" and b
      using batch_request_files[of E x req d b] ReqGet by (cases "batch_Get E (t_op x) k d b") simp
    from single_read_files[OF c p this] show ?thesis using r ReqGet by (auto simp: db_Get_def)
  next
    case (ReqExist k)
    have "dataFiles (snd (batch_Exist E (t_op x) k d b)) = dataFiles d" for d :: "('a, 'b) DB" and b
      using batch_request_files[of E x req d b] ReqExist by (cases "batch_Exist E (t_op x) k d b") simp
    from single_read_files[OF c p this] show ?thesis using r ReqExist by (auto simp: db_Exist_def)
  next
    case (ReqTTL k)
    have "dataFiles (snd (batch_TTL E (t_op x) k d b)) = dataFiles d" for d :: "('a, 'b) DB" and b
      using batch_request_files[of E x req d b] ReqTTL by (cases "batch_TTL E (t_op x) k d b") simp
    from single_read_files[OF c p this] show ?thesis using r ReqTTL by (auto simp: db_TTL_def)
  qed (use False in simp_all)
qed

lemma run_files:
  assumes "log_closed E P"
  shows "P (dataFiles d) \<Longrightarrow> db_run E xs d = Some (rsps, d') \<Longrightarrow> P (dataFiles d')"
proof (induction xs arbitrary: d rsps)
  case (Cons a xs)
  obtain x req where a: "a = (x, req)" by (cases a)
  obtain rsp d1 rsps1 where "db_request E x req d = Some (rsp, d1)" "db_run E xs d1 = Some (rsps1, d')"
    using Cons.prems(2) by (auto simp: a split: option.splits prod.splits)
  then show ?case using Cons.IH request_files[OF assms Cons.prems(1)] by blast
qed simp

end
