(* ===== verification/Commit_Seen.thy ===== *)
theory Commit_Seen
  imports Iterator Request_Log
begin

text \<open>
  What can be seen of a batch while \<open>Commit\<close> in \<^verbatim>\<open>batch.go\<close> runs. The batch holds \<open>db.mu\<close>,
  so the operations that take this lock wait. \<open>NewIterator\<close> in \<^verbatim>\<open>iterator.go\<close> does not take it:
  it clones the index under the lock of the index alone, between two rounds of the loop of
  \<open>Commit\<close> that writes the index, and so it can see a part of the batch.
\<close>

section \<open>The database in the middle of Commit\<close>

text \<open>
  The log is written and the loop over the index has done \<open>n\<close> of its rounds; \<open>None\<close> when
  \<open>Commit\<close> does not get there.
\<close>

definition commit_during ::
    "('t, 'w) env \<Rightarrow> uint64 \<Rightarrow> int64 \<Rightarrow> nat \<Rightarrow> ('t, 'w) DB \<Rightarrow> Batch \<Rightarrow> ('t, 'w) DB option" where
  "commit_during E batchId now n d b =
     (if closed d \<or> ReadOnly (batch_options b) \<or> length (pendingWrites b) = 0 \<or> committed b \<or> rollbacked b then None
      else let records = map (\<lambda>r. r\<lparr>BatchId := batchId\<rparr>) (pendingWrites b)
      in case encode_all (records @ [end_record E batchId]) of
           None \<Rightarrow> None
         | Some chunks \<Rightarrow>
            (case w_WriteAll (Wl E) (foldl (w_PendingWrites (Wl E)) (dataFiles d) chunks) of
               (Inl e, w) \<Rightarrow> None
             | (Inr chunkPositions, w) \<Rightarrow>
                 if length chunkPositions \<noteq> length records + 1 then None
                 else
                   (case (if BatchSync (batch_options b) \<and> \<not> Sync (options d)
                          then w_Sync (Wl E) w else (None, w)) of
                      (Some e, w) \<Rightarrow> None
                    | (None, w) \<Rightarrow>
                        (case index_all E now (options d) (take n records) chunkPositions (index d) (db_watcher d) of
                           None \<Rightarrow> None
                         | Some (mt, wat) \<Rightarrow> Some (d\<lparr>dataFiles := w, index := mt, db_watcher := wat\<rparr>)))))"

text \<open>After all the rounds it is the database that \<open>Commit\<close> leaves.\<close>

lemma commit_during_end:
  assumes "commit_body E i now d b = (Ok (), d', b')" and "pendingWrites b \<noteq> []" and "\<not> ReadOnly (batch_options b)"
    and "length (pendingWrites b) \<le> n"
  shows "commit_during E i now n d b = Some d'"
  using assms by (auto simp: commit_body_def commit_during_def Let_def split: if_splits option.splits sum.splits prod.splits)

lemma index_all_append:
  "index_all E now opts (rs @ rs') ps mt w = Some (mt', w')
   \<Longrightarrow> \<exists>mt1 w1. index_all E now opts rs ps mt w = Some (mt1, w1)
         \<and> index_all E now opts rs' (drop (length rs) ps) mt1 w1 = Some (mt', w')"
proof (induction rs arbitrary: ps mt w)
  case (Cons r rs)
  then show ?case by (cases ps) (auto simp: Let_def split: option.splits)
qed auto

lemma commit_during_part:
  assumes "commit_body E i now d b = (Ok (), d', b')" and "pendingWrites b \<noteq> []" and "\<not> ReadOnly (batch_options b)"
  obtains mt w ps where "commit_during E i now n d b = Some (d'\<lparr>index := mt, db_watcher := w\<rparr>)"
    and "index_all E now (options d) (take n (batch_records i b)) ps (index d) (db_watcher d) = Some (mt, w)"
    and "index_all E now (options d) (drop n (batch_records i b)) (drop (length (take n (batch_records i b))) ps) mt w
           = Some (index d', db_watcher d')"
proof -
  have "\<exists>ps. d' = d\<lparr>dataFiles := dataFiles d', index := index d', db_watcher := db_watcher d'\<rparr>
      \<and> index_all E now (options d) (batch_records i b) ps (index d) (db_watcher d) = Some (index d', db_watcher d')
      \<and> (\<forall>mt w. index_all E now (options d) (take n (batch_records i b)) ps (index d) (db_watcher d) = Some (mt, w)
            \<longrightarrow> commit_during E i now n d b = Some (d\<lparr>dataFiles := dataFiles d', index := mt, db_watcher := w\<rparr>))"
    using assms by (auto simp: commit_body_def commit_during_def batch_records_def Let_def
        split: if_splits option.splits sum.splits prod.splits)
  then obtain ps where d': "d' = d\<lparr>dataFiles := dataFiles d', index := index d', db_watcher := db_watcher d'\<rparr>"
    and a: "index_all E now (options d) (batch_records i b) ps (index d) (db_watcher d) = Some (index d', db_watcher d')"
    and c: "\<And>mt w. index_all E now (options d) (take n (batch_records i b)) ps (index d) (db_watcher d) = Some (mt, w)
        \<Longrightarrow> commit_during E i now n d b = Some (d\<lparr>dataFiles := dataFiles d', index := mt, db_watcher := w\<rparr>)"
    by (elim exE conjE) metis
  from index_all_append[of E now "options d" "take n (batch_records i b)" "drop n (batch_records i b)"] a
  obtain mt w where s: "index_all E now (options d) (take n (batch_records i b)) ps (index d) (db_watcher d) = Some (mt, w)"
    "index_all E now (options d) (drop n (batch_records i b)) (drop (length (take n (batch_records i b))) ps) mt w
           = Some (index d', db_watcher d')" by fastforce
  have "d\<lparr>dataFiles := dataFiles d', index := mt, db_watcher := w\<rparr> = d'\<lparr>index := mt, db_watcher := w\<rparr>"
    by (subst d') simp
  then show thesis using that[OF _ s] c[OF s(1)] by simp
qed

context engine
begin

lemma index_all_inv:
  "index_all E now opts rs ps mt w = Some (mt', w') \<Longrightarrow> mt_inv bt_inv mt \<Longrightarrow> mt_inv bt_inv mt'"
proof (induction rs arbitrary: ps mt w)
  case (Cons r rs)
  obtain p ps' where ps: "ps = p # ps'" using Cons.prems(1) by (cases ps) auto
  obtain w1 where r: "index_all E now opts rs ps' (index_write E now r p mt) w1 = Some (mt', w')"
    using Cons.prems(1) by (auto simp: ps Let_def split: option.splits)
  show ?case by (rule Cons.IH[OF r index_write_get(1)[OF Cons.prems(2)]])
qed simp

text \<open>In the middle, the keys of the first \<open>n\<close> records are those of the end, the others those of the start.\<close>

lemma commit_seen:
  assumes d: "dinv d" and b: "batch_open E b" and c: "\<not> closed d" "\<not> ReadOnly (batch_options b)"
    and ne: "pendingWrites b \<noteq> []" and run: "commit_body E i now d b = (Ok (), d', b')"
  shows "\<exists>d1. commit_during E i now n d b = Some d1
     \<and> (\<forall>t k. db_view E t d1 k
          = (if k \<in> Key ` set (take n (pendingWrites b)) then db_view E t d' k else db_view E t d k))"
proof -
  obtain ps where e: "dinv d'" "log_grew E d d' ps (batch_chunks E i b)"
    by (rule commit_cases[OF d b c ne, of i now]) (use run in \<open>auto simp: commit_done_def\<close>)
  let ?rs = "batch_records i b"
  obtain mt w qs where p: "commit_during E i now n d b = Some (d'\<lparr>index := mt, db_watcher := w\<rparr>)"
    "index_all E now (options d) (take n ?rs) qs (index d) (db_watcher d) = Some (mt, w)"
    "index_all E now (options d) (drop n ?rs) (drop (length (take n ?rs)) qs) mt w = Some (index d', db_watcher d')"
    by (rule commit_during_part[OF run ne c(2)])
  have di: "mt_inv bt_inv (index d)" using d by (simp add: db_inv_def)
  have keys: "Key ` set (take n ?rs) = Key ` set (take n (pendingWrites b))"
    by (simp add: batch_records_def take_map image_image)
  have apart: "Key ` set (take n ?rs) \<inter> Key ` set (drop n ?rs) = {}"
  proof -
    have "distinct (map Key (take n ?rs) @ map Key (drop n ?rs))"
      using batch_records_open(1)[OF b, of i] by (metis append_take_drop_id map_append)
    then show ?thesis by simp
  qed
  have w': "w_inv (dataFiles d')" "pend (dataFiles d') = []" using e(1) by (simp_all add: db_inv_def)
  have old: "db_view E t (d\<lparr>dataFiles := dataFiles d'\<rparr>) = db_view E t d" for t
    using grown_log(3)[OF d w'] e(2) by (auto simp: log_grew_def)
  have "db_view E t (d'\<lparr>index := mt, db_watcher := w\<rparr>) k
      = (if k \<in> Key ` set (take n (pendingWrites b)) then db_view E t d' k else db_view E t d k)" for t k
  proof (cases "k \<in> Key ` set (take n ?rs)")
    case True
    then have "k \<notin> Key ` set (drop n ?rs)" using apart by blast
    then have "mt_Get (Bt E) (index d') k = mt_Get (Bt E) mt k" by (rule index_all_keeps[OF p(3) index_all_inv[OF p(2) di]])
    then show ?thesis using True keys by (simp add: db_view_def stored_rec_def cong: option.case_cong)
  next
    case False
    then have "mt_Get (Bt E) mt k = mt_Get (Bt E) (index d) k" by (rule index_all_keeps[OF p(2) di])
    then show ?thesis using False keys fun_cong[OF old[of t], of k] by (simp add: db_view_def stored_rec_def cong: option.case_cong)
  qed
  then show ?thesis using p(1) by blast
qed

end

section \<open>An iterator that sees half a batch\<close>

text \<open>
  A batch puts the keys \<open>1\<close> and \<open>2\<close>. An iterator created after the first round of the loop
  gives the new key \<open>1\<close> and will never give \<open>2\<close>; all this time the batch holds the lock of
  the database exclusively.
\<close>

definition two_puts :: "(ticket \<times> request) list" where
  "two_puts =
    (let x = \<lparr>batch_id = 0, t_op = 1, t_op2 = 1, t_commit = 1\<rparr> in [(x, ReqPut [1] [65]), (x, ReqPut [2] [66])])"

definition all_pairs :: IteratorOptions where
  "all_pairs = \<lparr>Prefix = [], Reverse = False, ContinueOnError = False\<rparr>"

lemma iterator_sees_half_a_commit:
  "case NewBatch \<lparr>BatchSync = False, ReadOnly = False\<rparr> ref_db of None \<Rightarrow> False | Some (b, d) \<Rightarrow>
     (case batch_run ref_env two_puts d b of (rsps, d, b) \<Rightarrow>
        (case commit_during ref_env 7 2 1 d b of None \<Rightarrow> False | Some d1 \<Rightarrow>
           writer (mu d1)
           \<and> (case NewIterator ref_env (\<lambda>k. 3) all_pairs d1 of
                Some (Some it) \<Rightarrow> drain ref_env (\<lambda>k. 3) [[]] d1 it = Some [\<lparr>Item_Key = [1], Item_Value = [65]\<rparr>]
              | _ \<Rightarrow> False)
           \<and> (case batch_Commit ref_env 7 2 d b of (r, d2, b2) \<Rightarrow>
                r = Ok ()
                \<and> (case NewIterator ref_env (\<lambda>k. 3) all_pairs d2 of
                     Some (Some it) \<Rightarrow> drain ref_env (\<lambda>k. 3) [[], []] d2 it
                        = Some [\<lparr>Item_Key = [1], Item_Value = [65]\<rparr>, \<lparr>Item_Key = [2], Item_Value = [66]\<rparr>]
                   | _ \<Rightarrow> False))))"
  by code_simp

section \<open>A batch over its own map\<close>

lemma commit_during_Ok:
  assumes "commit_during E i now n d b = Some d1"
  shows "\<not> closed d" and "\<not> ReadOnly (batch_options b)" and "pendingWrites b \<noteq> []" and "commit_body E i now d b \<noteq> (Fail e, d', b')"
  using assms by (auto simp: commit_body_def commit_during_def Let_def split: if_splits option.splits sum.splits prod.splits)

context engine
begin

lemma middle_of_commit:
  assumes d: "dinv d2" and b: "batch_open E b2" and w: "writer (mu d2)" and m: "commit_during E j tc n d2 b2 = Some dn"
    and c: "batch_Commit E j tc d2 b2 = (r, d3, b3)"
  shows "r = Ok ()"
    and "db_view E t dn k = (if k \<in> Key ` set (take n (pendingWrites b2)) then db_view E t d3 k else db_view E t d2 k)"
proof -
  note g = commit_during_Ok[OF m]
  obtain d' b' where run: "commit_body E j tc d2 b2 = (Ok (), d', b')" and cd: "commit_done j tc d2 d' b2 b'"
    by (rule commit_cases[OF d b g(1,2,3), of j tc]) (use g(4) in auto)
  have "writer (mu d')" "\<not> ReadOnly (batch_options b')"
    using cd w g(2) same_controlD(1)[of d2 d'] by (simp_all add: commit_done_def)
  then have c': "batch_Commit E j tc d2 b2 = (Ok (), released d', b')"
    using run by (simp add: batch_Commit_def deferred_unlock_writer)
  then show "r = Ok ()" using c by simp
  show "db_view E t dn k = (if k \<in> Key ` set (take n (pendingWrites b2)) then db_view E t d3 k else db_view E t d2 k)"
    using commit_seen[OF d b g(1,2,3) run, of n] m c c' by auto
qed

lemma batch_run_to_end:
  assumes d: "dinv d" "idle d" "\<not> closed d" and c: "tx_clock now xs tc" and f: "\<forall>(x, req) \<in> set xs. req_fits req"
  shows "\<exists>b d1 rsps d2 b2 M W r d3 b3 d4 b4.
     NewBatch opts d = Some (b, d1) \<and> batch_run E xs d1 b = (rsps, d2, b2)
     \<and> tx_run (ReadOnly opts) xs (db_map E d) {} = (rsps, M, W)
     \<and> (\<forall>t. sint tc \<le> sint t \<longrightarrow> db_view E t d2 = db_view E t d)
     \<and> (\<forall>n dn t k. commit_during E j tc n d2 b2 = Some dn \<longrightarrow> sint tc \<le> sint t \<longrightarrow>
          db_view E t dn k = (if k \<in> Key ` set (take n (pendingWrites b2)) then kv_at t M k else db_view E t d k))
     \<and> batch_Commit E j tc d2 b2 = (r, d3, b3) \<and> dinv d3 \<and> idle d3
     \<and> (r = Ok () \<and> (\<forall>t. sint tc \<le> sint t \<longrightarrow> db_view E t d3 = kv_at t M)
        \<or> (\<exists>e. r = Fail e \<and> log_error E w_inv e) \<and> (\<forall>t. sint tc \<le> sint t \<longrightarrow> db_view E t d3 = db_view E t d))
     \<and> batch_Rollback d2 b2 = (Ok (), d4, b4) \<and> dinv d4 \<and> idle d4
     \<and> (\<forall>t. sint tc \<le> sint t \<longrightarrow> db_view E t d4 = db_view E t d)"
proof -
  from transaction[OF assms, of opts j] obtain b d1 rsps d2 b2 M W r d3 b3 d4 b4 where
    start: "NewBatch opts d = Some (b, d1)" "batch_run E xs d1 b = (rsps, d2, b2)"
      "tx_run (ReadOnly opts) xs (db_map E d) {} = (rsps, M, W)"
    and o: "dinv d2" "\<not> closed d2" "batch_open E b2" "batch_options b2 = opts" "\<not> ReadOnly opts \<longrightarrow> writer (mu d2)"
    and v: "\<forall>t. sint tc \<le> sint t \<longrightarrow> db_view E t d2 = db_view E t d"
    and e: "batch_Commit E j tc d2 b2 = (r, d3, b3)" "dinv d3" "idle d3"
      "r = Ok () \<and> (\<forall>t. sint tc \<le> sint t \<longrightarrow> db_view E t d3 = kv_at t M)
        \<or> (\<exists>e. r = Fail e \<and> log_error E w_inv e) \<and> (\<forall>t. sint tc \<le> sint t \<longrightarrow> db_view E t d3 = db_view E t d)"
      "batch_Rollback d2 b2 = (Ok (), d4, b4)" "dinv d4" "idle d4"
      "\<forall>t. sint tc \<le> sint t \<longrightarrow> db_view E t d4 = db_view E t d"
    by (elim exE conjE)
  have "\<forall>n dn t k. commit_during E j tc n d2 b2 = Some dn \<longrightarrow> sint tc \<le> sint t \<longrightarrow>
          db_view E t dn k = (if k \<in> Key ` set (take n (pendingWrites b2)) then kv_at t M k else db_view E t d k)"
  proof (intro allI impI)
    fix n dn k and t :: int64
    assume m: "commit_during E j tc n d2 b2 = Some dn" and t: "sint tc \<le> sint t"
    have w: "writer (mu d2)" using commit_during_Ok(2)[OF m] o by simp
    note s = middle_of_commit[OF o(1,3) w m e(1)]
    have "db_view E t d3 = kv_at t M" using s(1) e(4) t by simp
    then show "db_view E t dn k = (if k \<in> Key ` set (take n (pendingWrites b2)) then kv_at t M k else db_view E t d k)"
      using s(2)[of t k] v t by simp
  qed
  then show ?thesis using start v e by blast
qed

end

section \<open>Properties\<close>

text \<open>
  Property C3. A batch works on the map of the database with its own writes on top. On an
  open, unlocked database take any options, and any operations in the order of the clock.
  \<open>NewBatch\<close> gets the lock. The operations, errors included, answer as the specification over
  that map does, where each sees the writes of the batch before it; a read-only batch refuses
  writes; \<open>TTL\<close> of a key that the batch has deleted is \<open>-1\<close> without an error, as in the code.
  The contents of the database are the old ones until \<open>Commit\<close> is called. In the middle of
  \<open>Commit\<close>, after \<open>n\<close> rounds of the loop over the index, the keys of the first \<open>n\<close> records have
  their new values and all others their old ones: what takes \<open>db.mu\<close> waits, but
  \<open>NewIterator\<close> does not take it and sees this mixture (Lemma \<open>iterator_sees_half_a_commit\<close>),
  so isolation is not claimed, as the comment on \<open>Batch\<close> says. \<open>Commit\<close> then makes the database
  the map of the specification, or returns an error of the log and changes nothing;
  \<open>Rollback\<close> changes nothing. Both keep the database well-formed and release the lock.
\<close>

theorem batch_over_its_own_map:
  assumes "engine E bt_inv w_inv pend" and "db_inv E bt_inv w_inv pend d" and "idle d" and "\<not> closed d"
    and "tx_clock now xs tc" and "\<forall>(x, req) \<in> set xs. req_fits req"
  shows "\<exists>b d1 rsps d2 b2 M W r d3 b3 d4 b4.
     NewBatch opts d = Some (b, d1) \<and> batch_run E xs d1 b = (rsps, d2, b2)
     \<and> tx_run (ReadOnly opts) xs (db_map E d) {} = (rsps, M, W)
     \<and> (\<forall>t. sint tc \<le> sint t \<longrightarrow> db_view E t d2 = db_view E t d)
     \<and> (\<forall>n dn t k. commit_during E j tc n d2 b2 = Some dn \<longrightarrow> sint tc \<le> sint t \<longrightarrow>
          db_view E t dn k = (if k \<in> Key ` set (take n (pendingWrites b2)) then kv_at t M k else db_view E t d k))
     \<and> batch_Commit E j tc d2 b2 = (r, d3, b3) \<and> db_inv E bt_inv w_inv pend d3 \<and> idle d3
     \<and> (r = Ok () \<and> (\<forall>t. sint tc \<le> sint t \<longrightarrow> db_view E t d3 = kv_at t M)
        \<or> (\<exists>e. r = Fail e \<and> log_error E w_inv e) \<and> (\<forall>t. sint tc \<le> sint t \<longrightarrow> db_view E t d3 = db_view E t d))
     \<and> batch_Rollback d2 b2 = (Ok (), d4, b4) \<and> db_inv E bt_inv w_inv pend d4 \<and> idle d4
     \<and> (\<forall>t. sint tc \<le> sint t \<longrightarrow> db_view E t d4 = db_view E t d)"
  by (rule engine.batch_run_to_end[OF assms])

text \<open>Two keys, one deleted again and one with an expiry time that is taken away.\<close>

definition batch_ops :: "(ticket \<times> request) list" where
  "batch_ops =
    (let x = \<lambda>t. \<lparr>batch_id = 0, t_op = t, t_op2 = t, t_commit = t\<rparr> in
     [(x 1, ReqPut [1] [65]), (x 2, ReqPutWithTTL [2] [66] 2), (x 3, ReqGet [1]), (x 4, ReqGet [2]),
      (x 4, ReqDelete [1]), (x 4, ReqTTL [1]), (x 4, ReqPut [1] [67]), (x 5, ReqExpire [1] 9), (x 6, ReqPersist [1]),
      (x 6, ReqPut [] [68])])"

theorem batch_over_its_own_map_witness:
  "\<exists>b d1 d2 b2 d3 b3. NewBatch \<lparr>BatchSync = True, ReadOnly = False\<rparr> ref_db = Some (b, d1)
     \<and> batch_run ref_env batch_ops d1 b =
        ([RspDone (Ok ()), RspDone (Ok ()), RspValue (Ok [65]), RspValue (Fail ErrKeyNotFound), RspDone (Ok ()),
          RspTTL (Ok (- 1)), RspDone (Ok ()), RspDone (Ok ()), RspDone (Ok ()), RspDone (Fail ErrKeyIsEmpty)], d2, b2)
     \<and> batch_Commit ref_env 7 6 d2 b2 = (Ok (), d3, b3) \<and> db_view ref_env 99 d3 = [[1] \<mapsto> ([67], 0)]"
proof -
  have i: "idle ref_db" "\<not> closed ref_db" by code_simp+
  have xs: "tx_clock 0 batch_ops 6" "\<forall>(x, req) \<in> set batch_ops. req_fits req"
    by (simp_all add: batch_ops_def value_fits_def maxLogRecordHeaderSize_def)
  let ?o = "\<lparr>BatchSync = True, ReadOnly = False\<rparr>"
  from batch_over_its_own_map[OF ref.engine_axioms ref_db_inv i xs, where opts = ?o and j = 7]
  obtain b d1 rsps d2 b2 M W r d3 b3 where t: "NewBatch ?o ref_db = Some (b, d1)" "batch_run ref_env batch_ops d1 b = (rsps, d2, b2)"
    "tx_run False batch_ops (db_map ref_env ref_db) {} = (rsps, M, W)" "batch_Commit ref_env 7 6 d2 b2 = (r, d3, b3)"
    "r = Ok () \<Longrightarrow> db_view ref_env 99 d3 = kv_at 99 M"
    by fastforce
  have e: "case NewBatch ?o ref_db of None \<Rightarrow> False | Some (b, d1) \<Rightarrow>
      (case batch_run ref_env batch_ops d1 b of (rsps, d2, b2) \<Rightarrow>
         rsps = [RspDone (Ok ()), RspDone (Ok ()), RspValue (Ok [65]), RspValue (Fail ErrKeyNotFound), RspDone (Ok ()),
          RspTTL (Ok (- 1)), RspDone (Ok ()), RspDone (Ok ()), RspDone (Ok ()), RspDone (Fail ErrKeyIsEmpty)]
         \<and> fst (batch_Commit ref_env 7 6 d2 b2) = Ok ())"
    by code_simp
  have m: "db_map ref_env ref_db = Map.empty" by (rule ext) code_simp
  have "fst (snd (tx_run False batch_ops Map.empty {})) = [[1] \<mapsto> ([67], 0), [2] \<mapsto> ([66], 4)]"
    by (simp add: batch_ops_def tx_step_def kv_at_entry entry_at_def pending_ttl_def kv_step_def fun_upd_twist)
  then have "M = [[1] \<mapsto> ([67], 0), [2] \<mapsto> ([66], 4)]" using t(3) m by simp
  moreover have "entry_at 99 [66] 4 = None" by code_simp
  ultimately have "kv_at 99 M = [[1] \<mapsto> ([67], 0)]" by (auto simp: kv_at_entry fun_eq_iff)
  then show ?thesis using t e by auto
qed

end
