(* ===== verification/Http.thy ===== *)
theory Http
  imports Prelude
begin

text \<open>
  What the HTTP programs use of Go's \<open>net/http\<close> and \<open>net/url\<close>: requests with their
  form values, the query syntax (\<open>url.ParseQuery\<close>, \<open>url.Values.Encode\<close>) and replies.
  Encoding a form and parsing it gives the form back.
\<close>

unbundle bit_operations_syntax

section \<open>Text\<close>

definition str :: "string \<Rightarrow> bytes" where
  "str s = map of_char s"

text \<open>\<open>strings.Cut\<close> at a one byte separator: before, after, found.\<close>

fun cut :: "byte \<Rightarrow> bytes \<Rightarrow> bytes \<times> bytes" where
  "cut sep [] = ([], [])"
| "cut sep (c # cs) = (if c = sep then ([], cs) else (case cut sep cs of (a, b) \<Rightarrow> (c # a, b)))"

lemma cut_length: "length (snd (cut sep cs)) \<le> length cs - 1"
  by (induction cs) (auto split: prod.split)

lemma cut_shorter: "q \<noteq> [] \<Longrightarrow> (seg, rest) = cut sep q \<Longrightarrow> length rest < length q"
  using cut_length[of sep q] by (cases q) (auto simp: less_Suc_eq_le dest: sym)

lemma cut_append [simp]: "sep \<notin> set a \<Longrightarrow> cut sep (a @ sep # b) = (a, b)"
  by (induction a) auto

lemma cut_none: "sep \<notin> set a \<Longrightarrow> cut sep a = (a, [])"
  by (induction a) auto

section \<open>Escaping\<close>

definition ishex :: "byte \<Rightarrow> bool" where
  "ishex c \<longleftrightarrow> 48 \<le> c \<and> c \<le> 57 \<or> 97 \<le> c \<and> c \<le> 102 \<or> 65 \<le> c \<and> c \<le> 70"

definition unhex :: "byte \<Rightarrow> byte" where
  "unhex c = (if 48 \<le> c \<and> c \<le> 57 then c - 48 else if 97 \<le> c \<and> c \<le> 102 then c - 97 + 10 else c - 65 + 10)"

text \<open>\<open>url.QueryUnescape\<close>, \<open>None\<close> for its error.\<close>

fun QueryUnescape :: "bytes \<Rightarrow> bytes option" where
  "QueryUnescape [] = Some []"
| "QueryUnescape (c # cs) =
     (if c = 37
      then (case cs of
              a # b # cs' \<Rightarrow>
                if ishex a \<and> ishex b
                then map_option ((#) (push_bit 4 (unhex a) OR unhex b)) (QueryUnescape cs')
                else None
            | _ \<Rightarrow> None)
      else map_option ((#) (if c = 43 then 32 else c)) (QueryUnescape cs))"

text \<open>\<open>shouldEscape\<close> in a query component: all but letters, digits and four marks.\<close>

definition unreserved :: "byte \<Rightarrow> bool" where
  "unreserved c \<longleftrightarrow> 97 \<le> c \<and> c \<le> 122 \<or> 65 \<le> c \<and> c \<le> 90 \<or> 48 \<le> c \<and> c \<le> 57 \<or> c \<in> {45, 95, 46, 126}"

definition upperhex :: "byte \<Rightarrow> byte" where
  "upperhex n = (if n < 10 then 48 + n else 55 + n)"

definition escape_byte :: "byte \<Rightarrow> bytes" where
  "escape_byte c =
     (if unreserved c then [c] else if c = 32 then [43]
      else [37, upperhex (drop_bit 4 c), upperhex (c AND 15)])"

definition QueryEscape :: "bytes \<Rightarrow> bytes" where
  "QueryEscape s = concat (map escape_byte s)"

text \<open>Half bytes.\<close>

lemma nibble_cases:
  fixes n :: byte
  assumes "n < 16"
  shows "n \<in> {0, 1, 2, 3, 4, 5, 6, 7, 8, 9, 10, 11, 12, 13, 14, 15}"
proof -
  have "unat n < 16" using assms by (simp add: word_less_nat_alt)
  then have "unat n \<in> {0, 1, 2, 3, 4, 5, 6, 7, 8, 9, 10, 11, 12, 13, 14, 15}"
    unfolding insert_iff empty_iff by presburger
  then have "of_nat (unat n) \<in> (of_nat ` {0, 1, 2, 3, 4, 5, 6, 7, 8, 9, 10, 11, 12, 13, 14, 15} :: byte set)"
    by (rule imageI)
  then show ?thesis by simp
qed

lemma hex_digit:
  fixes n :: byte
  assumes "n < 16"
  shows "ishex (upperhex n)" and "unhex (upperhex n) = n"
  using nibble_cases[OF assms] by (auto simp: ishex_def unhex_def upperhex_def)

lemma high_nibble: "drop_bit 4 (c :: byte) < 16"
proof -
  have "unat c < 256" using unsigned_less[of c] by simp
  then show ?thesis by (simp add: word_less_nat_alt unat_drop_bit_eq drop_bit_nat_def less_mult_imp_div_less)
qed

lemma low_nibble: "(c :: byte) AND 15 < 16"
proof -
  have "c AND 15 \<le> 15" by (rule word_and_le1)
  then show ?thesis by (simp add: word_le_nat_alt word_less_nat_alt)
qed

lemma join_nibbles: "push_bit 4 (drop_bit 4 (c :: byte)) OR (c AND 15) = c"
proof -
  have m: "(15 :: byte) = mask 4" by (simp add: mask_eq_exp_minus_1)
  show ?thesis
    unfolding m by (rule bit_word_eqI) (auto simp: bit_simps not_le)
qed

lemma escape_hex:
  fixes c :: byte
  shows "ishex (upperhex (drop_bit 4 c))" and "ishex (upperhex (c AND 15))"
    and "push_bit 4 (unhex (upperhex (drop_bit 4 c))) OR unhex (upperhex (c AND 15)) = c"
  by (simp_all add: hex_digit[OF high_nibble] hex_digit[OF low_nibble] join_nibbles)

lemma unescape_byte: "QueryUnescape (escape_byte c @ cs) = map_option ((#) c) (QueryUnescape cs)"
proof (cases "unreserved c \<or> c = 32")
  case True
  then have "c \<noteq> 37" "c \<noteq> 43" by (auto simp: unreserved_def)
  then show ?thesis using True by (auto simp: escape_byte_def)
next
  case False
  then show ?thesis by (simp add: escape_byte_def escape_hex)
qed

lemma unescape_escape [codec_simps]: "QueryUnescape (QueryEscape s) = Some s"
  by (induction s) (simp_all add: QueryEscape_def unescape_byte)

lemma hex_mark: "n < 16 \<Longrightarrow> upperhex n \<noteq> 38 \<and> upperhex n \<noteq> 59 \<and> upperhex n \<noteq> 61"
  using nibble_cases[of n] by (auto simp: upperhex_def)

text \<open>None of the marks \<open>&\<close>, \<open>;\<close> and \<open>=\<close> is left.\<close>

lemma escape_marks: "c \<in> set (QueryEscape s) \<Longrightarrow> c \<noteq> 38 \<and> c \<noteq> 59 \<and> c \<noteq> 61"
proof -
  have "c \<noteq> 38 \<and> c \<noteq> 59 \<and> c \<noteq> 61" if "c \<in> set (escape_byte a)" for a
    using that hex_mark[OF high_nibble, of a] hex_mark[OF low_nibble, of a]
    by (auto simp: escape_byte_def unreserved_def split: if_splits)
  then show "c \<in> set (QueryEscape s) \<Longrightarrow> c \<noteq> 38 \<and> c \<noteq> 59 \<and> c \<noteq> 61" by (auto simp: QueryEscape_def)
qed

section \<open>Queries\<close>

text \<open>The values in the order of the query; Go's map keeps this order for each key.\<close>

type_synonym form_values = "(bytes \<times> bytes) list"

definition parse_pair :: "bytes \<Rightarrow> form_values" where
  "parse_pair seg =
     (if 59 \<in> set seg then []
      else if seg = [] then []
      else case cut 61 seg of
             (k, v) \<Rightarrow> (case (QueryUnescape k, QueryUnescape v) of
                          (Some k', Some v') \<Rightarrow> [(k', v')] | _ \<Rightarrow> []))"

text \<open>\<open>url.ParseQuery\<close>; the pairs it cannot read are left out, as its callers ignore the error.\<close>

function ParseQuery :: "bytes \<Rightarrow> form_values" where
  "ParseQuery query =
     (if query = [] then [] else (case cut 38 query of (seg, rest) \<Rightarrow> parse_pair seg @ ParseQuery rest))"
  by pat_completeness auto
termination
  by (relation "measure length") (simp_all add: cut_shorter)

declare ParseQuery.simps [simp del]

definition encode_pair :: "bytes \<times> bytes \<Rightarrow> bytes" where
  "encode_pair x = QueryEscape (fst x) @ 61 # QueryEscape (snd x)"

fun join_pairs :: "bytes list \<Rightarrow> bytes" where
  "join_pairs [] = []"
| "join_pairs [x] = x"
| "join_pairs (x # y # xs) = x @ 38 # join_pairs (y # xs)"

text \<open>\<open>url.Values.Encode\<close>: sorted by key, the values of a key in their order.\<close>

definition Encode :: "form_values \<Rightarrow> bytes" where
  "Encode v = join_pairs (map encode_pair (sort_key fst v))"

lemma parse_encoded_pair: "parse_pair (encode_pair x) = [x]"
proof -
  have "61 \<notin> set (QueryEscape (fst x))" "59 \<notin> set (encode_pair x)"
    using escape_marks by (auto simp: encode_pair_def)
  then show ?thesis by (simp add: parse_pair_def encode_pair_def codec_simps)
qed

lemma parse_join: "ParseQuery (join_pairs (map encode_pair xs)) = xs"
proof (induction xs rule: induct_list012)
  case 1
  show ?case by (simp add: ParseQuery.simps)
next
  case (2 x)
  have "38 \<notin> set (encode_pair x)" using escape_marks by (auto simp: encode_pair_def)
  moreover have "encode_pair x \<noteq> []" by (simp add: encode_pair_def)
  ultimately show ?case
    by (subst ParseQuery.simps) (simp add: cut_none parse_encoded_pair ParseQuery.simps[of "[]"])
next
  case (3 x y zs)
  have "38 \<notin> set (encode_pair x)" using escape_marks by (auto simp: encode_pair_def)
  then show ?case using 3 by (subst ParseQuery.simps) (simp add: parse_encoded_pair)
qed

lemma parse_encode [codec_simps]: "ParseQuery (Encode v) = sort_key fst v"
  by (simp add: Encode_def parse_join)

lemma first_value_sorted: "map_of (sort_key fst (v :: form_values)) k = map_of v k"
proof -
  have "map_of xs k = map_of (filter (\<lambda>x. fst x = k) xs) k" for xs :: form_values
    by (induction xs) auto
  then show ?thesis by (metis sort_key_stable)
qed

section \<open>Requests and replies\<close>

text \<open>
  The body of a request with its \<open>Content-Type\<close>: a form in query syntax, a multipart form
  as the pairs that \<open>mime/multipart\<close> reads from it, or anything else.
\<close>

datatype content = Urlencoded bytes | Multipart form_values | Opaque bytes

record http_request =
  Method :: bytes
  Path :: bytes
  RawQuery :: bytes
  SyncKeyHeader :: bytes
  Body :: content

definition MethodGet :: bytes where "MethodGet = str ''GET''"
definition MethodPost :: bytes where "MethodPost = str ''POST''"
definition MethodPut :: bytes where "MethodPut = str ''PUT''"
definition MethodPatch :: bytes where "MethodPatch = str ''PATCH''"
definition MethodDelete :: bytes where "MethodDelete = str ''DELETE''"

text \<open>\<open>Values.Get\<close>: the first value of the key, or the empty string.\<close>

definition values_get :: "form_values \<Rightarrow> bytes \<Rightarrow> bytes" where
  "values_get v k = (case map_of v k of None \<Rightarrow> [] | Some x \<Rightarrow> x)"

text \<open>\<open>r.PostForm\<close> after \<open>ParseForm\<close>: only these three methods have one.\<close>

definition ParsedBody :: "http_request \<Rightarrow> form_values" where
  "ParsedBody r =
     (if Method r = MethodPost \<or> Method r = MethodPut \<or> Method r = MethodPatch
      then (case Body r of Urlencoded b \<Rightarrow> ParseQuery b | _ \<Rightarrow> [])
      else [])"

definition multipart_values :: "http_request \<Rightarrow> form_values" where
  "multipart_values r = (case Body r of Multipart v \<Rightarrow> v | _ \<Rightarrow> [])"

text \<open>
  \<open>r.FormValue\<close> parses the forms on first use: the body comes before the query, a
  multipart form last. Afterwards \<open>r.PostForm\<close> holds the body's values, the multipart
  ones included.
\<close>

definition FormValue :: "http_request \<Rightarrow> bytes \<Rightarrow> bytes" where
  "FormValue r k = values_get (ParsedBody r @ ParseQuery (RawQuery r) @ multipart_values r) k"

definition PostForm :: "http_request \<Rightarrow> form_values" where
  "PostForm r = ParsedBody r @ multipart_values r"

definition QueryGet :: "http_request \<Rightarrow> bytes \<Rightarrow> bytes" where
  "QueryGet r k = values_get (ParseQuery (RawQuery r)) k"

text \<open>What a handler writes: the text of \<open>http.Error\<close> or of \<open>Write\<close>, or a JSON value.\<close>

datatype payload =
    Message string
  | ErrorText go_error
  | ValueLine bytes
  | KeyList "bytes list"
  | HealthReport bytes bytes
  | Page

datatype reply = Reply nat payload

fun status_of :: "reply \<Rightarrow> nat" where
  "status_of (Reply n p) = n"

definition StatusOK :: nat where "StatusOK = 200"
definition StatusBadRequest :: nat where "StatusBadRequest = 400"
definition StatusUnauthorized :: nat where "StatusUnauthorized = 401"
definition StatusForbidden :: nat where "StatusForbidden = 403"
definition StatusNotFound :: nat where "StatusNotFound = 404"
definition StatusMethodNotAllowed :: nat where "StatusMethodNotAllowed = 405"
definition StatusInternalServerError :: nat where "StatusInternalServerError = 500"
definition StatusBadGateway :: nat where "StatusBadGateway = 502"

lemmas status_defs =
  StatusOK_def StatusBadRequest_def StatusUnauthorized_def StatusForbidden_def StatusNotFound_def
  StatusMethodNotAllowed_def StatusInternalServerError_def StatusBadGateway_def

lemmas method_defs = MethodGet_def MethodPost_def MethodPut_def MethodPatch_def MethodDelete_def str_def

lemma methods_distinct [simp]:
  "MethodGet \<noteq> MethodPost" "MethodPost \<noteq> MethodGet" "MethodGet \<noteq> MethodDelete" "MethodDelete \<noteq> MethodGet"
  "MethodPost \<noteq> MethodDelete" "MethodDelete \<noteq> MethodPost" "MethodGet \<noteq> MethodPut" "MethodPut \<noteq> MethodGet"
  "MethodPost \<noteq> MethodPut" "MethodPut \<noteq> MethodPost" "MethodDelete \<noteq> MethodPut" "MethodPut \<noteq> MethodDelete"
  "MethodDelete \<noteq> MethodPatch" "MethodGet \<noteq> MethodPatch"
  by (simp_all add: method_defs)

end
