(* ===== verification/Server.thy ===== *)
theory Server
  imports Traversal Http
begin

text \<open>
  \<^verbatim>\<open>server/server.go\<close> and the sending side of \<^verbatim>\<open>server/replication.go\<close>: the
  HTTP server over a database, its handlers and its role. A request carries a ticket with the
  identifier of its batch and the readings of the clock. Handlers only meet in the
  database, under its lock, and read the role once, so a run of the server is a sequence of
  handlers. A blocked handler is \<open>None\<close>; the goroutines that \<open>broadcast\<close> starts are
  collected in the state and run in theory \<open>Replication\<close>.
\<close>

section \<open>Replication requests\<close>

record SyncRequest =
  Action :: bytes
  SyncKey :: bytes
  SyncValue :: bytes

text \<open>\<open>encoding/json\<close> on this struct; \<open>None\<close>: not a JSON text for it.\<close>

record json_ops =
  Marshal :: "SyncRequest \<Rightarrow> bytes"
  Unmarshal :: "bytes \<Rightarrow> SyncRequest option"

locale json_lib =
  fixes J :: json_ops
  assumes Unmarshal_Marshal: "Unmarshal J (Marshal J req) = Some req"

record Replicator =
  slaves :: "bytes list"
  repl_key :: bytes

definition NewReplicator :: "bytes list \<Rightarrow> bytes \<Rightarrow> Replicator" where
  "NewReplicator urls key = \<lparr>slaves = urls, repl_key = key\<rparr>"

text \<open>A goroutine of \<open>broadcast\<close>: the slave, the request, the key, the number of the next try.\<close>

record sender =
  snd_url :: bytes
  snd_req :: SyncRequest
  snd_key :: bytes
  snd_try :: nat

definition broadcast :: "SyncRequest \<Rightarrow> Replicator \<Rightarrow> sender list" where
  "broadcast req r =
     (if length (slaves r) = 0 then []
      else map (\<lambda>url. \<lparr>snd_url = url, snd_req = req, snd_key = repl_key r, snd_try = 1\<rparr>) (slaves r))"

definition SyncPut :: "bytes \<Rightarrow> bytes \<Rightarrow> Replicator \<Rightarrow> sender list" where
  "SyncPut key value r = broadcast \<lparr>Action = str ''put'', SyncKey = key, SyncValue = value\<rparr> r"

definition SyncDelete :: "bytes \<Rightarrow> Replicator \<Rightarrow> sender list" where
  "SyncDelete key r = broadcast \<lparr>Action = str ''delete'', SyncKey = key, SyncValue = []\<rparr> r"

section \<open>The server\<close>

record ('t, 'w) server =
  sv_db :: "('t, 'w) DB"
  replicator :: "Replicator option"
  sv_key :: bytes
  role :: bytes
  senders :: "sender list"

definition MASTER :: bytes where "MASTER = str ''MASTER''"
definition SLAVE :: bytes where "SLAVE = str ''SLAVE''"

definition NewServer :: "('t, 'w) DB \<Rightarrow> Replicator option \<Rightarrow> bytes \<Rightarrow> ('t, 'w) server" where
  "NewServer d r key = \<lparr>sv_db = d, replicator = r, sv_key = key, role = MASTER, senders = []\<rparr>"

definition GetRole :: "('t, 'w) server \<Rightarrow> bytes" where
  "GetRole s = role s"

definition SetRole :: "bytes \<Rightarrow> ('t, 'w) server \<Rightarrow> ('t, 'w) server" where
  "SetRole r s = s\<lparr>role := r\<rparr>"

type_synonym ('t, 'w) served = "(reply result \<times> ('t, 'w) server) option"

definition reply_with :: "nat \<Rightarrow> payload \<Rightarrow> ('t, 'w) server \<Rightarrow> ('t, 'w) served" where
  "reply_with n p s = Some (Ok (Reply n p), s)"

definition handlePut :: "('t, 'w) env \<Rightarrow> ticket \<Rightarrow> http_request \<Rightarrow> ('t, 'w) server \<Rightarrow> ('t, 'w) served" where
  "handlePut E x r s =
     (if GetRole s \<noteq> MASTER
      then reply_with StatusForbidden (Message ''Forbidden: Only MASTER node can accept write requests'') s
      else if Method r \<noteq> MethodPost then reply_with StatusMethodNotAllowed (Message ''Method not allowed'') s
      else
        (let key = FormValue r (str ''key''); value = FormValue r (str ''value'')
         in if key = [] \<or> value = [] then reply_with StatusBadRequest (Message ''Missing key or value'') s
            else (case db_Put E (batch_id x) (t_commit x) key value (sv_db s) of
                    None \<Rightarrow> None
                  | Some (Panic, d) \<Rightarrow> Some (Panic, s\<lparr>sv_db := d\<rparr>)
                  | Some (Fail e, d) \<Rightarrow> reply_with StatusInternalServerError (ErrorText e) (s\<lparr>sv_db := d\<rparr>)
                  | Some (Ok _, d) \<Rightarrow>
                      (let s = s\<lparr>sv_db := d\<rparr>;
                           s = (case replicator s of
                                  None \<Rightarrow> s | Some rp \<Rightarrow> s\<lparr>senders := senders s @ SyncPut key value rp\<rparr>)
                       in reply_with StatusOK (Message ''OK'') s))))"

definition handleGet :: "('t, 'w) env \<Rightarrow> ticket \<Rightarrow> http_request \<Rightarrow> ('t, 'w) server \<Rightarrow> ('t, 'w) served" where
  "handleGet E x r s =
     (if Method r \<noteq> MethodGet then reply_with StatusMethodNotAllowed (Message ''Method not allowed'') s
      else
        (let key = QueryGet r (str ''key'')
         in if key = [] then reply_with StatusBadRequest (Message ''Missing key'') s
            else (case db_Get E (t_op x) key (sv_db s) of
                    None \<Rightarrow> None
                  | Some (Panic, d) \<Rightarrow> Some (Panic, s\<lparr>sv_db := d\<rparr>)
                  | Some (Fail e, d) \<Rightarrow> reply_with StatusNotFound (ErrorText e) (s\<lparr>sv_db := d\<rparr>)
                  | Some (Ok val, d) \<Rightarrow> reply_with StatusOK (ValueLine val) (s\<lparr>sv_db := d\<rparr>))))"

definition handleDelete :: "('t, 'w) env \<Rightarrow> ticket \<Rightarrow> http_request \<Rightarrow> ('t, 'w) server \<Rightarrow> ('t, 'w) served" where
  "handleDelete E x r s =
     (if GetRole s \<noteq> MASTER
      then reply_with StatusForbidden (Message ''Forbidden: Only MASTER node can accept delete requests'') s
      else if Method r \<noteq> MethodDelete \<and> Method r \<noteq> MethodPost
      then reply_with StatusMethodNotAllowed (Message ''Method not allowed'') s
      else
        (let key = FormValue r (str ''key'');
             key = (if key = [] then QueryGet r (str ''key'') else key)
         in if key = [] then reply_with StatusBadRequest (Message ''Missing key'') s
            else (case db_Delete E (batch_id x) (t_commit x) key (sv_db s) of
                    None \<Rightarrow> None
                  | Some (Panic, d) \<Rightarrow> Some (Panic, s\<lparr>sv_db := d\<rparr>)
                  | Some (Fail e, d) \<Rightarrow> reply_with StatusInternalServerError (ErrorText e) (s\<lparr>sv_db := d\<rparr>)
                  | Some (Ok _, d) \<Rightarrow>
                      (let s = s\<lparr>sv_db := d\<rparr>;
                           s = (case replicator s of
                                  None \<Rightarrow> s | Some rp \<Rightarrow> s\<lparr>senders := senders s @ SyncDelete key rp\<rparr>)
                       in reply_with StatusOK (Message ''OK'') s))))"

text \<open>
  \<open>json.Unmarshal\<close> of the body; no multipart body is JSON. A body that cannot be read
  ends the connection and is not modelled.
\<close>

definition decode_sync :: "json_ops \<Rightarrow> content \<Rightarrow> SyncRequest option" where
  "decode_sync J c = (case c of Urlencoded b \<Rightarrow> Unmarshal J b | Opaque b \<Rightarrow> Unmarshal J b | Multipart v \<Rightarrow> None)"

definition handleSync ::
    "('t, 'w) env \<Rightarrow> json_ops \<Rightarrow> ticket \<Rightarrow> http_request \<Rightarrow> ('t, 'w) server \<Rightarrow> ('t, 'w) served" where
  "handleSync E J x r s =
     (if Method r \<noteq> MethodPost then reply_with StatusMethodNotAllowed (Message ''Method not allowed'') s
      else if sv_key s \<noteq> [] \<and> SyncKeyHeader r \<noteq> sv_key s
      then reply_with StatusUnauthorized (Message ''Unauthorized'') s
      else
        (case decode_sync J (Body r) of
           None \<Rightarrow> reply_with StatusBadRequest (Message ''Invalid JSON'') s
         | Some req \<Rightarrow>
             (case (if Action req = str ''put''
                    then db_Put E (batch_id x) (t_commit x) (SyncKey req) (SyncValue req) (sv_db s)
                    else if Action req = str ''delete''
                    then db_Delete E (batch_id x) (t_commit x) (SyncKey req) (sv_db s)
                    else Some (Ok (), sv_db s)) of
                None \<Rightarrow> None
              | Some (Panic, d) \<Rightarrow> Some (Panic, s\<lparr>sv_db := d\<rparr>)
              | Some (Fail e, d) \<Rightarrow> reply_with StatusInternalServerError (ErrorText e) (s\<lparr>sv_db := d\<rparr>)
              | Some (Ok _, d) \<Rightarrow> reply_with StatusOK (Message ''SYNC OK'') (s\<lparr>sv_db := d\<rparr>))))"

text \<open>Of the health report the status and the role are kept, not the uptime and the memory.\<close>

definition handleHealth :: "http_request \<Rightarrow> ('t, 'w) server \<Rightarrow> ('t, 'w) served" where
  "handleHealth r s =
     (if Method r \<noteq> MethodGet then reply_with StatusMethodNotAllowed (Message ''Method not allowed'') s
      else reply_with StatusOK (HealthReport (str ''OK'') (GetRole s)) s)"

text \<open>No pattern is given to \<open>AscendKeys\<close>, so the compiler of patterns is not called.\<close>

definition handleKeys :: "('t, 'w) env \<Rightarrow> ticket \<Rightarrow> http_request \<Rightarrow> ('t, 'w) server \<Rightarrow> ('t, 'w) served" where
  "handleKeys E x r s =
     (if Method r \<noteq> MethodGet then reply_with StatusMethodNotAllowed (Message ''Method not allowed'') s
      else (case db_AscendKeys E (\<lambda>p. Inr (\<lambda>k. True)) (\<lambda>k. t_op x) [] True (\<lambda>k keys. ((True, None), keys @ [k])) []
                   (sv_db s) of
              None \<Rightarrow> None
            | Some ((Ok _, Some keys), d) \<Rightarrow> reply_with StatusOK (KeyList keys) (s\<lparr>sv_db := d\<rparr>)
            | Some ((Fail e, _), d) \<Rightarrow> reply_with StatusInternalServerError (ErrorText e) (s\<lparr>sv_db := d\<rparr>)
            | Some (_, d) \<Rightarrow> Some (Panic, s\<lparr>sv_db := d\<rparr>)))"

definition handleAdmin :: "('t, 'w) server \<Rightarrow> ('t, 'w) served" where
  "handleAdmin s = reply_with StatusOK Page s"

text \<open>The multiplexer and the routes of \<open>NewServer\<close>.\<close>

definition ServeHTTP ::
    "('t, 'w) env \<Rightarrow> json_ops \<Rightarrow> ticket \<Rightarrow> http_request \<Rightarrow> ('t, 'w) server \<Rightarrow> ('t, 'w) served" where
  "ServeHTTP E J x r s =
     (if Path r = str ''/put'' then handlePut E x r s
      else if Path r = str ''/get'' then handleGet E x r s
      else if Path r = str ''/delete'' then handleDelete E x r s
      else if Path r = str ''/health'' then handleHealth r s
      else if Path r = str ''/keys'' then handleKeys E x r s
      else if Path r = str ''/admin'' then handleAdmin s
      else if Path r = str ''/sync'' then handleSync E J x r s
      else reply_with StatusNotFound (Message ''404 page not found'') s)"

text \<open>A sequence of requests.\<close>

fun serve_all ::
    "('t, 'w) env \<Rightarrow> json_ops \<Rightarrow> (ticket \<times> http_request) list \<Rightarrow> ('t, 'w) server
       \<Rightarrow> (reply result list \<times> ('t, 'w) server) option" where
  "serve_all E J [] s = Some ([], s)"
| "serve_all E J ((x, r) # xs) s =
     (case ServeHTTP E J x r s of
        None \<Rightarrow> None
      | Some (rp, s') \<Rightarrow> (case serve_all E J xs s' of None \<Rightarrow> None | Some (rps, s'') \<Rightarrow> Some (rp # rps, s'')))"

section \<open>A reference instance of the JSON codec\<close>

fun put_bytes :: "bytes \<Rightarrow> bytes" where
  "put_bytes [] = [0]"
| "put_bytes (b # bs) = 1 # b # put_bytes bs"

fun get_bytes :: "bytes \<Rightarrow> (bytes \<times> bytes) option" where
  "get_bytes (c # cs) =
     (if c = 0 then Some ([], cs)
      else (case cs of [] \<Rightarrow> None | b # cs \<Rightarrow> map_option (map_prod ((#) b) id) (get_bytes cs)))"
| "get_bytes [] = None"

lemma get_put_bytes [codec_simps]: "get_bytes (put_bytes bs @ cs) = Some (bs, cs)"
  by (induction bs) simp_all

definition ref_json :: json_ops where
  "ref_json = \<lparr>
     Marshal = (\<lambda>q. put_bytes (Action q) @ put_bytes (SyncKey q) @ put_bytes (SyncValue q)),
     Unmarshal = (\<lambda>b. case get_bytes b of
        None \<Rightarrow> None
      | Some (a, b) \<Rightarrow> (case get_bytes b of
          None \<Rightarrow> None
        | Some (k, b) \<Rightarrow> map_option (\<lambda>(v, b). \<lparr>Action = a, SyncKey = k, SyncValue = v\<rparr>) (get_bytes b)))\<rparr>"

interpretation ref_json: json_lib ref_json
proof
  fix q :: SyncRequest
  have "get_bytes (put_bytes (SyncValue q)) = Some (SyncValue q, [])"
    using get_put_bytes[of "SyncValue q" "[]"] by simp
  then show "Unmarshal ref_json (Marshal ref_json q) = Some q"
    by (simp add: ref_json_def codec_simps)
qed

end
