(* ===== verification/Server_Spec.thy ===== *)
theory Server_Spec
  imports Server
begin

text \<open>
  What the server promises: every request is answered as the handler would answer over a
  plain map with expiry times (\<open>http_spec\<close>), for each path, method, role, form and
  key, errors of the log included, and successful writes are handed to the replicator.
\<close>

section \<open>The specification\<close>

fun reply_of :: "payload \<Rightarrow> response \<Rightarrow> reply" where
  "reply_of ok (RspDone (Ok u)) = Reply StatusOK ok"
| "reply_of ok (RspDone (Fail e)) = Reply StatusInternalServerError (ErrorText e)"
| "reply_of ok (RspValue (Ok v)) = Reply StatusOK (ValueLine v)"
| "reply_of ok (RspValue (Fail e)) = Reply StatusNotFound (ErrorText e)"
| "reply_of ok _ = Reply StatusInternalServerError ok"

text \<open>A write: the reply, the map, and the request for the slaves if it succeeded.\<close>

definition write_spec ::
    "int64 \<Rightarrow> go_error option \<Rightarrow> payload \<Rightarrow> request \<Rightarrow> SyncRequest option \<Rightarrow> kv
       \<Rightarrow> reply \<times> kv \<times> SyncRequest option" where
  "write_spec now fault ok req out M =
     (case kv_step now fault req M of
        (rsp, M') \<Rightarrow> (reply_of ok rsp, M', if rsp = RspDone (Ok ()) then out else None))"

definition refuse :: "nat \<Rightarrow> string \<Rightarrow> kv \<Rightarrow> reply \<times> kv \<times> SyncRequest option" where
  "refuse n msg M = (Reply n (Message msg), M, None)"

definition delete_key :: "http_request \<Rightarrow> bytes" where
  "delete_key r = (if FormValue r (str ''key'') = [] then QueryGet r (str ''key'') else FormValue r (str ''key''))"

definition live_keys_of :: "int64 \<Rightarrow> kv \<Rightarrow> bytes list" where
  "live_keys_of now M = sorted_list_of_set {k. kv_at now M k \<noteq> None}"

definition http_spec ::
    "int64 \<Rightarrow> go_error option \<Rightarrow> json_ops \<Rightarrow> bytes \<Rightarrow> bytes \<Rightarrow> http_request \<Rightarrow> kv
       \<Rightarrow> reply \<times> kv \<times> SyncRequest option" where
  "http_spec now fault J rl key r M =
     (if Path r = str ''/put'' then
        (if rl \<noteq> MASTER then refuse StatusForbidden ''Forbidden: Only MASTER node can accept write requests'' M
         else if Method r \<noteq> MethodPost then refuse StatusMethodNotAllowed ''Method not allowed'' M
         else if FormValue r (str ''key'') = [] \<or> FormValue r (str ''value'') = []
         then refuse StatusBadRequest ''Missing key or value'' M
         else write_spec now fault (Message ''OK'') (ReqPut (FormValue r (str ''key'')) (FormValue r (str ''value'')))
                (Some \<lparr>Action = str ''put'', SyncKey = FormValue r (str ''key''), SyncValue = FormValue r (str ''value'')\<rparr>) M)
      else if Path r = str ''/get'' then
        (if Method r \<noteq> MethodGet then refuse StatusMethodNotAllowed ''Method not allowed'' M
         else if QueryGet r (str ''key'') = [] then refuse StatusBadRequest ''Missing key'' M
         else write_spec now fault (Message '''') (ReqGet (QueryGet r (str ''key''))) None M)
      else if Path r = str ''/delete'' then
        (if rl \<noteq> MASTER then refuse StatusForbidden ''Forbidden: Only MASTER node can accept delete requests'' M
         else if Method r \<noteq> MethodDelete \<and> Method r \<noteq> MethodPost then refuse StatusMethodNotAllowed ''Method not allowed'' M
         else if delete_key r = [] then refuse StatusBadRequest ''Missing key'' M
         else write_spec now fault (Message ''OK'') (ReqDelete (delete_key r))
                (Some \<lparr>Action = str ''delete'', SyncKey = delete_key r, SyncValue = []\<rparr>) M)
      else if Path r = str ''/health'' then
        (if Method r \<noteq> MethodGet then refuse StatusMethodNotAllowed ''Method not allowed'' M
         else (Reply StatusOK (HealthReport (str ''OK'') rl), M, None))
      else if Path r = str ''/keys'' then
        (if Method r \<noteq> MethodGet then refuse StatusMethodNotAllowed ''Method not allowed'' M
         else (Reply StatusOK (KeyList (live_keys_of now M)), M, None))
      else if Path r = str ''/admin'' then (Reply StatusOK Page, M, None)
      else if Path r = str ''/sync'' then
        (if Method r \<noteq> MethodPost then refuse StatusMethodNotAllowed ''Method not allowed'' M
         else if key \<noteq> [] \<and> SyncKeyHeader r \<noteq> key then refuse StatusUnauthorized ''Unauthorized'' M
         else (case decode_sync J (Body r) of
                 None \<Rightarrow> refuse StatusBadRequest ''Invalid JSON'' M
               | Some q \<Rightarrow>
                   if Action q = str ''put''
                   then write_spec now fault (Message ''SYNC OK'') (ReqPut (SyncKey q) (SyncValue q)) None M
                   else if Action q = str ''delete''
                   then write_spec now fault (Message ''SYNC OK'') (ReqDelete (SyncKey q)) None M
                   else refuse StatusOK ''SYNC OK'' M))
      else refuse StatusNotFound ''404 page not found'' M)"

text \<open>The lengths a record can hold, for the data a request brings.\<close>

definition http_fits :: "json_ops \<Rightarrow> http_request \<Rightarrow> bool" where
  "http_fits J r \<longleftrightarrow>
     value_fits (FormValue r (str ''key'')) (FormValue r (str ''value'')) \<and> value_fits (delete_key r) []
     \<and> (Path r = str ''/sync'' \<longrightarrow> (\<forall>q. decode_sync J (Body r) = Some q \<longrightarrow> value_fits (SyncKey q) (SyncValue q)))"

definition posted :: "Replicator option \<Rightarrow> SyncRequest option \<Rightarrow> sender list" where
  "posted rp out = (case (rp, out) of (Some p, Some q) \<Rightarrow> broadcast q p | _ \<Rightarrow> [])"

lemma posted_simps [simp]:
  "posted None out = []" "posted rp None = []" "posted (Some p) (Some q) = broadcast q p"
  by (simp_all add: posted_def split: option.split)

lemma paths_distinct [simp]:
  "str ''/get'' \<noteq> str ''/put''" "str ''/delete'' \<noteq> str ''/put''" "str ''/delete'' \<noteq> str ''/get''"
  "str ''/health'' \<noteq> str ''/put''" "str ''/health'' \<noteq> str ''/get''" "str ''/health'' \<noteq> str ''/delete''"
  "str ''/keys'' \<noteq> str ''/put''" "str ''/keys'' \<noteq> str ''/get''" "str ''/keys'' \<noteq> str ''/delete''"
  "str ''/keys'' \<noteq> str ''/health''" "str ''/sync'' \<noteq> str ''/put''" "str ''/sync'' \<noteq> str ''/get''"
  "str ''/sync'' \<noteq> str ''/delete''" "str ''/sync'' \<noteq> str ''/health''" "str ''/sync'' \<noteq> str ''/keys''"
  "str ''/sync'' \<noteq> str ''/admin''" "str ''/admin'' \<noteq> str ''/put''" "str ''/admin'' \<noteq> str ''/get''"
  "str ''/admin'' \<noteq> str ''/delete''" "str ''/admin'' \<noteq> str ''/health''" "str ''/admin'' \<noteq> str ''/keys''"
  "str ''delete'' \<noteq> str ''put''" "SLAVE \<noteq> MASTER"
  by (simp_all add: str_def SLAVE_def MASTER_def)

lemma kv_step_no_panic: "kv_step now fault req M = (RspDone r, M') \<Longrightarrow> r \<noteq> Panic"
  by (cases req) (auto simp: kv_step_def kv_write_def split: if_splits option.splits)

section \<open>Handlers refine the specification\<close>

context engine
begin

text \<open>What a handler did: the reply and the map of the specification, and nothing else.\<close>

definition serves :: "ticket \<Rightarrow> ('t, 'w) served \<Rightarrow> (go_error option \<Rightarrow> reply \<times> kv \<times> SyncRequest option)
    \<Rightarrow> ('t, 'w) server \<Rightarrow> bool" where
  "serves x h spec s \<longleftrightarrow>
     (\<exists>fault rp d' M' out. spec fault = (rp, M', out)
        \<and> h = Some (Ok rp, s\<lparr>sv_db := d', senders := senders s @ posted (replicator s) out\<rparr>)
        \<and> settled (sv_db s) d' \<and> rep (t_commit x) d' M'
        \<and> (\<forall>e. fault = Some e \<longrightarrow> log_error E w_inv e \<and> rp = Reply StatusInternalServerError (ErrorText e)))"

definition ready :: "ticket \<Rightarrow> ('t, 'w) server \<Rightarrow> kv \<Rightarrow> bool" where
  "ready x s M \<longleftrightarrow> dinv (sv_db s) \<and> idle (sv_db s) \<and> \<not> closed (sv_db s) \<and> rep (t_op x) (sv_db s) M
     \<and> sint (t_op x) \<le> sint (t_commit x)"

lemma settled_refl: "dinv d \<Longrightarrow> settled d d"
  by (simp add: settled_def)

lemma serves_refuse:
  assumes "ready x s M"
  shows "serves x (reply_with n (Message m) s) (\<lambda>fault. refuse n m M) s"
  unfolding serves_def refuse_def reply_with_def
  using assms by (intro exI[of _ None] exI[of _ "Reply n (Message m)"] exI[of _ "sv_db s"] exI[of _ M] exI[of _ None])
    (auto simp: ready_def settled_refl intro: rep_later)

lemma serves_constant:
  assumes "ready x s M"
  shows "serves x (reply_with n p s) (\<lambda>fault. (Reply n p, M, None)) s"
  unfolding serves_def reply_with_def
  using assms by (intro exI[of _ None] exI[of _ "Reply n p"] exI[of _ "sv_db s"] exI[of _ M] exI[of _ None])
    (auto simp: ready_def settled_refl intro: rep_later)

lemma ready_refines:
  assumes "ready x s M" and "req_fits req"
  shows "refines x req (sv_db s) M"
  using request_refines assms by (simp add: ready_def)

text \<open>The end of a handler that writes.\<close>

definition write_end :: "payload \<Rightarrow> sender list \<Rightarrow> ('t, 'w) server \<Rightarrow> (unit result \<times> ('t, 'w) DB) option \<Rightarrow> ('t, 'w) served" where
  "write_end ok out s x =
     (case x of
        None \<Rightarrow> None
      | Some (Panic, d) \<Rightarrow> Some (Panic, s\<lparr>sv_db := d\<rparr>)
      | Some (Fail e, d) \<Rightarrow> reply_with StatusInternalServerError (ErrorText e) (s\<lparr>sv_db := d\<rparr>)
      | Some (Ok _, d) \<Rightarrow> reply_with StatusOK ok (s\<lparr>sv_db := d, senders := senders s @ out\<rparr>))"

lemma serves_write:
  assumes "ready x s M" and "req_fits req"
    and db: "db_request E x req (sv_db s) = map_option (map_prod RspDone id) (op (sv_db s))"
  shows "serves x (write_end ok (posted (replicator s) out) s (op (sv_db s)))
           (\<lambda>fault. write_spec (t_op x) fault ok req out M) s"
proof -
  obtain fault rsp d' M' where f: "db_request E x req (sv_db s) = Some (rsp, d')"
    "kv_step (t_op x) fault req M = (rsp, M')" "settled (sv_db s) d'" "rep (t_commit x) d' M'"
    "outcome fault rsp (t_commit x) (batch_id x) (sv_db s) d'"
    using ready_refines[OF assms(1,2)] by (auto simp: refines_def)
  obtain r where r: "op (sv_db s) = Some (r, d')" "rsp = RspDone r"
    using f(1) db by auto
  have np: "r \<noteq> Panic" using kv_step_no_panic[of "t_op x" fault req M r M'] f(2) r(2) by simp
  have o: "log_error E w_inv e \<and> reply_of ok rsp = Reply StatusInternalServerError (ErrorText e)" if "fault = Some e" for e
    using f(5) that by (simp add: outcome_def)
  show ?thesis
    unfolding serves_def
  proof (intro exI[of _ fault] exI[of _ "reply_of ok rsp"] exI[of _ d'] exI[of _ M']
      exI[of _ "if rsp = RspDone (Ok ()) then out else None"] conjI)
    show "write_spec (t_op x) fault ok req out M = (reply_of ok rsp, M', if rsp = RspDone (Ok ()) then out else None)"
      using f(2) by (simp add: write_spec_def)
    show "write_end ok (posted (replicator s) out) s (op (sv_db s)) = Some (Ok (reply_of ok rsp), s\<lparr>sv_db := d',
        senders := senders s @ posted (replicator s) (if rsp = RspDone (Ok ()) then out else None)\<rparr>)"
      using np by (cases r) (simp_all add: write_end_def r reply_with_def)
  qed (use f o in auto)
qed

lemma handlePut_writes:
  assumes "role s = MASTER" and "Method r = MethodPost"
    and "FormValue r (str ''key'') \<noteq> []" and "FormValue r (str ''value'') \<noteq> []"
  shows "handlePut E x r s = write_end (Message ''OK'')
     (posted (replicator s) (Some \<lparr>Action = str ''put'', SyncKey = FormValue r (str ''key''),
        SyncValue = FormValue r (str ''value'')\<rparr>)) s
     (db_Put E (batch_id x) (t_commit x) (FormValue r (str ''key'')) (FormValue r (str ''value'')) (sv_db s))"
  using assms
  by (auto simp: handlePut_def write_end_def GetRole_def SyncPut_def Let_def
      split: option.split prod.split result.split)

lemma handleDelete_writes:
  assumes "role s = MASTER" and "Method r = MethodDelete \<or> Method r = MethodPost" and "delete_key r \<noteq> []"
  shows "handleDelete E x r s = write_end (Message ''OK'')
     (posted (replicator s) (Some \<lparr>Action = str ''delete'', SyncKey = delete_key r, SyncValue = []\<rparr>)) s
     (db_Delete E (batch_id x) (t_commit x) (delete_key r) (sv_db s))"
  using assms
  by (auto simp: handleDelete_def write_end_def GetRole_def SyncDelete_def delete_key_def Let_def
      split: option.split prod.split result.split)

lemma handleSync_writes:
  assumes "Method r = MethodPost" and "sv_key s = [] \<or> SyncKeyHeader r = sv_key s"
    and "decode_sync J (Body r) = Some q" and "Action q = str ''put'' \<or> Action q = str ''delete''"
  shows "handleSync E J x r s = write_end (Message ''SYNC OK'') [] s
     (if Action q = str ''put'' then db_Put E (batch_id x) (t_commit x) (SyncKey q) (SyncValue q) (sv_db s)
      else db_Delete E (batch_id x) (t_commit x) (SyncKey q) (sv_db s))"
  using assms
  by (auto simp: handleSync_def write_end_def split: option.split prod.split result.split)

lemma put_serves:
  assumes rd: "ready x s M" and f: "http_fits J r" and p: "Path r = str ''/put''"
  shows "serves x (handlePut E x r s) (\<lambda>fault. http_spec (t_op x) fault J (role s) (sv_key s) r M) s"
proof (cases "role s = MASTER \<and> Method r = MethodPost \<and> FormValue r (str ''key'') \<noteq> [] \<and> FormValue r (str ''value'') \<noteq> []")
  case True
  let ?op = "\<lambda>d. db_Put E (batch_id x) (t_commit x) (FormValue r (str ''key'')) (FormValue r (str ''value'')) d"
  let ?out = "Some \<lparr>Action = str ''put'', SyncKey = FormValue r (str ''key''), SyncValue = FormValue r (str ''value'')\<rparr>"
  let ?req = "ReqPut (FormValue r (str ''key'')) (FormValue r (str ''value''))"
  have "req_fits ?req" using f by (simp add: http_fits_def)
  from serves_write[OF rd this, of ?op "Message ''OK''" ?out]
  show ?thesis using True by (simp add: handlePut_writes http_spec_def p)
next
  case False
  then show ?thesis
    using serves_refuse[OF rd]
    by (auto simp: handlePut_def http_spec_def p GetRole_def Let_def)
qed

lemma delete_serves:
  assumes rd: "ready x s M" and f: "http_fits J r" and p: "Path r = str ''/delete''"
  shows "serves x (handleDelete E x r s) (\<lambda>fault. http_spec (t_op x) fault J (role s) (sv_key s) r M) s"
proof (cases "role s = MASTER \<and> (Method r = MethodDelete \<or> Method r = MethodPost) \<and> delete_key r \<noteq> []")
  case True
  let ?op = "\<lambda>d. db_Delete E (batch_id x) (t_commit x) (delete_key r) d"
  let ?out = "Some \<lparr>Action = str ''delete'', SyncKey = delete_key r, SyncValue = []\<rparr>"
  have "req_fits (ReqDelete (delete_key r))" using f by (simp add: http_fits_def)
  from serves_write[OF rd this, of ?op "Message ''OK''" ?out]
  show ?thesis using True by (auto simp: handleDelete_writes http_spec_def p)
next
  case False
  then show ?thesis
    using serves_refuse[OF rd]
    by (auto simp: handleDelete_def http_spec_def p GetRole_def delete_key_def Let_def)
qed

lemma sync_serves:
  assumes rd: "ready x s M" and f: "http_fits J r" and p: "Path r = str ''/sync''"
  shows "serves x (handleSync E J x r s) (\<lambda>fault. http_spec (t_op x) fault J (role s) (sv_key s) r M) s"
proof (cases "Method r = MethodPost \<and> (sv_key s = [] \<or> SyncKeyHeader r = sv_key s)")
  case False
  then show ?thesis using serves_refuse[OF rd] by (auto simp: handleSync_def http_spec_def p)
next
  case ok: True
  show ?thesis
  proof (cases "decode_sync J (Body r)")
    case None
    then show ?thesis using ok serves_refuse[OF rd] by (auto simp: handleSync_def http_spec_def p)
  next
    case (Some q)
    have fits: "req_fits (ReqPut (SyncKey q) (SyncValue q))" "req_fits (ReqDelete (SyncKey q))"
      using f Some p by (auto simp: http_fits_def value_fits_def)
    consider "Action q = str ''put''" | "Action q = str ''delete''" | "Action q \<noteq> str ''put''" "Action q \<noteq> str ''delete''"
      by blast
    then show ?thesis
    proof cases
      case 1
      have "serves x (write_end (Message ''SYNC OK'') (posted (replicator s) None) s
              (db_Put E (batch_id x) (t_commit x) (SyncKey q) (SyncValue q) (sv_db s)))
              (\<lambda>fault. write_spec (t_op x) fault (Message ''SYNC OK'') (ReqPut (SyncKey q) (SyncValue q)) None M) s"
        by (rule serves_write[OF rd fits(1)]) simp
      then show ?thesis using 1 ok Some by (auto simp: handleSync_writes[OF _ _ Some] http_spec_def p)
    next
      case 2
      have "serves x (write_end (Message ''SYNC OK'') (posted (replicator s) None) s
              (db_Delete E (batch_id x) (t_commit x) (SyncKey q) (sv_db s)))
              (\<lambda>fault. write_spec (t_op x) fault (Message ''SYNC OK'') (ReqDelete (SyncKey q)) None M) s"
        by (rule serves_write[OF rd fits(2)]) simp
      then show ?thesis using 2 ok Some by (auto simp: handleSync_writes[OF _ _ Some] http_spec_def p)
    next
      case 3
      then have "handleSync E J x r s = reply_with StatusOK (Message ''SYNC OK'') s"
        using ok Some by (auto simp: handleSync_def)
      then show ?thesis using 3 ok Some serves_refuse[OF rd] by (auto simp: http_spec_def p)
    qed
  qed
qed

lemma get_serves:
  assumes rd: "ready x s M" and p: "Path r = str ''/get''"
  shows "serves x (handleGet E x r s) (\<lambda>fault. http_spec (t_op x) fault J (role s) (sv_key s) r M) s"
proof (cases "Method r = MethodGet \<and> QueryGet r (str ''key'') \<noteq> []")
  case False
  then show ?thesis using serves_refuse[OF rd] by (auto simp: handleGet_def http_spec_def p Let_def)
next
  case True
  let ?k = "QueryGet r (str ''key'')"
  obtain fault rsp d' M' where f: "db_request E x (ReqGet ?k) (sv_db s) = Some (rsp, d')"
    "kv_step (t_op x) fault (ReqGet ?k) M = (rsp, M')" "settled (sv_db s) d'" "rep (t_commit x) d' M'"
    using ready_refines[OF rd, of "ReqGet ?k"] by (auto simp: refines_def)
  obtain g where g: "db_Get E (t_op x) ?k (sv_db s) = Some (g, d')" "rsp = RspValue g" using f(1) by auto
  have k: "kv_step (t_op x) None (ReqGet ?k) M = (RspValue g, M')"
    using f(2) g(2) True by (auto simp: kv_step_def)
  have np: "g \<noteq> Panic" using f(2) g(2) True by (auto simp: kv_step_def split: option.splits prod.splits)
  have "handleGet E x r s = Some (Ok (reply_of (Message '''') (RspValue g)), s\<lparr>sv_db := d'\<rparr>)"
    using np True g(1) by (cases g) (simp_all add: handleGet_def reply_with_def)
  moreover have "http_spec (t_op x) None J (role s) (sv_key s) r M = (reply_of (Message '''') (RspValue g), M', None)"
    using True k by (simp add: http_spec_def p write_spec_def)
  ultimately show ?thesis
    using f(3,4) unfolding serves_def by (intro exI[of _ None] exI[of _ "reply_of (Message '''') (RspValue g)"]
      exI[of _ d'] exI[of _ M'] exI[of _ None]) simp
qed

lemma collect_keys: "run_keys (\<lambda>k keys. ((True, None), keys @ [k])) ks acc = acc @ ks"
  by (induction ks arbitrary: acc) (simp_all add: run_keys_def go_on_def)

lemma live_keys_spec:
  assumes d: "dinv d" and r: "rep now d M"
  shows "live_keys E (\<lambda>k. now) d None True (db_keys E d) = live_keys_of now M"
proof -
  let ?ks = "live_keys E (\<lambda>k. now) d None True (db_keys E d)"
  have s: "sorted_wrt (<) ?ks" by (rule live_keys_db(1)[OF d])
  have "set ?ks = {k. kv_at now M k \<noteq> None}"
    using live_keys_db(2)[OF d, of _ "\<lambda>k. now" None] rep_now[OF r] by (auto simp: wanted_def)
  moreover have "sorted_list_of_set (set ?ks) = ?ks"
    using s by (simp add: strict_sorted_iff sorted_list_of_set.idem_if_sorted_distinct)
  ultimately show ?thesis by (simp add: live_keys_of_def)
qed

lemma keys_serves:
  assumes rd: "ready x s M" and p: "Path r = str ''/keys''"
  shows "serves x (handleKeys E x r s) (\<lambda>fault. http_spec (t_op x) fault J (role s) (sv_key s) r M) s"
proof (cases "Method r = MethodGet")
  case False
  then show ?thesis using serves_refuse[OF rd] by (auto simp: handleKeys_def http_spec_def p)
next
  case True
  have d: "dinv (sv_db s)" "\<not> writer (mu (sv_db s))" "rep (t_op x) (sv_db s) M"
    using rd by (simp_all add: ready_def idle_def)
  have "compile_pattern (\<lambda>p. Inr (\<lambda>k. True)) [] = Inr None" by (simp add: compile_pattern_def)
  from key_traversals(1)[OF d(1,2) this, of "\<lambda>k. t_op x" True "\<lambda>k keys. ((True, None), keys @ [k])" "[]"]
  have "handleKeys E x r s = reply_with StatusOK (KeyList (live_keys_of (t_op x) M)) s"
    using True by (simp add: handleKeys_def collect_keys live_keys_spec[OF d(1,3)])
  then show ?thesis using serves_constant[OF rd] True by (simp add: http_spec_def p)
qed

lemma server_serves:
  assumes rd: "ready x s M" and f: "http_fits J r"
  shows "serves x (ServeHTTP E J x r s) (\<lambda>fault. http_spec (t_op x) fault J (role s) (sv_key s) r M) s"
proof -
  have health: "serves x (handleHealth r s) (\<lambda>fault. http_spec (t_op x) fault J (role s) (sv_key s) r M) s"
    if "Path r = str ''/health''"
    using that serves_refuse[OF rd] serves_constant[OF rd] by (auto simp: handleHealth_def http_spec_def GetRole_def)
  have admin: "serves x (handleAdmin s) (\<lambda>fault. http_spec (t_op x) fault J (role s) (sv_key s) r M) s"
    if "Path r = str ''/admin''"
    using that serves_constant[OF rd] by (simp add: handleAdmin_def http_spec_def)
  have other: "serves x (reply_with StatusNotFound (Message ''404 page not found'') s)
      (\<lambda>fault. http_spec (t_op x) fault J (role s) (sv_key s) r M) s"
    if "Path r \<notin> {str ''/put'', str ''/get'', str ''/delete'', str ''/health'', str ''/keys'', str ''/admin'', str ''/sync''}"
    using that serves_refuse[OF rd] by (simp add: http_spec_def)
  show ?thesis
    unfolding ServeHTTP_def
    using put_serves[OF rd f] get_serves[OF rd] delete_serves[OF rd f] health keys_serves[OF rd] admin
      sync_serves[OF rd f] other
    by simp
qed

end

section \<open>Runs\<close>

fun http_clock :: "int64 \<Rightarrow> (ticket \<times> http_request) list \<Rightarrow> bool" where
  "http_clock now [] = True"
| "http_clock now ((x, r) # xs) =
     (sint now \<le> sint (t_op x) \<and> sint (t_op x) \<le> sint (t_commit x) \<and> http_clock (t_commit x) xs)"

fun http_end :: "int64 \<Rightarrow> (ticket \<times> http_request) list \<Rightarrow> int64" where
  "http_end now [] = now"
| "http_end now ((x, r) # xs) = http_end (t_commit x) xs"

fun spec_run ::
    "json_ops \<Rightarrow> bytes \<Rightarrow> bytes \<Rightarrow> ((ticket \<times> http_request) \<times> go_error option) list \<Rightarrow> kv
       \<Rightarrow> reply list \<times> kv \<times> SyncRequest list" where
  "spec_run J rl key [] M = ([], M, [])"
| "spec_run J rl key (((x, r), fault) # xs) M =
     (case http_spec (t_op x) fault J rl key r M of
        (rp, M', out) \<Rightarrow>
          (case spec_run J rl key xs M' of
             (rps, M'', outs) \<Rightarrow> (rp # rps, M'', (case out of None \<Rightarrow> outs | Some q \<Rightarrow> q # outs))))"

context engine
begin

lemma serve_all_refines:
  assumes "dinv (sv_db s)" and "idle (sv_db s)" and "\<not> closed (sv_db s)" and "rep now (sv_db s) M"
    and "http_clock now xs" and "\<forall>(x, r) \<in> set xs. http_fits J r"
  shows "\<exists>faults s' d' rps M' outs. length faults = length xs
      \<and> spec_run J (role s) (sv_key s) (zip xs faults) M = (rps, M', outs)
      \<and> serve_all E J xs s = Some (map Ok rps, s') \<and> settled (sv_db s) d' \<and> rep (http_end now xs) d' M'
      \<and> s' = s\<lparr>sv_db := d', senders := senders s
               @ concat (map (\<lambda>q. posted (replicator s) (Some q)) outs)\<rparr>
      \<and> (\<forall>e. Some e \<in> set faults \<longrightarrow> log_error E w_inv e \<and> Reply StatusInternalServerError (ErrorText e) \<in> set rps)"
  using assms
proof (induction xs arbitrary: now s M)
  case Nil
  then show ?case
    by (intro exI[of _ "[]"] exI[of _ s] exI[of _ "sv_db s"] exI[of _ "[]"] exI[of _ M] exI[of _ "[]"])
       (simp add: settled_refl)
next
  case (Cons a xs)
  obtain x r where a: "a = (x, r)" by (cases a)
  have c: "sint now \<le> sint (t_op x)" "sint (t_op x) \<le> sint (t_commit x)" "http_clock (t_commit x) xs"
    using Cons.prems(5) a by simp_all
  have rd: "ready x s M" using Cons.prems(1-4) c rep_later by (auto simp: ready_def)
  have "http_fits J r" using Cons.prems(6) a by simp
  from server_serves[OF rd this] obtain fault rp d1 M1 out where q:
    "http_spec (t_op x) fault J (role s) (sv_key s) r M = (rp, M1, out)"
    "ServeHTTP E J x r s = Some (Ok rp, s\<lparr>sv_db := d1, senders := senders s @ posted (replicator s) out\<rparr>)"
    "settled (sv_db s) d1" "rep (t_commit x) d1 M1"
    "\<forall>e. fault = Some e \<longrightarrow> log_error E w_inv e \<and> rp = Reply StatusInternalServerError (ErrorText e)"
    by (auto simp: serves_def)
  let ?s1 = "s\<lparr>sv_db := d1, senders := senders s @ posted (replicator s) out\<rparr>"
  have d1: "dinv d1" "idle d1" "\<not> closed d1"
    using q(3) Cons.prems(2,3) settled_idle by (auto simp: settled_def)
  have fx: "\<forall>(x, r) \<in> set xs. http_fits J r" using Cons.prems(6) by simp
  obtain faults s' d' rps M' outs where r: "length faults = length xs"
    "spec_run J (role s) (sv_key s) (zip xs faults) M1 = (rps, M', outs)"
    "serve_all E J xs ?s1 = Some (map Ok rps, s')" "settled d1 d'" "rep (http_end (t_commit x) xs) d' M'"
    "s' = ?s1\<lparr>sv_db := d', senders := senders ?s1 @ concat (map (\<lambda>q. posted (replicator s) (Some q)) outs)\<rparr>"
    "\<forall>e. Some e \<in> set faults \<longrightarrow> log_error E w_inv e \<and> Reply StatusInternalServerError (ErrorText e) \<in> set rps"
    using Cons.IH[of ?s1 "t_commit x" M1] d1 q(4) c(3) fx by auto
  let ?outs = "case out of None \<Rightarrow> outs | Some q \<Rightarrow> q # outs"
  show ?case
  proof (intro exI[of _ "fault # faults"] exI[of _ s'] exI[of _ d'] exI[of _ "rp # rps"] exI[of _ M'] exI[of _ ?outs] conjI)
    show "length (fault # faults) = length (a # xs)" using r(1) by simp
    show "spec_run J (role s) (sv_key s) (zip (a # xs) (fault # faults)) M = (rp # rps, M', ?outs)"
      using q(1) r(2) a by simp
    show "serve_all E J (a # xs) s = Some (map Ok (rp # rps), s')" using q(2) r(3) a by simp
    show "settled (sv_db s) d'" by (rule settled_trans[OF q(3) r(4)])
    show "rep (http_end now (a # xs)) d' M'" using r(5) a by simp
    show "s' = s\<lparr>sv_db := d', senders := senders s @ concat (map (\<lambda>q. posted (replicator s) (Some q)) ?outs)\<rparr>"
      unfolding r(6) by (cases out) simp_all
  qed (use q(5) r(7) in auto)
qed

end

lemma http_spec_same:
  assumes "\<not> (rl = MASTER \<and> (Path r = str ''/put'' \<and> Method r = MethodPost
        \<or> Path r = str ''/delete'' \<and> (Method r = MethodDelete \<or> Method r = MethodPost)))"
    and "\<not> (Path r = str ''/sync'' \<and> Method r = MethodPost \<and> (key = [] \<or> SyncKeyHeader r = key))"
    and "http_spec now fault J rl key r M = (rp, M', out)"
  shows "M' = M" and "out = None"
  using assms
  by (auto simp: http_spec_def refuse_def write_spec_def kv_step_def split: if_splits option.splits prod.splits)

section \<open>Properties\<close>

text \<open>
  Property C10. Every run of requests on a server over an open database, whatever their
  paths, methods, forms and keys, is answered as the specification answers over a plain map
  with expiry times, and leaves the server with the map's contents, the same role, and the
  goroutines for exactly the successful writes, in their order. No handler panics or
  blocks. A fault of the log is answered with status 500.
\<close>

theorem server_refines_map:
  assumes "engine E bt_inv w_inv pend" and "db_inv E bt_inv w_inv pend (sv_db s)" and "idle (sv_db s)"
    and "\<not> closed (sv_db s)" and "http_clock now xs" and "\<forall>(x, r) \<in> set xs. http_fits J r"
  shows "\<exists>faults s' rps M' outs. length faults = length xs
      \<and> spec_run J (role s) (sv_key s) (zip xs faults) (db_map E (sv_db s)) = (rps, M', outs)
      \<and> serve_all E J xs s = Some (map Ok rps, s')
      \<and> db_inv E bt_inv w_inv pend (sv_db s') \<and> idle (sv_db s') \<and> role s' = role s
      \<and> (\<forall>t. sint (http_end now xs) \<le> sint t \<longrightarrow> db_view E t (sv_db s') = kv_at t M')
      \<and> senders s' = senders s @ concat (map (\<lambda>q. posted (replicator s) (Some q)) outs)
      \<and> (\<forall>e. Some e \<in> set faults \<longrightarrow> log_error E w_inv e \<and> Reply StatusInternalServerError (ErrorText e) \<in> set rps)"
proof -
  from engine.serve_all_refines[OF assms(1-4) engine.rep_db_map[OF assms(1,2)] assms(5,6)]
  obtain faults s' d' rps M' outs where r: "length faults = length xs"
    "spec_run J (role s) (sv_key s) (zip xs faults) (db_map E (sv_db s)) = (rps, M', outs)"
    "serve_all E J xs s = Some (map Ok rps, s')"
    "engine.settled E bt_inv w_inv pend (sv_db s) d'" "engine.rep E (http_end now xs) d' M'"
    "s' = s\<lparr>sv_db := d', senders := senders s @ concat (map (\<lambda>q. posted (replicator s) (Some q)) outs)\<rparr>"
    "\<forall>e. Some e \<in> set faults \<longrightarrow> log_error E w_inv e \<and> Reply StatusInternalServerError (ErrorText e) \<in> set rps"
    by blast
  have "db_inv E bt_inv w_inv pend d'" "idle d'"
    using r(4) assms(3) engine.settled_idle[OF assms(1) r(4)] by (simp_all add: engine.settled_def[OF assms(1)])
  moreover have "\<forall>t. sint (http_end now xs) \<le> sint t \<longrightarrow> db_view E t d' = kv_at t M'"
    using r(5) by (simp add: engine.rep_def[OF assms(1)])
  ultimately show ?thesis using r(1-3,6,7) by auto
qed

text \<open>A form, a master with one slave, and a run with a write, a read and a refused request.\<close>

definition form_request :: "bytes \<Rightarrow> bytes \<Rightarrow> form_values \<Rightarrow> http_request" where
  "form_request m p v = \<lparr>Method = m, Path = p, RawQuery = [], SyncKeyHeader = [], Body = Urlencoded (Encode v)\<rparr>"

definition query_request :: "bytes \<Rightarrow> bytes \<Rightarrow> form_values \<Rightarrow> http_request" where
  "query_request m p v = \<lparr>Method = m, Path = p, RawQuery = Encode v, SyncKeyHeader = [], Body = Opaque []\<rparr>"

definition put_request :: "bytes \<Rightarrow> bytes \<Rightarrow> http_request" where
  "put_request k v = form_request MethodPost (str ''/put'') [(str ''key'', k), (str ''value'', v)]"

definition get_request :: "bytes \<Rightarrow> http_request" where
  "get_request k = query_request MethodGet (str ''/get'') [(str ''key'', k)]"

definition ticket_at :: "uint64 \<Rightarrow> int64 \<Rightarrow> ticket" where
  "ticket_at i t = \<lparr>batch_id = i, t_op = t, t_op2 = t, t_commit = t\<rparr>"

definition ref_master :: "(item list, list_wal) server" where
  "ref_master = NewServer ref_db (Some (NewReplicator [[9]] [7])) []"

definition web_run :: "(ticket \<times> http_request) list" where
  "web_run = [(ticket_at 1 1, put_request [107] [65, 38]), (ticket_at 2 2, get_request [107]),
              (ticket_at 3 3, form_request MethodGet (str ''/put'') [])]"

text \<open>A test that the requests of an example fit.\<close>

definition small_request :: "json_ops \<Rightarrow> http_request \<Rightarrow> bool" where
  "small_request J r \<longleftrightarrow> length (FormValue r (str ''key'')) \<le> 9 \<and> length (FormValue r (str ''value'')) \<le> 9
      \<and> length (delete_key r) \<le> 9 \<and> decode_sync J (Body r) = None"

lemma small_request_fits: "small_request J r \<Longrightarrow> http_fits J r"
  by (auto simp: small_request_def http_fits_def value_fits_def maxLogRecordHeaderSize_def)

lemma web_run_ok: "http_clock 0 web_run" "\<forall>(x, r) \<in> set web_run. http_fits ref_json r"
proof -
  show "http_clock 0 web_run" by code_simp
  have "list_all (\<lambda>(x, r). small_request ref_json r) web_run" by code_simp
  then show "\<forall>(x, r) \<in> set web_run. http_fits ref_json r"
    by (auto simp: list_all_iff intro: small_request_fits)
qed

theorem server_refines_map_witness:
  "\<exists>faults s' rps M' outs. spec_run ref_json MASTER [] (zip web_run faults) (db_map ref_env ref_db) = (rps, M', outs)
     \<and> serve_all ref_env ref_json web_run ref_master = Some (map Ok rps, s')
     \<and> map status_of rps = [200, 200, 405] \<and> length (senders s') = 1"
proof -
  have i: "idle (sv_db ref_master)" "\<not> closed (sv_db ref_master)" "db_inv ref_env sorted_items list_wal_inv lw_pending (sv_db ref_master)"
    using ref_db_inv by (simp_all add: ref_master_def NewServer_def idle_def ref_db_def)
  have e: "(case serve_all ref_env ref_json web_run ref_master of
       Some (rps, s) \<Rightarrow> map (\<lambda>r. case r of Ok rp \<Rightarrow> status_of rp | _ \<Rightarrow> 0) rps = [200, 200, 405] \<and> length (senders s) = 1
     | None \<Rightarrow> False)"
    by code_simp
  from server_refines_map[OF ref.engine_axioms i(3,1,2) web_run_ok] e show ?thesis
    by (fastforce simp: ref_master_def NewServer_def comp_def)
qed

text \<open>
  Property C20. What readers of a server see changes in three ways only: a POST of
  \<open>/put\<close> or a DELETE or POST of \<open>/delete\<close> while the role is MASTER, and a POST of
  \<open>/sync\<close> with the right key (or on a server without a key), in any role. No request
  changes the role, and requests for the slaves come from the first two only.
\<close>

theorem writes_are_authorised:
  assumes "engine E bt_inv w_inv pend" and "db_inv E bt_inv w_inv pend (sv_db s)" and "idle (sv_db s)"
    and "\<not> closed (sv_db s)" and "sint (t_op x) \<le> sint (t_commit x)" and "http_fits J r"
    and "ServeHTTP E J x r s = Some (rp, s')"
  shows "role s' = role s
     \<and> ((\<exists>t k. sint (t_commit x) \<le> sint t \<and> db_view E t (sv_db s') k \<noteq> db_view E t (sv_db s) k)
           \<or> senders s' \<noteq> senders s \<longrightarrow>
         role s = MASTER \<and> (Path r = str ''/put'' \<and> Method r = MethodPost
             \<or> Path r = str ''/delete'' \<and> (Method r = MethodDelete \<or> Method r = MethodPost))
         \<or> senders s' = senders s \<and> Path r = str ''/sync'' \<and> Method r = MethodPost
             \<and> (sv_key s = [] \<or> SyncKeyHeader r = sv_key s))"
proof -
  let ?M = "db_map E (sv_db s)"
  have "engine.ready E bt_inv w_inv pend x s ?M"
    using assms(2-5) engine.rep_db_map[OF assms(1,2)] by (simp add: engine.ready_def[OF assms(1)])
  from engine.server_serves[OF assms(1) this assms(6)] obtain fault rp1 M' out d' where q:
    "http_spec (t_op x) fault J (role s) (sv_key s) r ?M = (rp1, M', out)"
    "s' = s\<lparr>sv_db := d', senders := senders s @ posted (replicator s) out\<rparr>"
    "engine.rep E (t_commit x) d' M'"
    using assms(7) by (auto simp: engine.serves_def[OF assms(1)])
  have v: "db_view E t (sv_db s') = kv_at t M'" if "sint (t_commit x) \<le> sint t" for t
    using q(2,3) that by (simp add: engine.rep_def[OF assms(1)])
  have v0: "db_view E t (sv_db s) = kv_at t ?M" for t
    using engine.rep_db_map[OF assms(1,2), of t] by (simp add: engine.rep_def[OF assms(1)])
  have sync: "out = None" if "Path r = str ''/sync''"
    using q(1) that by (auto simp: http_spec_def refuse_def write_spec_def split: if_splits option.splits prod.splits)
  have "role s' = role s" using q(2) by simp
  moreover have "(\<exists>t k. sint (t_commit x) \<le> sint t \<and> db_view E t (sv_db s') k \<noteq> db_view E t (sv_db s) k)
           \<or> senders s' \<noteq> senders s \<longrightarrow>
         role s = MASTER \<and> (Path r = str ''/put'' \<and> Method r = MethodPost
             \<or> Path r = str ''/delete'' \<and> (Method r = MethodDelete \<or> Method r = MethodPost))
         \<or> senders s' = senders s \<and> Path r = str ''/sync'' \<and> Method r = MethodPost
             \<and> (sv_key s = [] \<or> SyncKeyHeader r = sv_key s)" (is "?l \<longrightarrow> ?a \<or> _ \<and> ?b")
  proof (cases "?a \<or> ?b")
    case True
    then show ?thesis using sync q(2) by auto
  next
    case False
    then have "M' = ?M" "out = None" using http_spec_same[of "role s" r "sv_key s", OF _ _ q(1)] by auto
    then show ?thesis using v v0 q(2) by auto
  qed
  ultimately show ?thesis by blast
qed

definition ref_slave :: "(item list, list_wal) server" where
  "ref_slave = SetRole SLAVE (NewServer ref_db None [7])"

lemma ref_slave_ok:
  "idle (sv_db ref_slave)" "\<not> closed (sv_db ref_slave)" "db_inv ref_env sorted_items list_wal_inv lw_pending (sv_db ref_slave)"
  using ref_db_inv by (simp_all add: ref_slave_def SetRole_def NewServer_def idle_def ref_db_def)

theorem writes_are_authorised_witness:
  "\<exists>s'. ServeHTTP ref_env ref_json (ticket_at 1 1) (put_request [107] [65, 38]) ref_slave
        = Some (Ok (Reply 403 (Message ''Forbidden: Only MASTER node can accept write requests'')), s')
     \<and> (\<forall>t k. 1 \<le> sint t \<longrightarrow> db_view ref_env t (sv_db s') k = db_view ref_env t (sv_db ref_slave) k)"
proof -
  let ?r = "put_request [107] [65, 38]"
  have e: "map_option fst (ServeHTTP ref_env ref_json (ticket_at 1 1) ?r ref_slave)
      = Some (Ok (Reply 403 (Message ''Forbidden: Only MASTER node can accept write requests'')))"
    by code_simp
  then obtain s' where s: "ServeHTTP ref_env ref_json (ticket_at 1 1) ?r ref_slave
      = Some (Ok (Reply 403 (Message ''Forbidden: Only MASTER node can accept write requests'')), s')" by auto
  have f: "http_fits ref_json ?r" using web_run_ok(2) by (simp add: web_run_def)
  have t: "sint (t_op (ticket_at 1 1)) \<le> sint (t_commit (ticket_at 1 1))" by (simp add: ticket_at_def)
  have p: "role ref_slave \<noteq> MASTER" "Path ?r \<noteq> str ''/sync''"
    by (simp_all add: ref_slave_def SetRole_def put_request_def form_request_def str_def SLAVE_def MASTER_def)
  from writes_are_authorised[OF ref.engine_axioms ref_slave_ok(3,1,2) t f s] p s show ?thesis
    by (auto simp: ticket_at_def)
qed

end
