(* ===== verification/Failover.thy ===== *)
theory Failover
  imports Server_Spec "HOL-Library.Sublist"
begin

text \<open>
  \<^verbatim>\<open>server/failover.go\<close>: the heartbeat worker of a slave, which asks the master for its
  health at every tick and promotes the slave after three failures in a row, and how it
  meets the requests that the slave serves between the ticks.
\<close>

section \<open>The worker\<close>

text \<open>What \<open>client.Get\<close> and the decoding of its body give: the status, or a failure.\<close>

datatype probe = ConnectionError | Undecodable | HealthStatus bytes

text \<open>
  The state of the goroutine is its count of failures, \<open>None\<close> when it does not run.
\<close>

type_synonym worker = "nat option"

definition StartHeartbeatWorker :: "bytes \<Rightarrow> ('t, 'w) server \<Rightarrow> ('t, 'w) server \<times> worker" where
  "StartHeartbeatWorker masterURL s = (if masterURL = [] then (s, None) else (SetRole SLAVE s, Some 0))"

definition count_failure :: "nat \<Rightarrow> ('t, 'w) server \<Rightarrow> ('t, 'w) server \<times> worker" where
  "count_failure consecutiveFailures s =
     (let n = consecutiveFailures + 1 in if 3 \<le> n then (SetRole MASTER s, None) else (s, Some n))"

definition heartbeat :: "probe \<Rightarrow> nat \<Rightarrow> ('t, 'w) server \<Rightarrow> ('t, 'w) server \<times> worker" where
  "heartbeat p consecutiveFailures s =
     (if GetRole s = MASTER then (s, None)
      else case p of
             ConnectionError \<Rightarrow> count_failure consecutiveFailures s
           | Undecodable \<Rightarrow> count_failure consecutiveFailures s
           | HealthStatus status \<Rightarrow>
               if status = str ''OK'' then (s, Some 0) else count_failure consecutiveFailures s)"

text \<open>
  The answer of a server to the worker. The worker does not look at the status code, nor
  at the role that the answer reports.
\<close>

definition health_request :: http_request where
  "health_request = \<lparr>Method = MethodGet, Path = str ''/health'', RawQuery = [], SyncKeyHeader = [], Body = Opaque []\<rparr>"

definition probe_of :: "('t, 'w) env \<Rightarrow> json_ops \<Rightarrow> ticket \<Rightarrow> bool \<Rightarrow> ('t, 'w) server \<Rightarrow> probe" where
  "probe_of E J x connected s =
     (if \<not> connected then ConnectionError
      else case ServeHTTP E J x health_request s of
             Some (Ok (Reply n (HealthReport status rl)), s') \<Rightarrow> HealthStatus status
           | _ \<Rightarrow> Undecodable)"

section \<open>A node with a worker\<close>

datatype node_event = Tick probe | Request ticket http_request

fun node_run ::
    "('t, 'w) env \<Rightarrow> json_ops \<Rightarrow> node_event list \<Rightarrow> ('t, 'w) server \<Rightarrow> worker \<Rightarrow> (('t, 'w) server \<times> worker) option" where
  "node_run E J [] s w = Some (s, w)"
| "node_run E J (Tick p # evs) s w =
     (case w of
        None \<Rightarrow> node_run E J evs s None
      | Some n \<Rightarrow> (case heartbeat p n s of (s', w') \<Rightarrow> node_run E J evs s' w'))"
| "node_run E J (Request x r # evs) s w =
     (case ServeHTTP E J x r s of None \<Rightarrow> None | Some (rp, s') \<Rightarrow> node_run E J evs s' w)"

fun probes :: "node_event list \<Rightarrow> probe list" where
  "probes [] = []"
| "probes (Tick p # evs) = p # probes evs"
| "probes (Request x r # evs) = probes evs"

fun failing :: "probe \<Rightarrow> bool" where
  "failing (HealthStatus status) = (status \<noteq> str ''OK'')"
| "failing _ = True"

section \<open>Promotion\<close>

lemma serve_role:
  assumes "ServeHTTP E J x r s = Some (rp, s')"
  shows "role s' = role s"
  using assms
  by (auto simp: ServeHTTP_def handlePut_def handleGet_def handleDelete_def handleHealth_def handleKeys_def
      handleAdmin_def handleSync_def reply_with_def Let_def
      split: if_splits option.splits prod.splits result.splits)

lemma heartbeat_cases:
  assumes "role s \<noteq> MASTER"
  shows "heartbeat p n s = (if \<not> failing p then (s, Some 0) else if n < 2 then (s, Some (n + 1)) else (SetRole MASTER s, None))"
  using assms by (cases p) (auto simp: heartbeat_def count_failure_def GetRole_def Let_def)

text \<open>Three failures in a row, after \<open>n\<close> earlier ones.\<close>

fun three_failures :: "nat \<Rightarrow> probe list \<Rightarrow> bool" where
  "three_failures n [] = False"
| "three_failures n (p # ps) =
     (if \<not> failing p then three_failures 0 ps else if n < 2 then three_failures (n + 1) ps else True)"

lemma stopped_run:
  "node_run E J evs s None = Some (s', w') \<Longrightarrow> role s' = role s \<and> w' = None"
proof (induction evs arbitrary: s)
  case (Cons ev evs)
  show ?case
  proof (cases ev)
    case (Tick p)
    then show ?thesis using Cons by simp
  next
    case (Request x r)
    then obtain rp s1 where h: "ServeHTTP E J x r s = Some (rp, s1)" "node_run E J evs s1 None = Some (s', w')"
      using Cons.prems by (auto split: option.splits)
    show ?thesis using Cons.IH[OF h(2)] serve_role[OF h(1)] by simp
  qed
qed simp

lemma worker_run:
  assumes "role s \<noteq> MASTER" and "node_run E J evs s (Some n) = Some (s', w')" and "n < 3"
  shows "if three_failures n (probes evs) then role s' = MASTER \<and> w' = None else role s' = role s \<and> w' \<noteq> None"
  using assms
proof (induction evs arbitrary: s n)
  case Nil
  then show ?case by auto
next
  case (Cons ev evs)
  show ?case
  proof (cases ev)
    case (Request x r)
    then obtain rp s1 where h: "ServeHTTP E J x r s = Some (rp, s1)" "node_run E J evs s1 (Some n) = Some (s', w')"
      using Cons.prems(2) by (auto split: option.splits)
    show ?thesis using Cons.IH[OF _ h(2) Cons.prems(3)] serve_role[OF h(1)] Cons.prems(1) Request by simp
  next
    case (Tick p)
    note hb = heartbeat_cases[OF Cons.prems(1), of p n]
    consider "\<not> failing p" | "failing p" "n < 2" | "failing p" "\<not> n < 2" by blast
    then show ?thesis
    proof cases
      case 1
      then show ?thesis using Cons.IH[OF Cons.prems(1), of 0] Cons.prems(2) Tick hb by simp
    next
      case 2
      then show ?thesis using Cons.IH[OF Cons.prems(1), of "n + 1"] Cons.prems(2) Tick hb by simp
    next
      case 3
      then have "node_run E J evs (SetRole MASTER s) None = Some (s', w')" using Cons.prems(2) Tick hb by simp
      from stopped_run[OF this] show ?thesis using 3 Tick by (simp add: SetRole_def)
    qed
  qed
qed

lemma three_after_false:
  "n < 3 \<Longrightarrow> sublist [True, True, True] (replicate n True @ False # fs) \<longleftrightarrow> sublist [True, True, True] fs"
proof -
  assume "n < 3"
  then have "n = 0 \<or> n = 1 \<or> n = 2" by arith
  then show ?thesis by (auto simp: sublist_Cons_right numeral_2_eq_2)
qed

lemma three_failures_sublist:
  "n < 3 \<Longrightarrow> three_failures n ps \<longleftrightarrow> sublist [True, True, True] (replicate n True @ map failing ps)"
proof (induction ps arbitrary: n)
  case Nil
  then have "length (replicate n True) < length [True, True, True]" by simp
  then have "\<not> sublist [True, True, True] (replicate n True)" using sublist_length_le by (metis not_le)
  then show ?case by simp
next
  case (Cons p ps)
  consider "\<not> failing p" | "failing p" "n < 2" | "failing p" "n = 2" using Cons.prems by linarith
  then show ?case
  proof cases
    case 1
    then show ?thesis using Cons.IH[of 0] three_after_false[OF Cons.prems] by simp
  next
    case 2
    have e: "replicate n True @ True # map failing ps = replicate (n + 1) True @ map failing ps"
      by (simp add: replicate_app_Cons_same)
    have "three_failures n (p # ps) = three_failures (n + 1) ps" using 2 by simp
    also have "\<dots> = sublist [True, True, True] (replicate (n + 1) True @ map failing ps)"
      using Cons.IH[of "n + 1"] 2 by simp
    finally have h: "three_failures n (p # ps) = sublist [True, True, True] (replicate (n + 1) True @ map failing ps)" .
    have m: "map failing (p # ps) = True # map failing ps" using 2(1) by simp
    show ?thesis unfolding m e by (rule h)
  next
    case 3
    then show ?thesis by (simp add: numeral_2_eq_2 sublist_Cons_right)
  qed
qed

section \<open>Properties\<close>

text \<open>
  Property C15. A server with a worker is a slave until three probes in a row have failed
  (no connection, an answer that cannot be decoded, or a status other than OK), whatever
  requests it serves in between, and from then on a master for ever; the worker runs exactly
  as long as the server is a slave.
\<close>

theorem promoted_iff_three_failures:
  assumes "masterURL \<noteq> []" and "StartHeartbeatWorker masterURL s = (s0, w0)"
    and "node_run E J evs s0 w0 = Some (s', w')"
  shows "role s' = (if sublist [True, True, True] (map failing (probes evs)) then MASTER else SLAVE)
     \<and> (w' = None \<longleftrightarrow> role s' = MASTER)"
proof -
  have s0: "s0 = SetRole SLAVE s" "w0 = Some 0" using assms(1,2) by (simp_all add: StartHeartbeatWorker_def)
  have r: "role s0 = SLAVE" "role s0 \<noteq> MASTER" by (simp_all add: s0 SetRole_def)
  have run: "node_run E J evs s0 (Some 0) = Some (s', w')" using assms(3) s0(2) by simp
  from worker_run[OF r(2) run] three_failures_sublist[of 0 "probes evs"] r show ?thesis by (auto split: if_splits)
qed

definition slow_death :: "node_event list" where
  "slow_death = [Tick ConnectionError, Tick Undecodable, Request (ticket_at 1 1) (put_request [107] [65]),
                 Tick (HealthStatus (str ''OK'')), Tick ConnectionError, Tick (HealthStatus []), Tick Undecodable,
                 Request (ticket_at 2 2) (put_request [107] [65])]"

theorem promoted_iff_three_failures_witness:
  "\<exists>s' w'. node_run ref_env ref_json slow_death ref_slave (Some 0) = Some (s', w') \<and> role s' = MASTER \<and> w' = None
     \<and> db_view ref_env 2 (sv_db s') [107] = Some ([65], 0)"
proof -
  have e: "(case node_run ref_env ref_json slow_death ref_slave (Some 0) of None \<Rightarrow> False
    | Some (s, w) \<Rightarrow> db_view ref_env 2 (sv_db s) [107] = Some ([65], 0))"
    by code_simp
  then obtain s' w' where r: "node_run ref_env ref_json slow_death ref_slave (Some 0) = Some (s', w')"
    "db_view ref_env 2 (sv_db s') [107] = Some ([65], 0)"
    by (auto split: option.splits)
  have i: "StartHeartbeatWorker [9] (NewServer ref_db None [7]) = (ref_slave, Some 0)"
    by (simp add: StartHeartbeatWorker_def ref_slave_def)
  have "sublist [True, True, True] (map failing (probes slow_death))"
    by (simp add: slow_death_def sublist_Cons_right str_def)
  with promoted_iff_three_failures[OF _ i r(1)] r show ?thesis by simp
qed

definition lost_ticks :: "node_event list" where
  "lost_ticks = replicate 3 (Tick (probe_of ref_env ref_json (ticket_at 1 1) False ref_master))
                 @ [Request (ticket_at 2 2) (put_request [107] [66])]"

text \<open>
  Property C38. Split brain. A master that never stopped and its slave can both be MASTER: after
  three ticks without a connection the slave takes writes, the old master takes writes as
  well, both acknowledge a value for the same key, and they hold different values. When the
  connection is back, the worker does not run any more, and the master still reports OK.
\<close>

theorem split_brain:
  "\<exists>m v rp s' w'.
     ServeHTTP ref_env ref_json (ticket_at 2 2) (put_request [107] [65]) ref_master = Some (Ok rp, m)
     \<and> status_of rp = StatusOK \<and> role m = MASTER
     \<and> node_run ref_env ref_json lost_ticks ref_slave (Some 0) = Some (s', w') \<and> role s' = MASTER \<and> w' = None
     \<and> probe_of ref_env ref_json (ticket_at 3 3) True m = HealthStatus (str ''OK'')
     \<and> db_view ref_env 3 (sv_db m) [107] = Some ([65], 0)
     \<and> db_view ref_env 3 (sv_db s') [107] = Some ([66], 0)"
proof -
  have e: "(case (ServeHTTP ref_env ref_json (ticket_at 2 2) (put_request [107] [65]) ref_master,
              node_run ref_env ref_json lost_ticks ref_slave (Some 0)) of
          (Some (Ok rp, m), Some (s', w')) \<Rightarrow>
            status_of rp = StatusOK \<and> role m = MASTER \<and> role s' = MASTER \<and> w' = None
            \<and> probe_of ref_env ref_json (ticket_at 3 3) True m = HealthStatus (str ''OK'')
            \<and> db_view ref_env 3 (sv_db m) [107] = Some ([65], 0)
            \<and> db_view ref_env 3 (sv_db s') [107] = Some ([66], 0)
        | _ \<Rightarrow> False)"
    by code_simp
  have "ServeHTTP ref_env ref_json (ticket_at 2 2) (put_request [107] [65]) ref_master \<noteq> None" by code_simp
  then obtain res m where m: "ServeHTTP ref_env ref_json (ticket_at 2 2) (put_request [107] [65]) ref_master = Some (res, m)"
    by auto
  have "node_run ref_env ref_json lost_ticks ref_slave (Some 0) \<noteq> None" by code_simp
  then obtain s' w' where "node_run ref_env ref_json lost_ticks ref_slave (Some 0) = Some (s', w')" by auto
  with e m show ?thesis by (cases res) auto
qed

end
