(* ===== verification/Ring.thy ===== *)
theory Ring
  imports Prelude "HOL-Library.Multiset"
begin

text \<open>
  \<^verbatim>\<open>sharding/consistent_hash.go\<close>: the consistent hash ring of the sharding proxy, with
  its default hash CRC-32 and the binary search of Go's \<open>sort\<close> package.
\<close>

unbundle bit_operations_syntax

section \<open>From the standard library\<close>

text \<open>\<open>crc32.ChecksumIEEE\<close>, bit by bit.\<close>

definition crc32_bit :: "uint32 \<Rightarrow> uint32" where
  "crc32_bit c = (if c AND 1 = 1 then drop_bit 1 c XOR 0xEDB88320 else drop_bit 1 c)"

definition crc32_byte :: "uint32 \<Rightarrow> byte \<Rightarrow> uint32" where
  "crc32_byte c b = (crc32_bit ^^ 8) (c XOR ucast b)"

definition crc32_ChecksumIEEE :: "bytes \<Rightarrow> uint32" where
  "crc32_ChecksumIEEE data = NOT (foldl crc32_byte 0xFFFFFFFF data)"

text \<open>\<open>sort.SearchInts\<close>: the loop of \<open>sort.Search\<close> with the test \<open>a[h] >= x\<close>.\<close>

function search_loop :: "int list \<Rightarrow> int \<Rightarrow> nat \<Rightarrow> nat \<Rightarrow> nat" where
  "search_loop a x i j =
     (if i < j
      then (let h = (i + j) div 2 in
            if \<not> x \<le> a ! h then search_loop a x (h + 1) j else search_loop a x i h)
      else i)"
  by pat_completeness auto
termination
  by (relation "measure (\<lambda>(a, x, i, j). j - i)") auto

declare search_loop.simps [simp del]

definition SearchInts :: "int list \<Rightarrow> int \<Rightarrow> nat" where
  "SearchInts a x = search_loop a x 0 (length a)"

text \<open>\<open>fmt.Sprintf("%d%s", i, node)\<close> for \<open>i\<close> not negative.\<close>

fun decimal :: "nat \<Rightarrow> bytes" where
  "decimal n = (if n < 10 then [48 + of_nat n] else decimal (n div 10) @ [48 + of_nat (n mod 10)])"

declare decimal.simps [simp del]

section \<open>The ring\<close>

record ConsistentHashRing =
  hashFunc :: "bytes \<Rightarrow> uint32"
  replicas :: int
  ring_keys :: "int list"
  hashMap :: "(int \<times> bytes) list"

definition New :: "int \<Rightarrow> (bytes \<Rightarrow> uint32) option \<Rightarrow> ConsistentHashRing" where
  "New reps fn =
     \<lparr>hashFunc = (case fn of None \<Rightarrow> crc32_ChecksumIEEE | Some f \<Rightarrow> f), replicas = reps,
      ring_keys = [], hashMap = []\<rparr>"

definition virtual_hash :: "ConsistentHashRing \<Rightarrow> bytes \<Rightarrow> nat \<Rightarrow> int" where
  "virtual_hash r node i = uint (hashFunc r (decimal i @ node))"

definition add_virtual :: "bytes \<Rightarrow> ConsistentHashRing \<Rightarrow> nat \<Rightarrow> ConsistentHashRing" where
  "add_virtual node r i =
     (let h = virtual_hash r node i
      in r\<lparr>ring_keys := ring_keys r @ [h], hashMap := AList.update h node (hashMap r)\<rparr>)"

definition add_one :: "ConsistentHashRing \<Rightarrow> bytes \<Rightarrow> ConsistentHashRing" where
  "add_one r node = foldl (add_virtual node) r [0..<nat (replicas r)]"

definition AddNode :: "bytes list \<Rightarrow> ConsistentHashRing \<Rightarrow> ConsistentHashRing" where
  "AddNode nodes r = (let r = foldl add_one r nodes in r\<lparr>ring_keys := sort (ring_keys r)\<rparr>)"

definition remove_virtual :: "bytes \<Rightarrow> ConsistentHashRing \<Rightarrow> nat \<Rightarrow> ConsistentHashRing" where
  "remove_virtual node r i =
     (let h = virtual_hash r node i;
          idx = SearchInts (ring_keys r) h;
          keys = (if idx < length (ring_keys r) \<and> ring_keys r ! idx = h
                  then take idx (ring_keys r) @ drop (idx + 1) (ring_keys r) else ring_keys r)
      in r\<lparr>ring_keys := keys, hashMap := AList.delete h (hashMap r)\<rparr>)"

definition RemoveNode :: "bytes \<Rightarrow> ConsistentHashRing \<Rightarrow> ConsistentHashRing" where
  "RemoveNode node r = foldl (remove_virtual node) r [0..<nat (replicas r)]"

definition ring_IsEmpty :: "ConsistentHashRing \<Rightarrow> bool" where
  "ring_IsEmpty r \<longleftrightarrow> length (ring_keys r) = 0"

definition GetNode :: "bytes \<Rightarrow> ConsistentHashRing \<Rightarrow> bytes" where
  "GetNode key r =
     (if ring_IsEmpty r then []
      else (let hash = uint (hashFunc r key);
                idx = SearchInts (ring_keys r) hash;
                idx = (if idx = length (ring_keys r) then 0 else idx)
            in case map_of (hashMap r) (ring_keys r ! idx) of None \<Rightarrow> [] | Some n \<Rightarrow> n))"

section \<open>Binary search\<close>

lemma search_loop_spec:
  assumes "sorted a" and "i \<le> j" and "j \<le> length a"
    and "\<And>k. k < i \<Longrightarrow> a ! k < x" and "\<And>k. j \<le> k \<Longrightarrow> k < length a \<Longrightarrow> x \<le> a ! k"
  shows "search_loop a x i j \<le> length a \<and> (\<forall>k < search_loop a x i j. a ! k < x)
     \<and> (\<forall>k. search_loop a x i j \<le> k \<longrightarrow> k < length a \<longrightarrow> x \<le> a ! k)"
  using assms
proof (induction a x i j rule: search_loop.induct)
  case (1 a x i j)
  define h where "h = (i + j) div 2"
  show ?case
  proof (cases "i < j")
    case False
    then have "search_loop a x i j = i" by (simp add: search_loop.simps)
    then show ?thesis using 1(3-7) False by auto
  next
    case True
    then have h: "i \<le> h" "h < j" by (simp_all add: h_def)
    show ?thesis
    proof (cases "x \<le> a ! h")
      case le: True
      have e: "search_loop a x i j = search_loop a x i h"
        using True le by (subst search_loop.simps) (simp add: h_def)
      have "x \<le> a ! k" if "h \<le> k" "k < length a" for k
        using le sorted_nth_mono[OF 1(3) that] by simp
      then show ?thesis
        unfolding e using 1(2)[OF True, of h] le h 1(3-7) by (simp add: h_def)
    next
      case lt: False
      have e: "search_loop a x i j = search_loop a x (h + 1) j"
        using True lt by (subst search_loop.simps) (simp add: h_def)
      have "a ! k < x" if "k < h + 1" for k
        using lt sorted_nth_mono[OF 1(3), of k h] that h 1(5) by simp
      then show ?thesis
        unfolding e using 1(1)[OF True, of h] lt h 1(3-7) by (simp add: h_def)
    qed
  qed
qed

lemma SearchInts_spec:
  assumes "sorted a"
  shows "SearchInts a x \<le> length a" and "k < SearchInts a x \<Longrightarrow> a ! k < x"
    and "SearchInts a x \<le> k \<Longrightarrow> k < length a \<Longrightarrow> x \<le> a ! k"
  using search_loop_spec[OF assms, of 0 "length a" x] by (simp_all add: SearchInts_def)

lemma SearchInts_found:
  assumes "sorted a"
  shows "SearchInts a x < length a \<and> a ! SearchInts a x = x \<longleftrightarrow> x \<in> set a"
proof
  assume "x \<in> set a"
  then obtain k where k: "k < length a" "a ! k = x" by (auto simp: in_set_conv_nth)
  have le: "SearchInts a x \<le> k"
    using SearchInts_spec(2)[OF assms, of k x] k(2) by (metis not_le order_less_irrefl)
  then have "x \<le> a ! SearchInts a x" using SearchInts_spec(3)[OF assms, of x "SearchInts a x"] k(1) by simp
  moreover have "a ! SearchInts a x \<le> x" using sorted_nth_mono[OF assms le k(1)] k(2) by simp
  ultimately show "SearchInts a x < length a \<and> a ! SearchInts a x = x" using le k(1) by simp
next
  assume "SearchInts a x < length a \<and> a ! SearchInts a x = x"
  then show "x \<in> set a" by (metis nth_mem)
qed

text \<open>The first point at or after a hash, going round.\<close>

definition successor :: "int set \<Rightarrow> int \<Rightarrow> int" where
  "successor S h = (if \<exists>p \<in> S. h \<le> p then Min {p \<in> S. h \<le> p} else Min S)"

lemma search_successor:
  assumes "sorted a" and "a \<noteq> []"
  shows "a ! (if SearchInts a h = length a then 0 else SearchInts a h) = successor (set a) h"
proof (cases "SearchInts a h = length a")
  case True
  have no: "\<not> (\<exists>p \<in> set a. h \<le> p)"
    using SearchInts_spec(2)[OF assms(1), of _ h] True by (force simp: in_set_conv_nth)
  have "Min (set a) = a ! 0"
  proof (rule Min_eqI)
    show "a ! 0 \<le> p" if "p \<in> set a" for p
      using that sorted_nth_mono[OF assms(1), of 0] by (auto simp: in_set_conv_nth)
  qed (use assms(2) in auto)
  then show ?thesis using True no unfolding successor_def by simp
next
  case False
  then have lt: "SearchInts a h < length a" using SearchInts_spec(1)[OF assms(1), of h] by simp
  have le: "h \<le> a ! SearchInts a h" using SearchInts_spec(3)[OF assms(1) _ lt] by simp
  have "Min {p \<in> set a. h \<le> p} = a ! SearchInts a h"
  proof (rule Min_eqI)
    fix p
    assume "p \<in> {p \<in> set a. h \<le> p}"
    then obtain k where k: "k < length a" "a ! k = p" "h \<le> p" by (auto simp: in_set_conv_nth)
    then have "SearchInts a h \<le> k" using SearchInts_spec(2)[OF assms(1), of k h] by force
    then show "a ! SearchInts a h \<le> p" using sorted_nth_mono[OF assms(1) _ k(1)] k(2) by simp
  qed (use lt le in auto)
  then show ?thesis using False lt le nth_mem[OF lt] unfolding successor_def by auto
qed

section \<open>What adding and removing do to the points\<close>

definition virtual_hashes :: "ConsistentHashRing \<Rightarrow> bytes \<Rightarrow> int list" where
  "virtual_hashes r node = map (virtual_hash r node) [0..<nat (replicas r)]"

definition owner :: "ConsistentHashRing \<Rightarrow> int \<Rightarrow> bytes option" where
  "owner r = map_of (hashMap r)"

text \<open>The points are sorted and each has an owner.\<close>

definition ring_inv :: "ConsistentHashRing \<Rightarrow> bool" where
  "ring_inv r \<longleftrightarrow> sorted (ring_keys r) \<and> set (ring_keys r) = dom (owner r)"

definition same_ring :: "ConsistentHashRing \<Rightarrow> ConsistentHashRing \<Rightarrow> bool" where
  "same_ring r r' \<longleftrightarrow> hashFunc r' = hashFunc r \<and> replicas r' = replicas r"

lemma virtual_hash_cong: "hashFunc r' = hashFunc r \<Longrightarrow> virtual_hash r' node i = virtual_hash r node i"
  by (simp add: virtual_hash_def)

lemma virtual_hashes_cong: "same_ring r r' \<Longrightarrow> virtual_hashes r' node = virtual_hashes r node"
  by (simp add: virtual_hashes_def same_ring_def virtual_hash_cong[of r' r] cong: map_cong)

lemma add_virtuals:
  "let r' = foldl (add_virtual node) r ns in
     same_ring r r' \<and> ring_keys r' = ring_keys r @ map (virtual_hash r node) ns
     \<and> owner r' = (\<lambda>h. if h \<in> set (map (virtual_hash r node) ns) then Some node else owner r h)"
proof (induction ns arbitrary: r)
  case Nil
  then show ?case by (simp add: same_ring_def)
next
  case (Cons i ns)
  let ?r = "add_virtual node r i"
  have r: "same_ring r ?r" "ring_keys ?r = ring_keys r @ [virtual_hash r node i]"
    "owner ?r = (owner r)(virtual_hash r node i \<mapsto> node)"
    by (simp_all add: add_virtual_def Let_def same_ring_def owner_def update_conv')
  have v: "virtual_hash ?r node = virtual_hash r node"
    using r(1) by (intro ext virtual_hash_cong) (simp add: same_ring_def)
  show ?case
    using Cons.IH[of ?r] r by (auto simp: Let_def v same_ring_def fun_eq_iff)
qed

lemma add_one_spec:
  shows "same_ring r (add_one r node)" and "ring_keys (add_one r node) = ring_keys r @ virtual_hashes r node"
    and "owner (add_one r node) h = (if h \<in> set (virtual_hashes r node) then Some node else owner r h)"
  using add_virtuals[of node r "[0..<nat (replicas r)]"]
  by (simp_all add: Let_def add_one_def virtual_hashes_def)

lemma AddNode_one:
  shows "same_ring r (AddNode [node] r)" and "ring_keys (AddNode [node] r) = sort (ring_keys r @ virtual_hashes r node)"
    and "owner (AddNode [node] r) h = (if h \<in> set (virtual_hashes r node) then Some node else owner r h)"
  using add_one_spec[of r node] by (simp_all add: AddNode_def Let_def same_ring_def owner_def)

lemma AddNode_inv:
  assumes "set (ring_keys r) = dom (owner r)"
  shows "ring_inv (AddNode nodes r)"
proof -
  have "set (ring_keys (foldl add_one r nodes)) = dom (owner (foldl add_one r nodes))"
    using assms
  proof (induction nodes arbitrary: r)
    case Nil
    then show ?case by simp
  next
    case (Cons n nodes)
    have "set (ring_keys (add_one r n)) = dom (owner (add_one r n))"
      using Cons.prems add_one_spec(2,3)[of r n] by (auto simp: dom_def)
    from Cons.IH[OF this] show ?case by simp
  qed
  then show ?thesis by (simp add: AddNode_def Let_def ring_inv_def owner_def)
qed

lemma GetNode_owner:
  assumes "ring_inv r" and "\<not> ring_IsEmpty r"
  shows "owner r (successor (set (ring_keys r)) (uint (hashFunc r key))) = Some (GetNode key r)"
proof -
  let ?h = "uint (hashFunc r key)"
  let ?i = "if SearchInts (ring_keys r) ?h = length (ring_keys r) then 0 else SearchInts (ring_keys r) ?h"
  have s: "sorted (ring_keys r)" and d: "set (ring_keys r) = dom (owner r)" and ne: "ring_keys r \<noteq> []"
    using assms by (simp_all add: ring_inv_def ring_IsEmpty_def)
  have e: "ring_keys r ! ?i = successor (set (ring_keys r)) ?h" by (rule search_successor[OF s ne])
  have "?i < length (ring_keys r)" using SearchInts_spec(1)[OF s, of ?h] ne by auto
  then have "ring_keys r ! ?i \<in> dom (owner r)" using d nth_mem by metis
  then obtain n where "owner r (ring_keys r ! ?i) = Some n" by blast
  moreover from this have "GetNode key r = n"
    using assms(2) by (simp add: GetNode_def owner_def)
  ultimately show ?thesis unfolding e by simp
qed

lemma successor_in:
  assumes "finite S" and "S \<noteq> {}"
  shows "successor S h \<in> S"
proof (cases "\<exists>p \<in> S. h \<le> p")
  case True
  then have "Min {p \<in> S. h \<le> p} \<in> {p \<in> S. h \<le> p}" using assms(1) by (intro Min_in) auto
  then show ?thesis using True by (simp add: successor_def)
next
  case False
  then show ?thesis using assms by (simp add: successor_def)
qed

text \<open>A point that stays first among more points was first among fewer.\<close>

lemma successor_subset:
  assumes f: "finite T" and st: "S \<subseteq> T" and s: "successor T h \<in> S"
  shows "successor S h = successor T h"
proof (cases "\<exists>p \<in> T. h \<le> p")
  case True
  have m: "Min {p \<in> T. h \<le> p} \<in> {p \<in> T. h \<le> p}" using f True by (intro Min_in) auto
  then have sm: "successor T h \<in> {p \<in> S. h \<le> p}" using True s by (simp add: successor_def)
  have "Min {p \<in> S. h \<le> p} = Min {p \<in> T. h \<le> p}"
  proof (rule Min_eqI)
    show "finite {p \<in> S. h \<le> p}" using f st by (auto intro: finite_subset)
    show "Min {p \<in> T. h \<le> p} \<le> y" if "y \<in> {p \<in> S. h \<le> p}" for y using that f st by (intro Min_le) auto
    show "Min {p \<in> T. h \<le> p} \<in> {p \<in> S. h \<le> p}" using sm True by (simp add: successor_def)
  qed
  then show ?thesis using True sm by (auto simp: successor_def)
next
  case False
  then have nS: "\<not> (\<exists>p \<in> S. h \<le> p)" using st by blast
  have "Min S = Min T"
  proof (rule Min_eqI)
    show "finite S" using f st by (rule finite_subset[rotated])
    show "Min T \<le> y" if "y \<in> S" for y using that f st by (intro Min_le) auto
    show "Min T \<in> S" using s False by (simp add: successor_def)
  qed
  then show ?thesis using False nS by (simp add: successor_def)
qed

section \<open>Removing a node\<close>

lemma remove_virtual_keys:
  assumes "sorted (ring_keys r)"
  shows "mset (ring_keys (remove_virtual node r i)) = mset (ring_keys r) - {#virtual_hash r node i#}"
    and "sorted (ring_keys (remove_virtual node r i))"
    and "owner (remove_virtual node r i) = (owner r)(virtual_hash r node i := None)"
    and "same_ring r (remove_virtual node r i)"
proof -
  let ?h = "virtual_hash r node i" and ?k = "ring_keys r"
  let ?x = "SearchInts ?k ?h"
  show "owner (remove_virtual node r i) = (owner r)(?h := None)" "same_ring r (remove_virtual node r i)"
    by (simp_all add: remove_virtual_def Let_def owner_def same_ring_def delete_conv')
  show "mset (ring_keys (remove_virtual node r i)) = mset ?k - {#?h#}"
  proof (cases "?h \<in> set ?k")
    case True
    then have x: "?x < length ?k" "?k ! ?x = ?h" using SearchInts_found[OF assms] by auto
    then have "?k = take ?x ?k @ ?h # drop (?x + 1) ?k" by (metis id_take_nth_drop Suc_eq_plus1)
    then have "mset ?k = add_mset ?h (mset (take ?x ?k @ drop (?x + 1) ?k))" by (metis mset.simps(2) mset_append union_mset_add_mset_right)
    then show ?thesis using x by (simp add: remove_virtual_def Let_def)
  next
    case False
    then show ?thesis using SearchInts_found[OF assms, of ?h] by (auto simp: remove_virtual_def Let_def)
  qed
  show "sorted (ring_keys (remove_virtual node r i))"
  proof -
    have "sorted (take ?x ?k @ drop ?x ?k)" using assms by simp
    moreover have "set (drop (?x + 1) ?k) \<subseteq> set (drop ?x ?k)" by (rule set_drop_subset_set_drop) simp
    ultimately have "sorted (take ?x ?k @ drop (?x + 1) ?k)"
      using assms by (auto simp: sorted_append sorted_wrt_drop simp del: append_take_drop_id)
    then show ?thesis using assms by (simp add: remove_virtual_def Let_def)
  qed
qed

lemma remove_virtuals:
  assumes "sorted (ring_keys r)"
  shows "mset (ring_keys (foldl (remove_virtual node) r ns)) = mset (ring_keys r) - mset (map (virtual_hash r node) ns)"
    and "sorted (ring_keys (foldl (remove_virtual node) r ns))"
    and "owner (foldl (remove_virtual node) r ns) h
           = (if h \<in> set (map (virtual_hash r node) ns) then None else owner r h)"
    and "same_ring r (foldl (remove_virtual node) r ns)"
proof -
  have "mset (ring_keys (foldl (remove_virtual node) r ns)) = mset (ring_keys r) - mset (map (virtual_hash r node) ns)
    \<and> sorted (ring_keys (foldl (remove_virtual node) r ns))
    \<and> (\<forall>h. owner (foldl (remove_virtual node) r ns) h
           = (if h \<in> set (map (virtual_hash r node) ns) then None else owner r h))
    \<and> same_ring r (foldl (remove_virtual node) r ns)"
    using assms
  proof (induction ns arbitrary: r)
    case Nil
    then show ?case by (simp add: same_ring_def)
  next
    case (Cons i ns)
    note r = remove_virtual_keys[OF Cons.prems, of node i]
    have v: "virtual_hash (remove_virtual node r i) node = virtual_hash r node"
      using r(4) by (intro ext virtual_hash_cong) (simp add: same_ring_def)
    show ?case
      using Cons.IH[OF r(2)] r(1,3,4) by (auto simp: v same_ring_def)
  qed
  then show "mset (ring_keys (foldl (remove_virtual node) r ns)) = mset (ring_keys r) - mset (map (virtual_hash r node) ns)"
    and "sorted (ring_keys (foldl (remove_virtual node) r ns))"
    and "owner (foldl (remove_virtual node) r ns) h
           = (if h \<in> set (map (virtual_hash r node) ns) then None else owner r h)"
    and "same_ring r (foldl (remove_virtual node) r ns)" by blast+
qed

lemma RemoveNode_spec:
  assumes "sorted (ring_keys r)"
  shows "mset (ring_keys (RemoveNode node r)) = mset (ring_keys r) - mset (virtual_hashes r node)"
    and "sorted (ring_keys (RemoveNode node r))"
    and "owner (RemoveNode node r) h = (if h \<in> set (virtual_hashes r node) then None else owner r h)"
    and "same_ring r (RemoveNode node r)"
  using remove_virtuals[OF assms, where ns = "[0..<nat (replicas r)]"]
  by (simp_all add: RemoveNode_def virtual_hashes_def)

text \<open>The points of a node are exactly its virtual nodes, and no point comes twice.\<close>

definition clean_node :: "ConsistentHashRing \<Rightarrow> bytes \<Rightarrow> bool" where
  "clean_node r node \<longleftrightarrow> distinct (ring_keys r)
     \<and> (\<forall>h \<in> set (virtual_hashes r node). owner r h = Some node)
     \<and> (\<forall>h. owner r h = Some node \<longrightarrow> h \<in> set (virtual_hashes r node))"

lemma RemoveNode_clean:
  assumes r: "ring_inv r" and c: "clean_node r node"
  shows "set (ring_keys (RemoveNode node r)) = set (ring_keys r) - set (virtual_hashes r node)"
    and "ring_inv (RemoveNode node r)"
proof -
  have s: "sorted (ring_keys r)" and dm: "set (ring_keys r) = dom (owner r)" using r by (simp_all add: ring_inv_def)
  have d: "distinct (ring_keys r)" using c by (simp add: clean_node_def)
  note sp = RemoveNode_spec[OF s, of node]
  have "x \<in># mset (ring_keys r) - mset (virtual_hashes r node) \<longleftrightarrow> x \<in> set (ring_keys r) - set (virtual_hashes r node)" for x
  proof -
    have "count (mset (ring_keys r)) x = (if x \<in> set (ring_keys r) then 1 else 0)"
      using d by (simp only: distinct_count_atmost_1)
    moreover have "count (mset (virtual_hashes r node)) x = 0 \<longleftrightarrow> x \<notin> set (virtual_hashes r node)"
      by (simp add: count_eq_zero_iff)
    ultimately show ?thesis unfolding in_diff_count by auto
  qed
  then show keys: "set (ring_keys (RemoveNode node r)) = set (ring_keys r) - set (virtual_hashes r node)"
    using arg_cong[OF sp(1), of set_mset] by auto
  show "ring_inv (RemoveNode node r)"
    using sp(2,3) keys dm by (auto simp: ring_inv_def dom_def split: if_splits)
qed

section \<open>Properties\<close>

text \<open>
  Property C23. Whatever nodes are added to a well-formed ring, in whatever batches and even if
  virtual nodes collide, the ring stays well-formed, and a lookup on a non-empty ring returns
  the owner of the first point at or after the key's hash, going round to the least point when
  there is none: the binary search finds it.
\<close>

theorem get_node_is_successor:
  assumes "ring_inv r" and "\<not> ring_IsEmpty (AddNode nodes r)"
  shows "ring_inv (AddNode nodes r)
    \<and> owner (AddNode nodes r)
        (successor (set (ring_keys (AddNode nodes r))) (uint (hashFunc (AddNode nodes r) key)))
      = Some (GetNode key (AddNode nodes r))"
proof -
  have i: "ring_inv (AddNode nodes r)" using assms(1) AddNode_inv by (simp add: ring_inv_def)
  show ?thesis using i GetNode_owner[OF i assms(2)] by blast
qed

text \<open>A hash that spreads a little: the sum of the bytes.\<close>

definition sum_hash :: "bytes \<Rightarrow> uint32" where
  "sum_hash bs = sum_list (map ucast bs)"

definition two_nodes :: ConsistentHashRing where
  "two_nodes = AddNode [[65], [90]] (New 2 (Some sum_hash))"

lemma New_inv: "ring_inv (New reps fn)"
  by (simp add: ring_inv_def New_def owner_def)

theorem get_node_is_successor_witness:
  "ring_inv two_nodes \<and> ring_keys two_nodes = [113, 114, 138, 139]
     \<and> owner two_nodes (successor (set (ring_keys two_nodes)) (uint (hashFunc two_nodes [120]))) = Some [90]"
proof -
  have k: "ring_keys two_nodes = [113, 114, 138, 139]" by code_simp
  then have ne: "\<not> ring_IsEmpty (AddNode [[65], [90]] (New 2 (Some sum_hash)))"
    by (simp add: two_nodes_def[symmetric] ring_IsEmpty_def)
  have g: "GetNode [120] two_nodes = [90]" by code_simp
  from get_node_is_successor[OF New_inv ne, of "[120]"] show ?thesis
    using k g unfolding two_nodes_def[symmetric] by simp
qed

text \<open>
  Property C25. Adding a node to a non-empty ring moves keys to the new node only: every key is
  served by the node that served it before, or by the new one.
\<close>

theorem adding_moves_keys_to_new_node_only:
  assumes "ring_inv r" and "\<not> ring_IsEmpty r"
  shows "GetNode key (AddNode [node] r) \<in> {GetNode key r, node}"
proof -
  let ?r = "AddNode [node] r" and ?h = "uint (hashFunc r key)"
  note ad = AddNode_one[where node = node and r = r]
  have i: "ring_inv ?r" using assms(1) AddNode_inv by (simp add: ring_inv_def)
  have ne: "\<not> ring_IsEmpty ?r" using assms(2) ad(2) by (simp add: ring_IsEmpty_def)
  have hf: "hashFunc ?r = hashFunc r" using ad(1) by (simp add: same_ring_def)
  let ?p = "successor (set (ring_keys ?r)) ?h"
  have g: "owner ?r ?p = Some (GetNode key ?r)" using GetNode_owner[OF i ne, of key] by (simp add: hf)
  show ?thesis
  proof (cases "?p \<in> set (virtual_hashes r node)")
    case True
    then show ?thesis using g ad(3) by simp
  next
    case False
    have "?p \<in> set (ring_keys ?r)" using ne by (intro successor_in) (simp_all add: ring_IsEmpty_def)
    then have "?p \<in> set (ring_keys r)" using False ad(2) by simp
    then have "successor (set (ring_keys r)) ?h = ?p" using ad(2) by (intro successor_subset) auto
    then have "owner r ?p = Some (GetNode key r)" using GetNode_owner[OF assms, of key] by simp
    then show ?thesis using g ad(3) False by simp
  qed
qed

theorem adding_moves_keys_to_new_node_only_witness:
  "GetNode [115] (AddNode [[70]] two_nodes) \<in> {GetNode [115] two_nodes, [70]}
     \<and> GetNode [115] two_nodes = [90] \<and> GetNode [115] (AddNode [[70]] two_nodes) = [70]"
proof -
  have k: "ring_keys two_nodes = [113, 114, 138, 139]" by code_simp
  then have ne: "\<not> ring_IsEmpty two_nodes" by (simp add: ring_IsEmpty_def)
  have i: "ring_inv two_nodes" unfolding two_nodes_def using New_inv AddNode_inv by (simp add: ring_inv_def)
  have "GetNode [115] two_nodes = [90]" "GetNode [115] (AddNode [[70]] two_nodes) = [70]" by code_simp+
  with adding_moves_keys_to_new_node_only[OF i ne, of "[115]" "[70]"] show ?thesis by simp
qed

text \<open>
  Property C26. Removing a node whose points collide with no others moves only its own keys:
  every key served by another node stays where it is, no key is served by the removed node
  any more, and the ring is well-formed again.
\<close>

theorem removing_moves_own_keys_only:
  assumes "ring_inv r" and "\<not> ring_IsEmpty r" and "clean_node r node"
  shows "ring_inv (RemoveNode node r)
    \<and> (GetNode key r \<noteq> node \<longrightarrow> GetNode key (RemoveNode node r) = GetNode key r)
    \<and> (\<not> ring_IsEmpty (RemoveNode node r) \<longrightarrow> GetNode key (RemoveNode node r) \<noteq> node)"
proof -
  let ?r = "RemoveNode node r" and ?h = "uint (hashFunc r key)"
  have s: "sorted (ring_keys r)" using assms(1) by (simp add: ring_inv_def)
  note sp = RemoveNode_spec[OF s, of node] and rc = RemoveNode_clean[OF assms(1,3)]
  have hf: "hashFunc ?r = hashFunc r" using sp(4) by (simp add: same_ring_def)
  let ?p = "successor (set (ring_keys r)) ?h"
  have g: "owner r ?p = Some (GetNode key r)" by (rule GetNode_owner[OF assms(1,2)])
  have "GetNode key ?r = GetNode key r" if "GetNode key r \<noteq> node"
  proof -
    have nv: "?p \<notin> set (virtual_hashes r node)" using assms(3) g that by (auto simp: clean_node_def)
    moreover have "?p \<in> set (ring_keys r)" using assms(2) by (intro successor_in) (simp_all add: ring_IsEmpty_def)
    ultimately have pin: "?p \<in> set (ring_keys ?r)" using rc(1) by simp
    then have ne: "\<not> ring_IsEmpty ?r" by (auto simp: ring_IsEmpty_def)
    have "successor (set (ring_keys ?r)) ?h = ?p" using pin rc(1) by (intro successor_subset) auto
    then have "owner ?r ?p = Some (GetNode key ?r)" using GetNode_owner[OF rc(2) ne, of key] by (simp add: hf)
    then show ?thesis using g sp(3) nv by simp
  qed
  moreover have "GetNode key ?r \<noteq> node" if "\<not> ring_IsEmpty ?r"
    using GetNode_owner[OF rc(2) that, of key] sp(3) assms(3) by (auto simp: clean_node_def split: if_splits)
  ultimately show ?thesis using rc(2) by blast
qed

theorem removing_moves_own_keys_only_witness:
  "ring_inv (RemoveNode [90] two_nodes) \<and> GetNode [115] two_nodes = [90]
     \<and> GetNode [115] (RemoveNode [90] two_nodes) = [65]
     \<and> GetNode [113] (RemoveNode [90] two_nodes) = GetNode [113] two_nodes"
proof -
  have k: "ring_keys two_nodes = [113, 114, 138, 139]" and v: "virtual_hashes two_nodes [90] = [138, 139]"
    by code_simp+
  have ne: "\<not> ring_IsEmpty two_nodes" using k by (simp add: ring_IsEmpty_def)
  have i: "ring_inv two_nodes" unfolding two_nodes_def using New_inv AddNode_inv by (simp add: ring_inv_def)
  have o: "map (owner two_nodes) [113, 114, 138, 139] = [Some [65], Some [65], Some [90], Some [90]]" by code_simp
  have "h \<in> {138, 139}" if h: "owner two_nodes h = Some [90]" for h
  proof -
    have "h \<in> set (ring_keys two_nodes)" using h i by (auto simp: ring_inv_def)
    then have "h \<in> {113, 114, 138, 139}" using k by simp
    then show ?thesis using h o by auto
  qed
  then have c: "clean_node two_nodes [90]" using k v o by (simp add: clean_node_def)
  have "GetNode [115] two_nodes = [90]" "GetNode [115] (RemoveNode [90] two_nodes) = [65]"
    "GetNode [113] two_nodes \<noteq> [90]" by code_simp+
  with removing_moves_own_keys_only[OF i ne c, of "[113]"] show ?thesis by simp
qed

text \<open>
  Adding the same node twice and removing it once leaves the ring broken: it has
  points without an owner, is not empty, and every lookup returns the empty name.
\<close>

lemma double_add_breaks_ring:
  assumes "0 < reps"
  shows "let r = RemoveNode node (AddNode [node] (AddNode [node] (New reps fn)))
         in \<not> ring_IsEmpty r \<and> GetNode key r = []"
proof -
  let ?r0 = "New reps fn" and ?r2 = "AddNode [node] (AddNode [node] (New reps fn))"
  note a1 = AddNode_one[where node = node and r = ?r0] and a2 = AddNode_one[where node = node and r = "AddNode [node] ?r0"]
  have sr: "same_ring ?r0 ?r2" using a1(1) a2(1) by (simp add: same_ring_def)
  note v1 = virtual_hashes_cong[OF a1(1), of node] and v2 = virtual_hashes_cong[OF sr, of node]
  have len: "length (virtual_hashes ?r0 node) = nat reps" by (simp add: virtual_hashes_def New_def)
  have k2: "length (ring_keys ?r2) = 2 * nat reps" using a1(2) a2(2) v1 len by (simp add: New_def)
  have srt: "sorted (ring_keys ?r2)" using a2(2) by simp
  note rm = RemoveNode_spec[OF srt, of node]
  have "size (mset (ring_keys ?r2)) - size (mset (virtual_hashes ?r2 node)) \<le> size (mset (ring_keys (RemoveNode node ?r2)))"
    unfolding rm(1) by (rule diff_size_le_size_Diff)
  then have "nat reps \<le> length (ring_keys (RemoveNode node ?r2))" using k2 v2 len by simp
  then have "0 < length (ring_keys (RemoveNode node ?r2))" using assms by linarith
  then have ne: "\<not> ring_IsEmpty (RemoveNode node ?r2)" by (simp add: ring_IsEmpty_def)
  have "owner (RemoveNode node ?r2) h = None" for h
    using rm(3)[of h] a2(3)[of h] a1(3)[of h] v1 v2 by (simp add: owner_def New_def)
  then have "GetNode key (RemoveNode node ?r2) = []" by (simp add: GetNode_def owner_def Let_def)
  with ne show ?thesis by (simp add: Let_def)
qed

lemma double_add_breaks_ring_witness:
  "let r = RemoveNode [65] (AddNode [[65]] (AddNode [[65]] (New 3 None)))
     in \<not> ring_IsEmpty r \<and> GetNode [107] r = []"
  by (rule double_add_breaks_ring) simp

end
