(* ===== verification/Replication.thy ===== *)
theory Replication
  imports Server_Spec
begin

text \<open>
  The goroutines of \<^verbatim>\<open>server/replication.go\<close> and the cluster they make of a master and
  its slaves. Each goroutine tries up to three times to deliver its request; the network may
  lose the request or the answer, and the scheduler may run the goroutines in any order.
  The slaves are found by URL; a URL of a slave is the base of its paths. Pauses between
  the tries and messages to the console are left out.
\<close>

section \<open>Sending a request to a slave\<close>

text \<open>What happens to one try; \<open>BadURL\<close> is an error of \<open>http.NewRequest\<close>.\<close>

datatype network = BadURL | RequestLost | AnswerLost | Delivered

definition sync_post :: "json_ops \<Rightarrow> sender \<Rightarrow> http_request" where
  "sync_post J sd =
     \<lparr>Method = MethodPost, Path = str ''/sync'', RawQuery = [],
      SyncKeyHeader = (if snd_key sd \<noteq> [] then snd_key sd else []), Body = Opaque (Marshal J (snd_req sd))\<rparr>"

definition maxRetries :: nat where "maxRetries = 3"

text \<open>The goroutine after a failed try: the next try, or none after the last.\<close>

definition try_again :: "sender \<Rightarrow> sender option" where
  "try_again sd = (if snd_try sd < maxRetries then Some (sd\<lparr>snd_try := snd_try sd + 1\<rparr>) else None)"

type_synonym ('t, 'w) nodes = "bytes \<Rightarrow> ('t, 'w) server option"

fun ok_reply :: "reply result \<Rightarrow> bool" where
  "ok_reply (Ok rp) = (status_of rp = StatusOK)"
| "ok_reply _ = False"

text \<open>One try of a goroutine: what is left of it (\<open>None\<close>: it has ended), and the nodes.\<close>

definition attempt ::
    "('t, 'w) env \<Rightarrow> json_ops \<Rightarrow> ticket \<Rightarrow> network \<Rightarrow> sender \<Rightarrow> ('t, 'w) nodes
       \<Rightarrow> (sender option \<times> ('t, 'w) nodes) option" where
  "attempt E J x net sd f =
     (if net = BadURL then Some (None, f)
      else if net = RequestLost then Some (try_again sd, f)
      else case f (snd_url sd) of
             None \<Rightarrow> Some (try_again sd, f)
           | Some v \<Rightarrow>
               (case ServeHTTP E J x (sync_post J sd) v of
                  None \<Rightarrow> None
                | Some (rp, v') \<Rightarrow>
                    Some (if net = Delivered \<and> ok_reply rp then None else try_again sd,
                          f(snd_url sd \<mapsto> v'))))"

section \<open>The cluster\<close>

text \<open>
  Steps of the cluster: a client's request to the master, or a try of the goroutine number
  \<open>i\<close>. The clock \<open>now\<close> does not run backwards. \<open>qs\<close> records the writes that
  the master has acknowledged since the start.
\<close>

definition acknowledged :: "http_request \<Rightarrow> reply result \<Rightarrow> SyncRequest list" where
  "acknowledged r rp =
     (if \<not> ok_reply rp then []
      else if Path r = str ''/put''
      then [\<lparr>Action = str ''put'', SyncKey = FormValue r (str ''key''), SyncValue = FormValue r (str ''value'')\<rparr>]
      else if Path r = str ''/delete'' then [\<lparr>Action = str ''delete'', SyncKey = delete_key r, SyncValue = []\<rparr>]
      else [])"

definition after_try :: "nat \<Rightarrow> sender option \<Rightarrow> sender list \<Rightarrow> sender list" where
  "after_try i nxt ss = (case nxt of None \<Rightarrow> take i ss @ drop (i + 1) ss | Some sd \<Rightarrow> ss[i := sd])"

inductive cluster ::
    "('t, 'w) env \<Rightarrow> json_ops \<Rightarrow> int64 \<Rightarrow> ('t, 'w) server \<Rightarrow> ('t, 'w) nodes
       \<Rightarrow> int64 \<Rightarrow> ('t, 'w) server \<Rightarrow> ('t, 'w) nodes \<Rightarrow> SyncRequest list \<Rightarrow> bool"
  for E :: "('t, 'w) env" and J :: json_ops and now0 :: int64 and s0 :: "('t, 'w) server" and f0 :: "('t, 'w) nodes" where
  start: "cluster E J now0 s0 f0 now0 s0 f0 []"
| client: "cluster E J now0 s0 f0 (t_commit x) s' f (qs @ acknowledged r rp)"
    if "cluster E J now0 s0 f0 now s f qs" and "sint now \<le> sint (t_op x)" and "sint (t_op x) \<le> sint (t_commit x)"
      and "http_fits J r" and "Path r \<noteq> str ''/sync''" and "ServeHTTP E J x r s = Some (rp, s')"
| tried: "cluster E J now0 s0 f0 (t_commit x) (s\<lparr>senders := after_try i nxt (senders s)\<rparr>) f' qs"
    if "cluster E J now0 s0 f0 now s f qs" and "sint now \<le> sint (t_op x)" and "sint (t_op x) \<le> sint (t_commit x)"
      and "i < length (senders s)" and "attempt E J x net (senders s ! i) f = Some (nxt, f')"

section \<open>What requests do to a map\<close>

definition apply_sync :: "SyncRequest \<Rightarrow> kv \<Rightarrow> kv" where
  "apply_sync q M =
     (if Action q = str ''put'' then M(SyncKey q \<mapsto> (SyncValue q, 0))
      else if Action q = str ''delete'' then M(SyncKey q := None) else M)"

lemma actions_distinct [simp]:
  "str ''put'' \<noteq> str ''delete''" "str ''/put'' \<noteq> str ''/delete''" "str ''/get'' \<noteq> str ''/delete''" "str ''/put'' \<noteq> str ''/get''"
  using paths_distinct by metis+

text \<open>A client's request does to the master's map what its replication request does.\<close>

lemma client_spec:
  assumes "http_spec now fault J rl key r M = (rp, M', out)" and "Path r \<noteq> str ''/sync''"
  shows "M' = fold apply_sync (acknowledged r (Ok rp)) M" and "acknowledged r (Ok rp) = (case out of None \<Rightarrow> [] | Some q \<Rightarrow> [q])"
  using assms
  by (auto simp: http_spec_def refuse_def write_spec_def kv_step_def kv_write_def apply_sync_def acknowledged_def
      status_defs MASTER_def split: if_splits option.splits prod.splits)

lemma acknowledged_fits:
  assumes "http_fits J r" and "q \<in> set (acknowledged r rp)"
  shows "value_fits (SyncKey q) (SyncValue q)"
  using assms by (auto simp: acknowledged_def http_fits_def split: if_splits)

text \<open>A delivered request is applied, unless the slave answers with an error.\<close>

lemma sync_spec:
  assumes "http_spec now fault J rl key (sync_post J sd) M = (rp, M', out)" and "json_lib J"
  shows "M' = (if status_of rp = StatusOK then apply_sync (snd_req sd) M else M)" and "out = None"
proof -
  have d: "decode_sync J (Body (sync_post J sd)) = Some (snd_req sd)"
    using json_lib.Unmarshal_Marshal[OF assms(2)] by (simp add: decode_sync_def sync_post_def)
  have p: "Path (sync_post J sd) = str ''/sync''" "Method (sync_post J sd) = MethodPost"
    by (simp_all add: sync_post_def)
  show "M' = (if status_of rp = StatusOK then apply_sync (snd_req sd) M else M)" and "out = None"
    using assms(1)
    by (auto simp: http_spec_def p d write_spec_def refuse_def kv_step_def kv_write_def apply_sync_def status_defs
        split: if_splits option.splits prod.splits)
qed

lemma sync_fits:
  assumes "json_lib J" and "value_fits (SyncKey (snd_req sd)) (SyncValue (snd_req sd))"
  shows "http_fits J (sync_post J sd)"
proof -
  have "FormValue (sync_post J sd) k = []" "QueryGet (sync_post J sd) k = []" for k
    by (simp_all add: FormValue_def QueryGet_def ParsedBody_def multipart_values_def sync_post_def values_get_def
        ParseQuery.simps[of "[]"])
  moreover have "decode_sync J (Body (sync_post J sd)) = Some (snd_req sd)"
    using json_lib.Unmarshal_Marshal[OF assms(1)] by (simp add: decode_sync_def sync_post_def)
  moreover have "value_fits [] []" by (simp add: value_fits_def maxLogRecordHeaderSize_def)
  ultimately show ?thesis using assms(2) by (simp add: http_fits_def delete_key_def)
qed

section \<open>The invariant of the cluster\<close>

definition accepted :: "SyncRequest list \<Rightarrow> kv \<Rightarrow> kv \<Rightarrow> bool" where
  "accepted qs N M \<longleftrightarrow> (\<forall>k v e. M k = Some (v, e) \<longrightarrow>
     N k = Some (v, e) \<or> e = 0 \<and> (\<exists>q \<in> set qs. Action q = str ''put'' \<and> SyncKey q = k \<and> SyncValue q = v))"

lemma accepted_refl: "accepted qs N N"
  by (simp add: accepted_def)

lemma accepted_more: "accepted qs N M \<Longrightarrow> accepted (qs @ qs') N M"
  by (fastforce simp: accepted_def)

lemma accepted_apply: "accepted qs N M \<Longrightarrow> q \<in> set qs \<Longrightarrow> accepted qs N (apply_sync q M)"
  by (auto simp: accepted_def apply_sync_def)

lemma after_try_set: "i < length ss \<Longrightarrow> set (after_try i nxt ss) \<subseteq> set ss \<union> set_option nxt"
  by (auto simp: after_try_def set_update_subset_insert[THEN subsetD] split: option.splits
      dest: in_set_takeD in_set_dropD set_update_subset_insert[THEN subsetD])

lemma try_again_req: "try_again sd = Some sd' \<Longrightarrow> snd_req sd' = snd_req sd"
  by (auto simp: try_again_def split: if_splits)

context engine
begin

definition node_ok :: "int64 \<Rightarrow> kv \<Rightarrow> ('t, 'w) server \<Rightarrow> bool" where
  "node_ok now M s \<longleftrightarrow> dinv (sv_db s) \<and> idle (sv_db s) \<and> \<not> closed (sv_db s) \<and> rep now (sv_db s) M"

lemma node_ok_later: "node_ok now M s \<Longrightarrow> sint now \<le> sint now' \<Longrightarrow> node_ok now' M s"
  using rep_later by (auto simp: node_ok_def)

lemma node_ok_start: "dinv (sv_db s) \<Longrightarrow> idle (sv_db s) \<Longrightarrow> \<not> closed (sv_db s) \<Longrightarrow> node_ok now (db_map E (sv_db s)) s"
  by (simp add: node_ok_def rep_db_map)

text \<open>A node that serves a request.\<close>

lemma node_serves:
  assumes n: "node_ok now M s" and c: "sint now \<le> sint (t_op x)" "sint (t_op x) \<le> sint (t_commit x)"
    and f: "http_fits J r" and h: "ServeHTTP E J x r s = Some (res, s')"
  obtains fault rp M' out where "http_spec (t_op x) fault J (role s) (sv_key s) r M = (rp, M', out)"
    and "res = Ok rp" and "node_ok (t_commit x) M' s'"
    and "senders s' = senders s @ posted (replicator s) out"
proof -
  have "ready x s M" using n c rep_later by (auto simp: node_ok_def ready_def)
  from server_serves[OF this f] obtain fault rp d' M' out where q:
    "http_spec (t_op x) fault J (role s) (sv_key s) r M = (rp, M', out)" "res = Ok rp"
    "s' = s\<lparr>sv_db := d', senders := senders s @ posted (replicator s) out\<rparr>"
    "settled (sv_db s) d'" "rep (t_commit x) d' M'"
    using h by (auto simp: serves_def)
  have "node_ok (t_commit x) M' s'"
    using q(3-5) n settled_idle[OF q(4)] by (simp add: node_ok_def settled_def)
  then show ?thesis using that[OF q(1,2)] q(3) by simp
qed

definition cluster_inv ::
    "kv \<Rightarrow> (bytes \<Rightarrow> kv) \<Rightarrow> int64 \<Rightarrow> ('t, 'w) server \<Rightarrow> ('t, 'w) nodes \<Rightarrow> SyncRequest list \<Rightarrow> bool" where
  "cluster_inv M0 N0 now s f qs \<longleftrightarrow>
     node_ok now (fold apply_sync qs M0) s
     \<and> snd_req ` set (senders s) \<subseteq> set qs \<and> (\<forall>q \<in> set qs. value_fits (SyncKey q) (SyncValue q))
     \<and> (\<forall>url v. f url = Some v \<longrightarrow> (\<exists>M. node_ok now M v \<and> accepted qs (N0 url) M))"

lemma client_keeps:
  assumes i: "cluster_inv M0 N0 now s f qs" and c: "sint now \<le> sint (t_op x)" "sint (t_op x) \<le> sint (t_commit x)"
    and r: "http_fits J r" "Path r \<noteq> str ''/sync''" and h: "ServeHTTP E J x r s = Some (res, s')"
  shows "cluster_inv M0 N0 (t_commit x) s' f (qs @ acknowledged r res)"
proof -
  have n: "node_ok now (fold apply_sync qs M0) s" using i by (simp add: cluster_inv_def)
  obtain fault rp M' out where q: "http_spec (t_op x) fault J (role s) (sv_key s) r (fold apply_sync qs M0) = (rp, M', out)"
    "res = Ok rp" "node_ok (t_commit x) M' s'"
    "senders s' = senders s @ posted (replicator s) out"
    by (rule node_serves[OF n c r(1) h])
  note sp = client_spec[OF q(1) r(2)]
  have le: "sint now \<le> sint (t_commit x)" using c by simp
  have "snd_req ` set (posted (replicator s) out) \<subseteq> set (acknowledged r res)"
    using sp(2) q(2) by (cases out) (auto simp: posted_def broadcast_def split: option.splits if_splits)
  then have "snd_req ` set (senders s') \<subseteq> set (qs @ acknowledged r res)"
    using i q(4) by (auto simp: cluster_inv_def)
  moreover have "node_ok (t_commit x) (fold apply_sync (qs @ acknowledged r res) M0) s'" using q(2,3) sp(1) by simp
  moreover have "\<forall>q \<in> set (qs @ acknowledged r res). value_fits (SyncKey q) (SyncValue q)"
    using i acknowledged_fits[OF r(1)] by (auto simp: cluster_inv_def)
  moreover have "\<exists>M. node_ok (t_commit x) M v \<and> accepted (qs @ acknowledged r res) (N0 url) M" if fu: "f url = Some v" for url v
  proof -
    have "\<forall>url v. f url = Some v \<longrightarrow> (\<exists>M. node_ok now M v \<and> accepted qs (N0 url) M)"
      using i by (simp add: cluster_inv_def)
    then obtain M where M: "node_ok now M v" "accepted qs (N0 url) M" using fu by blast
    show ?thesis using node_ok_later[OF M(1) le] accepted_more[OF M(2)] by (intro exI conjI)
  qed
  ultimately show ?thesis by (simp add: cluster_inv_def)
qed

text \<open>One try of a goroutine, seen from the nodes.\<close>

lemma attempt_keeps:
  assumes J: "json_lib J" and a: "attempt E J x net sd f = Some (nxt, f')"
    and c: "sint now \<le> sint (t_op x)" "sint (t_op x) \<le> sint (t_commit x)"
    and f: "\<forall>url v. f url = Some v \<longrightarrow> (\<exists>M. node_ok now M v \<and> accepted qs (N0 url) M)"
    and q: "snd_req sd \<in> set qs" "value_fits (SyncKey (snd_req sd)) (SyncValue (snd_req sd))"
  shows "\<forall>sd' \<in> set_option nxt. snd_req sd' = snd_req sd"
    and "\<forall>url v. f' url = Some v \<longrightarrow> (\<exists>M. node_ok (t_commit x) M v \<and> accepted qs (N0 url) M)"
proof -
  show "\<forall>sd' \<in> set_option nxt. snd_req sd' = snd_req sd"
    using a try_again_req by (auto simp: attempt_def split: if_splits option.splits)
  have le: "sint now \<le> sint (t_commit x)" using c by simp
  have old: "\<exists>M. node_ok (t_commit x) M v \<and> accepted qs (N0 url) M" if fu: "f url = Some v" for url v
    using f that node_ok_later[OF _ le] by blast
  show "\<forall>url v. f' url = Some v \<longrightarrow> (\<exists>M. node_ok (t_commit x) M v \<and> accepted qs (N0 url) M)"
  proof (cases "f' = f")
    case True
    then show ?thesis using old by simp
  next
    case False
    then obtain v res v' where v: "f (snd_url sd) = Some v" "ServeHTTP E J x (sync_post J sd) v = Some (res, v')"
      "f' = f(snd_url sd \<mapsto> v')"
      using a by (auto simp: attempt_def split: if_splits option.splits prod.splits)
    obtain M where M: "node_ok now M v" "accepted qs (N0 (snd_url sd)) M" using f v(1) by blast
    obtain fault rp M' out where s: "http_spec (t_op x) fault J (role v) (sv_key v) (sync_post J sd) M = (rp, M', out)"
      "node_ok (t_commit x) M' v'"
      by (rule node_serves[OF M(1) c sync_fits[OF J q(2)] v(2)])
    have "accepted qs (N0 (snd_url sd)) M'"
      using sync_spec(1)[OF s(1) J] accepted_apply[OF M(2) q(1)] M(2) by simp
    then show ?thesis using s(2) old v(3) by auto
  qed
qed

lemma cluster_keeps:
  assumes J: "json_lib J" and "cluster E J now0 s0 f0 now s f qs" and "cluster_inv M0 N0 now0 s0 f0 []"
  shows "cluster_inv M0 N0 now s f qs"
  using assms(2,3)
proof (induction rule: cluster.induct)
  case start
  then show ?case .
next
  case (client now s f qs x r rp s')
  show ?case by (rule client_keeps[OF client.IH[OF client.prems] client.hyps(2-6)])
next
  case (tried now s f qs x i net nxt f')
  note iv = tried.IH[OF tried.prems]
  let ?sd = "senders s ! i"
  have sd: "snd_req ?sd \<in> set qs" "value_fits (SyncKey (snd_req ?sd)) (SyncValue (snd_req ?sd))"
    using iv tried.hyps(4) nth_mem[of i "senders s"] unfolding cluster_inv_def by blast+
  have f: "\<forall>url v. f url = Some v \<longrightarrow> (\<exists>M. node_ok now M v \<and> accepted qs (N0 url) M)"
    using iv by (simp add: cluster_inv_def)
  note k = attempt_keeps[OF J tried.hyps(5,2,3) f sd]
  have le: "sint now \<le> sint (t_commit x)" using tried.hyps(2,3) by simp
  have "node_ok (t_commit x) (fold apply_sync qs M0) s" using iv node_ok_later[OF _ le] by (simp add: cluster_inv_def)
  moreover have "snd_req ` set (after_try i nxt (senders s)) \<subseteq> set qs"
  proof -
    have "snd_req ` set (senders s) \<subseteq> set qs" using iv by (simp add: cluster_inv_def)
    moreover have "snd_req ` set_option nxt \<subseteq> set qs" using k(1) sd(1) by auto
    ultimately show ?thesis using after_try_set[OF tried.hyps(4), of nxt] by blast
  qed
  ultimately show ?case using k(2) iv by (simp add: cluster_inv_def node_ok_def)
qed

section \<open>Delivery in order\<close>

lemma filter_one: "distinct us \<Longrightarrow> u \<in> set us \<Longrightarrow> filter (\<lambda>x. x = u) us = [u]"
  by (induction us) (auto simp: filter_empty_conv)

lemma filter_posted:
  assumes "distinct (slaves p)" and "url \<in> set (slaves p)"
  shows "map snd_req (filter (\<lambda>sd. snd_url sd = url) (posted (Some p) (Some q))) = [q]"
  using filter_one[OF assms] assms(2) by (auto simp: posted_def broadcast_def filter_map comp_def)

text \<open>The runs of the master and of a slave that answers every request with success.\<close>

lemma master_run:
  assumes "node_ok now M s" and "http_clock now xs"
    and "\<forall>(x, r) \<in> set xs. http_fits J r \<and> Path r \<noteq> str ''/sync''" and "serve_all E J xs s = Some (rps, s')"
  shows "\<exists>outs. node_ok (http_end now xs) (fold apply_sync outs M) s'
     \<and> senders s' = senders s @ concat (map (\<lambda>q. posted (replicator s) (Some q)) outs)
     \<and> (\<forall>q \<in> set outs. value_fits (SyncKey q) (SyncValue q))"
  using assms
proof (induction xs arbitrary: now M s rps)
  case Nil
  then show ?case by (intro exI[of _ "[]"]) simp
next
  case (Cons a xs)
  obtain x r where a: "a = (x, r)" by (cases a)
  have c: "sint now \<le> sint (t_op x)" "sint (t_op x) \<le> sint (t_commit x)" "http_clock (t_commit x) xs"
    using Cons.prems(2) a by simp_all
  have r: "http_fits J r" "Path r \<noteq> str ''/sync''" using Cons.prems(3) a by simp_all
  obtain res s1 rps1 where h: "ServeHTTP E J x r s = Some (res, s1)" "serve_all E J xs s1 = Some (rps1, s')"
    using Cons.prems(4) a by (auto split: option.splits)
  obtain fault rp M1 out where q: "http_spec (t_op x) fault J (role s) (sv_key s) r M = (rp, M1, out)" "res = Ok rp"
    "node_ok (t_commit x) M1 s1" "senders s1 = senders s @ posted (replicator s) out"
    by (rule node_serves[OF Cons.prems(1) c(1,2) r(1) h(1)])
  have rp: "replicator s1 = replicator s"
    using h(1) Cons.prems(1) server_serves[of x s M J r] rep_later c r
    by (auto simp: serves_def ready_def node_ok_def)
  have "\<forall>(x, r) \<in> set xs. http_fits J r \<and> Path r \<noteq> str ''/sync''" using Cons.prems(3) by simp
  from Cons.IH[OF q(3) c(3) this h(2)] obtain outs where o: "node_ok (http_end (t_commit x) xs) (fold apply_sync outs M1) s'"
    "senders s' = senders s1 @ concat (map (\<lambda>q. posted (replicator s1) (Some q)) outs)"
    "\<forall>q \<in> set outs. value_fits (SyncKey q) (SyncValue q)" by blast
  note sp = client_spec[OF q(1) r(2)]
  have f: "\<forall>q \<in> set (acknowledged r (Ok rp)). value_fits (SyncKey q) (SyncValue q)"
    using acknowledged_fits[OF r(1)] by blast
  show ?case
    using o q(4) sp rp a f
    by (intro exI[of _ "acknowledged r (Ok rp) @ outs"]) (cases out; simp)
qed

lemma slave_run:
  assumes J: "json_lib J" and "node_ok now M v" and "length ts = length sds"
    and "http_clock now (zip ts (map (sync_post J) sds))"
    and "\<forall>sd \<in> set sds. value_fits (SyncKey (snd_req sd)) (SyncValue (snd_req sd))"
    and "serve_all E J (zip ts (map (sync_post J) sds)) v = Some (rps, v')" and "list_all ok_reply rps"
  shows "node_ok (http_end now (zip ts (map (sync_post J) sds))) (fold apply_sync (map snd_req sds) M) v'"
  using assms(2-)
proof (induction ts sds arbitrary: now M v rps rule: list_induct2')
  case (4 x ts sd sds)
  have c: "sint now \<le> sint (t_op x)" "sint (t_op x) \<le> sint (t_commit x)"
    "http_clock (t_commit x) (zip ts (map (sync_post J) sds))" using 4(4) by simp_all
  obtain res v1 rps1 where h: "ServeHTTP E J x (sync_post J sd) v = Some (res, v1)"
    "serve_all E J (zip ts (map (sync_post J) sds)) v1 = Some (rps1, v')" "rps = res # rps1"
    using 4(6) by (auto split: option.splits)
  have "http_fits J (sync_post J sd)" using sync_fits[OF J] 4(5) by simp
  from node_serves[OF 4(2) c(1,2) this h(1)] obtain fault rp M1 out where
    q: "http_spec (t_op x) fault J (role v) (sv_key v) (sync_post J sd) M = (rp, M1, out)" "res = Ok rp"
    "node_ok (t_commit x) M1 v1" by metis
  have "M1 = apply_sync (snd_req sd) M" using sync_spec(1)[OF q(1) J] 4(7) h(3) q(2) by simp
  then show ?case using 4(1)[OF q(3) _ c(3) _ h(2)] 4(3,5,7) h(3) by simp
qed simp_all

lemma in_order:
  assumes J: "json_lib J" and s: "node_ok now0 M s" "replicator s = Some p" "senders s = []"
    and p: "distinct (slaves p)" "url \<in> set (slaves p)"
    and xs: "http_clock now0 xs" "\<forall>(x, r) \<in> set xs. http_fits J r \<and> Path r \<noteq> str ''/sync''"
      "serve_all E J xs s = Some (rps, s')"
    and sds: "sds = filter (\<lambda>sd. snd_url sd = url) (senders s')" "length ts = length sds"
    and ys: "ys = zip ts (map (sync_post J) sds)" "http_clock now1 ys"
    and v: "node_ok now1 M v" "serve_all E J ys v = Some (rps', v')" "list_all ok_reply rps'"
    and t: "sint (http_end now0 xs) \<le> sint t" "sint (http_end now1 ys) \<le> sint t"
  shows "db_view E t (sv_db v') = db_view E t (sv_db s')"
proof -
  obtain outs where o: "node_ok (http_end now0 xs) (fold apply_sync outs M) s'"
    "senders s' = concat (map (\<lambda>q. posted (Some p) (Some q)) outs)"
    "\<forall>q \<in> set outs. value_fits (SyncKey q) (SyncValue q)"
    using master_run[OF s(1) xs] s(2,3) by auto
  have sm: "map snd_req sds = outs"
    unfolding sds(1) o(2) filter_concat map_concat map_map comp_def filter_posted[OF p] by (induction outs) simp_all
  then have "\<forall>sd \<in> set sds. value_fits (SyncKey (snd_req sd)) (SyncValue (snd_req sd))"
    using o(3) by (metis image_eqI list.set_map)
  from slave_run[OF J v(1) sds(2) _ this] v(2,3) ys have "node_ok (http_end now1 ys) (fold apply_sync outs M) v'"
    by (simp add: sm)
  then show ?thesis using o(1) t by (simp add: node_ok_def rep_def)
qed

end

section \<open>Schedules\<close>

text \<open>A schedule of the cluster, run.\<close>

datatype event = Client ticket http_request | Try ticket nat network

fun cluster_run ::
    "('t, 'w) env \<Rightarrow> json_ops \<Rightarrow> event list \<Rightarrow> int64 \<Rightarrow> ('t, 'w) server \<Rightarrow> ('t, 'w) nodes \<Rightarrow> SyncRequest list
       \<Rightarrow> (int64 \<times> ('t, 'w) server \<times> ('t, 'w) nodes \<times> SyncRequest list) option" where
  "cluster_run E J [] now s f qs = Some (now, s, f, qs)"
| "cluster_run E J (Client x r # evs) now s f qs =
     (if now \<le>s t_op x \<and> t_op x \<le>s t_commit x \<and> Path r \<noteq> str ''/sync''
      then case ServeHTTP E J x r s of
             None \<Rightarrow> None
           | Some (rp, s') \<Rightarrow> cluster_run E J evs (t_commit x) s' f (qs @ acknowledged r rp)
      else None)"
| "cluster_run E J (Try x i net # evs) now s f qs =
     (if now \<le>s t_op x \<and> t_op x \<le>s t_commit x \<and> i < length (senders s)
      then case attempt E J x net (senders s ! i) f of
             None \<Rightarrow> None
           | Some (nxt, f') \<Rightarrow> cluster_run E J evs (t_commit x) (s\<lparr>senders := after_try i nxt (senders s)\<rparr>) f' qs
      else None)"

fun event_fits :: "json_ops \<Rightarrow> event \<Rightarrow> bool" where
  "event_fits J (Client x r) = http_fits J r"
| "event_fits J (Try x i net) = True"

lemma cluster_run_sound:
  assumes "cluster E J now0 s0 f0 now s f qs" and "\<forall>ev \<in> set evs. event_fits J ev"
    and "cluster_run E J evs now s f qs = Some (now', s', f', qs')"
  shows "cluster E J now0 s0 f0 now' s' f' qs'"
  using assms
proof (induction evs arbitrary: now s f qs)
  case Nil
  then show ?case by simp
next
  case (Cons ev evs)
  show ?case
  proof (cases ev)
    case (Client x r)
    then obtain rp s1 where h: "sint now \<le> sint (t_op x)" "sint (t_op x) \<le> sint (t_commit x)" "Path r \<noteq> str ''/sync''"
      "ServeHTTP E J x r s = Some (rp, s1)" "cluster_run E J evs (t_commit x) s1 f (qs @ acknowledged r rp) = Some (now', s', f', qs')"
      using Cons.prems(3) by (auto simp: word_sle_eq split: if_splits option.splits)
    have "http_fits J r" using Cons.prems(2) Client by simp
    from cluster.client[OF Cons.prems(1) h(1,2) this h(3,4)] show ?thesis
      using Cons.IH[OF _ _ h(5)] Cons.prems(2) by simp
  next
    case (Try x i net)
    then obtain nxt f1 where h: "sint now \<le> sint (t_op x)" "sint (t_op x) \<le> sint (t_commit x)" "i < length (senders s)"
      "attempt E J x net (senders s ! i) f = Some (nxt, f1)"
      "cluster_run E J evs (t_commit x) (s\<lparr>senders := after_try i nxt (senders s)\<rparr>) f1 qs = Some (now', s', f', qs')"
      using Cons.prems(3) by (auto simp: word_sle_eq split: if_splits option.splits)
    from cluster.tried[OF Cons.prems(1) h(1-4)] show ?thesis
      using Cons.IH[OF _ _ h(5)] Cons.prems(2) by simp
  qed
qed

text \<open>The tries that a goroutine has left.\<close>

definition tries_left :: "sender \<Rightarrow> nat" where
  "tries_left sd = maxRetries + 1 - snd_try sd"

definition all_tries :: "sender list \<Rightarrow> nat" where
  "all_tries ss = sum_list (map tries_left ss)"

lemma fresh_tries: "\<forall>sd \<in> set ss. snd_try sd = 1 \<Longrightarrow> all_tries ss = 3 * length ss"
  by (induction ss) (simp_all add: all_tries_def tries_left_def maxRetries_def)

lemma after_try_decreases:
  assumes i: "i < length ss" and sd: "snd_try (ss ! i) \<le> maxRetries"
    and nxt: "nxt = None \<or> nxt = try_again (ss ! i)"
  shows "all_tries (after_try i nxt ss) < all_tries ss"
proof -
  have e: "ss = take i ss @ ss ! i # drop (i + 1) ss" using id_take_nth_drop[OF i] by simp
  have p: "0 < tries_left (ss ! i)" using sd by (simp add: tries_left_def)
  show ?thesis
  proof (cases nxt)
    case None
    have "all_tries ss = all_tries (take i ss) + tries_left (ss ! i) + all_tries (drop (i + 1) ss)"
      by (subst e) (simp add: all_tries_def)
    then show ?thesis using None p by (simp add: after_try_def all_tries_def)
  next
    case (Some sd')
    then have "tries_left sd' < tries_left (ss ! i)"
      using nxt by (auto simp: try_again_def tries_left_def split: if_splits)
    moreover have "all_tries (ss[i := sd']) = all_tries (take i ss) + tries_left sd' + all_tries (drop (i + 1) ss)"
      using i by (simp add: upd_conv_take_nth_drop all_tries_def)
    moreover have "all_tries ss = all_tries (take i ss) + tries_left (ss ! i) + all_tries (drop (i + 1) ss)"
      by (subst e) (simp add: all_tries_def)
    ultimately show ?thesis using Some by (simp add: after_try_def)
  qed
qed

lemma attempt_next:
  "attempt E J x net sd f = Some (nxt, f') \<Longrightarrow> nxt = None \<or> nxt = try_again sd"
  by (auto simp: attempt_def split: if_splits option.splits)

lemma try_again_le: "snd_try sd \<le> maxRetries \<Longrightarrow> try_again sd = Some sd' \<Longrightarrow> snd_try sd' \<le> maxRetries"
  by (auto simp: try_again_def split: if_splits)

fun is_try :: "event \<Rightarrow> bool" where
  "is_try (Try x i net) = True"
| "is_try (Client x r) = False"

lemma tries_run_out:
  assumes "cluster_run E J evs now s f qs = Some (now', s', f', qs')" and "list_all is_try evs"
    and "\<forall>sd \<in> set (senders s). snd_try sd \<le> maxRetries"
  shows "length evs + all_tries (senders s') \<le> all_tries (senders s)"
  using assms
proof (induction evs arbitrary: now s f qs)
  case Nil
  then show ?case by simp
next
  case (Cons ev evs)
  obtain x i net where ev: "ev = Try x i net" using Cons.prems(2) by (cases ev) simp_all
  obtain nxt f1 where h: "i < length (senders s)" "attempt E J x net (senders s ! i) f = Some (nxt, f1)"
    "cluster_run E J evs (t_commit x) (s\<lparr>senders := after_try i nxt (senders s)\<rparr>) f1 qs = Some (now', s', f', qs')"
    using Cons.prems(1) ev by (auto split: if_splits option.splits)
  have le: "snd_try (senders s ! i) \<le> maxRetries" using Cons.prems(3) h(1) by simp
  note d = after_try_decreases[OF h(1) le attempt_next[OF h(2)]]
  have "snd_try sd \<le> maxRetries" if "nxt = Some sd" for sd
    using attempt_next[OF h(2)] that try_again_le[OF le] by simp
  then have "\<forall>sd \<in> set (after_try i nxt (senders s)). snd_try sd \<le> maxRetries"
    using after_try_set[OF h(1), of nxt] Cons.prems(3) by (cases nxt) auto
  then have "length evs + all_tries (senders s') \<le> all_tries (after_try i nxt (senders s))"
    using Cons.IH[OF h(3)] Cons.prems(2) by simp
  then show ?case using d by simp
qed

section \<open>Properties\<close>

text \<open>
  Property C13. Let a slave, in the list of the master once, show the contents of the master at
  every time, and let no goroutine of the master be under way. (The code never makes the two
  equal: a slave that is added to a master with data gets only the writes that follow.) Let
  clients make any requests to the master but \<open>/sync\<close>. If then the goroutines of this slave
  deliver their requests in the order in which the master started them, and the slave answers
  each with success, it ends up with the contents of the master again.
\<close>

theorem in_order_replication_converges:
  assumes E: "engine E bt_inv w_inv pend" and J: "json_lib J"
    and s: "db_inv E bt_inv w_inv pend (sv_db s)" "idle (sv_db s)" "\<not> closed (sv_db s)"
    and p: "replicator s = Some p" "senders s = []" "distinct (slaves p)" "url \<in> set (slaves p)"
    and v: "db_inv E bt_inv w_inv pend (sv_db v)" "idle (sv_db v)" "\<not> closed (sv_db v)"
    and same: "\<forall>t. db_view E t (sv_db v) = db_view E t (sv_db s)"
    and xs: "http_clock now0 xs" "\<forall>(x, r) \<in> set xs. http_fits J r \<and> Path r \<noteq> str ''/sync''"
      "serve_all E J xs s = Some (rps, s')"
    and sds: "sds = filter (\<lambda>sd. snd_url sd = url) (senders s')" "length ts = length sds"
    and ys: "ys = zip ts (map (sync_post J) sds)" "http_clock now1 ys"
      "serve_all E J ys v = Some (rps', v')" "list_all ok_reply rps'"
    and t: "sint (http_end now0 xs) \<le> sint t" "sint (http_end now1 ys) \<le> sint t"
  shows "db_view E t (sv_db v') = db_view E t (sv_db s')"
proof -
  let ?M = "db_map E (sv_db s)"
  have ns: "engine.node_ok E bt_inv w_inv pend now0 ?M s" by (rule engine.node_ok_start[OF E s])
  have "engine.rep E now1 (sv_db v) ?M"
    using engine.rep_db_map[OF E s(1), of now1] same by (simp add: engine.rep_def[OF E])
  then have nv: "engine.node_ok E bt_inv w_inv pend now1 ?M v" using v by (simp add: engine.node_ok_def[OF E])
  show ?thesis by (rule engine.in_order[OF E J ns p xs sds ys(1,2) nv ys(3,4) t])
qed

lemma ref_master_ok:
  "idle (sv_db ref_master)" "\<not> closed (sv_db ref_master)" "db_inv ref_env sorted_items list_wal_inv lw_pending (sv_db ref_master)"
  using ref_db_inv by (simp_all add: ref_master_def NewServer_def idle_def ref_db_def)

text \<open>Two writes of a key, as the slave receives them.\<close>

definition two_puts :: "(ticket \<times> http_request) list" where
  "two_puts = [(ticket_at 1 1, put_request [107] [65]), (ticket_at 2 2, put_request [107] [66])]"

definition after_puts :: "(item list, list_wal) server" where
  "after_puts = snd (the (serve_all ref_env ref_json two_puts ref_master))"

definition slave_posts :: "(ticket \<times> http_request) list" where
  "slave_posts = zip [ticket_at 3 3, ticket_at 4 4] (map (sync_post ref_json) (senders after_puts))"

definition after_posts :: "(item list, list_wal) server" where
  "after_posts = snd (the (serve_all ref_env ref_json slave_posts ref_slave))"

theorem in_order_replication_converges_witness:
  "db_view ref_env 9 (sv_db after_posts) = db_view ref_env 9 (sv_db after_puts)
     \<and> db_view ref_env 9 (sv_db after_posts) [107] = Some ([66], 0)"
proof -
  have m: "replicator ref_master = Some (NewReplicator [[9]] [7])" "senders ref_master = []"
    "distinct (slaves (NewReplicator [[9]] [7]))" "[9] \<in> set (slaves (NewReplicator [[9]] [7]))"
    by (simp_all add: ref_master_def NewServer_def NewReplicator_def)
  have same: "\<forall>t. db_view ref_env t (sv_db ref_slave) = db_view ref_env t (sv_db ref_master)"
    by (simp add: ref_slave_def ref_master_def SetRole_def NewServer_def)
  have c: "http_clock 0 two_puts" "http_clock 2 slave_posts" by code_simp+
  have "list_all (\<lambda>(x, r). small_request ref_json r \<and> Path r \<noteq> str ''/sync'') two_puts" by code_simp
  then have f: "\<forall>(x, r) \<in> set two_puts. http_fits ref_json r \<and> Path r \<noteq> str ''/sync''"
    by (auto simp: list_all_iff intro: small_request_fits)
  have "serve_all ref_env ref_json two_puts ref_master \<noteq> None" by code_simp
  then obtain rps where r: "serve_all ref_env ref_json two_puts ref_master = Some (rps, after_puts)"
    by (auto simp: after_puts_def)
  have "(case serve_all ref_env ref_json slave_posts ref_slave of None \<Rightarrow> False | Some (rps, v) \<Rightarrow> list_all ok_reply rps)"
    by code_simp
  then obtain rps' where r': "serve_all ref_env ref_json slave_posts ref_slave = Some (rps', after_posts)"
    "list_all ok_reply rps'"
    by (auto simp: after_posts_def split: option.splits)
  have u: "list_all (\<lambda>sd. snd_url sd = [9]) (senders after_puts)" "length (senders after_puts) = 2" by code_simp+
  then have sds: "senders after_puts = filter (\<lambda>sd. snd_url sd = [9]) (senders after_puts)"
    "length [ticket_at 3 3, ticket_at 4 4] = length (senders after_puts)"
    by (auto simp: list_all_iff filter_id_conv)
  have "http_end 0 two_puts = 2" "http_end 2 slave_posts = 4" by code_simp+
  then have t: "sint (http_end 0 two_puts) \<le> sint (9 :: int64)" "sint (http_end 2 slave_posts) \<le> sint (9 :: int64)"
    by simp_all
  note eq = in_order_replication_converges[OF ref.engine_axioms ref_json.json_lib_axioms ref_master_ok(3,1,2) m
      ref_slave_ok(3,1,2) same c(1) f r sds slave_posts_def c(2) r' t]
  have "db_view ref_env 9 (sv_db after_puts) [107] = Some ([66], 0)" by code_simp
  then show ?thesis using eq by simp
qed

definition one_slave :: "(item list, list_wal) nodes" where
  "one_slave url = (if url = [9] then Some ref_slave else None)"

definition reordered :: "event list" where
  "reordered = [Client (ticket_at 1 1) (put_request [107] [65]), Client (ticket_at 2 2) (put_request [107] [66]),
                Try (ticket_at 3 3) 1 Delivered, Try (ticket_at 4 4) 0 Delivered]"

text \<open>
  Property C37. Replication does not keep the order: there is a run of a master and a slave
  in which two clients' writes of one key are acknowledged, no message is lost, no try
  fails and no goroutine is left, and the slave holds the first value while the master
  holds the second.
\<close>

theorem reordered_replication_diverges:
  "\<exists>now s f qs v. cluster ref_env ref_json 0 ref_master one_slave now s f qs \<and> senders s = [] \<and> length qs = 2
     \<and> f [9] = Some v \<and> db_view ref_env now (sv_db s) [107] = Some ([66], 0)
     \<and> db_view ref_env now (sv_db v) [107] = Some ([65], 0)"
proof -
  have e: "(case cluster_run ref_env ref_json reordered 0 ref_master one_slave [] of
      None \<Rightarrow> False
    | Some (now, s, f, qs) \<Rightarrow> length (senders s) = 0 \<and> length qs = 2
        \<and> db_view ref_env now (sv_db s) [107] = Some ([66], 0)
        \<and> (case f [9] of None \<Rightarrow> False | Some v \<Rightarrow> db_view ref_env now (sv_db v) [107] = Some ([65], 0)))"
    by code_simp
  have l: "list_all (\<lambda>ev. case ev of Client x r \<Rightarrow> small_request ref_json r | _ \<Rightarrow> True) reordered" by code_simp
  then have f: "\<forall>ev \<in> set reordered. event_fits ref_json ev" by (simp add: reordered_def small_request_fits)
  from e show ?thesis
    using cluster_run_sound[OF cluster.start f] by (fastforce split: option.splits)
qed

text \<open>
  Property C14. In every run of the cluster, with messages lost, answers lost, retries and
  goroutines in any order, the master holds exactly what the acknowledged writes make of
  its first contents, and a slave holds, beyond what it held at the start, only values that
  the master acknowledged for the same key.
\<close>

theorem slaves_hold_acknowledged_values:
  assumes E: "engine E bt_inv w_inv pend" and J: "json_lib J" and c: "cluster E J now0 s0 f0 now s f qs"
    and s: "db_inv E bt_inv w_inv pend (sv_db s0)" "idle (sv_db s0)" "\<not> closed (sv_db s0)" "senders s0 = []"
    and f: "\<forall>url v. f0 url = Some v \<longrightarrow> db_inv E bt_inv w_inv pend (sv_db v) \<and> idle (sv_db v) \<and> \<not> closed (sv_db v)"
    and t: "sint now \<le> sint t"
  shows "db_view E t (sv_db s) = kv_at t (fold apply_sync qs (db_map E (sv_db s0)))
     \<and> (\<forall>url v. f url = Some v \<longrightarrow> (\<exists>M. db_view E t (sv_db v) = kv_at t M
          \<and> accepted qs (case f0 url of None \<Rightarrow> (\<lambda>k. None) | Some v0 \<Rightarrow> db_map E (sv_db v0)) M))"
proof -
  let ?N = "\<lambda>url. case f0 url of None \<Rightarrow> (\<lambda>k. None) | Some v0 \<Rightarrow> db_map E (sv_db v0)"
  have m: "engine.node_ok E bt_inv w_inv pend now0 (db_map E (sv_db s0)) s0" by (rule engine.node_ok_start[OF E s(1-3)])
  have v: "\<exists>M. engine.node_ok E bt_inv w_inv pend now0 M v \<and> accepted [] (?N url) M" if "f0 url = Some v" for url v
  proof (intro exI conjI)
    show "engine.node_ok E bt_inv w_inv pend now0 (db_map E (sv_db v)) v"
      using engine.node_ok_start[OF E] f that by blast
    show "accepted [] (?N url) (db_map E (sv_db v))" using that by (simp add: accepted_refl)
  qed
  have "engine.cluster_inv E bt_inv w_inv pend (db_map E (sv_db s0)) ?N now0 s0 f0 []"
    unfolding engine.cluster_inv_def[OF E] using m v s(4) by simp
  from engine.cluster_keeps[OF E J c this] show ?thesis
    using t unfolding engine.cluster_inv_def[OF E] engine.node_ok_def[OF E] engine.rep_def[OF E] by blast
qed

text \<open>The answer to the first try is lost, so the request is delivered twice.\<close>

definition lossy :: "event list" where
  "lossy = [Client (ticket_at 1 1) (put_request [107] [65]), Try (ticket_at 2 2) 0 AnswerLost,
            Try (ticket_at 3 3) 0 Delivered]"

theorem slaves_hold_acknowledged_values_witness:
  "\<exists>now s f qs v. cluster ref_env ref_json 0 ref_master one_slave now s f qs \<and> f [9] = Some v \<and> senders s = []
     \<and> (\<exists>M. db_view ref_env now (sv_db v) = kv_at now M \<and> accepted qs (db_map ref_env ref_db) M)
     \<and> db_view ref_env now (sv_db v) [107] = Some ([65], 0)"
proof -
  have e: "(case cluster_run ref_env ref_json lossy 0 ref_master one_slave [] of
      None \<Rightarrow> False
    | Some (now, s, f, qs) \<Rightarrow> length (senders s) = 0
        \<and> (case f [9] of None \<Rightarrow> False | Some v \<Rightarrow> db_view ref_env now (sv_db v) [107] = Some ([65], 0)))"
    by code_simp
  have l: "list_all (\<lambda>ev. case ev of Client x r \<Rightarrow> small_request ref_json r | _ \<Rightarrow> True) lossy" by code_simp
  then have "\<forall>ev \<in> set lossy. event_fits ref_json ev" by (simp add: lossy_def small_request_fits)
  with e obtain now s f qs v where r: "cluster ref_env ref_json 0 ref_master one_slave now s f qs"
    "f [9] = Some v" "senders s = []" "db_view ref_env now (sv_db v) [107] = Some ([65], 0)"
    using cluster_run_sound[OF cluster.start, of lossy ref_json ref_env 0 ref_master one_slave]
    by (fastforce split: option.splits)
  have n: "senders ref_master = []" by (simp add: ref_master_def NewServer_def)
  have v: "\<forall>url v. one_slave url = Some v \<longrightarrow> db_inv ref_env sorted_items list_wal_inv lw_pending (sv_db v)
      \<and> idle (sv_db v) \<and> \<not> closed (sv_db v)"
    using ref_slave_ok by (simp add: one_slave_def)
  have sl: "(case one_slave [9] of None \<Rightarrow> (\<lambda>k. None) | Some v0 \<Rightarrow> db_map ref_env (sv_db v0)) = db_map ref_env ref_db"
    by (simp add: one_slave_def ref_slave_def SetRole_def NewServer_def)
  from slaves_hold_acknowledged_values[OF ref.engine_axioms ref_json.json_lib_axioms r(1) ref_master_ok(3,1,2) n v
      order_refl, THEN conjunct2, rule_format, OF r(2)]
  have "\<exists>M. db_view ref_env now (sv_db v) = kv_at now M \<and> accepted qs (db_map ref_env ref_db) M"
    unfolding sl .
  with r show ?thesis by blast
qed

text \<open>
  Property C31. Replication always comes to an end: goroutines that have just been started
  make at most three tries each, whatever the network does and in whatever order they run.
\<close>

theorem replication_tries_bounded:
  assumes "cluster_run E J evs now s f qs = Some (now', s', f', qs')" and "list_all is_try evs"
    and "\<forall>sd \<in> set (senders s). snd_try sd = 1"
  shows "length evs \<le> 3 * length (senders s)"
proof -
  have "all_tries (senders s) = 3 * length (senders s)" by (rule fresh_tries[OF assms(3)])
  moreover have "\<forall>sd \<in> set (senders s). snd_try sd \<le> maxRetries" using assms(3) by (simp add: maxRetries_def)
  ultimately show ?thesis using tries_run_out[OF assms(1,2)] by simp
qed

definition three_losses :: "event list" where
  "three_losses = [Try (ticket_at 3 3) 0 RequestLost, Try (ticket_at 4 4) 0 AnswerLost, Try (ticket_at 5 5) 0 RequestLost,
                   Try (ticket_at 6 6) 0 RequestLost, Try (ticket_at 7 7) 0 RequestLost, Try (ticket_at 8 8) 0 RequestLost]"

theorem replication_tries_bounded_witness:
  "(\<exists>x. cluster_run ref_env ref_json three_losses 2 after_puts one_slave [] = Some x)
     \<and> length three_losses \<le> 3 * length (senders after_puts) \<and> length three_losses = 6"
proof -
  have "cluster_run ref_env ref_json three_losses 2 after_puts one_slave [] \<noteq> None" by code_simp
  then obtain now' s' f' qs' where r: "cluster_run ref_env ref_json three_losses 2 after_puts one_slave []
      = Some (now', s', f', qs')" by (metis option.exhaust prod_cases4)
  have "list_all is_try three_losses" by (simp add: three_losses_def)
  moreover have "list_all (\<lambda>sd. snd_try sd = 1) (senders after_puts)" by code_simp
  ultimately show ?thesis
    using replication_tries_bounded[OF r] r by (simp add: list_all_iff) (simp add: three_losses_def)
qed

end
