(* ===== verification/Proxy.thy ===== *)
theory Proxy
  imports Ring Replication
begin

text \<open>
  \<^verbatim>\<open>cmd/proxy/main.go\<close>: the sharding proxy. It routes requests by the ring, forwards
  them to the node that owns the key, and moves keys to a node that is added. Nodes are
  found by their URL, which is the base of their paths.
\<close>

section \<open>Trimming\<close>

text \<open>The white space of \<open>strings.TrimSpace\<close> in UTF-8.\<close>

definition white_space :: "bytes list" where
  "white_space =
     [[9], [10], [11], [12], [13], [32], [0xC2, 0x85], [0xC2, 0xA0], [0xE1, 0x9A, 0x80]]
     @ map (\<lambda>c. [0xE2, 0x80, c]) [0x80, 0x81, 0x82, 0x83, 0x84, 0x85, 0x86, 0x87, 0x88, 0x89, 0x8A, 0xA8, 0xA9, 0xAF]
     @ [[0xE2, 0x81, 0x9F], [0xE3, 0x80, 0x80]]"

text \<open>The length of the white space at the front of \<open>s\<close>, among the marks \<open>ws\<close>.\<close>

fun space_length :: "bytes list \<Rightarrow> bytes \<Rightarrow> nat" where
  "space_length [] s = 0"
| "space_length (w # ws) s = (if take (length w) s = w then length w else space_length ws s)"

lemma space_length_le: "space_length ws s \<le> length s"
proof (induction ws)
  case (Cons w ws)
  have "length w \<le> length s" if "take (length w) s = w" using that by (metis length_take min.absorb_iff2 min.commute)
  then show ?case using Cons by simp
qed simp

function trim_front :: "bytes list \<Rightarrow> bytes \<Rightarrow> bytes" where
  "trim_front ws s = (if space_length ws s = 0 then s else trim_front ws (drop (space_length ws s) s))"
  by pat_completeness auto
termination
proof (relation "measure (\<lambda>(ws, s). length s)")
  fix ws and s :: bytes
  assume "space_length ws s \<noteq> 0"
  then show "((ws, drop (space_length ws s) s), (ws, s)) \<in> measure (\<lambda>(ws, s). length s)"
    using space_length_le[of ws s] by simp
qed simp

declare trim_front.simps [simp del]

definition TrimSpace :: "bytes \<Rightarrow> bytes" where
  "TrimSpace s = rev (trim_front (map rev white_space) (rev (trim_front white_space s)))"

text \<open>\<open>strings.TrimRight(s, "/")\<close>.\<close>

definition TrimSlash :: "bytes \<Rightarrow> bytes" where
  "TrimSlash s = rev (dropWhile (\<lambda>c. c = 47) (rev s))"

text \<open>\<open>strings.Split\<close> at a comma.\<close>

fun split_comma :: "bytes \<Rightarrow> bytes list" where
  "split_comma [] = [[]]"
| "split_comma (c # cs) =
     (if c = 44 then [] # split_comma cs
      else case split_comma cs of [] \<Rightarrow> [[c]] | s # ss \<Rightarrow> (c # s) # ss)"

section \<open>The proxy\<close>

record Proxy =
  px_ring :: ConsistentHashRing
  px_nodes :: "bytes list"

definition NewProxy :: Proxy where
  "NewProxy = \<lparr>px_ring = New 10 None, px_nodes = []\<rparr>"

definition proxy_AddNode :: "bytes \<Rightarrow> Proxy \<Rightarrow> Proxy" where
  "proxy_AddNode node p = p\<lparr>px_ring := AddNode [node] (px_ring p), px_nodes := px_nodes p @ [node]\<rparr>"

definition proxy_GetNode :: "bytes \<Rightarrow> Proxy \<Rightarrow> bytes" where
  "proxy_GetNode key p = GetNode key (px_ring p)"

definition GetNodes :: "Proxy \<Rightarrow> bytes list" where
  "GetNodes p = px_nodes p"

text \<open>The start of the program: \<open>None\<close> without the flag \<open>-nodes\<close>.\<close>

definition start_proxy :: "bytes \<Rightarrow> Proxy option" where
  "start_proxy nodesFlag =
     (if nodesFlag = [] then None
      else Some (foldl (\<lambda>p node. proxy_AddNode node p) NewProxy (map TrimSpace (split_comma nodesFlag))))"

section \<open>Forwarding\<close>

text \<open>
  The request sent on. Parsing the form has read the body: the proxy encodes
  \<open>PostForm\<close> anew if there is one, and otherwise sends what is left of the body. The
  headers are copied, so the new body of a multipart form keeps the old content type, with
  which it cannot be read.
\<close>

definition body_left :: "http_request \<Rightarrow> content" where
  "body_left r =
     (case Body r of
        Urlencoded b \<Rightarrow>
          Urlencoded (if Method r = MethodPost \<or> Method r = MethodPut \<or> Method r = MethodPatch then [] else b)
      | Multipart v \<Rightarrow> Opaque []
      | Opaque b \<Rightarrow> Opaque b)"

definition forwarded :: "http_request \<Rightarrow> http_request" where
  "forwarded r =
     (if (Method r = MethodPost \<or> Method r = MethodPut \<or> Method r = MethodDelete) \<and> 0 < length (PostForm r)
      then r\<lparr>Body := (case Body r of
                        Urlencoded b \<Rightarrow> Urlencoded (Encode (PostForm r))
                      | _ \<Rightarrow> Opaque (Encode (PostForm r)))\<rparr>
      else r\<lparr>Body := body_left r\<rparr>)"

text \<open>\<open>net\<close> is the fate of the proxy's request. The reply of the node is copied.\<close>

definition forwardRequest ::
    "('t, 'w) env \<Rightarrow> json_ops \<Rightarrow> ticket \<Rightarrow> network \<Rightarrow> bytes \<Rightarrow> http_request \<Rightarrow> ('t, 'w) nodes
       \<Rightarrow> (reply \<times> ('t, 'w) nodes) option" where
  "forwardRequest E J x net targetNode r f =
     (let url = TrimSlash targetNode
      in if net = BadURL then Some (Reply StatusInternalServerError (Message ''Error creating proxy request''), f)
         else case (if net = RequestLost then None else f url) of
                None \<Rightarrow> Some (Reply StatusBadGateway (Message ''Error forwarding request''), f)
              | Some v \<Rightarrow>
                  (case ServeHTTP E J x (forwarded r) v of
                     None \<Rightarrow> None
                   | Some (Ok rp, v') \<Rightarrow>
                       Some (if net = Delivered then rp
                             else Reply StatusBadGateway (Message ''Error forwarding request''), f(url \<mapsto> v'))
                   | Some (_, v') \<Rightarrow>
                       Some (Reply StatusBadGateway (Message ''Error forwarding request''), f(url \<mapsto> v'))))"

definition proxy_handler ::
    "('t, 'w) env \<Rightarrow> json_ops \<Rightarrow> ticket \<Rightarrow> network \<Rightarrow> http_request \<Rightarrow> Proxy \<Rightarrow> ('t, 'w) nodes
       \<Rightarrow> (reply \<times> ('t, 'w) nodes) option" where
  "proxy_handler E J x net r p f =
     (let key = FormValue r (str ''key'');
          key = (if key = [] then QueryGet r (str ''key'') else key)
      in if key = [] then Some (Reply StatusBadRequest (Message ''Missing key parameter''), f)
         else (let targetNode = proxy_GetNode key p
               in if targetNode = [] then Some (Reply StatusInternalServerError (Message ''No available nodes''), f)
                  else forwardRequest E J x net targetNode r f))"

section \<open>Adding a node\<close>

text \<open>The goroutine that \<open>/add-node\<close> starts: the old nodes and the new one.\<close>

definition add_node :: "http_request \<Rightarrow> Proxy \<Rightarrow> reply \<times> Proxy \<times> (bytes list \<times> bytes) option" where
  "add_node r p =
     (if Method r \<noteq> MethodPost then (Reply StatusMethodNotAllowed (Message ''Method not allowed''), p, None)
      else
        (let newNode = QueryGet r (str ''node'')
         in if newNode = [] then (Reply StatusBadRequest (Message ''Missing node parameter''), p, None)
            else
              (let newNode = TrimSlash (TrimSpace newNode); oldNodes = GetNodes p
               in (Reply StatusOK (Message ''Node added and migration started''), proxy_AddNode newNode p,
                   Some (oldNodes, newNode)))))"

text \<open>
  The state of a migration: the nodes, and the number of HTTP calls made, which gives each
  call its ticket and its fate. A call has no answer (\<open>None\<close>) if it is lost, if there is no
  such node, or if the handler fails or blocks (then the client's timeout ends it).
\<close>

record ('t, 'w) migration =
  mg_nodes :: "('t, 'w) nodes"
  mg_calls :: nat

definition client_do ::
    "('t, 'w) env \<Rightarrow> json_ops \<Rightarrow> (nat \<Rightarrow> ticket) \<Rightarrow> (nat \<Rightarrow> network) \<Rightarrow> bytes \<Rightarrow> http_request
       \<Rightarrow> ('t, 'w) migration \<Rightarrow> reply option \<times> ('t, 'w) migration" where
  "client_do E J tk net url r m =
     (let n = mg_calls m; m = m\<lparr>mg_calls := n + 1\<rparr>
      in if net n = BadURL \<or> net n = RequestLost then (None, m)
         else case mg_nodes m url of
                None \<Rightarrow> (None, m)
              | Some v \<Rightarrow>
                  (case ServeHTTP E J (tk n) r v of
                     None \<Rightarrow> (None, m)
                   | Some (rp, v') \<Rightarrow>
                       (case rp of Ok a \<Rightarrow> if net n = Delivered then Some a else None | _ \<Rightarrow> None,
                        m\<lparr>mg_nodes := (mg_nodes m)(url \<mapsto> v')\<rparr>)))"

definition plain_get :: "bytes \<Rightarrow> bytes \<Rightarrow> http_request" where
  "plain_get path query =
     \<lparr>Method = MethodGet, Path = path, RawQuery = query, SyncKeyHeader = [], Body = Opaque []\<rparr>"

definition plain_post :: "bytes \<Rightarrow> bytes \<Rightarrow> http_request" where
  "plain_post path body =
     \<lparr>Method = MethodPost, Path = path, RawQuery = [], SyncKeyHeader = [], Body = Urlencoded body\<rparr>"

text \<open>
  The key goes into the URL as it is. A number sign ends the query, and what follows is the
  fragment, in which a percent sign without two hexadecimal digits makes \<open>url.Parse\<close> fail. A
  control character in the query makes it fail too, and with a space there the node's
  server rejects the request before any handler sees it (a call without effect, which is not
  counted).
\<close>

definition url_key :: "bytes \<Rightarrow> bytes option" where
  "url_key key =
     (let query = takeWhile (\<lambda>c. c \<noteq> 35) key; fragment = drop (length query + 1) key
      in if (\<exists>c \<in> set query. c \<le> 32 \<or> c = 127) \<or> QueryUnescape fragment = None then None else Some query)"

text \<open>The body of a reply to \<open>/get\<close>, as the proxy reads it.\<close>

fun reply_text :: "reply \<Rightarrow> bytes" where
  "reply_text (Reply n (ValueLine v)) = v @ [10]"
| "reply_text (Reply n p) = []"

definition migrate_key ::
    "('t, 'w) env \<Rightarrow> json_ops \<Rightarrow> (nat \<Rightarrow> ticket) \<Rightarrow> (nat \<Rightarrow> network) \<Rightarrow> Proxy \<Rightarrow> bytes \<Rightarrow> bytes \<Rightarrow> bytes
       \<Rightarrow> ('t, 'w) migration \<Rightarrow> ('t, 'w) migration" where
  "migrate_key E J tk net p newNode oldNode key m =
     (let target = proxy_GetNode key p
      in if target \<noteq> newNode then m
         else case url_key key of
                None \<Rightarrow> m
              | Some k \<Rightarrow>
                  (case client_do E J tk net oldNode (plain_get (str ''/get'') (str ''key='' @ k)) m of
                     (None, m) \<Rightarrow> m
                   | (Some getResp, m) \<Rightarrow>
                       if status_of getResp \<noteq> StatusOK then m
                       else
                         (let value = TrimSpace (reply_text getResp)
                          in case client_do E J tk net newNode
                                    (plain_post (str ''/put'') (str ''key='' @ key @ str ''&value='' @ value)) m of
                               (None, m) \<Rightarrow> m
                             | (Some putResp, m) \<Rightarrow>
                                 if status_of putResp \<noteq> StatusOK then m
                                 else snd (client_do E J tk net oldNode (plain_post (str ''/delete'') (str ''key='' @ key)) m))))"

text \<open>
  JSON holds text. The length of the UTF-8 sequence at the front of a string, as
  \<open>utf8.DecodeRune\<close> finds it, or 0 if there is none.
\<close>

definition tail_byte :: "byte \<Rightarrow> bool" where
  "tail_byte c \<longleftrightarrow> 0x80 \<le> c \<and> c \<le> 0xBF"

definition second_byte :: "byte \<Rightarrow> byte \<Rightarrow> bool" where
  "second_byte a b \<longleftrightarrow>
     (if a = 0xE0 then 0xA0 \<le> b \<and> b \<le> 0xBF
      else if a = 0xED then 0x80 \<le> b \<and> b \<le> 0x9F
      else if a = 0xF0 then 0x90 \<le> b \<and> b \<le> 0xBF
      else if a = 0xF4 then 0x80 \<le> b \<and> b \<le> 0x8F
      else tail_byte b)"

definition rune_length :: "bytes \<Rightarrow> nat" where
  "rune_length s =
     (case s of
        [] \<Rightarrow> 0
      | a # s \<Rightarrow>
          if a < 0x80 then 1
          else if 0xC2 \<le> a \<and> a \<le> 0xDF
          then (case s of b # s \<Rightarrow> if tail_byte b then 2 else 0 | _ \<Rightarrow> 0)
          else if 0xE0 \<le> a \<and> a \<le> 0xEF
          then (case s of b # c # s \<Rightarrow> if second_byte a b \<and> tail_byte c then 3 else 0 | _ \<Rightarrow> 0)
          else if 0xF0 \<le> a \<and> a \<le> 0xF4
          then (case s of b # c # d # s \<Rightarrow> if second_byte a b \<and> tail_byte c \<and> tail_byte d then 4 else 0 | _ \<Rightarrow> 0)
          else 0)"

text \<open>
  A string after \<open>json.Encode\<close> and \<open>json.Decode\<close>: every byte that is not part of a UTF-8
  sequence has become the replacement character.
\<close>

function json_string :: "bytes \<Rightarrow> bytes" where
  "json_string s =
     (case s of
        [] \<Rightarrow> []
      | c # cs \<Rightarrow>
          if rune_length s = 0 then [0xEF, 0xBF, 0xBD] @ json_string cs
          else take (rune_length s) s @ json_string (drop (rune_length s) s))"
  by pat_completeness auto
termination by (relation "measure length") auto

declare json_string.simps [simp del]

lemma json_string_ascii: "\<forall>c \<in> set s. c < 0x80 \<Longrightarrow> json_string s = s"
proof (induction s)
  case Nil
  then show ?case by (subst json_string.simps) simp
next
  case (Cons c s)
  then show ?case by (subst json_string.simps) (simp add: rune_length_def)
qed

text \<open>The keys of a node; \<open>None\<close> when the body is not a JSON list.\<close>

fun decode_keys :: "reply \<Rightarrow> bytes list option" where
  "decode_keys (Reply n (KeyList ks)) = Some (map json_string ks)"
| "decode_keys (Reply n p) = None"

definition migrate_node ::
    "('t, 'w) env \<Rightarrow> json_ops \<Rightarrow> (nat \<Rightarrow> ticket) \<Rightarrow> (nat \<Rightarrow> network) \<Rightarrow> Proxy \<Rightarrow> bytes
       \<Rightarrow> ('t, 'w) migration \<Rightarrow> bytes \<Rightarrow> ('t, 'w) migration" where
  "migrate_node E J tk net p newNode m oldNode =
     (case client_do E J tk net oldNode (plain_get (str ''/keys'') []) m of
        (None, m) \<Rightarrow> m
      | (Some resp, m) \<Rightarrow>
          (case decode_keys resp of
             None \<Rightarrow> m
           | Some keys \<Rightarrow> foldl (\<lambda>m key. migrate_key E J tk net p newNode oldNode key m) m keys))"

definition migrateData ::
    "('t, 'w) env \<Rightarrow> json_ops \<Rightarrow> (nat \<Rightarrow> ticket) \<Rightarrow> (nat \<Rightarrow> network) \<Rightarrow> bytes list \<Rightarrow> bytes \<Rightarrow> Proxy
       \<Rightarrow> ('t, 'w) nodes \<Rightarrow> ('t, 'w) nodes" where
  "migrateData E J tk net oldNodes newNode p f =
     mg_nodes (foldl (migrate_node E J tk net p newNode) \<lparr>mg_nodes = f, mg_calls = 0\<rparr> oldNodes)"

text \<open>The routes of the proxy.\<close>

definition proxy_serve ::
    "('t, 'w) env \<Rightarrow> json_ops \<Rightarrow> ticket \<Rightarrow> network \<Rightarrow> http_request \<Rightarrow> Proxy \<Rightarrow> ('t, 'w) nodes
       \<Rightarrow> (reply \<times> Proxy \<times> ('t, 'w) nodes \<times> (bytes list \<times> bytes) option) option" where
  "proxy_serve E J x net r p f =
     (if Path r = str ''/get'' \<or> Path r = str ''/put'' \<or> Path r = str ''/delete''
      then map_option (\<lambda>(rp, f'). (rp, p, f', None)) (proxy_handler E J x net r p f)
      else if Path r = str ''/add-node'' then (case add_node r p of (rp, p', mig) \<Rightarrow> Some (rp, p', f, mig))
      else Some (Reply StatusNotFound (Message ''404 page not found''), p, f, None))"

section \<open>Forwarding is transparent\<close>

lemma forwarded_same [simp]:
  "Method (forwarded r) = Method r" "Path (forwarded r) = Path r" "RawQuery (forwarded r) = RawQuery r"
  "SyncKeyHeader (forwarded r) = SyncKeyHeader r"
  by (cases r; simp add: forwarded_def)+

lemma forwarded_QueryGet [simp]: "QueryGet (forwarded r) k = QueryGet r k"
  by (simp add: QueryGet_def)

lemma values_get_append: "values_get (a @ b) k = (case map_of a k of None \<Rightarrow> values_get b k | Some v \<Rightarrow> v)"
  by (simp add: values_get_def map_add_def split: option.split)

lemma forwarded_Body:
  "Body (forwarded r) =
     (if (Method r = MethodPost \<or> Method r = MethodPut \<or> Method r = MethodDelete) \<and> PostForm r \<noteq> []
      then (case Body r of Urlencoded b \<Rightarrow> Urlencoded (Encode (PostForm r)) | _ \<Rightarrow> Opaque (Encode (PostForm r)))
      else body_left r)"
  by (simp add: forwarded_def)

lemma forwarded_FormValue:
  assumes "\<forall>v. Body r \<noteq> Multipart v" and "Method r \<noteq> MethodPatch"
  shows "FormValue (forwarded r) k = FormValue r k"
proof -
  have nm: "multipart_values r = []"
    using assms(1) by (simp add: multipart_values_def split: content.split)
  then have pf: "PostForm r = ParsedBody r" by (simp add: PostForm_def)
  have nf: "multipart_values (forwarded r) = []"
    using assms(1) by (simp add: multipart_values_def forwarded_Body body_left_def split: content.split)
  have "map_of (ParsedBody (forwarded r)) k = map_of (ParsedBody r) k"
  proof (cases "ParsedBody r = []")
    case True
    then have "Body (forwarded r) = body_left r" by (simp add: forwarded_Body pf)
    then have "ParsedBody (forwarded r) = []"
      using assms by (simp add: ParsedBody_def body_left_def ParseQuery.simps[of "[]"] split: content.split)
    then show ?thesis using True by simp
  next
    case False
    then obtain b where b: "Body r = Urlencoded b" "Method r = MethodPost \<or> Method r = MethodPut"
      using assms(2) by (auto simp: ParsedBody_def split: if_splits content.splits)
    then have "Body (forwarded r) = Urlencoded (Encode (ParsedBody r))"
      using False by (auto simp: forwarded_Body pf)
    then have "ParsedBody (forwarded r) = sort_key fst (ParsedBody r)"
      using b(2) by (auto simp: ParsedBody_def[of "forwarded r"] parse_encode)
    then show ?thesis by (simp add: first_value_sorted)
  qed
  then show ?thesis by (simp add: FormValue_def values_get_append nm nf QueryGet_def[symmetric])
qed

lemma forwarded_serves:
  assumes "\<forall>v. Body r \<noteq> Multipart v" and "Path r = str ''/get'' \<or> Path r = str ''/put'' \<or> Path r = str ''/delete''"
  shows "ServeHTTP E J x (forwarded r) s = ServeHTTP E J x r s"
proof (cases "Method r = MethodPatch")
  case True
  then have "Method r \<noteq> MethodGet" "Method r \<noteq> MethodPost" "Method r \<noteq> MethodDelete" by (auto simp: method_defs)
  then show ?thesis
    using assms(2) by (auto simp: ServeHTTP_def handlePut_def handleGet_def handleDelete_def)
next
  case False
  note same = forwarded_FormValue[OF assms(1) False] forwarded_QueryGet forwarded_same
  have "handlePut E x (forwarded r) s = handlePut E x r s" "handleGet E x (forwarded r) s = handleGet E x r s"
    "handleDelete E x (forwarded r) s = handleDelete E x r s"
    unfolding handlePut_def handleGet_def handleDelete_def same by (rule refl)+
  then show ?thesis using assms(2) by (auto simp: ServeHTTP_def)
qed

end
