(* ===== verification/Proxy_Spec.thy ===== *)
theory Proxy_Spec
  imports Proxy
begin

text \<open>
  What the sharding proxy promises: a forwarded request is answered as the node would answer
  it, and the nodes behind a proxy act as one map (\<open>proxy_spec\<close>).
\<close>

section \<open>The owner of a key\<close>

text \<open>Every point of the ring belongs to a node of the list, and a list that is not empty has points.\<close>

definition proxy_inv :: "Proxy \<Rightarrow> bool" where
  "proxy_inv p \<longleftrightarrow> ring_inv (px_ring p) \<and> ran (owner (px_ring p)) \<subseteq> set (px_nodes p)
     \<and> 0 < replicas (px_ring p) \<and> (px_nodes p \<noteq> [] \<longrightarrow> ring_keys (px_ring p) \<noteq> [])"

lemma NewProxy_inv: "proxy_inv NewProxy"
  by (simp add: proxy_inv_def NewProxy_def New_inv) (simp add: New_def owner_def)

lemma proxy_AddNode_inv:
  assumes "proxy_inv p"
  shows "proxy_inv (proxy_AddNode node p)"
proof -
  have i: "ring_inv (px_ring p)" and r: "ran (owner (px_ring p)) \<subseteq> set (px_nodes p)" and n: "0 < replicas (px_ring p)"
    using assms by (simp_all add: proxy_inv_def)
  note a = AddNode_one[where r = "px_ring p" and node = node]
  have "ring_inv (AddNode [node] (px_ring p))" using i AddNode_inv by (simp add: ring_inv_def)
  moreover have "ran (owner (AddNode [node] (px_ring p))) \<subseteq> set (px_nodes p @ [node])"
    using a(3) r by (auto simp: ran_def)
  moreover have "virtual_hashes (px_ring p) node \<noteq> []" using n by (simp add: virtual_hashes_def)
  then have "ring_keys (AddNode [node] (px_ring p)) \<noteq> []" using a(2) by (metis append_is_Nil_conv length_0_conv length_sort)
  ultimately show ?thesis using a(1) n by (simp add: proxy_inv_def proxy_AddNode_def same_ring_def)
qed

lemma add_nodes_inv: "proxy_inv p \<Longrightarrow> proxy_inv (foldl (\<lambda>p node. proxy_AddNode node p) p nodes)"
  by (induction nodes arbitrary: p) (simp_all add: proxy_AddNode_inv)

lemma proxy_owner:
  assumes "proxy_inv p" and "px_nodes p \<noteq> []"
  shows "proxy_GetNode key p \<in> set (px_nodes p)"
proof -
  have "ring_inv (px_ring p)" "\<not> ring_IsEmpty (px_ring p)"
    using assms by (simp_all add: proxy_inv_def ring_IsEmpty_def)
  from GetNode_owner[OF this, of key] have "proxy_GetNode key p \<in> ran (owner (px_ring p))"
    by (auto simp: proxy_GetNode_def ran_def)
  then show ?thesis using assms by (auto simp: proxy_inv_def)
qed

section \<open>The specification\<close>

definition proxied :: "http_request \<Rightarrow> bool" where
  "proxied r \<longleftrightarrow> (Path r = str ''/get'' \<or> Path r = str ''/put'' \<or> Path r = str ''/delete'') \<and> (\<forall>v. Body r \<noteq> Multipart v)"

text \<open>The proxy over one map: \<open>net\<close> is what happens to its request.\<close>

definition proxy_spec ::
    "int64 \<Rightarrow> go_error option \<Rightarrow> json_ops \<Rightarrow> network \<Rightarrow> http_request \<Rightarrow> kv \<Rightarrow> reply \<times> kv" where
  "proxy_spec now fault J net r M =
     (if delete_key r = [] then (Reply StatusBadRequest (Message ''Missing key parameter''), M)
      else if net = BadURL then (Reply StatusInternalServerError (Message ''Error creating proxy request''), M)
      else if net = RequestLost then (Reply StatusBadGateway (Message ''Error forwarding request''), M)
      else case http_spec now fault J MASTER [] r M of
             (rp, M', out) \<Rightarrow>
               (if net = Delivered then rp else Reply StatusBadGateway (Message ''Error forwarding request''), M'))"

fun proxy_spec_run ::
    "json_ops \<Rightarrow> ((ticket \<times> network \<times> http_request) \<times> go_error option) list \<Rightarrow> kv \<Rightarrow> reply list \<times> kv" where
  "proxy_spec_run J [] M = ([], M)"
| "proxy_spec_run J (((x, net, r), fault) # xs) M =
     (case proxy_spec (t_op x) fault J net r M of
        (rp, M') \<Rightarrow> (case proxy_spec_run J xs M' of (rps, M'') \<Rightarrow> (rp # rps, M'')))"

text \<open>The proxy and its nodes, serving a list of requests.\<close>

fun proxy_run ::
    "('t, 'w) env \<Rightarrow> json_ops \<Rightarrow> (ticket \<times> network \<times> http_request) list \<Rightarrow> Proxy \<Rightarrow> ('t, 'w) nodes
       \<Rightarrow> (reply list \<times> ('t, 'w) nodes) option" where
  "proxy_run E J [] p f = Some ([], f)"
| "proxy_run E J ((x, net, r) # xs) p f =
     (case proxy_serve E J x net r p f of
        None \<Rightarrow> None
      | Some (rp, p', f', mig) \<Rightarrow>
          (case proxy_run E J xs p' f' of None \<Rightarrow> None | Some (rps, f'') \<Rightarrow> Some (rp # rps, f'')))"

text \<open>A request looks at its own key only.\<close>

lemma query_key: "Method r = MethodGet \<Longrightarrow> \<forall>v. Body r \<noteq> Multipart v \<Longrightarrow> FormValue r k = QueryGet r k"
  by (simp add: FormValue_def QueryGet_def ParsedBody_def multipart_values_def method_defs split: content.split)

lemma http_spec_local:
  assumes p: "proxied r" and s: "http_spec now fault J MASTER key r N = (rp, N', out)"
    and k: "delete_key r \<noteq> []" "N (delete_key r) = M (delete_key r)"
  obtains M' where "http_spec now fault J MASTER key' r M = (rp, M', out)"
    and "N' (delete_key r) = M' (delete_key r)"
    and "\<forall>k. k \<noteq> delete_key r \<longrightarrow> N' k = N k \<and> M' k = M k"
proof -
  have mp: "\<forall>v. Body r \<noteq> Multipart v" using p by (simp add: proxied_def)
  consider "Path r = str ''/get''" | "Path r = str ''/put''" | "Path r = str ''/delete''"
    using p by (auto simp: proxied_def)
  then show ?thesis
  proof cases
    case 1
    have "QueryGet r (str ''key'') = delete_key r" if "Method r = MethodGet"
      using query_key[OF that mp] by (simp add: delete_key_def)
    then show ?thesis
      using s k 1 by (intro that[of M])
        (auto simp: http_spec_def refuse_def write_spec_def kv_step_def kv_at_def split: if_splits option.splits prod.splits)
  next
    case 2
    let ?k = "FormValue r (str ''key'')" and ?v = "FormValue r (str ''value'')"
    have dk: "?k \<noteq> [] \<Longrightarrow> delete_key r = ?k" by (simp add: delete_key_def)
    show ?thesis
    proof (cases "Method r = MethodPost \<and> ?k \<noteq> [] \<and> ?v \<noteq> []")
      case True
      then show ?thesis
        using s 2 k dk by (intro that[of "case fault of None \<Rightarrow> M(?k \<mapsto> (?v, 0)) | Some e \<Rightarrow> M"])
          (auto simp: http_spec_def write_spec_def kv_step_def kv_write_def split: option.splits)
    next
      case False
      then show ?thesis using s 2 k by (intro that[of M]) (auto simp: http_spec_def refuse_def split: if_splits)
    qed
  next
    case 3
    let ?k = "delete_key r"
    show ?thesis
    proof (cases "Method r = MethodDelete \<or> Method r = MethodPost")
      case True
      then show ?thesis
        using s 3 k by (intro that[of "case fault of None \<Rightarrow> M(?k := None) | Some e \<Rightarrow> M"])
          (auto simp: http_spec_def write_spec_def kv_step_def kv_write_def split: option.splits)
    next
      case False
      then show ?thesis using s 3 k by (intro that[of M]) (auto simp: http_spec_def refuse_def split: if_splits)
    qed
  qed
qed


section \<open>The nodes as one map\<close>

lemma proxied_form: "proxied r \<Longrightarrow> ServeHTTP E J x (forwarded r) s = ServeHTTP E J x r s"
  by (rule forwarded_serves) (auto simp: proxied_def)

lemma handler_forwards:
  assumes "proxied r" and "delete_key r \<noteq> []" and "proxy_GetNode (delete_key r) p \<noteq> []"
  shows "proxy_serve E J x net r p f
     = map_option (\<lambda>(rp, f'). (rp, p, f', None)) (forwardRequest E J x net (proxy_GetNode (delete_key r) p) r f)"
  using assms by (auto simp: proxied_def proxy_serve_def proxy_handler_def delete_key_def Let_def)

lemma handler_no_key:
  assumes "proxied r" and "delete_key r = []"
  shows "proxy_serve E J x net r p f = Some (Reply StatusBadRequest (Message ''Missing key parameter''), p, f, None)"
  using assms by (auto simp: proxied_def proxy_serve_def proxy_handler_def delete_key_def Let_def split: if_splits)

context engine
begin

text \<open>Each node holds a map, and the node of each key holds for it what the whole map holds.\<close>

definition sharded :: "int64 \<Rightarrow> Proxy \<Rightarrow> ('t, 'w) nodes \<Rightarrow> (bytes \<Rightarrow> kv) \<Rightarrow> kv \<Rightarrow> bool" where
  "sharded now p f Ns M \<longleftrightarrow>
     (\<forall>k. proxy_GetNode k p \<noteq> [] \<and> Ns (TrimSlash (proxy_GetNode k p)) k = M k
        \<and> (\<exists>v. f (TrimSlash (proxy_GetNode k p)) = Some v \<and> role v = MASTER
                \<and> node_ok now (Ns (TrimSlash (proxy_GetNode k p))) v))"

lemma sharded_later: "sharded now p f Ns M \<Longrightarrow> sint now \<le> sint now' \<Longrightarrow> sharded now' p f Ns M"
  unfolding sharded_def using node_ok_later by blast

text \<open>A request the owner serves.\<close>

lemma owner_serves:
  assumes s: "sharded now p f Ns M" and c: "sint now \<le> sint (t_op x)" "sint (t_op x) \<le> sint (t_commit x)"
    and r: "proxied r" "http_fits J r" "delete_key r \<noteq> []"
  obtains v fault rp v' Ns' M' out where "f (TrimSlash (proxy_GetNode (delete_key r) p)) = Some v"
    and "ServeHTTP E J x r v = Some (Ok rp, v')" and "http_spec (t_op x) fault J MASTER [] r M = (rp, M', out)"
    and "sharded (t_commit x) p (f(TrimSlash (proxy_GetNode (delete_key r) p) \<mapsto> v')) Ns' M'"
proof -
  let ?k = "delete_key r" let ?url = "TrimSlash (proxy_GetNode ?k p)"
  let ?N = "Ns ?url"
  obtain v where v: "f ?url = Some v" "role v = MASTER" "node_ok now ?N v" "?N ?k = M ?k"
    using s unfolding sharded_def by blast
  have "ready x v ?N" using v(3) c rep_later by (auto simp: node_ok_def ready_def)
  from server_serves[OF this r(2)] obtain fault rp d' N' out where q:
    "http_spec (t_op x) fault J MASTER (sv_key v) r ?N = (rp, N', out)"
    "ServeHTTP E J x r v = Some (Ok rp, v\<lparr>sv_db := d', senders := senders v @ posted (replicator v) out\<rparr>)"
    "settled (sv_db v) d'" "rep (t_commit x) d' N'"
    using v(2) by (auto simp: serves_def)
  let ?v' = "v\<lparr>sv_db := d', senders := senders v @ posted (replicator v) out\<rparr>"
  have n: "node_ok (t_commit x) N' ?v'"
    using q(3,4) v(3) settled_idle[OF q(3)] by (simp add: node_ok_def settled_def)
  obtain M' where M': "http_spec (t_op x) fault J MASTER [] r M = (rp, M', out)" "N' ?k = M' ?k"
    "\<forall>k. k \<noteq> ?k \<longrightarrow> N' k = ?N k \<and> M' k = M k"
    by (rule http_spec_local[where M = M and key' = "[]", OF r(1) q(1) r(3) v(4)])
  have "sint now \<le> sint (t_commit x)" using c by simp
  note old = sharded_later[OF s this]
  let ?Ns = "Ns(?url := N')"
  have "sharded (t_commit x) p (f(?url \<mapsto> ?v')) ?Ns M'"
    unfolding sharded_def
  proof (intro allI conjI)
    fix k
    let ?u = "TrimSlash (proxy_GetNode k p)"
    obtain w where w: "f ?u = Some w" "role w = MASTER" "node_ok (t_commit x) (Ns ?u) w" "Ns ?u k = M k"
      and ne: "proxy_GetNode k p \<noteq> []"
      using old unfolding sharded_def by blast
    show "proxy_GetNode k p \<noteq> []" by (rule ne)
    show "?Ns ?u k = M' k" using w(4) M'(2,3) by (cases "k = ?k") auto
    show "\<exists>w. (f(?url \<mapsto> ?v')) ?u = Some w \<and> role w = MASTER \<and> node_ok (t_commit x) (?Ns ?u) w"
      using w n v(2) by (cases "?u = ?url") simp_all
  qed
  then show ?thesis using that v(1) q(2) M'(1) by blast
qed

lemma proxy_serves:
  assumes s: "sharded now p f Ns M" and c: "sint now \<le> sint (t_op x)" "sint (t_op x) \<le> sint (t_commit x)"
    and r: "proxied r" "http_fits J r"
  shows "\<exists>fault rp f' Ns' M'. proxy_serve E J x net r p f = Some (rp, p, f', None)
     \<and> proxy_spec (t_op x) fault J net r M = (rp, M') \<and> sharded (t_commit x) p f' Ns' M'"
proof (cases "delete_key r = []")
  case True
  then show ?thesis
    using sharded_later[OF s] c handler_no_key[OF r(1) True]
    by (intro exI[of _ None] exI[of _ "Reply StatusBadRequest (Message ''Missing key parameter'')"] exI[of _ f]
        exI[of _ Ns] exI[of _ M]) (simp add: proxy_spec_def)
next
  case False
  let ?node = "proxy_GetNode (delete_key r) p"
  have ne: "?node \<noteq> []" using s by (simp add: sharded_def)
  note fw = handler_forwards[OF r(1) False ne, of E J x net f]
  have keep: "sharded (t_commit x) p f Ns M" using sharded_later[OF s] c by simp
  obtain v fault rp v' Ns' M' out where q: "f (TrimSlash ?node) = Some v" "ServeHTTP E J x r v = Some (Ok rp, v')"
    "http_spec (t_op x) fault J MASTER [] r M = (rp, M', out)"
    "sharded (t_commit x) p (f(TrimSlash ?node \<mapsto> v')) Ns' M'"
    by (rule owner_serves[OF s c r False])
  show ?thesis
  proof (cases "net = BadURL \<or> net = RequestLost")
    case True
    then show ?thesis
      using fw False keep
      by (intro exI[of _ None] exI[of _ "fst (proxy_spec (t_op x) None J net r M)"] exI[of _ f] exI[of _ Ns] exI[of _ M])
        (auto simp: proxy_spec_def forwardRequest_def)
  next
    case ok: False
    then show ?thesis
      using fw False q proxied_form[OF r(1), of E J x v]
      by (intro exI[of _ fault] exI[of _ "fst (proxy_spec (t_op x) fault J net r M)"]
          exI[of _ "f(TrimSlash ?node \<mapsto> v')"] exI[of _ Ns'] exI[of _ M'])
        (simp add: proxy_spec_def forwardRequest_def)
  qed
qed

end


context engine
begin

lemma proxy_runs:
  assumes "sharded now p f Ns M" and "http_clock now (map (\<lambda>(x, net, r). (x, r)) xs)"
    and "\<forall>(x, net, r) \<in> set xs. proxied r \<and> http_fits J r"
  shows "\<exists>faults rps f' Ns' M'. length faults = length xs \<and> proxy_run E J xs p f = Some (rps, f')
     \<and> proxy_spec_run J (zip xs faults) M = (rps, M')
     \<and> sharded (http_end now (map (\<lambda>(x, net, r). (x, r)) xs)) p f' Ns' M'"
  using assms
proof (induction xs arbitrary: now f Ns M)
  case Nil
  then show ?case by (intro exI[of _ "[]"] exI[of _ "[] :: reply list"] exI[of _ f] exI[of _ Ns] exI[of _ M]) simp
next
  case (Cons a xs)
  obtain x net r where a: "a = (x, net, r)" by (cases a)
  have c: "sint now \<le> sint (t_op x)" "sint (t_op x) \<le> sint (t_commit x)"
    "http_clock (t_commit x) (map (\<lambda>(x, net, r). (x, r)) xs)"
    using Cons.prems(2) a by simp_all
  have r: "proxied r" "http_fits J r" "\<forall>(x, net, r) \<in> set xs. proxied r \<and> http_fits J r"
    using Cons.prems(3) a by simp_all
  obtain fault rp f1 Ns1 M1 where q: "proxy_serve E J x net r p f = Some (rp, p, f1, None)"
    "proxy_spec (t_op x) fault J net r M = (rp, M1)" "sharded (t_commit x) p f1 Ns1 M1"
    using proxy_serves[OF Cons.prems(1) c(1,2) r(1,2)] by blast
  obtain faults rps f' Ns' M' where s: "length faults = length xs" "proxy_run E J xs p f1 = Some (rps, f')"
    "proxy_spec_run J (zip xs faults) M1 = (rps, M')"
    "sharded (http_end (t_commit x) (map (\<lambda>(x, net, r). (x, r)) xs)) p f' Ns' M'"
    using Cons.IH[OF q(3) c(3) r(3)] by blast
  show ?case
    using a q(1,2) s
    by (intro exI[of _ "fault # faults"] exI[of _ "rp # rps"] exI[of _ f'] exI[of _ Ns'] exI[of _ M']) simp
qed

end

text \<open>What the nodes hold together: for each key, what the node of the key holds.\<close>

definition shards :: "(('t, 'w) DB \<Rightarrow> kv) \<Rightarrow> Proxy \<Rightarrow> ('t, 'w) nodes \<Rightarrow> kv" where
  "shards h p f k = (case f (TrimSlash (proxy_GetNode k p)) of None \<Rightarrow> None | Some v \<Rightarrow> h (sv_db v) k)"

section \<open>Properties\<close>


text \<open>Two nodes on a small ring; the first is given with a slash.\<close>

definition small_proxy :: Proxy where
  "small_proxy = \<lparr>px_ring = two_nodes, px_nodes = [[65], [90]]\<rparr>"

definition two_servers :: "(item list, list_wal) nodes" where
  "two_servers url = (if url = [65] \<or> url = [90] then Some (NewServer ref_db None []) else None)"



lemma small_proxy_inv: "proxy_inv small_proxy"
proof -
  have "ring_inv two_nodes" by (simp add: two_nodes_def AddNode_inv New_def owner_def)
  moreover have "replicas two_nodes = 2" "hashMap two_nodes = [(113, [65]), (114, [65]), (138, [90]), (139, [90])]"
    "ring_keys two_nodes \<noteq> []" by code_simp+
  ultimately show ?thesis by (auto simp: proxy_inv_def small_proxy_def owner_def ran_def split: if_splits)
qed

definition proxy_requests :: "(ticket \<times> network \<times> http_request) list" where
  "proxy_requests =
     [(ticket_at 1 1, Delivered, put_request [113] [65, 38]), (ticket_at 2 2, AnswerLost, put_request [120] [66]),
      (ticket_at 3 3, RequestLost, put_request [120] [67]), (ticket_at 4 4, Delivered, get_request [120])]"


end
