(* ===== verification/Migration.thy ===== *)
theory Migration
  imports Proxy_Spec
begin

text \<open>
  The migration that follows \<open>/add-node\<close>: what it keeps and what it loses. When no pair of
  the old nodes has an expiry time or a byte with a meaning in forms and URLs, each survives
  on the old or on the new node whatever happens to the messages; a plus sign in a value
  does no harm to the other pairs, but it arrives as a space. One pair of another kind can
  destroy others.
\<close>

section \<open>Pairs that a form carries as they are\<close>

definition plain_bytes :: "bytes \<Rightarrow> bool" where
  "plain_bytes s \<longleftrightarrow> (\<forall>c \<in> set s. c \<noteq> 37 \<and> c \<noteq> 38 \<and> c \<noteq> 43 \<and> c \<noteq> 59)"

text \<open>A value may have plus signs, too; a form turns them into spaces.\<close>

definition form_bytes :: "bytes \<Rightarrow> bool" where
  "form_bytes s \<longleftrightarrow> (\<forall>c \<in> set s. c \<noteq> 37 \<and> c \<noteq> 38 \<and> c \<noteq> 59)"

definition sent :: "bytes \<Rightarrow> bytes" where
  "sent s = map (\<lambda>c. if c = 43 then 32 else c) s"

text \<open>
  The key survives JSON, the URL and the form; the value survives the reply to \<open>/get\<close> and
  its trimming, and does not break the form.
\<close>

definition form_pair :: "bytes \<Rightarrow> bytes \<Rightarrow> bool" where
  "form_pair k v \<longleftrightarrow> k \<noteq> [] \<and> v \<noteq> [] \<and> plain_bytes k \<and> form_bytes v \<and> json_string k = k
     \<and> (\<forall>c \<in> set k. 32 < c \<and> c \<noteq> 35 \<and> c \<noteq> 127) \<and> TrimSpace (v @ [10]) = v \<and> value_fits k v"

lemma plain_form: "plain_bytes s \<Longrightarrow> form_bytes s"
  by (simp add: plain_bytes_def form_bytes_def)

lemma sent_plain: "43 \<notin> set s \<Longrightarrow> sent s = s"
  by (induction s) (auto simp: sent_def)

lemma sent_changes: "43 \<in> set s \<Longrightarrow> sent s \<noteq> s"
proof
  assume "43 \<in> set s" and s: "sent s = s"
  then have "43 \<in> set (sent s)" by simp
  then show False by (auto simp: sent_def split: if_splits)
qed

lemma sent_simps [simp]: "sent s = [] \<longleftrightarrow> s = []" "length (sent s) = length s"
  by (simp_all add: sent_def)

lemma unescape_form: "form_bytes s \<Longrightarrow> QueryUnescape s = Some (sent s)"
  by (induction s rule: QueryUnescape.induct) (auto simp: form_bytes_def sent_def)

lemma unescape_plain: "plain_bytes s \<Longrightarrow> QueryUnescape s = Some s"
  using unescape_form[OF plain_form] sent_plain by (auto simp: plain_bytes_def)

lemma form_parse_pair:
  assumes "form_bytes v" and "plain_bytes n" and "61 \<notin> set n" and "n \<noteq> []"
  shows "parse_pair (n @ 61 # v) = [(n, sent v)]"
  using assms unescape_plain[of n] unescape_form[of v] by (auto simp: parse_pair_def plain_bytes_def form_bytes_def)

lemma plain_pair:
  assumes "plain_bytes k" and "plain_bytes n" and "61 \<notin> set n" and "n \<noteq> []"
  shows "parse_pair (n @ 61 # k) = [(n, k)]"
  using form_parse_pair[OF plain_form[OF assms(1)] assms(2-4)] sent_plain[of k] assms(1) by (auto simp: plain_bytes_def)

lemma names_plain: "plain_bytes (str ''key'')" "plain_bytes (str ''value'')"
  "61 \<notin> set (str ''key'')" "61 \<notin> set (str ''value'')"
  by (simp_all add: plain_bytes_def str_def)

lemma form_url: "form_pair k v \<Longrightarrow> url_key k = Some k"
proof -
  assume p: "form_pair k v"
  then have "\<forall>c \<in> set k. c \<noteq> 35" by (auto simp: form_pair_def)
  then have t: "takeWhile (\<lambda>c. c \<noteq> 35) k = k" by (simp add: takeWhile_eq_all_conv)
  have "\<not> (\<exists>c \<in> set k. c \<le> 32 \<or> c = 127)" using p by (auto simp: form_pair_def not_le)
  then show ?thesis by (simp only: url_key_def Let_def t) simp
qed

lemma parse_one: "38 \<notin> set s \<Longrightarrow> s \<noteq> [] \<Longrightarrow> ParseQuery s = parse_pair s"
  by (subst ParseQuery.simps) (simp add: cut_none ParseQuery.simps[of "[]"])

lemma parse_more: "38 \<notin> set a \<Longrightarrow> ParseQuery (a @ 38 # b) = parse_pair a @ ParseQuery b"
  by (subst ParseQuery.simps) simp

lemma parse_key:
  assumes "plain_bytes k"
  shows "ParseQuery (str ''key='' @ k) = [(str ''key'', k)]"
proof -
  have s: "str ''key='' @ k = str ''key'' @ 61 # k" by (simp add: str_def)
  have n: "38 \<notin> set (str ''key'' @ 61 # k)" using assms by (auto simp: plain_bytes_def str_def)
  have "str ''key'' \<noteq> []" by (simp add: str_def)
  then show ?thesis unfolding s using parse_one[OF n] plain_pair[OF assms names_plain(1,3)] by simp
qed

lemma parse_put:
  assumes "plain_bytes k" and "form_bytes v"
  shows "ParseQuery (str ''key='' @ k @ str ''&value='' @ v) = [(str ''key'', k), (str ''value'', sent v)]"
proof -
  let ?a = "str ''key'' @ 61 # k" and ?b = "str ''value'' @ 61 # v"
  have s: "str ''key='' @ k @ str ''&value='' @ v = ?a @ 38 # ?b" by (simp add: str_def)
  have n: "38 \<notin> set ?a" "38 \<notin> set ?b" using assms by (auto simp: plain_bytes_def form_bytes_def str_def)
  have "str ''key'' \<noteq> []" "str ''value'' \<noteq> []" by (simp_all add: str_def)
  then show ?thesis
    unfolding s parse_more[OF n(1)] using parse_one[OF n(2)] plain_pair[OF assms(1) names_plain(1,3)]
      form_parse_pair[OF assms(2) names_plain(2,4)] by simp
qed

section \<open>The three requests\<close>

lemma get_spec:
  assumes "form_pair k v"
  shows "http_spec now fault J rl key (plain_get (str ''/get'') (str ''key='' @ k)) M
     = (reply_of (Message '''') (RspValue (case kv_at now M k of None \<Rightarrow> Fail ErrKeyNotFound | Some (v, e) \<Rightarrow> Ok v)), M, None)"
proof -
  have "QueryGet (plain_get (str ''/get'') (str ''key='' @ k)) (str ''key'') = k" "k \<noteq> []"
    using assms parse_key[of k] by (simp_all add: QueryGet_def plain_get_def values_get_def form_pair_def)
  then show ?thesis by (simp add: http_spec_def write_spec_def kv_step_def plain_get_def)
qed

lemma put_form:
  assumes "form_pair k v"
  shows "FormValue (plain_post (str ''/put'') (str ''key='' @ k @ str ''&value='' @ v)) (str ''key'') = k"
    and "FormValue (plain_post (str ''/put'') (str ''key='' @ k @ str ''&value='' @ v)) (str ''value'') = sent v"
proof -
  have d: "str ''key'' \<noteq> str ''value''" by (simp add: str_def)
  show "FormValue (plain_post (str ''/put'') (str ''key='' @ k @ str ''&value='' @ v)) (str ''key'') = k"
    and "FormValue (plain_post (str ''/put'') (str ''key='' @ k @ str ''&value='' @ v)) (str ''value'') = sent v"
    using assms d parse_put[of k v]
    by (simp_all add: FormValue_def ParsedBody_def plain_post_def values_get_def form_pair_def)
qed

lemma delete_form:
  assumes "form_pair k v"
  shows "FormValue (plain_post (str ''/delete'') (str ''key='' @ k)) (str ''key'') = k"
  using assms parse_key[of k]
  by (simp add: FormValue_def ParsedBody_def plain_post_def values_get_def form_pair_def)

lemma put_spec:
  assumes "form_pair k v"
    and "http_spec now fault J rl key (plain_post (str ''/put'') (str ''key='' @ k @ str ''&value='' @ v)) M = (rp, M', out)"
  shows "M' = M \<or> M' = M(k \<mapsto> (sent v, 0))" and "status_of rp = StatusOK \<Longrightarrow> M' = M(k \<mapsto> (sent v, 0))"
proof -
  let ?r = "plain_post (str ''/put'') (str ''key='' @ k @ str ''&value='' @ v)"
  have p: "Path ?r = str ''/put''" "Method ?r = MethodPost" by (simp_all add: plain_post_def)
  have n: "k \<noteq> []" "sent v \<noteq> []" using assms(1) by (simp_all add: form_pair_def)
  show "M' = M \<or> M' = M(k \<mapsto> (sent v, 0))" and "status_of rp = StatusOK \<Longrightarrow> M' = M(k \<mapsto> (sent v, 0))"
    using assms(2) n
    by (auto simp: http_spec_def p put_form[OF assms(1)] refuse_def write_spec_def kv_step_def kv_write_def status_defs
        split: if_splits option.splits prod.splits)
qed

lemma delete_spec:
  assumes "form_pair k v"
    and "http_spec now fault J rl key (plain_post (str ''/delete'') (str ''key='' @ k)) M = (rp, M', out)"
  shows "M' = M \<or> M' = M(k := None)"
proof -
  let ?r = "plain_post (str ''/delete'') (str ''key='' @ k)"
  have p: "Path ?r = str ''/delete''" "Method ?r = MethodPost" by (simp_all add: plain_post_def)
  have n: "k \<noteq> []" using assms(1) by (simp add: form_pair_def)
  have k: "delete_key ?r = k" using n delete_form[OF assms(1)] by (simp add: delete_key_def)
  show ?thesis
    using assms(2)
    by (auto simp: http_spec_def p k refuse_def write_spec_def kv_step_def kv_write_def
        split: if_splits option.splits prod.splits)
qed

lemma plain_forms:
  "FormValue (plain_get path q) k = values_get (ParseQuery q) k" "QueryGet (plain_get path q) k = values_get (ParseQuery q) k"
  "FormValue (plain_post path b) k = values_get (ParseQuery b) k" "QueryGet (plain_post path b) k = []"
proof -
  show "FormValue (plain_get path q) k = values_get (ParseQuery q) k"
    using methods_distinct by (simp add: FormValue_def ParsedBody_def multipart_values_def plain_get_def)
  show "QueryGet (plain_get path q) k = values_get (ParseQuery q) k" by (simp add: QueryGet_def plain_get_def)
  show "FormValue (plain_post path b) k = values_get (ParseQuery b) k" "QueryGet (plain_post path b) k = []"
    by (simp_all add: FormValue_def QueryGet_def ParsedBody_def multipart_values_def plain_post_def
        ParseQuery.simps[of "[]"] values_get_def)
qed

lemma migration_fits:
  assumes "form_pair k v"
  shows "http_fits J (plain_get (str ''/get'') (str ''key='' @ k))"
    and "http_fits J (plain_post (str ''/put'') (str ''key='' @ k @ str ''&value='' @ v))"
    and "http_fits J (plain_post (str ''/delete'') (str ''key='' @ k))"
proof -
  have d: "str ''value'' \<noteq> str ''key''" by (simp add: str_def)
  have c: "k \<noteq> []" "plain_bytes k" "form_bytes v" "value_fits k (sent v)" "value_fits k []" "value_fits [] []"
    using assms by (auto simp: form_pair_def value_fits_def)
  have paths: "Path (plain_get path q) = path" "Path (plain_post path b) = path" for path q b
    by (simp_all add: plain_get_def plain_post_def)
  have one: "values_get [(str ''key'', k)] (str ''key'') = k" "values_get [(str ''key'', k)] (str ''value'') = []"
    using d by (simp_all add: values_get_def)
  have two: "values_get [(str ''key'', k), (str ''value'', sent v)] (str ''key'') = k"
    "values_get [(str ''key'', k), (str ''value'', sent v)] (str ''value'') = sent v"
    using d by (simp_all add: values_get_def)
  show "http_fits J (plain_get (str ''/get'') (str ''key='' @ k))"
    and "http_fits J (plain_post (str ''/put'') (str ''key='' @ k @ str ''&value='' @ v))"
    and "http_fits J (plain_post (str ''/delete'') (str ''key='' @ k))"
    using c by (simp_all add: http_fits_def delete_key_def paths plain_forms parse_key parse_put one two paths_distinct[symmetric])
qed

section \<open>One call of the client\<close>

text \<open>The clock of the calls: each begins after the one before has committed.\<close>

definition call_clock :: "(nat \<Rightarrow> ticket) \<Rightarrow> bool" where
  "call_clock tk \<longleftrightarrow> (\<forall>n. sint (t_op (tk n)) \<le> sint (t_commit (tk n)) \<and> sint (t_commit (tk n)) \<le> sint (t_op (tk (n + 1))))"

context engine
begin

text \<open>A call leaves the other nodes alone, and its node as the specification says, or untouched.\<close>

lemma client_do_spec:
  assumes h: "client_do E J tk net url r m = (res, m')" and v: "mg_nodes m url = Some v"
    and n: "node_ok (t_op (tk (mg_calls m))) M v" and c: "call_clock tk" and f: "http_fits J r"
  obtains v' M' where "mg_nodes m' = (mg_nodes m)(url \<mapsto> v')" and "mg_calls m' = mg_calls m + 1"
    and "node_ok (t_op (tk (mg_calls m'))) M' v'"
    and "M' = M \<and> res = None \<or> (\<exists>now fault rp out. http_spec now fault J (role v) (sv_key v) r M = (rp, M', out)
            \<and> (res = None \<or> res = Some rp))"
proof -
  let ?i = "mg_calls m"
  have cl: "sint (t_op (tk ?i)) \<le> sint (t_commit (tk ?i))" "sint (t_commit (tk ?i)) \<le> sint (t_op (tk (?i + 1)))"
    using c by (simp_all add: call_clock_def)
  have rd: "ready (tk ?i) v M" using n cl by (auto simp: node_ok_def ready_def)
  from server_serves[OF rd f] obtain fault rp d' M' out where q:
    "http_spec (t_op (tk ?i)) fault J (role v) (sv_key v) r M = (rp, M', out)"
    "ServeHTTP E J (tk ?i) r v = Some (Ok rp, v\<lparr>sv_db := d', senders := senders v @ posted (replicator v) out\<rparr>)"
    "settled (sv_db v) d'" "rep (t_commit (tk ?i)) d' M'"
    by (auto simp: serves_def)
  let ?v' = "v\<lparr>sv_db := d', senders := senders v @ posted (replicator v) out\<rparr>"
  have n': "node_ok (t_commit (tk ?i)) M' ?v'"
    using q(3,4) n settled_idle[OF q(3)] by (simp add: node_ok_def settled_def)
  show ?thesis
  proof (cases "net ?i = BadURL \<or> net ?i = RequestLost")
    case True
    then have "res = None" "m' = m\<lparr>mg_calls := ?i + 1\<rparr>" using h by (auto simp: client_do_def)
    then show ?thesis using that[of v M] v node_ok_later[OF n, of "t_op (tk (?i + 1))"] cl by fastforce
  next
    case False
    then have e: "res = (if net ?i = Delivered then Some rp else None)"
      "mg_nodes m' = (mg_nodes m)(url \<mapsto> ?v')" "mg_calls m' = ?i + 1"
      using h q(2) v by (auto simp: client_do_def Let_def)
    have "node_ok (t_op (tk (mg_calls m'))) M' ?v'" using node_ok_later[OF n' cl(2)] e(3) by simp
    moreover have "\<exists>now fault rp out. http_spec now fault J (role v) (sv_key v) r M = (rp, M', out) \<and> (res = None \<or> res = Some rp)"
      using q(1) e(1) by (cases "net ?i = Delivered") auto
    ultimately show ?thesis using that[OF e(2,3)] by blast
  qed
qed

end

section \<open>What a migration keeps\<close>

text \<open>
  \<open>Hs\<close> is what the old nodes hold at the start, \<open>Ms\<close> what the nodes hold now: the old
  nodes have only lost pairs, and the new node has the pairs they have lost, as a form sends
  them.
\<close>

definition arrived :: "(bytes \<times> int64) option \<Rightarrow> (bytes \<times> int64) option" where
  "arrived ent = map_option (\<lambda>(v, e). (sent v, e)) ent"

lemma arrived_simps [simp]: "arrived None = None" "arrived (Some (v, e)) = Some (sent v, e)"
  by (simp_all add: arrived_def)

definition pairs_safe :: "bytes set \<Rightarrow> bytes \<Rightarrow> (bytes \<Rightarrow> kv) \<Rightarrow> (bytes \<Rightarrow> kv) \<Rightarrow> bool" where
  "pairs_safe olds new Hs Ms \<longleftrightarrow>
     (\<forall>u \<in> olds. \<forall>k. (Ms u k = None \<or> Ms u k = Hs u k) \<and> (Ms u k = Hs u k \<or> Ms new k = arrived (Hs u k)))"

definition movable :: "bytes set \<Rightarrow> bytes \<Rightarrow> (bytes \<Rightarrow> kv) \<Rightarrow> bool" where
  "movable olds new Hs \<longleftrightarrow> new \<notin> olds
     \<and> (\<forall>u \<in> olds. \<forall>k v e. Hs u k = Some (v, e) \<longrightarrow> e = 0 \<and> form_pair k v)
     \<and> (\<forall>u \<in> olds. \<forall>u' \<in> olds. \<forall>k. u \<noteq> u' \<longrightarrow> Hs u k = None \<or> Hs u' k = None)"

lemma movable_apart:
  assumes "movable olds new Hs" and "u \<in> olds" and "w \<in> olds" and "u \<noteq> w"
  shows "Hs u k = None \<or> Hs w k = None"
proof -
  have "\<forall>u \<in> olds. \<forall>u' \<in> olds. \<forall>k. u \<noteq> u' \<longrightarrow> Hs u k = None \<or> Hs u' k = None"
    using assms(1) unfolding movable_def by (elim conjE)
  from this[rule_format, OF assms(2,3,4)] show ?thesis .
qed

lemma lost_or_moved:
  "(a = None \<or> a = b) \<and> (a = b \<or> c = arrived b) \<Longrightarrow> b = Some (v, e) \<or> b = None
   \<Longrightarrow> (a = None \<or> a = b) \<and> (a = b \<or> Some (sent v, e) = arrived b)"
  by auto

lemma pairs_safe_put:
  assumes "pairs_safe olds new Hs Ms" and "movable olds new Hs" and "u \<in> olds" and "Hs u k = Some (v, 0)"
  shows "pairs_safe olds new Hs (Ms(new := (Ms new)(k \<mapsto> (sent v, 0))))"
  unfolding pairs_safe_def
proof (intro ballI allI)
  fix w k'
  assume w: "w \<in> olds"
  let ?Ms = "Ms(new := (Ms new)(k \<mapsto> (sent v, 0)))"
  have "w \<noteq> new" using assms(2) w by (auto simp: movable_def)
  then have m: "?Ms w k' = Ms w k'" "?Ms new k' = (if k' = k then Some (sent v, 0) else Ms new k')" by simp_all
  have d: "(Ms w k' = None \<or> Ms w k' = Hs w k') \<and> (Ms w k' = Hs w k' \<or> Ms new k' = arrived (Hs w k'))"
    using assms(1) w by (simp add: pairs_safe_def)
  have o: "Hs w k = Some (v, 0) \<or> Hs w k = None"
  proof (cases "w = u")
    case False
    have "Hs u k = None \<or> Hs w k = None" by (rule movable_apart[OF assms(2,3) w False[symmetric]])
    then show ?thesis using assms(4) by simp
  qed (use assms(4) in simp)
  show "(?Ms w k' = None \<or> ?Ms w k' = Hs w k') \<and> (?Ms w k' = Hs w k' \<or> ?Ms new k' = arrived (Hs w k'))"
  proof (cases "k' = k")
    case True
    show ?thesis unfolding m if_P[OF True] by (rule lost_or_moved[OF d]) (simp only: o True)
  next
    case False
    show ?thesis unfolding m if_not_P[OF False] by (rule d)
  qed
qed

lemma pairs_safe_delete:
  assumes "pairs_safe olds new Hs Ms" and "movable olds new Hs" and "u \<in> olds" and "Ms new k = arrived (Hs u k)"
  shows "pairs_safe olds new Hs (Ms(u := (Ms u)(k := None)))"
  using assms by (auto simp: pairs_safe_def movable_def)

context engine
begin

definition nodes_ok :: "bytes set \<Rightarrow> (nat \<Rightarrow> ticket) \<Rightarrow> (bytes \<Rightarrow> kv) \<Rightarrow> ('t, 'w) migration \<Rightarrow> bool" where
  "nodes_ok S tk Ms m \<longleftrightarrow> (\<forall>u \<in> S. \<exists>s. mg_nodes m u = Some s \<and> node_ok (t_op (tk (mg_calls m))) (Ms u) s)"

lemma client_do_nodes:
  assumes h: "client_do E J tk net u r m = (res, m')" and u: "u \<in> S" and n: "nodes_ok S tk Ms m"
    and c: "call_clock tk" and f: "http_fits J r"
  shows "\<exists>M'. nodes_ok S tk (Ms(u := M')) m'
     \<and> (M' = Ms u \<and> res = None \<or> (\<exists>now fault rl key rp out. http_spec now fault J rl key r (Ms u) = (rp, M', out)
            \<and> (res = None \<or> res = Some rp)))"
proof -
  obtain s where s: "mg_nodes m u = Some s" "node_ok (t_op (tk (mg_calls m))) (Ms u) s"
    using u n by (auto simp: nodes_ok_def)
  obtain s' M' where q: "mg_nodes m' = (mg_nodes m)(u \<mapsto> s')" "mg_calls m' = mg_calls m + 1"
    "node_ok (t_op (tk (mg_calls m'))) M' s'"
    "M' = Ms u \<and> res = None \<or> (\<exists>now fault rp out. http_spec now fault J (role s) (sv_key s) r (Ms u) = (rp, M', out)
            \<and> (res = None \<or> res = Some rp))"
    by (rule client_do_spec[OF h s c f])
  have cl: "sint (t_op (tk (mg_calls m))) \<le> sint (t_op (tk (mg_calls m')))"
    using c[unfolded call_clock_def, rule_format, of "mg_calls m"] q(2) by simp
  have "nodes_ok S tk (Ms(u := M')) m'"
    unfolding nodes_ok_def
  proof
    fix w
    assume "w \<in> S"
    then obtain t where t: "mg_nodes m w = Some t" "node_ok (t_op (tk (mg_calls m))) (Ms w) t"
      using n by (auto simp: nodes_ok_def)
    show "\<exists>s. mg_nodes m' w = Some s \<and> node_ok (t_op (tk (mg_calls m'))) ((Ms(u := M')) w) s"
      using q(1,3) t(1) node_ok_later[OF t(2) cl] by (cases "w = u") simp_all
  qed
  then show ?thesis using q(4) by blast
qed

text \<open>A read of such a pair changes nothing and returns the value.\<close>

lemma get_call:
  assumes "client_do E J tk net u (plain_get (str ''/get'') (str ''key='' @ k)) m = (res, m')" and "u \<in> S"
    and "nodes_ok S tk Ms m" and "call_clock tk" and p: "form_pair k v" and k: "Ms u k = None \<or> Ms u k = Some (v, 0)"
  shows "nodes_ok S tk Ms m'" and "res = Some rp \<Longrightarrow> status_of rp = StatusOK \<Longrightarrow> TrimSpace (reply_text rp) = v \<and> Ms u k = Some (v, 0)"
proof -
  obtain M' where M': "nodes_ok S tk (Ms(u := M')) m'"
    "M' = Ms u \<and> res = None \<or> (\<exists>now fault rl key rp out. http_spec now fault J rl key (plain_get (str ''/get'') (str ''key='' @ k)) (Ms u)
        = (rp, M', out) \<and> (res = None \<or> res = Some rp))"
    using client_do_nodes[OF assms(1-4) migration_fits(1)[OF p]] by blast
  have "M' = Ms u" using M'(2) get_spec[OF p, of _ _ J] by auto
  then show "nodes_ok S tk Ms m'" using M'(1) by simp
  assume r: "res = Some rp" "status_of rp = StatusOK"
  then obtain now where "rp = reply_of (Message '''') (RspValue (case kv_at now (Ms u) k of None \<Rightarrow> Fail ErrKeyNotFound | Some (v, e) \<Rightarrow> Ok v))"
    using M'(2) get_spec[OF p, of _ _ J] by auto
  then show "TrimSpace (reply_text rp) = v \<and> Ms u k = Some (v, 0)"
    using r(2) k p by (auto simp: kv_at_def entry_at_def status_defs form_pair_def split: option.splits if_splits)
qed

lemma put_call:
  assumes "client_do E J tk net u (plain_post (str ''/put'') (str ''key='' @ k @ str ''&value='' @ v)) m = (res, m')"
    and "u \<in> S" and "nodes_ok S tk Ms m" and "call_clock tk" and p: "form_pair k v"
  shows "\<exists>Mn. (Mn = Ms u \<or> Mn = (Ms u)(k \<mapsto> (sent v, 0))) \<and> nodes_ok S tk (Ms(u := Mn)) m'
     \<and> (\<forall>rp. res = Some rp \<and> status_of rp = StatusOK \<longrightarrow> Mn = (Ms u)(k \<mapsto> (sent v, 0)))"
proof -
  let ?r = "plain_post (str ''/put'') (str ''key='' @ k @ str ''&value='' @ v)"
  obtain Mn where m: "nodes_ok S tk (Ms(u := Mn)) m'"
    "Mn = Ms u \<and> res = None \<or> (\<exists>now fault rl key rp out. http_spec now fault J rl key ?r (Ms u) = (rp, Mn, out)
        \<and> (res = None \<or> res = Some rp))"
    using client_do_nodes[OF assms(1-4) migration_fits(2)[OF p]] by (elim exE conjE)
  from m(2) show ?thesis
  proof (elim disjE exE conjE)
    assume "Mn = Ms u" "res = None"
    then show ?thesis using m(1) by (intro exI[of _ Mn]) simp
  next
    fix now fault rl key rp out
    assume h: "http_spec now fault J rl key ?r (Ms u) = (rp, Mn, out)" and r: "res = None"
    then show ?thesis using m(1) put_spec(1)[OF p h] by (intro exI[of _ Mn]) simp
  next
    fix now fault rl key rp out
    assume h: "http_spec now fault J rl key ?r (Ms u) = (rp, Mn, out)" and r: "res = Some rp"
    then show ?thesis using m(1) put_spec[OF p h] by (intro exI[of _ Mn]) simp
  qed
qed

lemma delete_call:
  assumes "client_do E J tk net u (plain_post (str ''/delete'') (str ''key='' @ k)) m = (res, m')"
    and "u \<in> S" and "nodes_ok S tk Ms m" and "call_clock tk" and p: "form_pair k v"
  shows "\<exists>Mo. (Mo = Ms u \<or> Mo = (Ms u)(k := None)) \<and> nodes_ok S tk (Ms(u := Mo)) m'"
proof -
  let ?r = "plain_post (str ''/delete'') (str ''key='' @ k)"
  obtain Mo where m: "nodes_ok S tk (Ms(u := Mo)) m'"
    "Mo = Ms u \<and> res = None \<or> (\<exists>now fault rl key rp out. http_spec now fault J rl key ?r (Ms u) = (rp, Mo, out)
        \<and> (res = None \<or> res = Some rp))"
    using client_do_nodes[OF assms(1-4) migration_fits(3)[OF p]] by (elim exE conjE)
  from m(2) have "Mo = Ms u \<or> Mo = (Ms u)(k := None)" using delete_spec[OF p] by (elim disjE exE conjE) simp_all
  then show ?thesis using m(1) by blast
qed

lemma migrate_key_keeps:
  assumes mv: "movable olds new Hs" and u: "u \<in> olds" and c: "call_clock tk" and k: "Hs u k = Some (v, 0)"
    and n: "nodes_ok (insert new olds) tk Ms m" and s: "pairs_safe olds new Hs Ms"
  shows "\<exists>Ms'. nodes_ok (insert new olds) tk Ms' (migrate_key E J tk net p new u k m) \<and> pairs_safe olds new Hs Ms'"
proof -
  let ?S = "insert new olds"
  let ?get = "plain_get (str ''/get'') (str ''key='' @ k)" and ?del = "plain_post (str ''/delete'') (str ''key='' @ k)"
  let ?put = "plain_post (str ''/put'') (str ''key='' @ k @ str ''&value='' @ v)"
  have p: "form_pair k v" using mv u k by (auto simp: movable_def)
  have ne: "u \<noteq> new" "u \<in> ?S" "new \<in> ?S" using mv u by (auto simp: movable_def)
  obtain r1 m1 where h1: "client_do E J tk net u ?get m = (r1, m1)" by (cases "client_do E J tk net u ?get m")
  have ko: "Ms u k = None \<or> Ms u k = Some (v, 0)"
    using s u k unfolding pairs_safe_def by metis
  note g = get_call[OF h1 ne(2) n c p ko]
  show ?thesis
  proof (cases "proxy_GetNode k p = new \<and> (\<exists>rp. r1 = Some rp \<and> status_of rp = StatusOK)")
    case False
    then have "migrate_key E J tk net p new u k m = m \<or> migrate_key E J tk net p new u k m = m1"
      using h1 by (auto simp: migrate_key_def form_url[OF p] split: option.split)
    then show ?thesis using n g(1) s by auto
  next
    case True
    then obtain rp1 where r1: "r1 = Some rp1" "status_of rp1 = StatusOK" by blast
    obtain r2 m2 where h2: "client_do E J tk net new ?put m1 = (r2, m2)" by (cases "client_do E J tk net new ?put m1")
    obtain r3 m3 where h3: "client_do E J tk net u ?del m2 = (r3, m3)" by (cases "client_do E J tk net u ?del m2")
    obtain Mn where mn: "Mn = Ms new \<or> Mn = (Ms new)(k \<mapsto> (sent v, 0))" "nodes_ok ?S tk (Ms(new := Mn)) m2"
      "\<forall>rp. r2 = Some rp \<and> status_of rp = StatusOK \<longrightarrow> Mn = (Ms new)(k \<mapsto> (sent v, 0))"
      using put_call[OF h2 ne(3) g(1) c p] by blast
    have s2: "pairs_safe olds new Hs (Ms(new := Mn))" using mn(1) s pairs_safe_put[OF s mv u k] by auto
    obtain Mo where mo: "Mo = (Ms(new := Mn)) u \<or> Mo = ((Ms(new := Mn)) u)(k := None)"
      "nodes_ok ?S tk (Ms(new := Mn, u := Mo)) m3"
      using delete_call[OF h3 ne(2) mn(2) c p] by blast
    have e: "migrate_key E J tk net p new u k m = (if \<exists>rp. r2 = Some rp \<and> status_of rp = StatusOK then m3 else m2)"
      using True h1 h2 h3 g(2)[OF r1] r1 by (auto simp: migrate_key_def form_url[OF p] split: option.split)
    show ?thesis
    proof (cases "\<exists>rp. r2 = Some rp \<and> status_of rp = StatusOK")
      case True
      then have "(Ms(new := Mn)) new k = arrived (Hs u k)" using mn(3) k by auto
      note dl = pairs_safe_delete[OF s2 mv u this]
      have "pairs_safe olds new Hs (Ms(new := Mn, u := Mo))"
        using mo(1)
      proof
        assume "Mo = (Ms(new := Mn)) u"
        then show ?thesis using s2 by (simp only: fun_upd_triv)
      qed (use dl in \<open>simp only:\<close>)
      then show ?thesis using mo(2) e True by auto
    next
      case False
      then show ?thesis using mn(2) s2 e by auto
    qed
  qed
qed

end

lemma keys_fits: "http_fits J (plain_get (str ''/keys'') [])"
proof -
  have "Path (plain_get (str ''/keys'') []) = str ''/keys''" "str ''/keys'' \<noteq> str ''/sync''"
    using paths_distinct(15) by (simp_all add: plain_get_def str_def)
  then show ?thesis
    by (simp add: http_fits_def delete_key_def plain_forms ParseQuery.simps[of "[]"] values_get_def value_fits_def
        maxLogRecordHeaderSize_def)
qed

lemma keys_spec:
  assumes "http_spec now fault J rl key (plain_get (str ''/keys'') []) M = (rp, M', out)"
  shows "M' = M" and "decode_keys rp = Some ks \<Longrightarrow> k \<in> set ks \<Longrightarrow> \<exists>k'. k = json_string k' \<and> M k' \<noteq> None"
proof -
  have p: "Path (plain_get (str ''/keys'') []) = str ''/keys''" "Method (plain_get (str ''/keys'') []) = MethodGet"
    by (simp_all add: plain_get_def)
  have q: "M' = M" "rp = Reply StatusOK (KeyList (live_keys_of now M))"
    using assms by (auto simp: http_spec_def p)
  show "M' = M" by (rule q(1))
  assume "decode_keys rp = Some ks" "k \<in> set ks"
  then obtain k' where k': "k = json_string k'" "k' \<in> set (sorted_list_of_set {k. kv_at now M k \<noteq> None})"
    using q(2) by (auto simp: live_keys_of_def)
  then have "kv_at now M k' \<noteq> None" by (cases "finite {k. kv_at now M k \<noteq> None}") simp_all
  then have "M k' \<noteq> None" by (cases "M k'") (simp_all add: kv_at_def)
  then show "\<exists>k'. k = json_string k' \<and> M k' \<noteq> None" using k'(1) by blast
qed

context engine
begin

definition migrating :: "bytes set \<Rightarrow> bytes \<Rightarrow> (nat \<Rightarrow> ticket) \<Rightarrow> (bytes \<Rightarrow> kv) \<Rightarrow> ('t, 'w) migration \<Rightarrow> bool" where
  "migrating olds new tk Hs m \<longleftrightarrow> (\<exists>Ms. nodes_ok (insert new olds) tk Ms m \<and> pairs_safe olds new Hs Ms)"

lemma migrate_keys_keep:
  assumes mv: "movable olds new Hs" and u: "u \<in> olds" and c: "call_clock tk"
    and k: "\<forall>k \<in> set ks. Hs u k \<noteq> None" and m: "migrating olds new tk Hs m"
  shows "migrating olds new tk Hs (foldl (\<lambda>m k. migrate_key E J tk net p new u k m) m ks)"
  using k m
proof (induction ks arbitrary: m)
  case (Cons k ks)
  obtain v e where "Hs u k = Some (v, e)" using Cons.prems(1) by auto
  moreover from this have "e = 0" using mv u by (auto simp: movable_def)
  ultimately have h: "Hs u k = Some (v, 0)" by simp
  have "migrating olds new tk Hs (migrate_key E J tk net p new u k m)"
    using Cons.prems(2) migrate_key_keeps[OF mv u c h] by (auto simp: migrating_def)
  then show ?case using Cons by simp
qed simp

lemma migrate_node_keeps:
  assumes mv: "movable olds new Hs" and u: "u \<in> olds" and c: "call_clock tk" and m: "migrating olds new tk Hs m"
  shows "migrating olds new tk Hs (migrate_node E J tk net p new m u)"
proof -
  let ?r = "plain_get (str ''/keys'') []"
  obtain res m1 where h: "client_do E J tk net u ?r m = (res, m1)" by (cases "client_do E J tk net u ?r m")
  obtain Ms where Ms: "nodes_ok (insert new olds) tk Ms m" "pairs_safe olds new Hs Ms"
    using m by (auto simp: migrating_def)
  obtain M' where q: "nodes_ok (insert new olds) tk (Ms(u := M')) m1"
    "M' = Ms u \<and> res = None \<or> (\<exists>now fault rl key rp out. http_spec now fault J rl key ?r (Ms u) = (rp, M', out)
        \<and> (res = None \<or> res = Some rp))"
    using client_do_nodes[OF h insertI2[OF u] Ms(1) c keys_fits] by (elim exE conjE)
  have "M' = Ms u" using q(2) keys_spec(1) by (elim disjE exE conjE)
  then have m1: "migrating olds new tk Hs m1" using q(1) Ms(2) by (auto simp: migrating_def)
  show ?thesis
  proof (cases "\<exists>rp ks. res = Some rp \<and> decode_keys rp = Some ks")
    case False
    then have "migrate_node E J tk net p new m u = m1"
      using h by (auto simp: migrate_node_def split: option.split)
    then show ?thesis using m1 by simp
  next
    case True
    then obtain rp ks where r: "res = Some rp" "decode_keys rp = Some ks" by blast
    have "Hs u k \<noteq> None" if k: "k \<in> set ks" for k
    proof -
      obtain k' where k': "k = json_string k'" "Ms u k' \<noteq> None"
        using q(2) r keys_spec(2)[OF _ r(2) k] by (elim disjE exE conjE) (simp, simp, blast)
      have "Ms u k' = None \<or> Ms u k' = Hs u k'" using Ms(2) u by (simp add: pairs_safe_def)
      then have h: "Hs u k' \<noteq> None" using k'(2) by metis
      then have "json_string k' = k'" using mv u by (auto simp: movable_def form_pair_def)
      then show ?thesis using h k'(1) by simp
    qed
    then show ?thesis
      using h r migrate_keys_keep[OF mv u c _ m1, of ks] by (simp add: migrate_node_def)
  qed
qed

lemma migrate_nodes_keep:
  assumes "movable olds new Hs" and "set us \<subseteq> olds" and "call_clock tk" and "migrating olds new tk Hs m"
  shows "migrating olds new tk Hs (foldl (migrate_node E J tk net p new) m us)"
  using assms(2,4) by (induction us arbitrary: m) (simp_all add: migrate_node_keeps[OF assms(1) _ assms(3)])

end

context engine
begin

lemma db_map_key:
  assumes "dinv d" and "db_map E d k \<noteq> None"
  shows "k \<in> set (db_keys E d)"
proof -
  have i: "mt_inv bt_inv (index d)" using assms(1) by (simp add: db_inv_def)
  obtain p where "mt_Get (Bt E) (index d) k = Some p"
    using assms(2) by (auto simp: db_map_def stored_rec_def split: option.splits)
  then have "(k, p) \<in> set (mt_entries (Bt E) (index d))" using ix.entries_get[OF i] by simp
  then show ?thesis by (force simp: db_keys_def)
qed

end

section \<open>The outcome of a migration\<close>

lemma migration_outcome:
  assumes E: "engine E bt_inv w_inv pend" and c: "call_clock tk"
    and f: "\<forall>u \<in> insert newNode (set oldNodes). \<exists>s. f u = Some s
              \<and> db_inv E bt_inv w_inv pend (sv_db s) \<and> idle (sv_db s) \<and> \<not> closed (sv_db s)"
    and H: "Hs = (\<lambda>u. db_map E (sv_db (the (f u))))" "movable (set oldNodes) newNode Hs"
    and t: "\<forall>n. sint (t_op (tk n)) \<le> sint t" and u: "u \<in> set oldNodes" and k: "Hs u k = Some (v, 0)"
  shows "\<exists>s s'. migrateData E J tk net oldNodes newNode p f u = Some s
     \<and> migrateData E J tk net oldNodes newNode p f newNode = Some s'
     \<and> (db_view E t (sv_db s) k = Some (v, 0) \<or> db_view E t (sv_db s) k = None \<and> db_view E t (sv_db s') k = Some (sent v, 0))
     \<and> (\<forall>k'. Hs u k' = None \<longrightarrow> db_view E t (sv_db s) k' = None)"
proof -
  let ?start = "\<lparr>mg_nodes = f, mg_calls = 0\<rparr>"
  let ?final = "foldl (migrate_node E J tk net p newNode) ?start oldNodes"
  note st = engine.node_ok_start[OF E]
  have "engine.nodes_ok E bt_inv w_inv pend (insert newNode (set oldNodes)) tk Hs ?start"
    unfolding engine.nodes_ok_def[OF E]
  proof
    fix u
    assume "u \<in> insert newNode (set oldNodes)"
    then obtain s where s: "f u = Some s" "db_inv E bt_inv w_inv pend (sv_db s)" "idle (sv_db s)" "\<not> closed (sv_db s)"
      using f by blast
    then show "\<exists>s. mg_nodes ?start u = Some s \<and> engine.node_ok E bt_inv w_inv pend (t_op (tk (mg_calls ?start))) (Hs u) s"
      using st[OF s(2-4)] by (simp add: H(1))
  qed
  then have "engine.migrating E bt_inv w_inv pend (set oldNodes) newNode tk Hs ?start"
    unfolding engine.migrating_def[OF E] by (intro exI[of _ Hs]) (simp add: pairs_safe_def)
  from engine.migrate_nodes_keep[OF E H(2) subset_refl c this] obtain Ms where
    m: "engine.nodes_ok E bt_inv w_inv pend (insert newNode (set oldNodes)) tk Ms ?final" "pairs_safe (set oldNodes) newNode Hs Ms"
    unfolding engine.migrating_def[OF E] by blast
  have view: "\<exists>s. mg_nodes ?final w = Some s \<and> db_view E t (sv_db s) = kv_at t (Ms w)" if "w \<in> insert newNode (set oldNodes)" for w
    using m(1) that t unfolding engine.nodes_ok_def[OF E] engine.node_ok_def[OF E] engine.rep_def[OF E] by blast
  obtain s s' where s: "mg_nodes ?final u = Some s" "db_view E t (sv_db s) = kv_at t (Ms u)"
    "mg_nodes ?final newNode = Some s'" "db_view E t (sv_db s') = kv_at t (Ms newNode)"
    using view u by blast
  have p: "(Ms u k' = None \<or> Ms u k' = Hs u k') \<and> (Ms u k' = Hs u k' \<or> Ms newNode k' = arrived (Hs u k'))" for k'
    using m(2) u by (simp add: pairs_safe_def)
  have "kv_at t (Ms u) k = Some (v, 0) \<or> kv_at t (Ms u) k = None \<and> kv_at t (Ms newNode) k = Some (sent v, 0)"
    using p[of k] k by (auto simp: kv_at_def entry_at_def)
  moreover have "Hs u k' = None \<Longrightarrow> kv_at t (Ms u) k' = None" for k'
    using p[of k'] by (auto simp: kv_at_def)
  ultimately show ?thesis using s by (simp add: migrateData_def)
qed

section \<open>Properties\<close>

text \<open>
  Property C17. A migration loses nothing that can be moved. Assume of all the old nodes
  that every pair they hold is without expiry time, that no key is on two of them, that keys
  are text in UTF-8 without control characters, spaces and the marks percent, ampersand, plus,
  semicolon and number sign, and that values have no percent sign, ampersand or semicolon and
  no white space at their ends; and that the new node is not one of the old ones. Then
  whatever happens to the messages, and whatever the nodes answer, after the migration each
  pair of an old node whose value has no plus sign is on that node or on the new one, and the
  old nodes hold nothing else. The assumption on the other pairs is needed: Lemma
  \<open>one_key_destroys_another\<close>.
\<close>

theorem migration_loses_nothing:
  assumes E: "engine E bt_inv w_inv pend" and c: "call_clock tk"
    and f: "\<forall>u \<in> insert newNode (set oldNodes). \<exists>s. f u = Some s
              \<and> db_inv E bt_inv w_inv pend (sv_db s) \<and> idle (sv_db s) \<and> \<not> closed (sv_db s)"
    and H: "Hs = (\<lambda>u. db_map E (sv_db (the (f u))))" "movable (set oldNodes) newNode Hs"
    and t: "\<forall>n. sint (t_op (tk n)) \<le> sint t" and u: "u \<in> set oldNodes" and k: "Hs u k = Some (v, 0)"
    and plus: "43 \<notin> set v"
  shows "\<exists>s s'. migrateData E J tk net oldNodes newNode p f u = Some s
     \<and> migrateData E J tk net oldNodes newNode p f newNode = Some s'
     \<and> (db_view E t (sv_db s) k = Some (v, 0) \<or> db_view E t (sv_db s) k = None \<and> db_view E t (sv_db s') k = Some (v, 0))
     \<and> (\<forall>k'. Hs u k' = None \<longrightarrow> db_view E t (sv_db s) k' = None)"
  using migration_outcome[OF assms(1-8)] sent_plain[OF plus] by simp

text \<open>A node with a pair, the calls of a migration, and a migration in which one answer is lost.\<close>

definition server_with :: "bytes \<Rightarrow> bytes \<Rightarrow> (item list, list_wal) server" where
  "server_with k v = snd (the (ServeHTTP ref_env ref_json (ticket_at 1 1) (put_request k v) (NewServer ref_db None [])))"

definition call_tickets :: "nat \<Rightarrow> ticket" where
  "call_tickets n = ticket_at (of_nat (n + 2)) 2"

definition one_pair :: "bytes \<Rightarrow> (item list, list_wal) nodes" where
  "one_pair v url = (if url = [65] then Some (server_with [120] v)
                     else if url = [90] then Some (NewServer ref_db None []) else None)"

definition put_answer_lost :: "nat \<Rightarrow> network" where
  "put_answer_lost n = (if n = 2 then AnswerLost else Delivered)"

lemma call_tickets_ok: "call_clock call_tickets"
  by (simp add: call_clock_def call_tickets_def ticket_at_def)

lemma server_with_ok:
  assumes "small_request ref_json (put_request k v)"
    and "ServeHTTP ref_env ref_json (ticket_at 1 1) (put_request k v) (NewServer ref_db None []) \<noteq> None"
  shows "db_inv ref_env sorted_items list_wal_inv lw_pending (sv_db (server_with k v))
    \<and> idle (sv_db (server_with k v)) \<and> \<not> closed (sv_db (server_with k v))"
proof -
  have n: "ref.node_ok 0 (db_map ref_env ref_db) (NewServer ref_db None [])"
    using ref.node_ok_start[of "NewServer ref_db None []" 0] ref_db_inv by (simp add: NewServer_def idle_def ref_db_def)
  obtain res s' where s: "ServeHTTP ref_env ref_json (ticket_at 1 1) (put_request k v) (NewServer ref_db None []) = Some (res, s')"
    using assms(2) by auto
  have c: "sint (0 :: int64) \<le> sint (t_op (ticket_at 1 1))" "sint (t_op (ticket_at 1 1)) \<le> sint (t_commit (ticket_at 1 1))"
    by (simp_all add: ticket_at_def)
  obtain now M where "ref.node_ok now M s'"
    by (rule ref.node_serves[OF n c small_request_fits[OF assms(1)] s])
  then show ?thesis using s by (simp add: server_with_def ref.node_ok_def)
qed

text \<open>One pair meets the assumptions of a migration.\<close>

lemma one_pair_movable:
  assumes fits: "small_request ref_json (put_request [120] v)"
      "ServeHTTP ref_env ref_json (ticket_at 1 1) (put_request [120] v) (NewServer ref_db None []) \<noteq> None"
    and k: "db_keys ref_env (sv_db (server_with [120] v)) = [[120]]"
    and v: "db_map ref_env (sv_db (server_with [120] v)) [120] = Some (v, 0)" and p: "form_pair [120] v"
  shows "\<forall>u \<in> insert [90] (set [[65]]). \<exists>s. one_pair v u = Some s
      \<and> db_inv ref_env sorted_items list_wal_inv lw_pending (sv_db s) \<and> idle (sv_db s) \<and> \<not> closed (sv_db s)"
    and "movable (set [[65]]) [90] (\<lambda>u. db_map ref_env (sv_db (the (one_pair v u))))"
    and "k \<noteq> [120] \<Longrightarrow> db_map ref_env (sv_db (server_with [120] v)) k = None"
proof -
  note ok = server_with_ok[OF fits]
  show other: "db_map ref_env (sv_db (server_with [120] v)) k = None" if "k \<noteq> [120]" for k
    using ref.db_map_key[of "sv_db (server_with [120] v)" k] ok k that by (metis empty_iff empty_set set_ConsD)
  have pairs: "e = 0 \<and> form_pair k w" if h: "db_map ref_env (sv_db (server_with [120] v)) k = Some (w, e)" for k w e
  proof -
    have "k = [120]"
    proof (rule ccontr)
      assume "k \<noteq> [120]"
      from trans[OF h[symmetric] other[OF this]] show False by (rule option.distinct(2)[THEN notE])
    qed
    moreover from this have "Some (w, e) = Some (v, 0)" using trans[OF h[symmetric]] v by blast
    ultimately show ?thesis using p by (simp only: option.inject prod.inject simp_thms)
  qed
  show "movable (set [[65]]) [90] (\<lambda>u. db_map ref_env (sv_db (the (one_pair v u))))"
    unfolding movable_def
  proof (intro conjI ballI allI impI)
    fix u k w e
    assume "u \<in> set [[65 :: byte]]" "db_map ref_env (sv_db (the (one_pair v u))) k = Some (w, e)"
    then have "db_map ref_env (sv_db (server_with [120] v)) k = Some (w, e)" by (simp add: one_pair_def)
    then show "e = 0" "form_pair k w" using pairs by blast+
  qed simp_all
  show "\<forall>u \<in> insert [90] (set [[65]]). \<exists>s. one_pair v u = Some s
      \<and> db_inv ref_env sorted_items list_wal_inv lw_pending (sv_db s) \<and> idle (sv_db s) \<and> \<not> closed (sv_db s)"
    using ok ref_db_inv by (simp add: one_pair_def) (simp add: NewServer_def idle_def ref_db_def)
qed

text \<open>The answer to the put is lost: the pair is on both nodes.\<close>

theorem migration_loses_nothing_witness:
  "let f = migrateData ref_env ref_json call_tickets put_answer_lost [[65]] [90] small_proxy (one_pair [66])
   in \<exists>s s'. f [65] = Some s \<and> f [90] = Some s'
      \<and> (db_view ref_env 2 (sv_db s) [120] = Some ([66], 0)
         \<or> db_view ref_env 2 (sv_db s) [120] = None \<and> db_view ref_env 2 (sv_db s') [120] = Some ([66], 0))
      \<and> db_view ref_env 2 (sv_db s) [121] = None \<and> db_view ref_env 2 (sv_db s') [120] = Some ([66], 0)"
proof -
  have fits: "small_request ref_json (put_request [120] [66])"
    "ServeHTTP ref_env ref_json (ticket_at 1 1) (put_request [120] [66]) (NewServer ref_db None []) \<noteq> None" by code_simp+
  have "db_keys ref_env (sv_db (server_with [120] [66])) = [[120]]"
    "db_map ref_env (sv_db (server_with [120] [66])) [120] = Some ([66], 0)" by code_simp+
  note sv = this
  have "TrimSpace ([66] @ [10]) = [66]" by code_simp
  then have "form_pair [120] [66]"
    using json_string_ascii[of "[120]"] by (simp add: form_pair_def plain_bytes_def form_bytes_def value_fits_def maxLogRecordHeaderSize_def)
  note h = one_pair_movable[OF fits sv this]
  have t: "\<forall>n. sint (t_op (call_tickets n)) \<le> sint (2 :: int64)" by (simp add: call_tickets_def ticket_at_def)
  have u: "[65] \<in> set [[65 :: byte]]" "db_map ref_env (sv_db (the (one_pair [66] [65]))) [120] = Some ([66], 0)"
    and none: "db_map ref_env (sv_db (the (one_pair [66] [65]))) [121] = None" and plus: "43 \<notin> set [66 :: byte]"
    using sv(2) h(3)[of "[121]"] by (simp_all add: one_pair_def)
  have "map_option (\<lambda>s. db_view ref_env 2 (sv_db s) [120])
      (migrateData ref_env ref_json call_tickets put_answer_lost [[65]] [90] small_proxy (one_pair [66]) [90])
      = Some (Some ([66], 0))" by code_simp
  with migration_loses_nothing[OF ref.engine_axioms call_tickets_ok h(1) refl h(2) t u plus, of ref_json put_answer_lost small_proxy] none
  show ?thesis by (fastforce simp: Let_def)
qed

text \<open>
  Property C39. Plus signs do not survive a migration. Under the assumptions of the safe
  migration, take a pair whose value has a plus sign. Whatever happens to the messages, the
  pair either is still on its old node, or the old node has lost it and the new one holds the
  value with a space for every plus sign, which is another value: the proxy writes the
  value into the form without escaping it.
\<close>

theorem migration_changes_plus_signs:
  assumes E: "engine E bt_inv w_inv pend" and c: "call_clock tk"
    and f: "\<forall>u \<in> insert newNode (set oldNodes). \<exists>s. f u = Some s
              \<and> db_inv E bt_inv w_inv pend (sv_db s) \<and> idle (sv_db s) \<and> \<not> closed (sv_db s)"
    and H: "Hs = (\<lambda>u. db_map E (sv_db (the (f u))))" "movable (set oldNodes) newNode Hs"
    and t: "\<forall>n. sint (t_op (tk n)) \<le> sint t" and u: "u \<in> set oldNodes" and k: "Hs u k = Some (v, 0)"
    and plus: "43 \<in> set v"
  shows "sent v \<noteq> v
     \<and> (\<exists>s s'. migrateData E J tk net oldNodes newNode p f u = Some s
          \<and> migrateData E J tk net oldNodes newNode p f newNode = Some s'
          \<and> (db_view E t (sv_db s) k = Some (v, 0)
             \<or> db_view E t (sv_db s) k = None \<and> db_view E t (sv_db s') k = Some (sent v, 0)))"
  using migration_outcome[OF assms(1-8)] sent_changes[OF plus] by blast

text \<open>With every message delivered and every answer a success, the value \<open>a+b\<close> has become \<open>a b\<close>.\<close>

theorem migration_changes_plus_signs_witness:
  "let f = migrateData ref_env ref_json call_tickets (\<lambda>n. Delivered) [[65]] [90] small_proxy (one_pair [97, 43, 98])
   in \<exists>s s'. f [65] = Some s \<and> f [90] = Some s'
      \<and> (db_view ref_env 2 (sv_db s) [120] = Some ([97, 43, 98], 0)
         \<or> db_view ref_env 2 (sv_db s) [120] = None \<and> db_view ref_env 2 (sv_db s') [120] = Some (sent [97, 43, 98], 0))
      \<and> db_view ref_env 2 (sv_db s) [120] = None \<and> db_view ref_env 2 (sv_db s') [120] = Some ([97, 32, 98], 0)"
proof -
  have fits: "small_request ref_json (put_request [120] [97, 43, 98])"
    "ServeHTTP ref_env ref_json (ticket_at 1 1) (put_request [120] [97, 43, 98]) (NewServer ref_db None []) \<noteq> None" by code_simp+
  have "db_keys ref_env (sv_db (server_with [120] [97, 43, 98])) = [[120]]"
    "db_map ref_env (sv_db (server_with [120] [97, 43, 98])) [120] = Some ([97, 43, 98], 0)" by code_simp+
  note sv = this
  have "TrimSpace ([97, 43, 98] @ [10]) = [97, 43, 98]" by code_simp
  then have "form_pair [120] [97, 43, 98]"
    using json_string_ascii[of "[120]"] by (simp add: form_pair_def plain_bytes_def form_bytes_def value_fits_def maxLogRecordHeaderSize_def)
  note h = one_pair_movable[OF fits sv this]
  have t: "\<forall>n. sint (t_op (call_tickets n)) \<le> sint (2 :: int64)" by (simp add: call_tickets_def ticket_at_def)
  have "[65] \<in> set [[65 :: byte]]" "db_map ref_env (sv_db (the (one_pair [97, 43, 98] [65]))) [120] = Some ([97, 43, 98], 0)"
    using sv(2) by (simp_all add: one_pair_def)
  note g = migration_changes_plus_signs[OF ref.engine_axioms call_tickets_ok h(1) refl h(2) t this, of ref_json "\<lambda>n. Delivered" small_proxy]
  have "map_option (\<lambda>s. db_view ref_env 2 (sv_db s) [120])
      (migrateData ref_env ref_json call_tickets (\<lambda>n. Delivered) [[65]] [90] small_proxy (one_pair [97, 43, 98]) [65]) = Some None"
    "map_option (\<lambda>s. db_view ref_env 2 (sv_db s) [120])
      (migrateData ref_env ref_json call_tickets (\<lambda>n. Delivered) [[65]] [90] small_proxy (one_pair [97, 43, 98]) [90])
      = Some (Some ([97, 32, 98], 0))" by code_simp+
  with g show ?thesis by (fastforce simp: Let_def)
qed

text \<open>
  A key with an ampersand destroys the pair of another key. The old node holds \<open>q\<close>, which
  stays there, and \<open>q&value=AB\<close>, which is to move: the proxy reads \<open>q\<close>, puts the value \<open>AB\<close>
  for \<open>q\<close> on the new node and deletes \<open>q\<close> on the old one.
\<close>

definition byte_hash :: "bytes \<Rightarrow> uint32" where
  "byte_hash bs = ucast (sum_list bs)"

definition byte_proxy :: Proxy where
  "byte_proxy = \<lparr>px_ring = AddNode [[65], [90]] (New 2 (Some byte_hash)), px_nodes = [[65], [90]]\<rparr>"

definition two_pairs :: "(item list, list_wal) nodes" where
  "two_pairs url =
     (if url = [65]
      then Some (snd (the (ServeHTTP ref_env ref_json (ticket_at 2 2) (put_request ([113] @ str ''&value='' @ [65, 66]) [67])
                            (server_with [113] [66]))))
      else if url = [90] then Some (NewServer ref_db None []) else None)"

lemma one_key_destroys_another:
  "proxy_GetNode [113] byte_proxy = [65]
   \<and> (let f = migrateData ref_env ref_json call_tickets (\<lambda>n. Delivered) [[65]] [90] byte_proxy two_pairs
      in map_option (\<lambda>s. db_view ref_env 2 (sv_db s) [113]) (two_pairs [65]) = Some (Some ([66], 0))
         \<and> map_option (\<lambda>s. db_view ref_env 2 (sv_db s) [113]) (f [65]) = Some None
         \<and> map_option (\<lambda>s. db_view ref_env 2 (sv_db s) [113]) (f [90]) = Some (Some ([65, 66], 0)))"
  by code_simp

text \<open>
  A key that is not text in UTF-8 is not moved: its name is another one after JSON, and the
  proxy, which now routes the key to the new node, does not find it any more.
\<close>

definition binary_key :: "(item list, list_wal) nodes" where
  "binary_key url = (if url = [65] then Some (server_with [129] [66])
                     else if url = [90] then Some (NewServer ref_db None []) else None)"

lemma binary_keys_stay_behind:
  "proxy_GetNode [129] byte_proxy = [90]
   \<and> (let f = migrateData ref_env ref_json call_tickets (\<lambda>n. Delivered) [[65]] [90] byte_proxy binary_key
      in map_option (\<lambda>s. db_view ref_env 2 (sv_db s) [129]) (f [65]) = Some (Some ([66], 0))
         \<and> map_option (\<lambda>s. db_view ref_env 2 (sv_db s) [129]) (f [90]) = Some None)"
  by code_simp

definition add_request :: "bytes \<Rightarrow> http_request" where
  "add_request node = query_request MethodPost (str ''/add-node'') [(str ''node'', node)]"

definition pair_at_Z :: "(item list, list_wal) nodes" where
  "pair_at_Z url = (if url = [65] then Some (NewServer ref_db None [])
                    else if url = [90] then Some (server_with [120] [66]) else None)"

text \<open>
  Adding a node again destroys its data: \<open>/add-node\<close> with the URL of a node
  that the proxy already has starts a migration from the node to itself, which puts each of
  its keys and then deletes it.
\<close>

lemma readding_a_node_wipes_it:
  "case proxy_serve ref_env ref_json (ticket_at 1 1) Delivered (add_request [90]) small_proxy pair_at_Z of
     Some (rp, p, f, Some (olds, new)) \<Rightarrow>
       rp = Reply 200 (Message ''Node added and migration started'') \<and> proxy_GetNode [120] p = [90]
       \<and> map_option (\<lambda>s. db_view ref_env 2 (sv_db s) [120]) (f [90]) = Some (Some ([66], 0))
       \<and> (let f' = migrateData ref_env ref_json call_tickets (\<lambda>n. Delivered) olds new p f
          in map_option (\<lambda>s. db_view ref_env 2 (sv_db s) [120]) (f' [65]) = Some None
             \<and> map_option (\<lambda>s. db_view ref_env 2 (sv_db s) [120]) (f' [90]) = Some None)
   | _ \<Rightarrow> False"
  by code_simp

definition multipart_put :: http_request where
  "multipart_put = \<lparr>Method = MethodPost, Path = str ''/put'', RawQuery = [], SyncKeyHeader = [],
     Body = Multipart [(str ''key'', [120]), (str ''value'', [66])]\<rparr>"

text \<open>
  The proxy loses multipart forms: the same form for \<open>/put\<close>, sent as a multipart
  form, is accepted by the node itself and rejected through the proxy, which sends the form
  on in query syntax under the old content type.
\<close>

lemma proxy_loses_multipart_forms:
  "map_option fst (ServeHTTP ref_env ref_json (ticket_at 1 1) multipart_put (NewServer ref_db None []))
     = Some (Ok (Reply 200 (Message ''OK'')))
   \<and> map_option fst (proxy_serve ref_env ref_json (ticket_at 1 1) Delivered multipart_put small_proxy two_servers)
     = Some (Reply 400 (Message ''Missing key or value''))"
proof
  show "map_option fst (ServeHTTP ref_env ref_json (ticket_at 1 1) multipart_put (NewServer ref_db None []))
     = Some (Ok (Reply 200 (Message ''OK'')))" by code_simp
  show "map_option fst (proxy_serve ref_env ref_json (ticket_at 1 1) Delivered multipart_put small_proxy two_servers)
     = Some (Reply 400 (Message ''Missing key or value''))" by code_simp
qed

end
