(* ===== verification/Disk.thy ===== *)
theory Disk
  imports Database_Spec
begin

text \<open>
  What \<^verbatim>\<open>merge.go\<close> and \<open>Open\<close> take from the operating system and from the segmented
  side of the write-ahead log. A directory is a list of segment files for each suffix, the
  content of a file is opaque (\<open>'f\<close>), and \<open>disk_ops\<close> holds the operations of the package
  on segments. A second reference instance of the log, with segments, shows that the laws
  can be met.
\<close>

section \<open>Directories\<close>

datatype suffix = dataFileNameSuffix | hintFileNameSuffix | mergeFinNameSuffix

text \<open>The segment files of one suffix, by segment identifier.\<close>

type_synonym 'f files = "(uint32 \<times> 'f) list"
type_synonym 'f dir = "suffix \<Rightarrow> 'f files"

text \<open>
  The directory of a database, and the merge directory beside it (\<open>None\<close>: it does not
  exist). Theory \<open>Paths\<close> gives its name, which plays no part here.
\<close>

record 'f disk =
  data_dir :: "'f dir"
  merge_dir :: "'f dir option"

definition set_files :: "suffix \<Rightarrow> 'f files \<Rightarrow> 'f disk \<Rightarrow> 'f disk" where
  "set_files sfx fs k = k\<lparr>data_dir := (data_dir k)(sfx := fs)\<rparr>"

text \<open>The calls that can fail; a fault is a function from calls to their errors.\<close>

datatype os_call =
    MkdirAll
  | StatMergeDir
  | StatSource suffix uint32
  | RenameFile suffix uint32
  | StatDest uint32
  | RemoveDest uint32
  | OpenMergeFin
  | RemoveMergeDir

type_synonym faults = "os_call \<Rightarrow> go_error option"

section \<open>The log and its segments\<close>

text \<open>
  \<open>w_ChunksWithMax\<close> is what a reader made by \<open>NewReaderWithMax\<close> returns, as
  \<open>w_Chunks\<close>; \<open>w_Open\<close> is \<open>wal.Open\<close> on the files with a suffix; \<open>w_Files\<close> are the files
  of an open log, and \<open>f_Bytes\<close> the bytes of a file.
\<close>

record ('w, 'f) disk_ops =
  w_IsEmpty :: "'w \<Rightarrow> bool"
  w_ActiveSegmentID :: "'w \<Rightarrow> uint32"
  w_OpenNewActiveSegment :: "'w \<Rightarrow> go_error option \<times> 'w"
  w_ChunksWithMax :: "'w \<Rightarrow> uint32 \<Rightarrow> (chunk_position \<times> bytes) list \<times> go_error option"
  w_Write :: "'w \<Rightarrow> bytes \<Rightarrow> (go_error + chunk_position) \<times> 'w"
  w_Open :: "suffix \<Rightarrow> 'f files \<Rightarrow> go_error + 'w"
  w_Files :: "'w \<Rightarrow> 'f files"
  f_Bytes :: "'f \<Rightarrow> bytes"

text \<open>The log of a directory: the chunks of its segments in the order of their identifiers.\<close>

definition dir_log :: "(uint32 \<Rightarrow> 'f \<Rightarrow> (chunk_position \<times> bytes) list) \<Rightarrow> 'f files \<Rightarrow> (chunk_position \<times> bytes) list" where
  "dir_log seg_log fs =
     concat (map (\<lambda>i. case map_of fs i of None \<Rightarrow> [] | Some f \<Rightarrow> seg_log i f) (sorted_list_of_set (fst ` set fs)))"

text \<open>
  The place of a chunk in the log; \<open>positionEquals\<close> compares it, and does not look at the
  size.
\<close>

definition positionEquals :: "chunk_position \<Rightarrow> chunk_position \<Rightarrow> bool" where
  "positionEquals a b \<longleftrightarrow> SegmentId a = SegmentId b \<and> BlockNumber a = BlockNumber b \<and> ChunkOffset a = ChunkOffset b"

text \<open>
  The documented behaviour. The log of a directory is read segment by segment; the chunks
  of segment \<open>i\<close> have positions in \<open>i\<close>, and no two chunks have the same place. Opening a
  directory gives its log. The active segment has a file. A new active segment is empty and comes after all others.
  \<open>Write\<close> appends one chunk; what is written is in the files, behind a header of seven bytes
  (\<open>chunkHeaderSize\<close>) in the first segment of a new log. The logs of hints and of the
  mark, opened with an unlimited or ample segment size, have one segment only (\<open>one_seg\<close>).
\<close>

locale disk_lib = wal_lib W w_inv pend
  for W :: "'w wal_ops" and w_inv :: "'w \<Rightarrow> bool" and pend :: "'w \<Rightarrow> bytes list" +
  fixes S :: "('w, 'f) disk_ops" and one_seg :: "'w \<Rightarrow> bool" and seg_ok :: "uint32 \<Rightarrow> 'f \<Rightarrow> bool"
    and seg_log :: "uint32 \<Rightarrow> 'f \<Rightarrow> (chunk_position \<times> bytes) list"
  assumes Files_ok: "w_inv w \<Longrightarrow> (i, f) \<in> set (w_Files S w) \<Longrightarrow> seg_ok i f \<and> 0 < i \<and> i \<le> w_ActiveSegmentID S w"
    and Active_file: "w_inv w \<Longrightarrow> w_ActiveSegmentID S w \<in> fst ` set (w_Files S w)"
    and Files_distinct: "w_inv w \<Longrightarrow> distinct (map fst (w_Files S w))"
    and Files_log: "w_inv w \<Longrightarrow> wal_log W w = dir_log seg_log (w_Files S w)"
    and seg_positions: "seg_ok i f \<Longrightarrow> (p, c) \<in> set (seg_log i f) \<Longrightarrow> SegmentId p = i"
    and same_place: "w_inv w \<Longrightarrow> (p, c) \<in> set (wal_log W w) \<Longrightarrow> (p', c') \<in> set (wal_log W w) \<Longrightarrow> positionEquals p p'
          \<Longrightarrow> p = p' \<and> c = c'"
    and empty_file: "f_Bytes S f = [] \<Longrightarrow> seg_log i f = []"
    and IsEmpty_log: "w_inv w \<Longrightarrow> w_IsEmpty S w \<Longrightarrow> wal_log W w = []"
    and NewActive_ok: "w_inv w \<Longrightarrow> w_OpenNewActiveSegment S w = (None, w') \<Longrightarrow>
          w_inv w' \<and> pend w' = pend w \<and> w_ActiveSegmentID S w < w_ActiveSegmentID S w'
          \<and> (\<exists>i f. seg_log i f = [] \<and> w_ActiveSegmentID S w < i \<and> w_Files S w' = w_Files S w @ [(i, f)])"
    and NewActive_fail: "w_inv w \<Longrightarrow> w_OpenNewActiveSegment S w = (Some e, w') \<Longrightarrow>
          w_inv w' \<and> pend w' = pend w \<and> wal_log W w' = wal_log W w"
    and ChunksWithMax_law: "w_inv w \<Longrightarrow>
          w_ChunksWithMax S w m = (filter (\<lambda>x. SegmentId (fst x) \<le> m) (wal_log W w), None)"
    and Write_inv: "w_inv w \<Longrightarrow> w_Write S w c = (x, w') \<Longrightarrow> w_inv w' \<and> pend w' = pend w"
    and Write_ok: "w_inv w \<Longrightarrow> w_Write S w c = (Inr p, w') \<Longrightarrow> wal_log W w' = wal_log W w @ [(p, c)]"
    and Open_law: "w_Open S sfx fs = Inr w \<Longrightarrow> (\<forall>(i, f) \<in> set fs. seg_ok i f \<and> 0 < i) \<Longrightarrow> distinct (map fst fs) \<Longrightarrow>
          w_inv w \<and> pend w = [] \<and> wal_log W w = dir_log seg_log fs"
    and first_chunk: "w_Open S sfx [] = Inr w \<Longrightarrow> w_Write S w c = (Inr p, w') \<Longrightarrow>
          \<exists>f. map_of (w_Files S w') 1 = Some f \<and> 7 + length c \<le> length (f_Bytes S f) \<and> take (length c) (drop 7 (f_Bytes S f)) = c"
    and one_Open: "w_Open S sfx fs = Inr w \<Longrightarrow> sfx \<noteq> dataFileNameSuffix \<Longrightarrow> fst ` set fs \<subseteq> {1} \<Longrightarrow> one_seg w"
    and one_Write: "one_seg w \<Longrightarrow> w_Write S w c = (x, w') \<Longrightarrow> one_seg w'"
    and one_Files: "one_seg w \<Longrightarrow> fst ` set (w_Files S w) = {1}"
begin

end

end
