(* ===== verification/Merge.thy ===== *)
theory Merge
  imports Disk Restart
begin

text \<open>
  \<^verbatim>\<open>merge.go\<close> and \<open>Open\<close>: the live records are rewritten into a second database in
  the merge directory, with a hint file of their positions; a file marks the end of the
  merge. When a database is opened, a finished merge replaces the old segments, and the
  index is loaded from the hint file and from the segments the merge did not cover.
\<close>

section \<open>Taking over the merge directory\<close>

text \<open>\<open>getMergeFinSegmentId\<close>: the identifier stands behind the header of the chunk.\<close>

definition getMergeFinSegmentId :: "('w, 'f) disk_ops \<Rightarrow> faults \<Rightarrow> 'f dir \<Rightarrow> uint32 result" where
  "getMergeFinSegmentId S flt dir =
     (case map_of (dir mergeFinNameSuffix) 1 of
        None \<Rightarrow> Ok 0
      | Some f \<Rightarrow>
          if flt OpenMergeFin \<noteq> None then Ok 0
          else if length (f_Bytes S f) < 7 + 4 then Fail (ErrText ''EOF'')
          else Ok (le_uint32 (take 4 (drop 7 (f_Bytes S f)))))"

text \<open>\<open>os.Rename\<close> of a file of the merge directory to the same name in the data directory.\<close>

definition rename_file :: "suffix \<Rightarrow> uint32 \<Rightarrow> 'f \<Rightarrow> 'f dir \<Rightarrow> 'f disk \<Rightarrow> 'f disk" where
  "rename_file sfx fileId f md k =
     \<lparr>data_dir = (data_dir k)(sfx := AList.update fileId f (data_dir k sfx)),
      merge_dir = Some (md(sfx := AList.delete fileId (md sfx)))\<rparr>"

definition copyFile ::
    "('w, 'f) disk_ops \<Rightarrow> faults \<Rightarrow> suffix \<Rightarrow> uint32 \<Rightarrow> bool \<Rightarrow> 'f disk \<Rightarrow> unit result \<times> 'f disk" where
  "copyFile S flt sfx fileId force k =
     (case merge_dir k of
        None \<Rightarrow> (Ok (), k)
      | Some md \<Rightarrow>
          (case map_of (md sfx) fileId of
             None \<Rightarrow> (Ok (), k)
           | Some f \<Rightarrow>
               if flt (StatSource sfx fileId) \<noteq> None then (Panic, k)
               else if \<not> force \<and> length (f_Bytes S f) = 0 then (Ok (), k)
               else if flt (RenameFile sfx fileId) \<noteq> None then (Ok (), k)
               else (Ok (), rename_file sfx fileId f md k)))"

text \<open>One round of the loop over the segments.\<close>

definition replace_segment ::
    "('w, 'f) disk_ops \<Rightarrow> faults \<Rightarrow> uint32 \<Rightarrow> 'f disk \<Rightarrow> unit result \<times> 'f disk" where
  "replace_segment S flt fileId k =
     (if fileId \<in> fst ` set (data_dir k dataFileNameSuffix) \<and> flt (StatDest fileId) = None
      then (case flt (RemoveDest fileId) of
              Some e \<Rightarrow> (Fail e, k)
            | None \<Rightarrow>
                copyFile S flt dataFileNameSuffix fileId False
                  (set_files dataFileNameSuffix (AList.delete fileId (data_dir k dataFileNameSuffix)) k))
      else copyFile S flt dataFileNameSuffix fileId False k)"

fun replace_segments ::
    "('w, 'f) disk_ops \<Rightarrow> faults \<Rightarrow> uint32 list \<Rightarrow> 'f disk \<Rightarrow> unit result \<times> 'f disk" where
  "replace_segments S flt [] k = (Ok (), k)"
| "replace_segments S flt (i # is) k =
     (case replace_segment S flt i k of
        (Ok _, k) \<Rightarrow> replace_segments S flt is k
      | (Fail e, k) \<Rightarrow> (Fail e, k)
      | (Panic, k) \<Rightarrow> (Panic, k))"

text \<open>The deferred removal, whose error is ignored.\<close>

definition remove_merge_dir :: "faults \<Rightarrow> 'f disk \<Rightarrow> 'f disk" where
  "remove_merge_dir flt k = (if flt RemoveMergeDir = None then k\<lparr>merge_dir := None\<rparr> else k)"

text \<open>
  The segment identifiers of the loop are \<open>1\<close> to \<open>mergeFinSegmentId\<close>; for the greatest
  identifier of 32 bits the loop would not end, but no log has so many segments.
\<close>

definition loadMergeFiles :: "('w, 'f) disk_ops \<Rightarrow> faults \<Rightarrow> 'f disk \<Rightarrow> unit result \<times> 'f disk" where
  "loadMergeFiles S flt k =
     (case merge_dir k of
        None \<Rightarrow> (Ok (), k)
      | Some md \<Rightarrow>
          (case flt StatMergeDir of
             Some e \<Rightarrow> (Fail e, k)
           | None \<Rightarrow>
               (case (case getMergeFinSegmentId S flt md of
                        Fail e \<Rightarrow> (Fail e, k)
                      | Panic \<Rightarrow> (Panic, k)
                      | Ok mergeFinSegmentId \<Rightarrow>
                          (case replace_segments S flt (map of_nat [1..<unat mergeFinSegmentId + 1]) k of
                             (Ok _, k) \<Rightarrow>
                               (case copyFile S flt mergeFinNameSuffix 1 True k of
                                  (Ok _, k) \<Rightarrow> copyFile S flt hintFileNameSuffix 1 True k
                                | (r, k) \<Rightarrow> (r, k))
                           | (r, k) \<Rightarrow> (r, k))) of
                  (r, k) \<Rightarrow> (r, remove_merge_dir flt k))))"

section \<open>Opening\<close>

fun put_hints :: "('t, 'w) env \<Rightarrow> (chunk_position \<times> bytes) list \<Rightarrow> 't MemoryBTree \<Rightarrow> 't MemoryBTree option" where
  "put_hints E [] mt = Some mt"
| "put_hints E ((p, chunk) # cs) mt =
     (case decodeHintRecord chunk of
        None \<Rightarrow> None
      | Some (key, position) \<Rightarrow> put_hints E cs (fst (mt_Put (Bt E) mt key position)))"

definition loadIndexFromHintFile ::
    "('t, 'w) env \<Rightarrow> ('w, 'f) disk_ops \<Rightarrow> ('t, 'w) DB \<Rightarrow> 'f disk \<Rightarrow> ('t, 'w) DB result \<times> 'f disk" where
  "loadIndexFromHintFile E S d k =
     (case w_Open S hintFileNameSuffix (data_dir k hintFileNameSuffix) of
        Inl e \<Rightarrow> (Fail e, k)
      | Inr hintFile \<Rightarrow>
          (let k = set_files hintFileNameSuffix (w_Files S hintFile) k
           in case w_Chunks (Wl E) hintFile of
                (chunks, err) \<Rightarrow>
                  (case put_hints E chunks (index d) of
                     None \<Rightarrow> (Panic, k)
                   | Some mt \<Rightarrow> (case err of Some e \<Rightarrow> (Fail e, k) | None \<Rightarrow> (Ok (d\<lparr>index := mt\<rparr>), k)))))"

definition loadIndex ::
    "('t, 'w) env \<Rightarrow> ('w, 'f) disk_ops \<Rightarrow> faults \<Rightarrow> int64 \<Rightarrow> ('t, 'w) DB \<Rightarrow> 'f disk \<Rightarrow> ('t, 'w) DB result \<times> 'f disk" where
  "loadIndex E S flt now d k =
     (case loadIndexFromHintFile E S d k of
        (Ok d, k) \<Rightarrow>
          (case getMergeFinSegmentId S flt (data_dir k) of
             Ok mergeFinSegmentId \<Rightarrow> (loadIndexFromWAL E (map fst (w_Files S (dataFiles d))) mergeFinSegmentId now d, k)
           | Fail e \<Rightarrow> (Fail e, k)
           | Panic \<Rightarrow> (Panic, k))
      | (Fail e, k) \<Rightarrow> (Fail e, k)
      | (Panic, k) \<Rightarrow> (Panic, k))"

text \<open>
  \<open>hold\<close> is the answer of the file lock and \<open>parses\<close> the cron parser. The lock is not
  released when \<open>Open\<close> fails later on.
\<close>

definition Open ::
    "('t, 'w) env \<Rightarrow> ('w, 'f) disk_ops \<Rightarrow> (bytes \<Rightarrow> go_error option) \<Rightarrow> faults \<Rightarrow> go_error + bool \<Rightarrow> int64
       \<Rightarrow> Options \<Rightarrow> 'f disk \<Rightarrow> ('t, 'w) DB result \<times> 'f disk" where
  "Open E S parses flt hold now opts k =
     (case checkOptions parses opts of
        Fail e \<Rightarrow> (Fail e, k)
      | Panic \<Rightarrow> (Panic, k)
      | Ok _ \<Rightarrow>
          (case flt MkdirAll of
             Some e \<Rightarrow> (Fail e, k)
           | None \<Rightarrow>
               (case hold of
                  Inl e \<Rightarrow> (Fail e, k)
                | Inr False \<Rightarrow> (Fail ErrDatabaseIsUsing, k)
                | Inr True \<Rightarrow>
                    (case loadMergeFiles S flt k of
                       (Fail e, k) \<Rightarrow> (Fail e, k)
                     | (Panic, k) \<Rightarrow> (Panic, k)
                     | (Ok _, k) \<Rightarrow>
                         (case w_Open S dataFileNameSuffix (data_dir k dataFileNameSuffix) of
                            Inl e \<Rightarrow> (Fail e, k)
                          | Inr walFiles \<Rightarrow>
                              (case loadIndex E S flt now (new_db E opts walFiles)
                                      (set_files dataFileNameSuffix (w_Files S walFiles) k) of
                                 (Fail e, k) \<Rightarrow> (Fail e, k)
                               | (Panic, k) \<Rightarrow> (Panic, k)
                               | (Ok d, k) \<Rightarrow>
                                   (case (if 0 < length (AutoMergeCronExpr opts) then parses (AutoMergeCronExpr opts) else None) of
                                      Some e \<Rightarrow> (Fail e, k)
                                    | None \<Rightarrow> (Ok (enable_watch d), k))))))))"

section \<open>Merging\<close>

text \<open>The first part, under the lock: \<open>Ok None\<close> if there is nothing to do.\<close>

definition merge_begin ::
    "('w, 'f) disk_ops \<Rightarrow> ('t, 'w) DB \<Rightarrow> uint32 option result \<times> ('t, 'w) DB" where
  "merge_begin S d =
     (if closed d then (Fail ErrDBClosed, d)
      else if w_IsEmpty S (dataFiles d) then (Ok None, d)
      else if mergeRunning d then (Fail ErrMergeRunning, d)
      else
        (let prevActiveSegId = w_ActiveSegmentID S (dataFiles d)
         in case w_OpenNewActiveSegment S (dataFiles d) of
              (Some e, w) \<Rightarrow> (Fail e, d\<lparr>dataFiles := w\<rparr>)
            | (None, w) \<Rightarrow> (Ok (Some prevActiveSegId), d\<lparr>dataFiles := w, mergeRunning := True\<rparr>)))"

text \<open>
  The merge database and its hint file in the fresh merge directory. \<open>flt2\<close> and
  \<open>hold2\<close> are the faults and the lock of this directory.
\<close>

definition openMergeDB ::
    "('t, 'w) env \<Rightarrow> ('w, 'f) disk_ops \<Rightarrow> (bytes \<Rightarrow> go_error option) \<Rightarrow> faults \<Rightarrow> faults \<Rightarrow> go_error + bool \<Rightarrow> int64
       \<Rightarrow> Options \<Rightarrow> 'f disk \<Rightarrow> (('t, 'w) DB \<times> 'w) result \<times> 'f disk" where
  "openMergeDB E S parses flt flt2 hold2 now opts k =
     (case flt RemoveMergeDir of
        Some e \<Rightarrow> (Fail e, k)
      | None \<Rightarrow>
          (case Open E S parses flt2 hold2 now (opts\<lparr>Sync := False, BytesPerSync := 0\<rparr>)
                  \<lparr>data_dir = (\<lambda>sfx. []), merge_dir = None\<rparr> of
             (Fail e, mk) \<Rightarrow> (Fail e, k\<lparr>merge_dir := Some (data_dir mk)\<rparr>)
           | (Panic, mk) \<Rightarrow> (Panic, k\<lparr>merge_dir := Some (data_dir mk)\<rparr>)
           | (Ok mergeDB, mk) \<Rightarrow>
               (case w_Open S hintFileNameSuffix (data_dir mk hintFileNameSuffix) of
                  Inl e \<Rightarrow> (Fail e, k\<lparr>merge_dir := Some (data_dir mk)\<rparr>)
                | Inr hintFile \<Rightarrow>
                    (Ok (mergeDB, hintFile),
                     k\<lparr>merge_dir := Some ((data_dir mk)(hintFileNameSuffix := w_Files S hintFile))\<rparr>))))"

text \<open>
  The loop over the old segments. It takes the lock for each look into the index only, so
  other requests may run in between: \<open>idx\<close> gives the index that the chunk at a position
  finds. \<open>mergeDB\<close> and \<open>hint\<close> are the data files and the hint file of the merge database.
\<close>

fun merge_loop ::
    "('t, 'w) env \<Rightarrow> ('w, 'f) disk_ops \<Rightarrow> int64 \<Rightarrow> (chunk_position \<Rightarrow> 't MemoryBTree) \<Rightarrow> (chunk_position \<times> bytes) list
       \<Rightarrow> 'w \<Rightarrow> 'w \<Rightarrow> unit result \<times> 'w \<times> 'w" where
  "merge_loop E S now idx [] mergeDB hint = (Ok (), mergeDB, hint)"
| "merge_loop E S now idx ((position, chunk) # cs) mergeDB hint =
     (case decodeLogRecord chunk of
        None \<Rightarrow> (Panic, mergeDB, hint)
      | Some record \<Rightarrow>
          if Type record = LogRecordNormal \<and> (Expire record = 0 \<or> now <s Expire record)
          then (case mt_Get (Bt E) (idx position) (Key record) of
                  None \<Rightarrow> merge_loop E S now idx cs mergeDB hint
                | Some indexPos \<Rightarrow>
                    if positionEquals indexPos position
                    then (case encodeLogRecord (record\<lparr>BatchId := mergeFinishedBatchID\<rparr>) of
                            None \<Rightarrow> (Panic, mergeDB, hint)
                          | Some buf \<Rightarrow>
                              (case w_Write S mergeDB buf of
                                 (Inl e, mergeDB) \<Rightarrow> (Fail e, mergeDB, hint)
                               | (Inr newPosition, mergeDB) \<Rightarrow>
                                   (case encodeHintRecord (Key record) newPosition of
                                      None \<Rightarrow> (Panic, mergeDB, hint)
                                    | Some hbuf \<Rightarrow>
                                        (case w_Write S hint hbuf of
                                           (Inl e, hint) \<Rightarrow> (Fail e, mergeDB, hint)
                                         | (Inr p, hint) \<Rightarrow> merge_loop E S now idx cs mergeDB hint))))
                    else merge_loop E S now idx cs mergeDB hint)
          else merge_loop E S now idx cs mergeDB hint)"

text \<open>The merge directory while the merge database is open.\<close>

definition merge_files :: "('w, 'f) disk_ops \<Rightarrow> 'w \<Rightarrow> 'w \<Rightarrow> 'f disk \<Rightarrow> 'f disk" where
  "merge_files S mergeDB hint k =
     k\<lparr>merge_dir := map_option (\<lambda>md. md(dataFileNameSuffix := w_Files S mergeDB, hintFileNameSuffix := w_Files S hint))
                     (merge_dir k)\<rparr>"

text \<open>
  The mark of a finished merge. The error of closing its file is \<open>closeErr\<close>.
\<close>

definition finish_merge ::
    "('w, 'f) disk_ops \<Rightarrow> go_error option \<Rightarrow> uint32 \<Rightarrow> 'f disk \<Rightarrow> unit result \<times> 'f disk" where
  "finish_merge S closeErr prevActiveSegId k =
     (case merge_dir k of
        None \<Rightarrow> (Fail (ErrText ''no such file or directory''), k)
      | Some md \<Rightarrow>
          (case w_Open S mergeFinNameSuffix (md mergeFinNameSuffix) of
             Inl e \<Rightarrow> (Fail e, k)
           | Inr fin \<Rightarrow>
               (case w_Write S fin (encodeMergeFinRecord prevActiveSegId) of
                  (Inl e, fin) \<Rightarrow> (Fail e, k\<lparr>merge_dir := Some (md(mergeFinNameSuffix := w_Files S fin))\<rparr>)
                | (Inr p, fin) \<Rightarrow>
                    (case closeErr of
                       Some e \<Rightarrow> (Fail e, k\<lparr>merge_dir := Some (md(mergeFinNameSuffix := w_Files S fin))\<rparr>)
                     | None \<Rightarrow> (Ok (), k\<lparr>merge_dir := Some (md(mergeFinNameSuffix := w_Files S fin))\<rparr>)))))"


text \<open>
  The part of \<open>doMerge\<close> after the unlock. It does not change the database \<open>d\<close>; the disk is
  left as it is when an error ends it.
\<close>

definition merge_copy ::
    "('t, 'w) env \<Rightarrow> ('w, 'f) disk_ops \<Rightarrow> (bytes \<Rightarrow> go_error option) \<Rightarrow> faults \<Rightarrow> faults \<Rightarrow> go_error + bool \<Rightarrow> int64
       \<Rightarrow> go_error option \<Rightarrow> uint32 \<Rightarrow> (chunk_position \<Rightarrow> 't MemoryBTree) \<Rightarrow> ('t, 'w) DB \<Rightarrow> 'f disk \<Rightarrow> unit result \<times> 'f disk" where
  "merge_copy E S parses flt flt2 hold2 now closeErr prevActiveSegId idx d k =
     (case openMergeDB E S parses flt flt2 hold2 now (options d) k of
        (Fail e, k) \<Rightarrow> (Fail e, k)
      | (Panic, k) \<Rightarrow> (Panic, k)
      | (Ok (mergeDB, hintFile), k) \<Rightarrow>
          (case w_ChunksWithMax S (dataFiles d) prevActiveSegId of
             (chunks, err) \<Rightarrow>
               (case merge_loop E S now idx chunks (dataFiles mergeDB) hintFile of
                  (r, w, h) \<Rightarrow>
                    (let k = merge_files S w h k
                     in case r of
                          Fail e \<Rightarrow> (Fail e, k)
                        | Panic \<Rightarrow> (Panic, k)
                        | Ok _ \<Rightarrow> (case err of Some e \<Rightarrow> (Fail e, k) | None \<Rightarrow> finish_merge S closeErr prevActiveSegId k)))))"

definition doMerge ::
    "('t, 'w) env \<Rightarrow> ('w, 'f) disk_ops \<Rightarrow> (bytes \<Rightarrow> go_error option) \<Rightarrow> faults \<Rightarrow> faults \<Rightarrow> go_error + bool \<Rightarrow> int64
       \<Rightarrow> go_error option \<Rightarrow> ('t, 'w) DB \<Rightarrow> 'f disk \<Rightarrow> (unit result \<times> ('t, 'w) DB \<times> 'f disk) option" where
  "doMerge E S parses flt flt2 hold2 now closeErr d k =
     (case with_Lock (merge_begin S) d of
        None \<Rightarrow> None
      | Some (Fail e, d) \<Rightarrow> Some (Fail e, d, k)
      | Some (Panic, d) \<Rightarrow> Some (Panic, d, k)
      | Some (Ok None, d) \<Rightarrow> Some (Ok (), d, k)
      | Some (Ok (Some prevActiveSegId), d) \<Rightarrow>
          (case merge_copy E S parses flt flt2 hold2 now closeErr prevActiveSegId (\<lambda>p. index d) d k of
             (r, k) \<Rightarrow> Some (r, d\<lparr>mergeRunning := False\<rparr>, k)))"

text \<open>
  The second half of \<open>Merge(true)\<close>, under the lock. The segments of the data directory
  are the files of the open log. A database that cannot be reopened is \<open>None\<close>: its files
  are closed, or its index is incomplete.
\<close>

definition merge_reopen ::
    "('t, 'w) env \<Rightarrow> ('w, 'f) disk_ops \<Rightarrow> faults \<Rightarrow> int64 \<Rightarrow> ('t, 'w) DB \<Rightarrow> 'f disk \<Rightarrow> (unit result \<times> 'f disk) \<times> ('t, 'w) DB option" where
  "merge_reopen E S flt now d k =
     (case loadMergeFiles S flt (set_files dataFileNameSuffix (w_Files S (dataFiles d)) k) of
        (Fail e, k) \<Rightarrow> ((Fail e, k), None)
      | (Panic, k) \<Rightarrow> ((Panic, k), None)
      | (Ok _, k) \<Rightarrow>
          (case w_Open S dataFileNameSuffix (data_dir k dataFileNameSuffix) of
             Inl e \<Rightarrow> ((Fail e, k), None)
           | Inr walFiles \<Rightarrow>
               (case loadIndex E S flt now (d\<lparr>dataFiles := walFiles, index := NewIndexer (Bt E)\<rparr>)
                       (set_files dataFileNameSuffix (w_Files S walFiles) k) of
                  (Fail e, k) \<Rightarrow> ((Fail e, k), None)
                | (Panic, k) \<Rightarrow> ((Panic, k), None)
                | (Ok d, k) \<Rightarrow> ((Ok (), k), Some d))))"

definition db_Merge ::
    "('t, 'w) env \<Rightarrow> ('w, 'f) disk_ops \<Rightarrow> (bytes \<Rightarrow> go_error option) \<Rightarrow> faults \<Rightarrow> faults \<Rightarrow> go_error + bool \<Rightarrow> int64
       \<Rightarrow> go_error option \<Rightarrow> int64 \<Rightarrow> bool \<Rightarrow> ('t, 'w) DB \<Rightarrow> 'f disk \<Rightarrow> (unit result \<times> ('t, 'w) DB option \<times> 'f disk) option" where
  "db_Merge E S parses flt flt2 hold2 now closeErr now2 reopenAfterDone d k =
     (case doMerge E S parses flt flt2 hold2 now closeErr d k of
        None \<Rightarrow> None
      | Some (Ok _, d, k) \<Rightarrow>
          if \<not> reopenAfterDone then Some (Ok (), Some d, k)
          else if mutex_Lock (mu d) = None then None
          else (case merge_reopen E S flt now2 d k of ((r, k), d') \<Rightarrow> Some (r, d', k))
      | Some (Fail e, d, k) \<Rightarrow> Some (Fail e, Some d, k)
      | Some (Panic, d, k) \<Rightarrow> Some (Panic, Some d, k))"

end
