(* ===== verification/Merge_Spec.thy ===== *)
theory Merge_Spec
  imports Merge
begin

text \<open>
  A merge keeps what readers see: the live records of the old segments, and only those, are
  in the merged segments and in the hint file, and loading the hint file and the segments
  after the merge gives an index with the same view.
\<close>

section \<open>Directories\<close>

lemma map_of_in_ids: "map_of fs i = Some f \<Longrightarrow> i \<in> fst ` set fs"
  by (metis domI dom_map_of_conv_image_fst)

lemma dir_log_cong:
  assumes "\<And>i. map_of fs i = map_of gs i"
  shows "dir_log sl fs = dir_log sl gs"
proof -
  have "map_of fs = map_of gs" using assms by blast
  moreover from this have "fst ` set fs = fst ` set gs" by (metis dom_map_of_conv_image_fst)
  ultimately show ?thesis by (simp add: dir_log_def)
qed

text \<open>Segments with no chunks do not matter.\<close>

definition seg_chunks :: "(uint32 \<Rightarrow> 'f \<Rightarrow> (chunk_position \<times> bytes) list) \<Rightarrow> 'f files \<Rightarrow> uint32 \<Rightarrow> (chunk_position \<times> bytes) list" where
  "seg_chunks sl fs i = (case map_of fs i of None \<Rightarrow> [] | Some f \<Rightarrow> sl i f)"

lemma concat_filter_nonempty: "concat (map g xs) = concat (map g (filter (\<lambda>i. g i \<noteq> []) xs))"
  by (induction xs) auto

lemma seg_chunks_ids: "seg_chunks sl fs i \<noteq> [] \<Longrightarrow> i \<in> fst ` set fs"
  by (cases "map_of fs i") (auto simp: seg_chunks_def dest: map_of_in_ids)

lemma filter_sorted_set: "finite A \<Longrightarrow> filter P (sorted_list_of_set A) = sorted_list_of_set {x \<in> A. P x}"
  by (rule sorted_distinct_set_unique) (simp_all add: sorted_wrt_filter)

lemma dir_log_ids:
  assumes "finite I" and "\<And>i. seg_chunks sl fs i \<noteq> [] \<Longrightarrow> i \<in> I"
  shows "dir_log sl fs = concat (map (seg_chunks sl fs) (sorted_list_of_set I))"
proof -
  let ?g = "seg_chunks sl fs"
  have fin: "finite (fst ` set fs)" by simp
  have "filter (\<lambda>i. ?g i \<noteq> []) (sorted_list_of_set (fst ` set fs)) = sorted_list_of_set {i \<in> fst ` set fs. ?g i \<noteq> []}"
    using fin by (rule filter_sorted_set)
  also have "{i \<in> fst ` set fs. ?g i \<noteq> []} = {i \<in> I. ?g i \<noteq> []}" using seg_chunks_ids assms(2) by blast
  also have "sorted_list_of_set {i \<in> I. ?g i \<noteq> []} = filter (\<lambda>i. ?g i \<noteq> []) (sorted_list_of_set I)"
    using assms(1) by (rule filter_sorted_set[symmetric])
  finally have e: "filter (\<lambda>i. ?g i \<noteq> []) (sorted_list_of_set (fst ` set fs)) = filter (\<lambda>i. ?g i \<noteq> []) (sorted_list_of_set I)" .
  have "dir_log sl fs = concat (map ?g (sorted_list_of_set (fst ` set fs)))"
    by (simp add: dir_log_def seg_chunks_def[abs_def])
  then show ?thesis using e concat_filter_nonempty[of ?g] by metis
qed

lemma dir_log_chunks:
  assumes "\<And>i. seg_chunks sl fs i = seg_chunks sl gs i"
  shows "dir_log sl fs = dir_log sl gs"
proof -
  let ?I = "fst ` set fs \<union> fst ` set gs"
  have "dir_log sl fs = concat (map (seg_chunks sl fs) (sorted_list_of_set ?I))"
    by (rule dir_log_ids) (use seg_chunks_ids in fastforce)+
  moreover have "dir_log sl gs = concat (map (seg_chunks sl gs) (sorted_list_of_set ?I))"
    by (rule dir_log_ids) (use seg_chunks_ids in fastforce)+
  moreover have "seg_chunks sl fs = seg_chunks sl gs" using assms by blast
  ultimately show ?thesis by simp
qed

text \<open>A directory split at a segment.\<close>

lemma sorted_split:
  assumes "sorted xs"
  shows "xs = filter (\<lambda>i. i \<le> (m :: 'a :: linorder)) xs @ filter (\<lambda>i. m < i) xs"
  using assms
proof (induction xs)
  case (Cons x xs)
  show ?case
  proof (cases "x \<le> m")
    case True
    then show ?thesis using Cons by (simp add: not_less)
  next
    case False
    then have "\<forall>y \<in> set xs. m < y" using Cons.prems by (auto simp: not_le intro: less_le_trans)
    then have "filter (\<lambda>i. i \<le> m) xs = []" "filter (\<lambda>i. m < i) xs = xs"
      by (auto simp: filter_empty_conv filter_id_conv not_le)
    then show ?thesis using False by (simp add: not_le)
  qed
qed simp

lemma dir_log_split:
  "dir_log sl fs = dir_log sl (filter (\<lambda>x. fst x \<le> m) fs) @ dir_log sl (filter (\<lambda>x. m < fst x) fs)"
proof -
  let ?I = "sorted_list_of_set (fst ` set fs)"
  have part: "concat (map (seg_chunks sl fs) (filter P ?I)) = dir_log sl (filter (\<lambda>x. P (fst x)) fs)" for P
  proof -
    let ?gs = "filter (\<lambda>x. P (fst x)) fs"
    have m: "map_of ?gs i = (if P i then map_of fs i else None)" for i by (induction fs) auto
    have "filter P ?I = sorted_list_of_set {i \<in> fst ` set fs. P i}" by (rule filter_sorted_set) simp
    moreover have "{i \<in> fst ` set fs. P i} = fst ` set ?gs" by auto
    moreover have "concat (map (seg_chunks sl fs) (sorted_list_of_set (fst ` set ?gs)))
        = concat (map (seg_chunks sl ?gs) (sorted_list_of_set (fst ` set ?gs)))"
      by (rule arg_cong[where f = concat], rule map_cong[OF refl]) (auto simp: seg_chunks_def m)
    moreover have "\<dots> = dir_log sl ?gs" by (rule dir_log_ids[symmetric]) (use seg_chunks_ids in fastforce)+
    ultimately show ?thesis by simp
  qed
  have "dir_log sl fs = concat (map (seg_chunks sl fs) ?I)" by (rule dir_log_ids) (use seg_chunks_ids in fastforce)+
  also have "\<dots> = concat (map (seg_chunks sl fs) (filter (\<lambda>i. i \<le> m) ?I @ filter (\<lambda>i. m < i) ?I))"
    by (subst sorted_split[of ?I m]) simp_all
  finally show ?thesis using part[of "\<lambda>i. i \<le> m"] part[of "\<lambda>i. m < i"] by simp
qed

lemma map_of_split:
  "map_of (filter (\<lambda>x. fst x \<le> m) fs) i = (if i \<le> (m :: 'a :: linorder) then map_of fs i else None)"
  "map_of (filter (\<lambda>x. m < fst x) fs) i = (if m < i then map_of fs i else None)"
  by (induction fs) auto

text \<open>The chunks of a directory, by segment.\<close>

lemma dir_log_chunk:
  assumes "x \<in> set (dir_log sl fs)"
  obtains i f where "map_of fs i = Some f" and "x \<in> set (sl i f)"
proof -
  obtain i where "x \<in> set (case map_of fs i of None \<Rightarrow> [] | Some f \<Rightarrow> sl i f)" using assms by (auto simp: dir_log_def)
  then show ?thesis using that by (cases "map_of fs i") auto
qed

text \<open>Taking over a merge directory, with no fault of the operating system.\<close>

abbreviation no_fault :: faults where "no_fault \<equiv> \<lambda>c. None"

definition nonempty_file :: "('w, 'f) disk_ops \<Rightarrow> 'f option \<Rightarrow> 'f option" where
  "nonempty_file S x = (case x of None \<Rightarrow> None | Some f \<Rightarrow> if f_Bytes S f = [] then None else Some f)"

lemma copyFile_none:
  "copyFile S no_fault sfx i force k = (Ok (),
     case merge_dir k of
       None \<Rightarrow> k
     | Some md \<Rightarrow> (case (if force then map_of (md sfx) i else nonempty_file S (map_of (md sfx) i)) of
                     None \<Rightarrow> k | Some f \<Rightarrow> rename_file sfx i f md k))"
  by (auto simp: copyFile_def nonempty_file_def split: option.split)

lemma map_of_update: "map_of (AList.update i f fs) j = (if j = i then Some f else map_of fs j)"
  by (simp add: update_conv)

lemma map_of_delete: "map_of (AList.delete i fs) j = (if j = i then None else map_of fs j)"
  by (simp add: delete_conv)

lemma replace_segment_none:
  assumes "merge_dir k = Some md"
  shows "\<exists>k' md'. replace_segment S no_fault i k = (Ok (), k') \<and> merge_dir k' = Some md'
     \<and> (\<forall>sfx. sfx \<noteq> dataFileNameSuffix \<longrightarrow> md' sfx = md sfx \<and> data_dir k' sfx = data_dir k sfx)
     \<and> (\<forall>j. j \<noteq> i \<longrightarrow> map_of (md' dataFileNameSuffix) j = map_of (md dataFileNameSuffix) j)
     \<and> (\<forall>j. map_of (data_dir k' dataFileNameSuffix) j
           = (if j = i then nonempty_file S (map_of (md dataFileNameSuffix) j) else map_of (data_dir k dataFileNameSuffix) j))
     \<and> (distinct (map fst (data_dir k dataFileNameSuffix)) \<longrightarrow> distinct (map fst (data_dir k' dataFileNameSuffix)))"
proof -
  let ?k = "set_files dataFileNameSuffix (AList.delete i (data_dir k dataFileNameSuffix)) k"
  have "i \<notin> fst ` set (data_dir k dataFileNameSuffix) \<Longrightarrow> ?k = k"
    by (simp add: set_files_def delete_id)
  then have r: "replace_segment S no_fault i k = copyFile S no_fault dataFileNameSuffix i False ?k"
    by (simp add: replace_segment_def)
  have m: "merge_dir ?k = Some md" using assms by (simp add: set_files_def)
  note d = distinct_delete[of "data_dir k dataFileNameSuffix" i]
  show ?thesis
  proof (cases "nonempty_file S (map_of (md dataFileNameSuffix) i)")
    case None
    then show ?thesis
      using m d by (auto simp: r copyFile_none map_of_delete set_files_def)
  next
    case (Some f)
    let ?k' = "rename_file dataFileNameSuffix i f md ?k"
    have "replace_segment S no_fault i k = (Ok (), ?k')" using m Some by (simp add: r copyFile_none)
    moreover have "merge_dir ?k' = Some (md(dataFileNameSuffix := AList.delete i (md dataFileNameSuffix)))"
      by (simp add: rename_file_def)
    ultimately show ?thesis
      using Some d by (intro exI conjI) (auto simp: rename_file_def set_files_def map_of_delete map_of_update
        intro: distinct_update)
  qed
qed

lemma replace_segments_none:
  assumes "merge_dir k = Some md" and "distinct is"
  shows "\<exists>k' md'. replace_segments S no_fault is k = (Ok (), k') \<and> merge_dir k' = Some md'
     \<and> (\<forall>sfx. sfx \<noteq> dataFileNameSuffix \<longrightarrow> md' sfx = md sfx \<and> data_dir k' sfx = data_dir k sfx)
     \<and> (\<forall>j. map_of (data_dir k' dataFileNameSuffix) j
           = (if j \<in> set is then nonempty_file S (map_of (md dataFileNameSuffix) j) else map_of (data_dir k dataFileNameSuffix) j))
     \<and> (distinct (map fst (data_dir k dataFileNameSuffix)) \<longrightarrow> distinct (map fst (data_dir k' dataFileNameSuffix)))"
  using assms
proof (induction "is" arbitrary: k md)
  case Nil
  then show ?case by simp
next
  case (Cons i "is")
  obtain k1 md1 where a: "replace_segment S no_fault i k = (Ok (), k1)" "merge_dir k1 = Some md1"
    "\<forall>sfx. sfx \<noteq> dataFileNameSuffix \<longrightarrow> md1 sfx = md sfx \<and> data_dir k1 sfx = data_dir k sfx"
    "\<forall>j. j \<noteq> i \<longrightarrow> map_of (md1 dataFileNameSuffix) j = map_of (md dataFileNameSuffix) j"
    "\<forall>j. map_of (data_dir k1 dataFileNameSuffix) j
        = (if j = i then nonempty_file S (map_of (md dataFileNameSuffix) j) else map_of (data_dir k dataFileNameSuffix) j)"
    "distinct (map fst (data_dir k dataFileNameSuffix)) \<longrightarrow> distinct (map fst (data_dir k1 dataFileNameSuffix))"
    using replace_segment_none[OF Cons.prems(1), of S i] by blast
  obtain k' md' where b: "replace_segments S no_fault is k1 = (Ok (), k')" "merge_dir k' = Some md'"
    "\<forall>sfx. sfx \<noteq> dataFileNameSuffix \<longrightarrow> md' sfx = md1 sfx \<and> data_dir k' sfx = data_dir k1 sfx"
    "\<forall>j. map_of (data_dir k' dataFileNameSuffix) j
        = (if j \<in> set is then nonempty_file S (map_of (md1 dataFileNameSuffix) j) else map_of (data_dir k1 dataFileNameSuffix) j)"
    "distinct (map fst (data_dir k1 dataFileNameSuffix)) \<longrightarrow> distinct (map fst (data_dir k' dataFileNameSuffix))"
    using Cons.IH[OF a(2)] Cons.prems(2) by auto
  have "replace_segments S no_fault (i # is) k = (Ok (), k')" using a(1) b(1) by simp
  moreover have "map_of (data_dir k' dataFileNameSuffix) j
      = (if j \<in> set (i # is) then nonempty_file S (map_of (md dataFileNameSuffix) j) else map_of (data_dir k dataFileNameSuffix) j)" for j
    using a(4,5) b(4) Cons.prems(2) by auto
  ultimately show ?case using a(3,6) b(2,3,5) by (intro exI[of _ k'] exI[of _ md']) auto
qed

lemma set_files_dirs:
  "data_dir (set_files sfx fs k) = (data_dir k)(sfx := fs)" "merge_dir (set_files sfx fs k) = merge_dir k"
  by (simp_all add: set_files_def)

lemma segment_ids:
  "set (map of_nat [1..<unat m + 1]) = {i. 0 < i \<and> i \<le> (m :: uint32)}" "distinct (map of_nat [1..<unat m + 1] :: uint32 list)"
proof -
  have lt: "unat m < 2 ^ 32" by (rule order_less_le_trans[OF unsigned_less]) simp
  have u: "unat (of_nat n :: uint32) = n" if "n < unat m + 1" for n
    using that lt by (intro unat_of_nat_small) simp
  show "set (map of_nat [1..<unat m + 1]) = {i. 0 < i \<and> i \<le> m}"
  proof (intro set_eqI iffI)
    fix i :: uint32
    assume "i \<in> set (map of_nat [1..<unat m + 1])"
    then obtain n where n: "i = of_nat n" "1 \<le> n" "n < unat m + 1" by auto
    then show "i \<in> {i. 0 < i \<and> i \<le> m}" using u[OF n(3)] by (simp add: word_less_nat_alt word_le_nat_alt)
  next
    fix i :: uint32
    assume "i \<in> {i. 0 < i \<and> i \<le> m}"
    then have "unat i \<in> set [1..<unat m + 1]" by (auto simp: word_less_nat_alt word_le_nat_alt)
    then have "of_nat (unat i) \<in> set (map of_nat [1..<unat m + 1] :: uint32 list)" unfolding set_map by (rule imageI)
    then show "i \<in> set (map of_nat [1..<unat m + 1])" by simp
  qed
  have "inj_on (of_nat :: nat \<Rightarrow> uint32) (set [1..<unat m + 1])"
    by (rule inj_on_inverseI[where g = unat]) (auto intro: u)
  then show "distinct (map of_nat [1..<unat m + 1] :: uint32 list)" by (simp add: distinct_map)
qed

lemma loadMergeFiles_none:
  assumes md: "merge_dir k = Some md" and fin: "getMergeFinSegmentId S no_fault md = Ok m"
  shows "\<exists>k'. loadMergeFiles S no_fault k = (Ok (), k') \<and> merge_dir k' = None
     \<and> (\<forall>sfx. sfx \<noteq> dataFileNameSuffix \<longrightarrow>
          data_dir k' sfx = (case map_of (md sfx) 1 of None \<Rightarrow> data_dir k sfx | Some f \<Rightarrow> AList.update 1 f (data_dir k sfx)))
     \<and> (\<forall>j. map_of (data_dir k' dataFileNameSuffix) j
           = (if 0 < j \<and> j \<le> m then nonempty_file S (map_of (md dataFileNameSuffix) j) else map_of (data_dir k dataFileNameSuffix) j))
     \<and> (distinct (map fst (data_dir k dataFileNameSuffix)) \<longrightarrow> distinct (map fst (data_dir k' dataFileNameSuffix)))"
proof -
  define ids :: "uint32 list" where "ids = map of_nat [1..<unat m + 1]"
  have ids: "set ids = {i. 0 < i \<and> i \<le> m}" "distinct ids" using segment_ids[of m] by (simp_all only: ids_def)
  obtain k1 md1 where a: "replace_segments S no_fault ids k = (Ok (), k1)" "merge_dir k1 = Some md1"
    "\<forall>sfx. sfx \<noteq> dataFileNameSuffix \<longrightarrow> md1 sfx = md sfx \<and> data_dir k1 sfx = data_dir k sfx"
    "\<forall>j. map_of (data_dir k1 dataFileNameSuffix) j
        = (if 0 < j \<and> j \<le> m then nonempty_file S (map_of (md dataFileNameSuffix) j) else map_of (data_dir k dataFileNameSuffix) j)"
    "distinct (map fst (data_dir k dataFileNameSuffix)) \<longrightarrow> distinct (map fst (data_dir k1 dataFileNameSuffix))"
    using replace_segments_none[OF md ids(2), of S] unfolding ids(1) by auto
  define k2 where "k2 = (case map_of (md1 mergeFinNameSuffix) 1 of None \<Rightarrow> k1 | Some f \<Rightarrow> rename_file mergeFinNameSuffix 1 f md1 k1)"
  have c: "copyFile S no_fault mergeFinNameSuffix 1 True k1 = (Ok (), k2)"
    using a(2) by (simp add: copyFile_none k2_def)
  obtain md2 where d: "merge_dir k2 = Some md2" "md2 hintFileNameSuffix = md1 hintFileNameSuffix"
    "data_dir k2 hintFileNameSuffix = data_dir k1 hintFileNameSuffix" "data_dir k2 dataFileNameSuffix = data_dir k1 dataFileNameSuffix"
    "data_dir k2 mergeFinNameSuffix = (case map_of (md1 mergeFinNameSuffix) 1 of None \<Rightarrow> data_dir k1 mergeFinNameSuffix
        | Some f \<Rightarrow> AList.update 1 f (data_dir k1 mergeFinNameSuffix))"
    using a(2) by (cases "map_of (md1 mergeFinNameSuffix) 1") (auto simp: k2_def rename_file_def)
  define k3 where "k3 = (case map_of (md2 hintFileNameSuffix) 1 of None \<Rightarrow> k2 | Some f \<Rightarrow> rename_file hintFileNameSuffix 1 f md2 k2)"
  have e: "copyFile S no_fault hintFileNameSuffix 1 True k2 = (Ok (), k3)"
    using d(1) by (simp add: copyFile_none k3_def)
  have l: "loadMergeFiles S no_fault k = (Ok (), k3\<lparr>merge_dir := None\<rparr>)"
    by (simp only: loadMergeFiles_def md fin ids_def[symmetric] a(1) c e option.case result.case prod.case
        remove_merge_dir_def if_True simp_thms)
  have f: "data_dir k3 mergeFinNameSuffix = data_dir k2 mergeFinNameSuffix" "data_dir k3 dataFileNameSuffix = data_dir k2 dataFileNameSuffix"
    "data_dir k3 hintFileNameSuffix = (case map_of (md2 hintFileNameSuffix) 1 of None \<Rightarrow> data_dir k2 hintFileNameSuffix
        | Some f \<Rightarrow> AList.update 1 f (data_dir k2 hintFileNameSuffix))"
    by (auto simp: k3_def rename_file_def split: option.split)
  have "data_dir k3 sfx = (case map_of (md sfx) 1 of None \<Rightarrow> data_dir k sfx | Some f \<Rightarrow> AList.update 1 f (data_dir k sfx))"
    if "sfx \<noteq> dataFileNameSuffix" for sfx
    using that a(3) d f by (cases sfx) (auto split: option.split)
  then show ?thesis
    unfolding l using a(4,5) d(4) f(2) by (intro exI[of _ "k3\<lparr>merge_dir := None\<rparr>"]) simp
qed

end
