(* ===== verification/Segments.thy ===== *)
theory Segments
  imports Merge
begin

text \<open>
  A log with segments as lists of chunks: it meets the laws of \<open>wal_lib\<close> and \<open>disk_lib\<close>,
  and serves the examples of the merge.
\<close>

section \<open>A reference instance with segments\<close>

record seg_wal =
  sw_segs :: "(uint32 \<times> bytes list) list"
  sw_pending :: "bytes list"

definition sw_pos :: "uint32 \<Rightarrow> nat \<Rightarrow> chunk_position" where
  "sw_pos i n = \<lparr>SegmentId = i, BlockNumber = 0, ChunkOffset = of_nat n, ChunkSize = 0\<rparr>"

definition sw_seg_log :: "uint32 \<Rightarrow> bytes list \<Rightarrow> (chunk_position \<times> bytes) list" where
  "sw_seg_log i cs = zip (map (sw_pos i) [0..<length cs]) cs"

definition sw_log :: "seg_wal \<Rightarrow> (chunk_position \<times> bytes) list" where
  "sw_log w = concat (map (\<lambda>(i, cs). sw_seg_log i cs) (sw_segs w))"

text \<open>Chunks are added to the last segment, if its offsets suffice.\<close>

definition sw_add :: "seg_wal \<Rightarrow> bytes list \<Rightarrow> (chunk_position list \<times> seg_wal) option" where
  "sw_add w cs =
     (case rev (sw_segs w) of
        [] \<Rightarrow> None
      | (i, old) # rest \<Rightarrow>
          if int (length old + length cs) < lw_limit
          then Some (map (sw_pos i) [length old..<length old + length cs],
                     w\<lparr>sw_segs := rev ((i, old @ cs) # rest)\<rparr>)
          else None)"

definition sw_WriteAll :: "seg_wal \<Rightarrow> (go_error + chunk_position list) \<times> seg_wal" where
  "sw_WriteAll w =
     (if sw_pending w = [] then (Inr [], w)
      else case sw_add w (sw_pending w) of
             None \<Rightarrow> (Inl (ErrExternal 0), w)
           | Some (ps, w') \<Rightarrow> (Inr ps, w'\<lparr>sw_pending := []\<rparr>))"

definition seg_wal_ops :: "seg_wal wal_ops" where
  "seg_wal_ops = \<lparr>
     w_Read = (\<lambda>w p. case map_of (sw_log w) p of None \<Rightarrow> Inl (ErrExternal 1) | Some c \<Rightarrow> Inr c),
     w_PendingWrites = (\<lambda>w c. w\<lparr>sw_pending := sw_pending w @ [c]\<rparr>),
     w_WriteAll = sw_WriteAll,
     w_ClearPendingWrites = (\<lambda>w. w\<lparr>sw_pending := []\<rparr>),
     w_Sync = (\<lambda>w. (None, w)),
     w_Chunks = (\<lambda>w. (sw_log w, None))\<rparr>"

definition sw_active :: "seg_wal \<Rightarrow> uint32" where
  "sw_active w = (case rev (sw_segs w) of [] \<Rightarrow> 0 | (i, cs) # rest \<Rightarrow> i)"

text \<open>Opening sorts the files, and starts with an empty segment if there is none.\<close>

definition sw_Open :: "(uint32 \<times> bytes list) list \<Rightarrow> seg_wal" where
  "sw_Open fs = \<lparr>sw_segs = (if fs = [] then [(1, [])] else sort_key fst fs), sw_pending = []\<rparr>"

definition seg_disk_ops :: "(seg_wal, bytes list) disk_ops" where
  "seg_disk_ops = \<lparr>
     w_IsEmpty = (\<lambda>w. length (sw_segs w) = 1 \<and> snd (hd (sw_segs w)) = []),
     w_ActiveSegmentID = sw_active,
     w_OpenNewActiveSegment =
       (\<lambda>w. if sw_active w < sw_active w + 1 then (None, w\<lparr>sw_segs := sw_segs w @ [(sw_active w + 1, [])]\<rparr>)
            else (Some (ErrExternal 2), w)),
     w_ChunksWithMax = (\<lambda>w m. (filter (\<lambda>x. SegmentId (fst x) \<le> m) (sw_log w), None)),
     w_Write = (\<lambda>w c. case sw_add w [c] of None \<Rightarrow> (Inl (ErrExternal 0), w) | Some (ps, w') \<Rightarrow> (Inr (hd ps), w')),
     w_Open = (\<lambda>sfx fs. Inr (sw_Open fs)),
     w_Files = sw_segs,
     f_Bytes = (\<lambda>cs. concat (map (\<lambda>c. replicate 7 0 @ c) cs))\<rparr>"

definition seg_wal_inv :: "seg_wal \<Rightarrow> bool" where
  "seg_wal_inv w \<longleftrightarrow> sw_segs w \<noteq> [] \<and> sorted_wrt (<) (map fst (sw_segs w))
     \<and> (\<forall>(i, cs) \<in> set (sw_segs w). 0 < i \<and> int (length cs) < lw_limit)"

definition seg_env :: "(item list, seg_wal) env" where
  "seg_env = \<lparr>Bt = list_btree, Wl = seg_wal_ops, MemHash = (\<lambda>k. of_nat (length k)),
              IdBytes = put_uvarint, ParseBytes = (\<lambda>b. Some (fst (uvarint b)))\<rparr>"


section \<open>The laws hold\<close>

lemma sw_pos_inj: "int m < lw_limit \<Longrightarrow> int n < lw_limit \<Longrightarrow> positionEquals (sw_pos i m) (sw_pos j n) \<Longrightarrow> i = j \<and> m = n"
  by (simp add: sw_pos_def positionEquals_def lw_limit_def of_nat_inverse word_of_nat_eq_iff take_bit_nat_eq_self)

lemma seg_log_set: "(p, c) \<in> set (sw_seg_log i cs) \<longleftrightarrow> (\<exists>n < length cs. p = sw_pos i n \<and> c = cs ! n)"
proof
  assume "(p, c) \<in> set (sw_seg_log i cs)"
  then show "\<exists>n < length cs. p = sw_pos i n \<and> c = cs ! n" by (auto simp: sw_seg_log_def set_zip)
next
  assume "\<exists>n < length cs. p = sw_pos i n \<and> c = cs ! n"
  then obtain n where n: "n < length cs" "p = sw_pos i n" "c = cs ! n" by blast
  then show "(p, c) \<in> set (sw_seg_log i cs)"
    unfolding sw_seg_log_def set_zip by (intro CollectI exI[of _ n]) simp
qed

lemma seg_log_segment: "(p, c) \<in> set (sw_seg_log i cs) \<Longrightarrow> SegmentId p = i"
  by (auto simp: seg_log_set sw_pos_def)

lemma sw_log_set: "(p, c) \<in> set (sw_log w) \<longleftrightarrow> (\<exists>i cs. (i, cs) \<in> set (sw_segs w) \<and> (p, c) \<in> set (sw_seg_log i cs))"
  by (auto simp: sw_log_def)

lemma seg_inv_distinct: "seg_wal_inv w \<Longrightarrow> distinct (map fst (sw_segs w))"
  by (auto simp: seg_wal_inv_def strict_sorted_iff)

lemma sw_places:
  assumes "seg_wal_inv w" and "(p, c) \<in> set (sw_log w)" and "(p', c') \<in> set (sw_log w)" and "positionEquals p p'"
  shows "p = p' \<and> c = c'"
proof -
  obtain i cs n where a: "(i, cs) \<in> set (sw_segs w)" "n < length cs" "p = sw_pos i n" "c = cs ! n"
    using assms(2) by (auto simp: sw_log_set seg_log_set)
  obtain j ds m where b: "(j, ds) \<in> set (sw_segs w)" "m < length ds" "p' = sw_pos j m" "c' = ds ! m"
    using assms(3) by (auto simp: sw_log_set seg_log_set)
  have "int (length cs) < lw_limit" "int (length ds) < lw_limit" using assms(1) a(1) b(1) by (auto simp: seg_wal_inv_def)
  then have "int n < lw_limit" "int m < lw_limit" using a(2) b(2) by linarith+
  then have "i = j \<and> n = m" using sw_pos_inj[of n m i j] a(3) b(3) assms(4) by blast
  moreover from this have "cs = ds" using seg_inv_distinct[OF assms(1)] a(1) b(1) by (metis map_of_eq_Some_iff option.inject)
  ultimately show ?thesis using a b by simp
qed

lemma sw_log_distinct: "seg_wal_inv w \<Longrightarrow> distinct (map fst (sw_log w))"
proof -
  assume w: "seg_wal_inv w"
  have one: "distinct (map fst (sw_seg_log i cs))" if "int (length cs) < lw_limit" for i cs
    using that sw_pos_inj by (auto simp: sw_seg_log_def distinct_map inj_on_def positionEquals_def sw_pos_def)
  have all: "\<forall>(i, cs) \<in> set segs. int (length cs) < lw_limit \<Longrightarrow> distinct (map fst segs)
      \<Longrightarrow> distinct (map fst (concat (map (\<lambda>(i, cs). sw_seg_log i cs) segs)))" for segs
  proof (induction segs)
    case (Cons a segs)
    obtain i cs where a: "a = (i, cs)" by (cases a)
    have "fst ` set (sw_seg_log i cs) \<inter> fst ` set (concat (map (\<lambda>(i, cs). sw_seg_log i cs) segs)) = {}"
    proof (rule ccontr)
      assume "\<not> ?thesis"
      then obtain p c c' j ds where "(p, c) \<in> set (sw_seg_log i cs)" "(j, ds) \<in> set segs" "(p, c') \<in> set (sw_seg_log j ds)"
        by fastforce
      then have "i = j" "(j, ds) \<in> set segs" using seg_log_segment by blast+
      then show False using Cons.prems(2) a by force
    qed
    then show ?case using Cons one a by simp
  qed simp
  have "\<forall>(i, cs) \<in> set (sw_segs w). int (length cs) < lw_limit" using w by (auto simp: seg_wal_inv_def)
  from all[OF this seg_inv_distinct[OF w]] show ?thesis by (simp add: sw_log_def)
qed

lemma sw_add_spec:
  assumes "seg_wal_inv w" and "sw_add w cs = Some (ps, w')"
  shows "seg_wal_inv w'" and "length ps = length cs" and "sw_log w' = sw_log w @ zip ps cs" and "sw_pending w' = sw_pending w"
    and "map fst (sw_segs w') = map fst (sw_segs w)"
proof -
  obtain i old rest where r: "rev (sw_segs w) = (i, old) # rest"
    using assms(1) by (cases "rev (sw_segs w)") (auto simp: seg_wal_inv_def)
  then have s: "sw_segs w = rev rest @ [(i, old)]" by (metis rev.simps(2) rev_rev_ident)
  have q: "int (length old + length cs) < lw_limit" "ps = map (sw_pos i) [length old..<length old + length cs]"
    "w' = w\<lparr>sw_segs := rev rest @ [(i, old @ cs)]\<rparr>"
    using assms(2) r by (auto simp: sw_add_def split: if_splits)
  show "length ps = length cs" "sw_pending w' = sw_pending w" "map fst (sw_segs w') = map fst (sw_segs w)"
    using q s by simp_all
  show "seg_wal_inv w'" using assms(1) q s by (auto simp: seg_wal_inv_def)
  have u: "[0..<length old + length cs] = [0..<length old] @ [length old..<length old + length cs]"
    by (rule upt_add_eq_append) simp
  have "sw_seg_log i (old @ cs) = sw_seg_log i old @ zip ps cs"
    unfolding sw_seg_log_def length_append u map_append q(2) by (subst zip_append) simp_all
  then show "sw_log w' = sw_log w @ zip ps cs" by (simp add: sw_log_def q(3) s)
qed

lemma sw_WriteAll_cases:
  assumes "sw_WriteAll w = (x, w')"
  obtains "sw_pending w = []" "x = Inr []" "w' = w"
    | "sw_pending w \<noteq> []" "x = Inl (ErrExternal 0)" "w' = w"
    | ps w1 where "sw_add w (sw_pending w) = Some (ps, w1)" "x = Inr ps" "w' = w1\<lparr>sw_pending := []\<rparr>"
  using assms by (auto simp: sw_WriteAll_def split: if_splits option.splits)

lemma seg_WriteAll: "w_WriteAll seg_wal_ops = sw_WriteAll"
  by (simp add: seg_wal_ops_def)

interpretation seg_wl: wal_lib seg_wal_ops seg_wal_inv sw_pending
proof
  fix w p c
  assume "seg_wal_inv w" and "(p, c) \<in> set (wal_log seg_wal_ops w)"
  then show "w_Read seg_wal_ops w p = Inr c"
    using sw_log_distinct by (simp add: seg_wal_ops_def wal_log_def)
next
  fix w x w'
  assume w: "seg_wal_inv w" and "w_WriteAll seg_wal_ops w = (x, w')"
  then have "sw_WriteAll w = (x, w')" by (simp add: seg_WriteAll)
  then show "seg_wal_inv w'"
  proof (cases rule: sw_WriteAll_cases)
    case 3
    then show ?thesis using sw_add_spec(1)[OF w 3(1)] by (simp add: seg_wal_inv_def)
  qed (use w in simp_all)
next
  fix w ps w'
  assume w: "seg_wal_inv w" and "w_WriteAll seg_wal_ops w = (Inr ps, w')"
  then have "sw_WriteAll w = (Inr ps, w')" by (simp add: seg_WriteAll)
  then show "length ps = length (sw_pending w) \<and> sw_pending w' = []
      \<and> wal_log seg_wal_ops w' = wal_log seg_wal_ops w @ zip ps (sw_pending w)"
  proof (cases rule: sw_WriteAll_cases)
    case 3
    then show ?thesis using sw_add_spec(2,3)[OF w 3(1)] by (simp add: seg_wal_ops_def wal_log_def sw_log_def)
  qed simp_all
next
  fix w e w'
  assume "seg_wal_inv w" and "w_WriteAll seg_wal_ops w = (Inl e, w')"
  then have "sw_WriteAll w = (Inl e, w')" by (simp add: seg_WriteAll)
  then show "\<exists>ps. length ps < length (sw_pending w)
      \<and> wal_log seg_wal_ops w' = wal_log seg_wal_ops w @ zip ps (sw_pending w)"
    by (cases rule: sw_WriteAll_cases) (auto intro!: exI[of _ "[]"])
next
  fix w e
  assume "seg_wal_inv w" and "fst (w_WriteAll seg_wal_ops w) = Inl e"
  then have "sw_WriteAll w = (Inl e, snd (sw_WriteAll w))" by (simp add: seg_WriteAll prod_eq_iff)
  then show "\<exists>n. e = ErrExternal n" by (cases rule: sw_WriteAll_cases) auto
qed (simp_all add: seg_wal_ops_def wal_log_def sw_log_def seg_wal_inv_def)

lemma dir_log_sorted:
  assumes "sorted_wrt (<) (map fst fs)"
  shows "dir_log sl fs = concat (map (\<lambda>(i, f). sl i f) fs)"
proof -
  have s: "sorted_list_of_set (fst ` set fs) = map fst fs"
    using assms by (metis list.set_map sorted_list_of_set.idem_if_sorted_distinct strict_sorted_iff)
  have "distinct (map fst fs)" using assms by (simp add: strict_sorted_iff)
  then have "map (\<lambda>i. case map_of fs i of None \<Rightarrow> [] | Some f \<Rightarrow> sl i f) (map fst fs) = map (\<lambda>(i, f). sl i f) fs"
    by (auto simp: split_beta intro!: map_cong)
  then show ?thesis by (simp only: dir_log_def s)
qed


definition seg_ok :: "uint32 \<Rightarrow> bytes list \<Rightarrow> bool" where
  "seg_ok i cs \<longleftrightarrow> int (length cs) < lw_limit"

lemma sw_log_dir: "seg_wal_inv w \<Longrightarrow> sw_log w = dir_log sw_seg_log (sw_segs w)"
  by (simp add: dir_log_sorted seg_wal_inv_def sw_log_def)

lemma dir_log_same_set:
  assumes "set fs = set gs" and "distinct (map fst fs)" and "distinct (map fst gs)"
  shows "dir_log sl fs = dir_log sl gs"
proof -
  have "map_of fs = map_of gs" using map_of_inject_set[OF assms(2,3)] assms(1) by simp
  then show ?thesis using assms(1) by (simp add: dir_log_def)
qed

lemma sw_Open_spec:
  assumes "\<forall>(i, f) \<in> set fs. seg_ok i f \<and> 0 < i" and "distinct (map fst fs)"
  shows "seg_wal_inv (sw_Open fs)" and "sw_log (sw_Open fs) = dir_log sw_seg_log fs"
proof -
  show i: "seg_wal_inv (sw_Open fs)"
  proof (cases "fs = []")
    case True
    then show ?thesis by (simp add: sw_Open_def seg_wal_inv_def lw_limit_def)
  next
    case False
    have "distinct (map fst (sort_key fst fs))"
      using assms(2) by (metis distinct_map distinct_sort set_sort)
    moreover have "sorted (map fst (sort_key fst fs))" by simp
    moreover have "sort_key fst fs \<noteq> []" using False by (metis length_0_conv length_sort)
    ultimately show ?thesis
      using False assms(1) by (auto simp: sw_Open_def seg_wal_inv_def strict_sorted_iff seg_ok_def)
  qed
  show "sw_log (sw_Open fs) = dir_log sw_seg_log fs"
  proof (cases "fs = []")
    case True
    then show ?thesis by (simp add: sw_Open_def sw_log_def sw_seg_log_def dir_log_def)
  next
    case False
    have "distinct (map fst (sort_key fst fs))"
      using assms(2) by (metis distinct_map distinct_sort set_sort)
    from dir_log_same_set[OF _ this assms(2), of sw_seg_log] show ?thesis
      using False by (simp add: sw_log_dir[OF i]) (simp add: sw_Open_def)
  qed
qed

lemma sw_active_last: "seg_wal_inv w \<Longrightarrow> sw_active w = fst (last (sw_segs w))"
  by (cases "sw_segs w" rule: rev_cases) (auto simp: sw_active_def seg_wal_inv_def)

lemma sw_active_greatest:
  assumes "seg_wal_inv w" and "(i, f) \<in> set (sw_segs w)"
  shows "i \<le> sw_active w"
proof -
  have "sw_segs w = butlast (sw_segs w) @ [last (sw_segs w)]" using assms(1) by (simp add: seg_wal_inv_def)
  then obtain xs x where s: "sw_segs w = xs @ [x]" by blast
  have "sorted_wrt (<) (map fst xs @ [fst x])" using assms(1) s by (simp add: seg_wal_inv_def)
  then have "\<forall>y \<in> set xs. fst y < fst x" by (simp add: sorted_wrt_append)
  then show ?thesis using assms(2) s by (auto simp: sw_active_last[OF assms(1)] intro: less_imp_le)
qed

lemma sw_new_segment:
  assumes w: "seg_wal_inv w" and lt: "sw_active w < sw_active w + 1"
  shows "seg_wal_inv (w\<lparr>sw_segs := sw_segs w @ [(sw_active w + 1, [])]\<rparr>)"
    and "sw_active (w\<lparr>sw_segs := sw_segs w @ [(sw_active w + 1, [])]\<rparr>) = sw_active w + 1"
proof -
  have "\<forall>x \<in> set (sw_segs w). fst x < sw_active w + 1"
    using sw_active_greatest[OF w] le_less_trans[OF _ lt] by auto
  moreover have "0 < sw_active w + 1" using lt by (rule le_less_trans[rotated]) simp
  ultimately show "seg_wal_inv (w\<lparr>sw_segs := sw_segs w @ [(sw_active w + 1, [])]\<rparr>)"
    using w by (auto simp: seg_wal_inv_def sorted_wrt_append lw_limit_def)
  show "sw_active (w\<lparr>sw_segs := sw_segs w @ [(sw_active w + 1, [])]\<rparr>) = sw_active w + 1"
    by (simp add: sw_active_def)
qed

lemma seg_disk_simps:
  "w_IsEmpty seg_disk_ops w = (length (sw_segs w) = 1 \<and> snd (hd (sw_segs w)) = [])" "w_Files seg_disk_ops = sw_segs"
  "w_ActiveSegmentID seg_disk_ops = sw_active" "w_Open seg_disk_ops sfx fs = Inr (sw_Open fs)"
  "w_ChunksWithMax seg_disk_ops w m = (filter (\<lambda>x. SegmentId (fst x) \<le> m) (sw_log w), None)"
  "f_Bytes seg_disk_ops cs = concat (map (\<lambda>c. replicate 7 0 @ c) cs)"
  by (simp_all add: seg_disk_ops_def)

lemma sw_add_ids:
  assumes "sw_add w cs = Some (ps, w')"
  shows "map fst (sw_segs w') = map fst (sw_segs w)"
proof -
  obtain i old rest where r: "rev (sw_segs w) = (i, old) # rest" "w' = w\<lparr>sw_segs := rev ((i, old @ cs) # rest)\<rparr>"
    using assms by (auto simp: sw_add_def split: list.splits if_splits)
  then have "sw_segs w = rev rest @ [(i, old)]" by (metis rev.simps(2) rev_rev_ident)
  then show ?thesis using r(2) by simp
qed

lemma sw_add_one: "sw_add w [c] = Some (ps, w') \<Longrightarrow> zip ps [c] = [(hd ps, c)]"
  by (auto simp: sw_add_def split: list.splits if_splits)

lemma seg_Write:
  assumes "seg_wal_inv w" and "w_Write seg_disk_ops w c = (x, w')"
  shows "seg_wal_inv w' \<and> sw_pending w' = sw_pending w" and "x = Inr p \<Longrightarrow> sw_log w' = sw_log w @ [(p, c)]"
proof -
  have "w' = w \<and> (\<exists>e. x = Inl e) \<or> (\<exists>ps. sw_add w [c] = Some (ps, w') \<and> x = Inr (hd ps))"
    using assms(2) by (auto simp: seg_disk_ops_def split: option.splits)
  then show "seg_wal_inv w' \<and> sw_pending w' = sw_pending w" and "x = Inr p \<Longrightarrow> sw_log w' = sw_log w @ [(p, c)]"
    using assms(1) sw_add_spec(1-4)[OF assms(1), of "[c]"] by (auto simp: length_Suc_conv dest: sw_add_one)
qed

lemma wal_log_seg: "wal_log seg_wal_ops w = sw_log w"
  by (simp add: wal_log_def seg_wal_ops_def)

interpretation seg_dk: disk_lib seg_wal_ops seg_wal_inv sw_pending seg_disk_ops "\<lambda>w. fst ` set (sw_segs w) = {1}" seg_ok sw_seg_log
proof
  fix w i f
  assume "seg_wal_inv w" and "(i, f) \<in> set (w_Files seg_disk_ops w)"
  then show "seg_ok i f \<and> 0 < i \<and> i \<le> w_ActiveSegmentID seg_disk_ops w"
    using sw_active_greatest[of w i f] by (auto simp: seg_disk_simps seg_wal_inv_def seg_ok_def)
next
  fix w
  assume w: "seg_wal_inv w"
  then have "last (sw_segs w) \<in> set (sw_segs w)" by (simp add: seg_wal_inv_def)
  then show "w_ActiveSegmentID seg_disk_ops w \<in> fst ` set (w_Files seg_disk_ops w)"
    using sw_active_last[OF w] by (simp add: seg_disk_simps)
next
  fix i p c and f :: "bytes list"
  assume "(p, c) \<in> set (sw_seg_log i f)"
  then show "SegmentId p = i" by (rule seg_log_segment)
next
  fix w p c p' c'
  assume "seg_wal_inv w" "(p, c) \<in> set (wal_log seg_wal_ops w)" "(p', c') \<in> set (wal_log seg_wal_ops w)" "positionEquals p p'"
  then show "p = p' \<and> c = c'" unfolding wal_log_seg by (rule sw_places)
next
  fix f :: "bytes list" and i
  assume "f_Bytes seg_disk_ops f = []"
  then have "f = []" by (cases f) (simp_all add: seg_disk_simps)
  then show "sw_seg_log i f = []" by (simp add: sw_seg_log_def)
next
  fix w
  assume "w_IsEmpty seg_disk_ops w"
  then show "wal_log seg_wal_ops w = []"
    by (cases "sw_segs w") (auto simp: seg_disk_simps wal_log_seg sw_log_def sw_seg_log_def)
next
  fix w w'
  assume w: "seg_wal_inv w" and "w_OpenNewActiveSegment seg_disk_ops w = (None, w')"
  then have n: "sw_active w < sw_active w + 1" "w' = w\<lparr>sw_segs := sw_segs w @ [(sw_active w + 1, [])]\<rparr>"
    by (auto simp: seg_disk_ops_def split: if_splits)
  show "seg_wal_inv w' \<and> sw_pending w' = sw_pending w \<and> w_ActiveSegmentID seg_disk_ops w < w_ActiveSegmentID seg_disk_ops w'
      \<and> (\<exists>i f. sw_seg_log i f = [] \<and> w_ActiveSegmentID seg_disk_ops w < i \<and> w_Files seg_disk_ops w' = w_Files seg_disk_ops w @ [(i, f)])"
    using sw_new_segment[OF w n(1)] n
    by (auto simp: seg_disk_simps sw_seg_log_def intro!: exI[of _ "sw_active w + 1"] exI[of _ "[]"])
next
  fix w e w'
  assume "seg_wal_inv w" and "w_OpenNewActiveSegment seg_disk_ops w = (Some e, w')"
  then show "seg_wal_inv w' \<and> sw_pending w' = sw_pending w \<and> wal_log seg_wal_ops w' = wal_log seg_wal_ops w"
    by (auto simp: seg_disk_ops_def split: if_splits)
next
  fix w c x w'
  assume "seg_wal_inv w" and "w_Write seg_disk_ops w c = (x, w')"
  then show "seg_wal_inv w' \<and> sw_pending w' = sw_pending w" by (rule seg_Write(1))
next
  fix w c p w'
  assume "seg_wal_inv w" and "w_Write seg_disk_ops w c = (Inr p, w')"
  from seg_Write(2)[OF this refl] show "wal_log seg_wal_ops w' = wal_log seg_wal_ops w @ [(p, c)]"
    by (simp add: wal_log_seg)
next
  fix sfx fs w
  assume o: "w_Open seg_disk_ops sfx fs = Inr w" and fs: "\<forall>(i, f) \<in> set fs. seg_ok i f \<and> 0 < i" "distinct (map fst fs)"
  then show "seg_wal_inv w \<and> sw_pending w = [] \<and> wal_log seg_wal_ops w = dir_log sw_seg_log fs"
    using sw_Open_spec[OF fs] by (auto simp: seg_disk_simps wal_log_seg) (simp add: sw_Open_def)
next
  fix sfx w c p w'
  assume "w_Open seg_disk_ops sfx [] = Inr w" and w: "w_Write seg_disk_ops w c = (Inr p, w')"
  then have "w = \<lparr>sw_segs = [(1, [])], sw_pending = []\<rparr>" by (simp add: seg_disk_simps sw_Open_def)
  then have "w' = \<lparr>sw_segs = [(1, [c])], sw_pending = []\<rparr>"
    using w by (auto simp: seg_disk_ops_def sw_add_def split: if_splits)
  then show "\<exists>f. map_of (w_Files seg_disk_ops w') 1 = Some f \<and> 7 + length c \<le> length (f_Bytes seg_disk_ops f)
      \<and> take (length c) (drop 7 (f_Bytes seg_disk_ops f)) = c"
    by (simp add: seg_disk_simps)
next
  fix sfx fs w
  assume "w_Open seg_disk_ops sfx fs = Inr w" and f: "fst ` set fs \<subseteq> {1}"
  then have w: "sw_segs w = (if fs = [] then [(1, [])] else sort_key fst fs)" by (auto simp: seg_disk_simps sw_Open_def)
  have "fst ` set fs = {1}" if "fs \<noteq> []" using f that by (cases fs) auto
  then show "fst ` set (sw_segs w) = {1}" unfolding w by (simp del: sort_key_simps)
next
  fix w c x w'
  assume w: "fst ` set (sw_segs w) = {1}" and h: "w_Write seg_disk_ops w c = (x, w')"
  have "w' = w \<or> (\<exists>ps. sw_add w [c] = Some (ps, w'))"
    using h by (auto simp: seg_disk_ops_def split: option.splits)
  then have "map fst (sw_segs w') = map fst (sw_segs w)" using sw_add_ids by blast
  then show "fst ` set (sw_segs w') = {1}" using w by (metis list.set_map)
qed (auto simp: seg_disk_simps wal_log_seg sw_log_dir seg_inv_distinct)

interpretation seg: engine seg_env sorted_items seg_wal_inv sw_pending
proof -
  have "btree_lib (Bt seg_env) sorted_items" and "wal_lib (Wl seg_env) seg_wal_inv sw_pending"
    by (simp_all add: seg_env_def list_bt.btree_lib_axioms seg_wl.wal_lib_axioms)
  moreover have "engine_axioms seg_env"
    using ref.Parse_id ref.Id_length by unfold_locales (simp_all add: seg_env_def ref_env_def)
  ultimately show "engine seg_env sorted_items seg_wal_inv sw_pending"
    by (simp add: engine_def)
qed

end
