(* ===== verification/Merge_Correct.thy ===== *)
theory Merge_Correct
  imports Merge_Spec Segments
begin

text \<open>
  \<open>Merge(true)\<close> keeps what readers see. The loop writes the live records that the index
  points to, and a hint for each; the merge directory replaces the old segments; the index
  loaded from the hints has the same view.
\<close>

text \<open>Only the log, the index, the options and the watcher matter.\<close>

lemma same_store:
  assumes "dataFiles d' = dataFiles d" and "index d' = index d"
  shows "stored_rec E d' = stored_rec E d" and "db_view E t d' = db_view E t d"
    and "options d' = options d \<Longrightarrow> db_watcher d' = db_watcher d \<Longrightarrow>
           db_inv E bt_inv w_inv pend d' = db_inv E bt_inv w_inv pend d"
proof -
  show "stored_rec E d' = stored_rec E d" unfolding stored_rec_def assms ..
  then show "db_view E t d' = db_view E t d" by (simp add: db_view_def fun_eq_iff)
  show "options d' = options d \<Longrightarrow> db_watcher d' = db_watcher d \<Longrightarrow>
      db_inv E bt_inv w_inv pend d' = db_inv E bt_inv w_inv pend d"
    using assms by (simp add: db_inv_def)
qed

section \<open>The loop over the old segments\<close>

text \<open>What the loop writes for a chunk.\<close>

definition kept_record ::
    "('t, 'w) env \<Rightarrow> int64 \<Rightarrow> 't MemoryBTree \<Rightarrow> chunk_position \<times> bytes \<Rightarrow> log_record option" where
  "kept_record E now mt x =
     (case decodeLogRecord (snd x) of
        None \<Rightarrow> None
      | Some r \<Rightarrow>
          if Type r = LogRecordNormal \<and> (Expire r = 0 \<or> now <s Expire r)
          then (case mt_Get (Bt E) mt (Key r) of
                  None \<Rightarrow> None
                | Some p \<Rightarrow> if positionEquals p (fst x) then Some (r\<lparr>BatchId := mergeFinishedBatchID\<rparr>) else None)
          else None)"

definition hint_of :: "log_record \<Rightarrow> chunk_position \<Rightarrow> bytes" where
  "hint_of r p = the (encodeHintRecord (Key r) p)"

lemma hint_of: "encodeHintRecord (Key r) p = Some (hint_of r p)" "decodeHintRecord (hint_of r p) = Some (Key r, p)"
  by (simp_all add: hint_of_def encodeHintRecord_total decode_hint)

lemma hint_of_batch [simp]: "hint_of (r\<lparr>BatchId := i\<rparr>) p = hint_of r p"
  by (simp add: hint_of_def)

locale store = engine E bt_inv w_inv pend + disk_lib "Wl E" w_inv pend S one_seg seg_ok seg_log
  for E :: "('t, 'w) env" and bt_inv :: "'t \<Rightarrow> bool" and w_inv :: "'w \<Rightarrow> bool" and pend :: "'w \<Rightarrow> bytes list"
    and S :: "('w, 'f) disk_ops" and one_seg :: "'w \<Rightarrow> bool" and seg_ok :: "uint32 \<Rightarrow> 'f \<Rightarrow> bool"
    and seg_log :: "uint32 \<Rightarrow> 'f \<Rightarrow> (chunk_position \<times> bytes) list"
begin

text \<open>What the loop leaves of two logs, the merged data and the hints.\<close>

definition merged :: "log_record list \<Rightarrow> chunk_position list \<Rightarrow> 'w \<Rightarrow> 'w \<Rightarrow> 'w \<Rightarrow> 'w \<Rightarrow> bool" where
  "merged rs ps w h w' h' \<longleftrightarrow>
     length ps = length rs \<and> w_inv w' \<and> pend w' = pend w \<and> w_inv h' \<and> (one_seg h \<longrightarrow> one_seg h')
     \<and> wal_log (Wl E) w' = wal_log (Wl E) w @ zip ps (map chunk_of rs)
     \<and> map snd (wal_log (Wl E) h') = map snd (wal_log (Wl E) h) @ map2 hint_of rs ps"

lemma merged_Nil: "w_inv w \<Longrightarrow> w_inv h \<Longrightarrow> merged [] [] w h w h"
  by (simp add: merged_def)

lemma merged_Cons:
  assumes "w_inv w" "w_inv h" "w_Write S w (chunk_of r) = (Inr p, w1)" "w_Write S h (hint_of r p) = (Inr q, h1)"
    and "merged rs ps w1 h1 w' h'"
  shows "merged (r # rs) (p # ps) w h w' h'"
  using assms Write_inv[OF assms(1,3)] Write_ok[OF assms(1,3)] Write_ok[OF assms(2,4)] one_Write[OF _ assms(4)]
  by (simp add: merged_def)

lemma merge_loop_ok:
  assumes "merge_loop E S now idx cs w h = (Ok (), w', h')" and "w_inv w" and "w_inv h"
    and "\<And>x r. x \<in> set cs \<Longrightarrow> kept_record E now (idx (fst x)) x = Some r \<Longrightarrow> record_fits r"
  shows "\<exists>ps. merged (List.map_filter (\<lambda>x. kept_record E now (idx (fst x)) x) cs) ps w h w' h'"
  using assms
proof (induction cs arbitrary: w h)
  case Nil
  then show ?case using merged_Nil by (intro exI[of _ "[]"]) (simp add: map_filter_simps)
next
  case (Cons a cs)
  obtain p c where a: "a = (p, c)" by (cases a)
  obtain r where r: "decodeLogRecord c = Some r" using Cons.prems(1) a by (auto split: option.splits)
  have IH: "\<exists>ps. merged (List.map_filter (\<lambda>x. kept_record E now (idx (fst x)) x) cs) ps w1 h1 w' h'"
    if "merge_loop E S now idx cs w1 h1 = (Ok (), w', h')" "w_inv w1" "w_inv h1" for w1 h1
    using Cons.IH[OF that] Cons.prems(4) by (meson list.set_intros(2))
  show ?case
  proof (cases "kept_record E now (idx (fst a)) a")
    case None
    then have "merge_loop E S now idx cs w h = (Ok (), w', h')"
      using Cons.prems(1) r by (auto simp: a kept_record_def split: if_splits option.splits)
    from IH[OF this Cons.prems(2,3)] show ?thesis using None by (simp add: map_filter_simps)
  next
    case (Some r')
    have k: "Type r = LogRecordNormal \<and> (Expire r = 0 \<or> now <s Expire r)" "r' = r\<lparr>BatchId := mergeFinishedBatchID\<rparr>"
      and i: "\<exists>ip. mt_Get (Bt E) (idx p) (Key r) = Some ip \<and> positionEquals ip p"
      using Some r by (auto simp: a kept_record_def split: if_splits option.splits)
    have f: "encodeLogRecord r' = Some (chunk_of r')"
      using encodeLogRecord_fits Cons.prems(4)[OF _ Some] by (simp add: chunk_of_def)
    have h: "encodeHintRecord (Key r) q = Some (hint_of r' q)" for q
      using hint_of(1)[of r] k(2) by simp
    obtain q w1 s h1 where w: "w_Write S w (chunk_of r') = (Inr q, w1)" "w_Write S h (hint_of r' q) = (Inr s, h1)"
      and l: "merge_loop E S now idx cs w1 h1 = (Ok (), w', h')"
      using Cons.prems(1) r k i f h by (auto simp: a split: prod.splits sum.splits)
    have "w_inv w1" "w_inv h1" using Write_inv Cons.prems(2,3) w by blast+
    from IH[OF l this] obtain ps where "merged (List.map_filter (\<lambda>x. kept_record E now (idx (fst x)) x) cs) ps w1 h1 w' h'" ..
    from merged_Cons[OF Cons.prems(2,3) w this] Some show ?thesis by (intro exI) (simp add: map_filter_simps)
  qed
qed

text \<open>Loading the hints.\<close>

lemma put_hints_get:
  assumes "length ps = length rs" and "mt_inv bt_inv mt"
  shows "\<exists>mt'. (\<forall>hs. map snd hs = map2 hint_of rs ps \<longrightarrow> put_hints E hs mt = Some mt') \<and> mt_inv bt_inv mt'
     \<and> (\<forall>k. mt_Get (Bt E) mt' k = (case map_of (rev (zip (map Key rs) ps)) k of None \<Rightarrow> mt_Get (Bt E) mt k | Some p \<Rightarrow> Some p))"
  using assms
proof (induction rs arbitrary: ps mt)
  case Nil
  then show ?case by (intro exI[of _ mt]) simp
next
  case (Cons r rs)
  obtain p ps' where ps: "ps = p # ps'" using Cons.prems(1) by (cases ps) auto
  let ?mt = "fst (mt_Put (Bt E) mt (Key r) p)"
  have i: "mt_inv bt_inv ?mt" using ix.put_inv Cons.prems(2) by simp
  have g: "mt_Get (Bt E) ?mt k = (if k = Key r then Some p else mt_Get (Bt E) mt k)" for k
    by (rule ix.get_put[OF Cons.prems(2)])
  obtain mt' where IH: "\<forall>hs. map snd hs = map2 hint_of rs ps' \<longrightarrow> put_hints E hs ?mt = Some mt'" "mt_inv bt_inv mt'"
    "\<forall>k. mt_Get (Bt E) mt' k = (case map_of (rev (zip (map Key rs) ps')) k of None \<Rightarrow> mt_Get (Bt E) ?mt k | Some p \<Rightarrow> Some p)"
    using Cons.IH[OF _ i, of ps'] Cons.prems(1) by (auto simp: ps)
  have "put_hints E hs mt = Some mt'" if "map snd hs = map2 hint_of (r # rs) ps" for hs
    using that IH(1) hint_of(2) by (cases hs) (auto simp: ps)
  moreover have "mt_Get (Bt E) mt' k = (case map_of (rev (zip (map Key (r # rs)) ps)) k of None \<Rightarrow> mt_Get (Bt E) mt k | Some p \<Rightarrow> Some p)" for k
    using IH(3) g by (simp add: ps map_add_def split: option.split)
  ultimately show ?case using IH(2) by (intro exI[of _ mt']) simp
qed

text \<open>The kept records are the stored ones that have not expired.\<close>

lemma kept_stored:
  assumes "dinv d" and "set cs \<subseteq> set (wal_log (Wl E) (dataFiles d))"
    and "r' \<in> set (List.map_filter (kept_record E now (index d)) cs)"
  obtains r where "stored_rec E d (Key r') = Some r" and "r' = r\<lparr>BatchId := mergeFinishedBatchID\<rparr>"
    and "good_record (Key r') r" and "Expire r = 0 \<or> now <s Expire r"
proof -
  obtain p c where x: "(p, c) \<in> set cs" "kept_record E now (index d) (p, c) = Some r'"
    using assms(3) by (auto simp: List.map_filter_def)
  then obtain r ip where r: "decodeLogRecord c = Some r" "r' = r\<lparr>BatchId := mergeFinishedBatchID\<rparr>"
    "Expire r = 0 \<or> now <s Expire r" and ip: "mt_Get (Bt E) (index d) (Key r) = Some ip" "positionEquals ip p"
    by (auto simp: kept_record_def split: if_splits option.splits)
  obtain c0 r0 where s: "decodeLogRecord c0 = Some r0" "good_record (Key r) r0" "stored_rec E d (Key r) = Some r0"
    "(ip, c0) \<in> set (wal_log (Wl E) (dataFiles d))"
    using stored[OF assms(1) ip(1)] by metis
  have "w_inv (dataFiles d)" using assms(1) by (simp add: db_inv_def)
  from same_place[OF this s(4) _ ip(2)] x(1) assms(2) have "c0 = c" by blast
  then show ?thesis using that[of r] s r by simp
qed

lemma unexpired_cases:
  assumes "\<not> IsExpired r now" and "0 \<le> sint (Expire r)"
  shows "Expire r = 0 \<or> now <s Expire r"
proof (cases "sint (Expire r) = 0")
  case True
  then have "sint (Expire r) = sint (0 :: int64)" by simp
  then have "Expire r = 0" by (rule signed_word_eqI)
  then show ?thesis ..
next
  case False
  then show ?thesis using assms by (simp add: IsExpired_sint word_sless_alt)
qed

lemma stored_kept:
  assumes "dinv d" and "set (wal_log (Wl E) (dataFiles d)) \<subseteq> set cs"
    and "stored_rec E d k = Some r" and "\<not> IsExpired r now" and "0 \<le> sint (Expire r)"
  shows "r\<lparr>BatchId := mergeFinishedBatchID\<rparr> \<in> set (List.map_filter (kept_record E now (index d)) cs)" and "Key r = k"
proof -
  obtain p where p: "mt_Get (Bt E) (index d) k = Some p"
    using assms(3) by (auto simp: stored_rec_def split: option.splits)
  obtain c where c: "decodeLogRecord c = Some r" "good_record k r" "(p, c) \<in> set (wal_log (Wl E) (dataFiles d))"
    using stored[OF assms(1) p] assms(3) by (metis option.inject)
  then show k: "Key r = k" by (simp add: good_record_def)
  have "Expire r = 0 \<or> now <s Expire r" by (rule unexpired_cases[OF assms(4,5)])
  then have "kept_record E now (index d) (p, c) = Some (r\<lparr>BatchId := mergeFinishedBatchID\<rparr>)"
    using c p k by (simp add: kept_record_def good_record_def positionEquals_def)
  then show "r\<lparr>BatchId := mergeFinishedBatchID\<rparr> \<in> set (List.map_filter (kept_record E now (index d)) cs)"
    using c(3) assms(2) unfolding List.map_filter_def by force
qed

text \<open>The state after the merge: merged data, and an index made of hints only.\<close>

lemma merged_state:
  assumes d: "dinv d" and cs: "set cs = set (wal_log (Wl E) (dataFiles d))"
    and rs: "rs = List.map_filter (kept_record E now (index d)) cs" and n: "length ps = length rs"
    and neg: "\<forall>k r. stored_rec E d k = Some r \<longrightarrow> 0 \<le> sint (Expire r)"
    and mt: "mt_inv bt_inv mt" "\<And>k. mt_Get (Bt E) mt k = map_of (rev (zip (map Key rs) ps)) k"
    and w: "w_inv w" "pend w = []" "set (zip ps (map chunk_of rs)) \<subseteq> set (wal_log (Wl E) w)"
  shows "dinv (d\<lparr>dataFiles := w, index := mt\<rparr>)"
    and "r \<in> set rs \<Longrightarrow> stored_rec E (d\<lparr>dataFiles := w, index := mt\<rparr>) (Key r) = Some r"
    and "sint now \<le> sint t \<Longrightarrow> db_view E t (d\<lparr>dataFiles := w, index := mt\<rparr>) = db_view E t d"
proof -
  let ?d = "d\<lparr>dataFiles := w, index := mt\<rparr>"
  have sub: "set cs \<subseteq> set (wal_log (Wl E) (dataFiles d))" using cs by simp
  have good: "good_record (Key r) r" if r: "r \<in> set rs" for r
  proof -
    obtain r0 where "r = r0\<lparr>BatchId := mergeFinishedBatchID\<rparr>" "good_record (Key r) r0"
      using kept_stored[OF d sub r[unfolded rs]] by blast
    then show ?thesis by (simp add: good_record_def record_fits_def)
  qed
  have found: "\<exists>r \<in> set rs. Key r = k \<and> (p, chunk_of r) \<in> set (wal_log (Wl E) w)" if "mt_Get (Bt E) mt k = Some p" for k p
  proof -
    have "(k, p) \<in> set (zip (map Key rs) ps)" using that mt(2) map_of_SomeD by fastforce
    then obtain i where i: "i < length rs" "k = Key (rs ! i)" "p = ps ! i" using n by (auto simp: set_zip)
    then have "(p, chunk_of (rs ! i)) \<in> set (zip ps (map chunk_of rs))" using n by (auto simp: set_zip)
    then show ?thesis using i w(3) nth_mem by blast
  qed
  have missing: "k \<notin> Key ` set rs" if "mt_Get (Bt E) mt k = None" for k
  proof -
    have "k \<notin> fst ` set (zip (map Key rs) ps)" using that mt(2)[of k] by (simp add: map_of_eq_None_iff)
    then show ?thesis using n by (metis length_map list.set_map map_fst_zip)
  qed
  show inv: "dinv ?d"
  proof -
    have "\<exists>c r. (p, c) \<in> set (wal_log (Wl E) w) \<and> decodeLogRecord c = Some r \<and> good_record k r"
      if g: "mt_Get (Bt E) mt k = Some p" for k p
    proof -
      obtain r where r: "r \<in> set rs" "Key r = k" "(p, chunk_of r) \<in> set (wal_log (Wl E) w)" using found[OF g] by blast
      then have "good_record k r" using good by blast
      moreover from this have "decodeLogRecord (chunk_of r) = Some r" using decode_chunk_of by (simp add: good_record_def)
      ultimately show ?thesis using r(3) by blast
    qed
    then show ?thesis using d mt(1) w(1,2) by (simp add: db_inv_def)
  qed
  have st: "stored_rec E ?d k = None \<and> k \<notin> Key ` set rs \<or> (\<exists>r \<in> set rs. Key r = k \<and> stored_rec E ?d k = Some r)" for k
  proof (cases "mt_Get (Bt E) mt k")
    case None
    then show ?thesis using missing by (simp add: stored_rec_def)
  next
    case (Some p)
    then obtain r where r: "r \<in> set rs" "Key r = k" "(p, chunk_of r) \<in> set (wal_log (Wl E) w)" using found by blast
    have "stored_rec E ?d k = Some r"
      using Read_log[OF w(1) r(3)] decode_chunk_of[of r] good[OF r(1)] Some by (simp add: stored_rec_def good_record_def)
    then show ?thesis using r by blast
  qed
  show "stored_rec E ?d (Key r) = Some r" if r: "r \<in> set rs"
  proof -
    have "\<exists>r2 \<in> set rs. Key r2 = Key r \<and> stored_rec E ?d (Key r) = Some r2"
      using st[of "Key r"] imageI[OF r, of Key] by argo
    then obtain r2 where r2: "r2 \<in> set rs" "Key r2 = Key r" "stored_rec E ?d (Key r) = Some r2" by (elim bexE conjE)
    obtain x where x: "stored_rec E d (Key r) = Some x" "r = x\<lparr>BatchId := mergeFinishedBatchID\<rparr>"
      using kept_stored[OF d sub r[unfolded rs]] by blast
    obtain y where y: "stored_rec E d (Key r2) = Some y" "r2 = y\<lparr>BatchId := mergeFinishedBatchID\<rparr>"
      using kept_stored[OF d sub r2(1)[unfolded rs]] by blast
    have "x = y" using x(1) y(1) unfolding r2(2) by simp
    then have "r2 = r" by (simp only: x(2) y(2))
    then show ?thesis using r2(3) by (simp only:)
  qed
  assume t: "sint now \<le> sint t"
  show "db_view E t ?d = db_view E t d"
  proof
    fix k
    consider (none) "k \<notin> Key ` set rs" "stored_rec E ?d k = None"
      | (some) r where "r \<in> set rs" "Key r = k" "stored_rec E ?d k = Some r" using st[of k] by metis
    then show "db_view E t ?d k = db_view E t d k"
    proof cases
      case none
      have "IsExpired r t" if "stored_rec E d k = Some r" for r
      proof (rule ccontr)
        assume "\<not> IsExpired r t"
        then have "\<not> IsExpired r now" using IsExpired_mono t by blast
        from stored_kept[OF d _ that this neg[rule_format, OF that], of cs] cs
        have "r\<lparr>BatchId := mergeFinishedBatchID\<rparr> \<in> set rs" and "Key (r\<lparr>BatchId := mergeFinishedBatchID\<rparr>) = k"
          by (simp_all add: rs)
        then have "k \<in> Key ` set rs" by blast
        then show False using none(1) by blast
      qed
      then show ?thesis using none(2) by (auto simp: db_view_def visible_def live_def split: option.split)
    next
      case some
      obtain r0 where "stored_rec E d (Key r) = Some r0" "r = r0\<lparr>BatchId := mergeFinishedBatchID\<rparr>"
        using kept_stored[OF d sub some(1)[unfolded rs]] by blast
      then show ?thesis using some(2,3) by (simp add: db_view_def visible_def live_def IsExpired_def)
    qed
  qed
qed

section \<open>The merge directory\<close>

lemma loadIndex_files:
  assumes "loadIndex E S flt now d k = (Ok d', k')"
  shows "dataFiles d' = dataFiles d"
    and "\<exists>h. w_Open S hintFileNameSuffix (data_dir k hintFileNameSuffix) = Inr h
           \<and> k' = set_files hintFileNameSuffix (w_Files S h) k"
  using assms
  by (auto simp: loadIndex_def loadIndexFromHintFile_def Let_def loadIndexFromWAL_def
      split: prod.splits result.splits sum.splits option.splits if_splits)

lemma open_fresh:
  assumes "w_Open S sfx [] = Inr w"
  shows "w_inv w" and "pend w = []" and "wal_log (Wl E) w = []"
  using Open_law[OF assms] by (simp_all add: dir_log_def)

lemma reopen_fresh:
  assumes "w_Open S sfx [] = Inr h0" and "sfx \<noteq> dataFileNameSuffix" and "w_Open S sfx (w_Files S h0) = Inr h"
  shows "w_inv h" and "one_seg h" and "wal_log (Wl E) h = []"
proof -
  note h0 = open_fresh[OF assms(1)]
  have "one_seg h0" using one_Open[OF assms(1,2)] by simp
  then have ids: "fst ` set (w_Files S h0) = {1}" by (rule one_Files)
  have f: "\<forall>(i, f) \<in> set (w_Files S h0). seg_ok i f \<and> 0 < i" using Files_ok[OF h0(1)] by blast
  have "w_inv h \<and> pend h = [] \<and> wal_log (Wl E) h = dir_log seg_log (w_Files S h0)"
    by (rule Open_law[OF assms(3) f Files_distinct[OF h0(1)]])
  then show "w_inv h" and "wal_log (Wl E) h = []" using Files_log[OF h0(1)] h0(3) by simp_all
  show "one_seg h" using one_Open[OF assms(3,2)] ids by simp
qed

lemma openMergeDB_ok:
  assumes "openMergeDB E S parses flt flt2 hold2 now opts k = (Ok (mergeDB, h), k')"
  shows "w_inv (dataFiles mergeDB)" and "pend (dataFiles mergeDB) = []" and "wal_log (Wl E) (dataFiles mergeDB) = []"
    and "w_inv h" and "one_seg h" and "wal_log (Wl E) h = []" and "data_dir k' = data_dir k"
    and "\<exists>md. merge_dir k' = Some md \<and> md mergeFinNameSuffix = []"
proof -
  let ?k0 = "\<lparr>data_dir = (\<lambda>sfx. []), merge_dir = None\<rparr> :: 'f disk"
  let ?opts = "opts\<lparr>Sync := False, BytesPerSync := 0\<rparr>"
  obtain mk where o: "Open E S parses flt2 hold2 now ?opts ?k0 = (Ok mergeDB, mk)"
    and h: "w_Open S hintFileNameSuffix (data_dir mk hintFileNameSuffix) = Inr h"
    and k': "k' = k\<lparr>merge_dir := Some ((data_dir mk)(hintFileNameSuffix := w_Files S h))\<rparr>"
    using assms by (auto simp: openMergeDB_def split: option.splits prod.splits result.splits sum.splits)
  have l: "loadMergeFiles S flt2 ?k0 = (Ok (), ?k0)" by (simp add: loadMergeFiles_def)
  obtain w d where w: "w_Open S dataFileNameSuffix [] = Inr w" and d: "mergeDB = enable_watch d"
    and li: "loadIndex E S flt2 now (new_db E ?opts w) (set_files dataFileNameSuffix (w_Files S w) ?k0) = (Ok d, mk)"
    using o by (auto simp: Open_def l split: result.splits option.splits sum.splits bool.splits prod.splits)
  have dw: "dataFiles mergeDB = w" using loadIndex_files(1)[OF li] by (simp add: d enable_watch_def new_db_def)
  obtain h0 where h0: "w_Open S hintFileNameSuffix [] = Inr h0"
    and mk: "mk = set_files hintFileNameSuffix (w_Files S h0) (set_files dataFileNameSuffix (w_Files S w) ?k0)"
    using loadIndex_files(2)[OF li] by (auto simp: set_files_def)
  have hh: "w_Open S hintFileNameSuffix (w_Files S h0) = Inr h" using h by (simp add: mk set_files_def)
  show "w_inv (dataFiles mergeDB)" "pend (dataFiles mergeDB) = []" "wal_log (Wl E) (dataFiles mergeDB) = []"
    using open_fresh[OF w] dw by simp_all
  show "w_inv h" "one_seg h" "wal_log (Wl E) h = []" using reopen_fresh[OF h0 _ hh] by simp_all
  show "data_dir k' = data_dir k" "\<exists>md. merge_dir k' = Some md \<and> md mergeFinNameSuffix = []"
    by (simp_all add: k' mk set_files_def)
qed

lemma finish_merge_ok:
  assumes "finish_merge S closeErr prev k = (Ok (), k')" and "merge_dir k = Some md" and "md mergeFinNameSuffix = []"
  shows "\<exists>fs. k' = k\<lparr>merge_dir := Some (md(mergeFinNameSuffix := fs))\<rparr>
     \<and> map_of fs 1 \<noteq> None \<and> (\<forall>dir. map_of (dir mergeFinNameSuffix) 1 = map_of fs 1 \<longrightarrow> getMergeFinSegmentId S no_fault dir = Ok prev)"
proof -
  obtain fin p fin' where o: "w_Open S mergeFinNameSuffix [] = Inr fin"
    and w: "w_Write S fin (encodeMergeFinRecord prev) = (Inr p, fin')"
    and k': "k' = k\<lparr>merge_dir := Some (md(mergeFinNameSuffix := w_Files S fin'))\<rparr>"
    using assms by (auto simp: finish_merge_def split: sum.splits prod.splits option.splits)
  have four: "length (encodeMergeFinRecord prev) = 4" by (simp add: encodeMergeFinRecord_def le_put_uint32_def)
  obtain f where "map_of (w_Files S fin') 1 = Some f" "7 + 4 \<le> length (f_Bytes S f)"
    "take 4 (drop 7 (f_Bytes S f)) = encodeMergeFinRecord prev"
    using first_chunk[OF o w] four by auto
  then show ?thesis
    by (intro exI[of _ "w_Files S fin'"]) (simp add: k' getMergeFinSegmentId_def encodeMergeFinRecord_def le_uint32_put)
qed

end

section \<open>A whole merge\<close>

context store
begin

lemma merge_copy_ok:
  assumes m: "merge_copy E S parses flt flt2 hold2 now closeErr prev idx d k = (Ok (), k')"
    and w: "w_inv (dataFiles d)"
    and fits: "\<forall>x \<in> set (filter (\<lambda>x. SegmentId (fst x) \<le> prev) (wal_log (Wl E) (dataFiles d))).
        \<forall>r. kept_record E now (idx (fst x)) x = Some r \<longrightarrow> record_fits r"
  shows "\<exists>md rs ps w0 h0 w' h'. merge_dir k' = Some md \<and> data_dir k' = data_dir k
     \<and> rs = List.map_filter (\<lambda>x. kept_record E now (idx (fst x)) x) (filter (\<lambda>x. SegmentId (fst x) \<le> prev) (wal_log (Wl E) (dataFiles d)))
     \<and> wal_log (Wl E) w0 = [] \<and> wal_log (Wl E) h0 = [] \<and> one_seg h0 \<and> pend w0 = [] \<and> merged rs ps w0 h0 w' h'
     \<and> md dataFileNameSuffix = w_Files S w' \<and> md hintFileNameSuffix = w_Files S h'
     \<and> map_of (md mergeFinNameSuffix) 1 \<noteq> None
     \<and> (\<forall>dir. map_of (dir mergeFinNameSuffix) 1 = map_of (md mergeFinNameSuffix) 1 \<longrightarrow> getMergeFinSegmentId S no_fault dir = Ok prev)"
proof -
  let ?cs = "filter (\<lambda>x. SegmentId (fst x) \<le> prev) (wal_log (Wl E) (dataFiles d))"
  let ?rs = "List.map_filter (\<lambda>x. kept_record E now (idx (fst x)) x) ?cs"
  obtain mergeDB h0 k1 where o: "openMergeDB E S parses flt flt2 hold2 now (options d) k = (Ok (mergeDB, h0), k1)"
    using m by (auto simp: merge_copy_def split: prod.splits result.splits)
  obtain w' h' where l: "merge_loop E S now idx ?cs (dataFiles mergeDB) h0 = (Ok (), w', h')"
    and f: "finish_merge S closeErr prev (merge_files S w' h' k1) = (Ok (), k')"
    using m by (auto simp: merge_copy_def o ChunksWithMax_law[OF w] Let_def split: prod.splits result.splits)
  note od = openMergeDB_ok[OF o]
  obtain md where md: "merge_dir k1 = Some md" "md mergeFinNameSuffix = []" using od(8) by blast
  have "\<exists>ps. merged ?rs ps (dataFiles mergeDB) h0 w' h'"
  proof (rule merge_loop_ok[OF l od(1,4)])
    fix x r
    assume "x \<in> set ?cs" and "kept_record E now (idx (fst x)) x = Some r"
    then show "record_fits r" using fits by blast
  qed
  then obtain ps where ps: "merged ?rs ps (dataFiles mergeDB) h0 w' h'" ..
  let ?md = "md(dataFileNameSuffix := w_Files S w', hintFileNameSuffix := w_Files S h')"
  have "merge_dir (merge_files S w' h' k1) = Some ?md" "?md mergeFinNameSuffix = []"
    using md by (simp_all add: merge_files_def)
  from finish_merge_ok[OF f this] obtain fs where k': "k' = (merge_files S w' h' k1)\<lparr>merge_dir := Some (?md(mergeFinNameSuffix := fs))\<rparr>"
    and g: "map_of fs 1 \<noteq> None" "\<And>dir. map_of (dir mergeFinNameSuffix) 1 = map_of fs 1 \<Longrightarrow> getMergeFinSegmentId S no_fault dir = Ok prev"
    by blast
  show ?thesis
    using ps od(3,5,6,2,7) g
    by (intro exI[of _ "?md(mergeFinNameSuffix := fs)"] exI[of _ ?rs] exI[of _ ps] exI[of _ "dataFiles mergeDB"]
        exI[of _ h0] exI[of _ w'] exI[of _ h']) (simp add: k' merge_files_def)
qed

text \<open>The segments after a given one hold the chunks with their identifiers.\<close>

lemma files_chunk:
  assumes w: "w_inv w" and gs: "\<And>i. map_of gs i \<noteq> None \<Longrightarrow> map_of gs i = map_of (w_Files S w) i" and x: "x \<in> set (dir_log seg_log gs)"
  shows "SegmentId (fst x) \<in> fst ` set gs"
proof (rule dir_log_chunk[OF x])
  fix i f
  assume m: "map_of gs i = Some f" and f: "x \<in> set (seg_log i f)"
  have "map_of (w_Files S w) i = Some f" using gs[of i] m by simp
  then have "SegmentId (fst x) = i" using seg_positions[of i f "fst x" "snd x"] Files_ok[OF w map_of_SomeD] f by simp
  then show ?thesis using map_of_in_ids[OF m] by simp
qed

lemma log_segment: "w_inv w \<Longrightarrow> x \<in> set (wal_log (Wl E) w) \<Longrightarrow> SegmentId (fst x) \<in> fst ` set (w_Files S w)"
  using files_chunk[of w "w_Files S w" x] by (simp add: Files_log)

lemma log_after:
  assumes w: "w_inv w"
  shows "filter (\<lambda>x. m < SegmentId (fst x)) (wal_log (Wl E) w) = dir_log seg_log (filter (\<lambda>x. m < fst x) (w_Files S w))"
proof -
  let ?lo = "filter (\<lambda>x. fst x \<le> m) (w_Files S w)" and ?hi = "filter (\<lambda>x. m < fst x) (w_Files S w)"
  have lo: "filter (\<lambda>x. m < SegmentId (fst x)) (dir_log seg_log ?lo) = []"
  proof -
    have "SegmentId (fst x) \<le> m" if "x \<in> set (dir_log seg_log ?lo)" for x
      using files_chunk[OF w _ that] by (fastforce simp: map_of_split split: if_splits)
    then show ?thesis by (auto simp: filter_empty_conv not_less)
  qed
  have hi: "filter (\<lambda>x. m < SegmentId (fst x)) (dir_log seg_log ?hi) = dir_log seg_log ?hi"
  proof -
    have "m < SegmentId (fst x)" if "x \<in> set (dir_log seg_log ?hi)" for x
      using files_chunk[OF w _ that] by (fastforce simp: map_of_split split: if_splits)
    then show ?thesis by (simp add: filter_id_conv)
  qed
  show ?thesis using lo hi by (simp add: Files_log[OF w] dir_log_split[of seg_log "w_Files S w" m])
qed

text \<open>The directory after the take-over holds the merged log, and what came after the old one.\<close>

lemma takeover_log:
  assumes w: "w_inv w" and w': "w_inv w'" and small: "\<And>i f. (i, f) \<in> set (w_Files S w') \<Longrightarrow> i \<le> prev"
    and fs: "distinct (map fst fs)" "\<And>j. map_of fs j = (if 0 < j \<and> j \<le> prev then nonempty_file S (map_of (w_Files S w') j)
        else map_of (w_Files S w) j)"
  shows "dir_log seg_log fs = wal_log (Wl E) w' @ filter (\<lambda>x. prev < SegmentId (fst x)) (wal_log (Wl E) w)"
    and "\<forall>(i, f) \<in> set fs. seg_ok i f \<and> 0 < i"
    and "\<forall>x \<in> set (wal_log (Wl E) w'). SegmentId (fst x) \<le> prev"
proof -
  have z: "map_of (w_Files S v) 0 = None" if "w_inv v" for v
    using Files_ok[OF that, of 0] by (metis less_irrefl map_of_SomeD not_None_eq)
  have "seg_chunks seg_log (filter (\<lambda>x. fst x \<le> prev) fs) j = seg_chunks seg_log (w_Files S w') j" for j
  proof (cases "0 < j \<and> j \<le> prev")
    case True
    then show ?thesis using empty_file by (auto simp: seg_chunks_def map_of_split fs(2) nonempty_file_def split: option.split)
  next
    case False
    then consider "j = 0" | "\<not> j \<le> prev" by (auto simp: word_gt_0)
    then show ?thesis
    proof cases
      case 1
      then show ?thesis using z[OF w] z[OF w'] by (simp add: seg_chunks_def map_of_split fs(2))
    next
      case 2
      have "map_of (w_Files S w') j = None" using small 2 by (metis map_of_SomeD not_None_eq)
      then show ?thesis using 2 by (simp add: seg_chunks_def map_of_split)
    qed
  qed
  from dir_log_chunks[OF this] have lo: "dir_log seg_log (filter (\<lambda>x. fst x \<le> prev) fs) = wal_log (Wl E) w'" by (simp only: Files_log[OF w'])
  have "map_of (filter (\<lambda>x. prev < fst x) fs) j = map_of (filter (\<lambda>x. prev < fst x) (w_Files S w)) j" for j
    by (auto simp: map_of_split fs(2))
  from dir_log_cong[OF this] have hi: "dir_log seg_log (filter (\<lambda>x. prev < fst x) fs) = filter (\<lambda>x. prev < SegmentId (fst x)) (wal_log (Wl E) w)"
    by (simp only: log_after[OF w])
  show "dir_log seg_log fs = wal_log (Wl E) w' @ filter (\<lambda>x. prev < SegmentId (fst x)) (wal_log (Wl E) w)"
    using dir_log_split[of seg_log fs prev] by (simp only: lo hi)
  show "\<forall>(i, f) \<in> set fs. seg_ok i f \<and> 0 < i"
  proof safe
    fix i f
    assume "(i, f) \<in> set fs"
    then have m: "map_of fs i = Some f" using fs(1) by simp
    have "(i, f) \<in> set (w_Files S w') \<or> (i, f) \<in> set (w_Files S w)"
      using m by (auto simp: fs(2) nonempty_file_def dest: map_of_SomeD split: if_splits option.splits)
    then show "seg_ok i f" "0 < i" using Files_ok[OF w] Files_ok[OF w'] by blast+
  qed
  show "\<forall>x \<in> set (wal_log (Wl E) w'). SegmentId (fst x) \<le> prev"
    using log_segment[OF w'] small by fastforce
qed

lemma hint_reopen:
  assumes h: "w_inv h" "one_seg h" and main: "distinct (map fst fs)" "fst ` set fs \<subseteq> {1}"
    and f: "map_of (w_Files S h) 1 = Some f" and o: "w_Open S sfx (AList.update 1 f fs) = Inr h'"
  shows "w_inv h'" and "wal_log (Wl E) h' = wal_log (Wl E) h"
proof -
  let ?fs = "AList.update 1 f fs"
  have d: "distinct (map fst ?fs)" using main(1) by (rule distinct_update)
  have m: "map_of ?fs j = map_of (w_Files S h) j" for j
  proof (cases "j = 1")
    case False
    then have "map_of fs j = None" "map_of (w_Files S h) j = None"
      using main(2) one_Files[OF h(2)] map_of_in_ids[of fs j] map_of_in_ids[of "w_Files S h" j] by fastforce+
    then show ?thesis using False by (simp add: map_of_update)
  qed (simp add: map_of_update f)
  have "\<forall>(i, f) \<in> set ?fs. seg_ok i f \<and> 0 < i"
  proof safe
    fix i g
    assume "(i, g) \<in> set ?fs"
    from map_of_is_SomeI[OF d this] have "map_of (w_Files S h) i = Some g" by (simp only: m)
    then show "seg_ok i g" "0 < i" using Files_ok[OF h(1) map_of_SomeD] by blast+
  qed
  from Open_law[OF o this d] have "w_inv h'" "wal_log (Wl E) h' = dir_log seg_log ?fs" by simp_all
  then show "w_inv h'" and "wal_log (Wl E) h' = wal_log (Wl E) h"
    using dir_log_cong[OF m] Files_log[OF h(1)] by simp_all
qed

end

context store
begin

lemma new_segment_log:
  assumes w: "w_inv w" and n: "w_OpenNewActiveSegment S w = (None, w')"
  shows "wal_log (Wl E) w' = wal_log (Wl E) w"
    and "(i, f) \<in> set (w_Files S w') \<Longrightarrow> w_ActiveSegmentID S w < i \<Longrightarrow> seg_log i f = []"
    and "x \<in> set (wal_log (Wl E) w) \<Longrightarrow> SegmentId (fst x) \<le> w_ActiveSegmentID S w"
proof -
  obtain j g where w': "w_inv w'" and g: "seg_log j g = []" "w_Files S w' = w_Files S w @ [(j, g)]"
    using NewActive_ok[OF w n] by blast
  have "seg_chunks seg_log (w_Files S w') i = seg_chunks seg_log (w_Files S w) i" for i
    by (auto simp: seg_chunks_def g map_add_def split: option.split)
  then show "wal_log (Wl E) w' = wal_log (Wl E) w"
    unfolding Files_log[OF w] Files_log[OF w'] by (rule dir_log_chunks)
  show "(i, f) \<in> set (w_Files S w') \<Longrightarrow> w_ActiveSegmentID S w < i \<Longrightarrow> seg_log i f = []"
    using Files_ok[OF w, of i f] g by auto
  show "SegmentId (fst x) \<le> w_ActiveSegmentID S w" if "x \<in> set (wal_log (Wl E) w)"
    using log_segment[OF w that] Files_ok[OF w] by auto
qed

lemma merge_begin_ok:
  assumes b: "with_Lock (merge_begin S) d = Some (Ok x, d2)" and e: "\<not> w_IsEmpty S (dataFiles d)"
  shows "x = Some (w_ActiveSegmentID S (dataFiles d))" and "w_OpenNewActiveSegment S (dataFiles d) = (None, dataFiles d2)"
    and "idle d2" and "\<not> closed d2" and "d2 = d\<lparr>dataFiles := dataFiles d2, mu := mu d2, mergeRunning := True\<rparr>"
proof -
  have nl: "\<not> writer (mu d)" "readers (mu d) = 0" using b by (auto simp: with_Lock_def mutex_Lock_def split: if_splits)
  show d2: "x = Some (w_ActiveSegmentID S (dataFiles d))" "w_OpenNewActiveSegment S (dataFiles d) = (None, dataFiles d2)"
    "d2 = d\<lparr>dataFiles := dataFiles d2, mu := mu d2, mergeRunning := True\<rparr>" "idle d2"
    using b nl e by (auto simp: with_Lock_def mutex_Lock_def mutex_Unlock_def merge_begin_def Let_def idle_def
        split: if_splits prod.splits option.splits)
  have "closed d2 = closed d" by (subst d2(3), simp)
  moreover have "\<not> closed d"
    using b nl by (auto simp: with_Lock_def mutex_Lock_def mutex_Unlock_def merge_begin_def split: if_splits option.splits)
  ultimately show "\<not> closed d2" by simp
qed

lemma doMerge_ok:
  assumes m: "doMerge E S parses flt flt2 hold2 now closeErr d k = Some (Ok (), d1, k1)" and e: "\<not> w_IsEmpty S (dataFiles d)"
  shows "\<exists>d2. w_OpenNewActiveSegment S (dataFiles d) = (None, dataFiles d2) \<and> idle d2 \<and> \<not> closed d2
     \<and> d2 = d\<lparr>dataFiles := dataFiles d2, mu := mu d2, mergeRunning := True\<rparr> \<and> d1 = d2\<lparr>mergeRunning := False\<rparr>
     \<and> merge_copy E S parses flt flt2 hold2 now closeErr (w_ActiveSegmentID S (dataFiles d)) (\<lambda>p. index d) d2 k = (Ok (), k1)"
proof -
  obtain x d2 where b: "with_Lock (merge_begin S) d = Some (Ok x, d2)"
    using m by (auto simp: doMerge_def split: option.splits prod.splits result.splits)
  note bo = merge_begin_ok[OF b e]
  have "index d2 = index d" by (subst bo(5), simp)
  then show ?thesis
    using bo m b by (intro exI[of _ d2]) (auto simp: doMerge_def split: prod.splits)
qed

end

text \<open>
  What a finished merge has put into the merge directory, and what the data directory
  holds once the merge has been taken over: the mark, the hints, and the merged log
  with the chunks \<open>L\<close> written after the merge.
\<close>

context store
begin

definition merge_copied :: "uint32 \<Rightarrow> log_record list \<Rightarrow> chunk_position list \<Rightarrow> 'f dir \<Rightarrow> bool" where
  "merge_copied prev rs ps md \<longleftrightarrow>
     (\<exists>w0 h0 w' h'. wal_log (Wl E) w0 = [] \<and> pend w0 = [] \<and> wal_log (Wl E) h0 = [] \<and> one_seg h0 \<and> merged rs ps w0 h0 w' h'
        \<and> md dataFileNameSuffix = w_Files S w' \<and> md hintFileNameSuffix = w_Files S h')
     \<and> map_of (md mergeFinNameSuffix) 1 \<noteq> None \<and> (\<forall>i \<in> fst ` set (md dataFileNameSuffix). i \<le> prev)
     \<and> (\<forall>dir. map_of (dir mergeFinNameSuffix) 1 = map_of (md mergeFinNameSuffix) 1 \<longrightarrow> getMergeFinSegmentId S no_fault dir = Ok prev)"

definition merged_disk ::
    "uint32 \<Rightarrow> log_record list \<Rightarrow> chunk_position list \<Rightarrow> (chunk_position \<times> bytes) list \<Rightarrow> 'f disk \<Rightarrow> bool" where
  "merged_disk prev rs ps L k \<longleftrightarrow> length ps = length rs \<and> merge_dir k = None
     \<and> (\<forall>dir. dir mergeFinNameSuffix = data_dir k mergeFinNameSuffix \<longrightarrow> getMergeFinSegmentId S no_fault dir = Ok prev)
     \<and> (\<forall>hh. w_Open S hintFileNameSuffix (data_dir k hintFileNameSuffix) = Inr hh \<longrightarrow>
          w_inv hh \<and> map snd (wal_log (Wl E) hh) = map2 hint_of rs ps)
     \<and> (\<forall>w. w_Open S dataFileNameSuffix (data_dir k dataFileNameSuffix) = Inr w \<longrightarrow>
          w_inv w \<and> pend w = [] \<and> wal_log (Wl E) w = zip ps (map chunk_of rs) @ L)
     \<and> (\<forall>(i, f) \<in> set (data_dir k dataFileNameSuffix). seg_ok i f \<and> 0 < i) \<and> distinct (map fst (data_dir k dataFileNameSuffix))
     \<and> (\<forall>x \<in> set (zip ps (map chunk_of rs)). SegmentId (fst x) \<le> prev) \<and> (\<forall>x \<in> set L. prev < SegmentId (fst x))"

definition hint_index :: "log_record list \<Rightarrow> chunk_position list \<Rightarrow> 't MemoryBTree \<Rightarrow> bool" where
  "hint_index rs ps mt \<longleftrightarrow> mt_inv bt_inv mt \<and> (\<forall>k. mt_Get (Bt E) mt k = map_of (rev (zip (map Key rs) ps)) k)
     \<and> (\<forall>hs. map snd hs = map2 hint_of rs ps \<longrightarrow> put_hints E hs (NewIndexer (Bt E)) = Some mt)"

lemma hint_index: "length ps = length rs \<Longrightarrow> \<exists>mt. hint_index rs ps mt"
proof -
  assume "length ps = length rs"
  from put_hints_get[OF this ix.new_law(1)] obtain mt where
    "\<forall>hs. map snd hs = map2 hint_of rs ps \<longrightarrow> put_hints E hs (NewIndexer (Bt E)) = Some mt" "mt_inv bt_inv mt"
    "\<forall>k. mt_Get (Bt E) mt k
        = (case map_of (rev (zip (map Key rs) ps)) k of None \<Rightarrow> mt_Get (Bt E) (NewIndexer (Bt E)) k | Some p \<Rightarrow> Some p)" by blast
  then have "hint_index rs ps mt" using ix.get_new by (simp add: hint_index_def split: option.split)
  then show ?thesis ..
qed

lemma takeover:
  assumes w: "w_inv w" and md: "merge_dir k = Some md" "merge_copied prev rs ps md"
    and main: "distinct (map fst (data_dir k hintFileNameSuffix))" "fst ` set (data_dir k hintFileNameSuffix) \<subseteq> {1}"
  shows "\<exists>k'. loadMergeFiles S no_fault (set_files dataFileNameSuffix (w_Files S w) k) = (Ok (), k')
     \<and> merged_disk prev rs ps (filter (\<lambda>x. prev < SegmentId (fst x)) (wal_log (Wl E) w)) k'
     \<and> (\<forall>j. prev < j \<longrightarrow> map_of (data_dir k' dataFileNameSuffix) j = map_of (w_Files S w) j)"
proof -
  obtain w0 h0 w' h' where z: "wal_log (Wl E) w0 = []" "wal_log (Wl E) h0 = []" "one_seg h0" "merged rs ps w0 h0 w' h'"
    and mf: "md dataFileNameSuffix = w_Files S w'" "md hintFileNameSuffix = w_Files S h'"
    using md(2) unfolding merge_copied_def by blast
  have small: "i \<le> prev" if "(i, f) \<in> set (md dataFileNameSuffix)" for i f
    using md(2) that unfolding merge_copied_def by force
  have has: "map_of (md mergeFinNameSuffix) 1 \<noteq> None" using md(2) unfolding merge_copied_def by blast
  have fin: "getMergeFinSegmentId S no_fault dir = Ok prev"
    if "map_of (dir mergeFinNameSuffix) 1 = map_of (md mergeFinNameSuffix) 1" for dir
    using md(2) that unfolding merge_copied_def by blast
  let ?k = "set_files dataFileNameSuffix (w_Files S w) k"
  have mg: "length ps = length rs" "w_inv w'" "w_inv h'" "one_seg h'" "wal_log (Wl E) w' = zip ps (map chunk_of rs)"
    "map snd (wal_log (Wl E) h') = map2 hint_of rs ps"
    using z by (simp_all add: merged_def)
  have md': "merge_dir ?k = Some md" using md(1) by (simp add: set_files_def)
  have fin0: "getMergeFinSegmentId S no_fault md = Ok prev" by (rule fin) simp
  obtain k3 where l: "loadMergeFiles S no_fault ?k = (Ok (), k3)" "merge_dir k3 = None"
    and raw: "\<forall>sfx. sfx \<noteq> dataFileNameSuffix \<longrightarrow>
          data_dir k3 sfx = (case map_of (md sfx) 1 of None \<Rightarrow> data_dir ?k sfx | Some f \<Rightarrow> AList.update 1 f (data_dir ?k sfx))"
      "\<forall>j. map_of (data_dir k3 dataFileNameSuffix) j
        = (if 0 < j \<and> j \<le> prev then nonempty_file S (map_of (md dataFileNameSuffix) j) else map_of (data_dir ?k dataFileNameSuffix) j)"
      "distinct (map fst (data_dir ?k dataFileNameSuffix)) \<longrightarrow> distinct (map fst (data_dir k3 dataFileNameSuffix))"
    using loadMergeFiles_none[OF md' fin0] by (elim exE conjE) (rule that)
  have other: "data_dir k3 sfx = (case map_of (md sfx) 1 of None \<Rightarrow> data_dir k sfx | Some f \<Rightarrow> AList.update 1 f (data_dir k sfx))"
    if "sfx \<noteq> dataFileNameSuffix" for sfx
    using raw(1) that by (simp add: set_files_dirs split: option.split)
  have data: "map_of (data_dir k3 dataFileNameSuffix) j
        = (if 0 < j \<and> j \<le> prev then nonempty_file S (map_of (w_Files S w') j) else map_of (w_Files S w) j)" for j
    using raw(2) by (simp add: set_files_dirs mf(1))
  have dist: "distinct (map fst (data_dir k3 dataFileNameSuffix))"
    using raw(3) Files_distinct[OF w] by (simp add: set_files_dirs)
  note tk = takeover_log[OF w mg(2) small[unfolded mf(1)] dist data]
  obtain f where f: "map_of (w_Files S h') 1 = Some f"
    using one_Files[OF mg(4)] map_of_eq_None_iff[of "w_Files S h'" 1] by (cases "map_of (w_Files S h') 1") simp_all
  have hd: "data_dir k3 hintFileNameSuffix = AList.update 1 f (data_dir k hintFileNameSuffix)"
    using other[of hintFileNameSuffix] f by (simp add: mf(2))
  have "map_of (data_dir k3 mergeFinNameSuffix) 1 = map_of (md mergeFinNameSuffix) 1"
    using has other[of mergeFinNameSuffix] by (auto simp: map_of_update)
  then have g: "getMergeFinSegmentId S no_fault dir = Ok prev" if "dir mergeFinNameSuffix = data_dir k3 mergeFinNameSuffix" for dir
    using that by (intro fin) simp
  have "w_inv hh \<and> map snd (wal_log (Wl E) hh) = map2 hint_of rs ps"
    if "w_Open S hintFileNameSuffix (data_dir k3 hintFileNameSuffix) = Inr hh" for hh
    using hint_reopen[OF mg(3,4) main f that[unfolded hd]] mg(6) by simp
  moreover have "w_inv v \<and> pend v = []
      \<and> wal_log (Wl E) v = zip ps (map chunk_of rs) @ filter (\<lambda>x. prev < SegmentId (fst x)) (wal_log (Wl E) w)"
    if "w_Open S dataFileNameSuffix (data_dir k3 dataFileNameSuffix) = Inr v" for v
    using Open_law[OF that tk(2) dist] tk(1) mg(5) by simp
  ultimately have "merged_disk prev rs ps (filter (\<lambda>x. prev < SegmentId (fst x)) (wal_log (Wl E) w)) k3"
    using l(2) g tk(2,3) dist mg(1) unfolding merged_disk_def mg(5) by simp
  then show ?thesis using l(1) data by (intro exI[of _ k3]) (auto simp flip: not_le)
qed

lemma load_merged:
  assumes k: "merged_disk prev rs ps L k" and i: "hint_index rs ps mt"
    and w: "w_Open S dataFileNameSuffix (data_dir k dataFileNameSuffix) = Inr (dataFiles d)" and new: "index d = NewIndexer (Bt E)"
    and h: "w_Open S hintFileNameSuffix (data_dir k hintFileNameSuffix) = Inr hh"
  shows "loadIndex E S no_fault now d (set_files dataFileNameSuffix (w_Files S (dataFiles d)) k) =
     (if \<forall>i \<in> set (map fst (w_Files S (dataFiles d))). i \<le> prev then Panic
      else (case load_chunks E now L (mt, []) of Panic \<Rightarrow> Panic | Fail e \<Rightarrow> Fail e | Ok (mt, recs) \<Rightarrow> Ok (d\<lparr>index := mt\<rparr>)),
      set_files hintFileNameSuffix (w_Files S hh) (set_files dataFileNameSuffix (w_Files S (dataFiles d)) k))"
proof -
  let ?k = "set_files hintFileNameSuffix (w_Files S hh) (set_files dataFileNameSuffix (w_Files S (dataFiles d)) k)"
  have ch: "w_Chunks (Wl E) v = (wal_log (Wl E) v, None)" if "w_inv v" for v
    using Chunks_eof[OF that] by (simp add: wal_log_def prod_eq_iff)
  have wf: "w_inv (dataFiles d)" "wal_log (Wl E) (dataFiles d) = zip ps (map chunk_of rs) @ L"
    and hh: "w_inv hh" "map snd (wal_log (Wl E) hh) = map2 hint_of rs ps"
    and ids: "\<forall>x \<in> set (zip ps (map chunk_of rs)). SegmentId (fst x) \<le> prev" "\<forall>x \<in> set L. prev < SegmentId (fst x)"
    using k w h unfolding merged_disk_def by blast+
  have lh: "loadIndexFromHintFile E S d (set_files dataFileNameSuffix (w_Files S (dataFiles d)) k) = (Ok (d\<lparr>index := mt\<rparr>), ?k)"
    using h i hh new by (simp add: loadIndexFromHintFile_def Let_def ch hint_index_def set_files_dirs)
  have g: "getMergeFinSegmentId S no_fault (data_dir ?k) = Ok prev"
    using k by (simp add: merged_disk_def set_files_dirs)
  have "filter (\<lambda>x. prev < SegmentId (fst x)) (wal_log (Wl E) (dataFiles d)) = L"
    using ids by (auto simp: wf(2) filter_empty_conv filter_id_conv not_less)
  then show ?thesis
    by (auto simp: loadIndex_def lh g loadIndexFromWAL_def ch[OF wf(1)] split: result.split)
qed

lemma merge_reopen_ok:
  assumes r: "merge_reopen E S no_fault now2 d1 k1 = ((Ok (), k'), d')" and w: "w_inv (dataFiles d1)"
    and md: "merge_dir k1 = Some md" "merge_copied prev rs ps md"
    and main: "distinct (map fst (data_dir k1 hintFileNameSuffix))" "fst ` set (data_dir k1 hintFileNameSuffix) \<subseteq> {1}"
    and mt: "hint_index rs ps mt" and L: "filter (\<lambda>x. prev < SegmentId (fst x)) (wal_log (Wl E) (dataFiles d1)) = L"
  shows "\<exists>w k3 hh mt' recs. load_chunks E now2 L (mt, []) = Ok (mt', recs) \<and> d' = Some (d1\<lparr>dataFiles := w, index := mt'\<rparr>)
     \<and> merged_disk prev rs ps L k3
     \<and> w_Open S dataFileNameSuffix (data_dir k3 dataFileNameSuffix) = Inr w
     \<and> w_Open S hintFileNameSuffix (data_dir k3 hintFileNameSuffix) = Inr hh
     \<and> k' = set_files hintFileNameSuffix (w_Files S hh) (set_files dataFileNameSuffix (w_Files S w) k3)
     \<and> (\<forall>j. prev < j \<longrightarrow> map_of (data_dir k3 dataFileNameSuffix) j = map_of (w_Files S (dataFiles d1)) j)"
proof -
  obtain k3 where l: "loadMergeFiles S no_fault (set_files dataFileNameSuffix (w_Files S (dataFiles d1)) k1) = (Ok (), k3)"
    and k3: "merged_disk prev rs ps L k3"
    and j: "\<forall>j. prev < j \<longrightarrow> map_of (data_dir k3 dataFileNameSuffix) j = map_of (w_Files S (dataFiles d1)) j"
    using takeover[OF w md main] L by auto
  obtain walF where o: "w_Open S dataFileNameSuffix (data_dir k3 dataFileNameSuffix) = Inr walF"
    using r by (auto simp: merge_reopen_def l split: sum.splits)
  let ?d = "d1\<lparr>dataFiles := walF, index := NewIndexer (Bt E)\<rparr>" and ?k3 = "set_files dataFileNameSuffix (w_Files S walF) k3"
  obtain d2 where li: "loadIndex E S no_fault now2 ?d ?k3 = (Ok d2, k')" and d': "d' = Some d2"
    using r by (auto simp: merge_reopen_def l o split: prod.splits result.splits)
  obtain hh where hh: "w_Open S hintFileNameSuffix (data_dir ?k3 hintFileNameSuffix) = Inr hh"
    and k': "k' = set_files hintFileNameSuffix (w_Files S hh) ?k3"
    using loadIndex_files(2)[OF li] by blast
  have hh3: "w_Open S hintFileNameSuffix (data_dir k3 hintFileNameSuffix) = Inr hh" using hh by (simp add: set_files_dirs)
  obtain mt' recs where "load_chunks E now2 L (mt, []) = Ok (mt', recs)" "d2 = ?d\<lparr>index := mt'\<rparr>"
    using li load_merged[OF k3 mt, of ?d hh now2] o hh3 by (auto split: result.splits if_splits)
  then show ?thesis using d' k3 o hh3 k' j
    by (intro exI[of _ walF] exI[of _ k3] exI[of _ hh] exI[of _ mt'] exI[of _ recs]) simp
qed

end

text \<open>The segments that a merge writes have identifiers of segments it replaces.\<close>

definition merged_within :: "uint32 \<Rightarrow> 'f disk \<Rightarrow> bool" where
  "merged_within prev k \<longleftrightarrow> (\<forall>md. merge_dir k = Some md \<longrightarrow> (\<forall>i \<in> fst ` set (md dataFileNameSuffix). i \<le> prev))"

text \<open>There is at most one hint file.\<close>

definition one_hint_file :: "'f disk \<Rightarrow> bool" where
  "one_hint_file k \<longleftrightarrow> distinct (map fst (data_dir k hintFileNameSuffix)) \<and> fst ` set (data_dir k hintFileNameSuffix) \<subseteq> {1}"

context store
begin

text \<open>What \<open>doMerge\<close> leaves, and what it means for an index of the hints.\<close>

lemma doMerge_files:
  assumes d: "dinv d" and e: "\<not> w_IsEmpty S (dataFiles d)" and h: "one_hint_file k"
    and small: "\<forall>r d1 k1. doMerge E S parses flt flt2 hold2 now closeErr d k = Some (r, d1, k1)
        \<longrightarrow> merged_within (w_ActiveSegmentID S (dataFiles d)) k1"
    and dm: "doMerge E S parses flt flt2 hold2 now closeErr d k = Some (Ok (), d1, k1)"
  obtains md rs ps where "merge_dir k1 = Some md" and "merge_copied (w_ActiveSegmentID S (dataFiles d)) rs ps md"
    and "distinct (map fst (data_dir k1 hintFileNameSuffix))" and "fst ` set (data_dir k1 hintFileNameSuffix) \<subseteq> {1}"
    and "rs = List.map_filter (kept_record E now (index d)) (wal_log (Wl E) (dataFiles d))" and "length ps = length rs"
    and "w_inv (dataFiles d1)" and "w_OpenNewActiveSegment S (dataFiles d) = (None, dataFiles d1)"
    and "wal_log (Wl E) (dataFiles d1) = wal_log (Wl E) (dataFiles d)"
    and "\<forall>x \<in> set (wal_log (Wl E) (dataFiles d1)). SegmentId (fst x) \<le> w_ActiveSegmentID S (dataFiles d)"
    and "d1 = d\<lparr>dataFiles := dataFiles d1, mu := mu d1, mergeRunning := False\<rparr>" and "idle d1" and "\<not> closed d1"
proof -
  let ?prev = "w_ActiveSegmentID S (dataFiles d)"
  obtain d2 where n: "w_OpenNewActiveSegment S (dataFiles d) = (None, dataFiles d2)" and i: "idle d2" "\<not> closed d2"
    and d2: "d2 = d\<lparr>dataFiles := dataFiles d2, mu := mu d2, mergeRunning := True\<rparr>" and d1: "d1 = d2\<lparr>mergeRunning := False\<rparr>"
    and mc: "merge_copy E S parses flt flt2 hold2 now closeErr ?prev (\<lambda>p. index d) d2 k = (Ok (), k1)"
    using doMerge_ok[OF dm e] by blast
  have w: "w_inv (dataFiles d)" using d by (simp add: db_inv_def)
  note nl = new_segment_log[OF w n]
  have w2: "w_inv (dataFiles d2)" using NewActive_ok[OF w n] by simp
  let ?cs = "filter (\<lambda>x. SegmentId (fst x) \<le> ?prev) (wal_log (Wl E) (dataFiles d2))"
  have cs: "?cs = wal_log (Wl E) (dataFiles d)" using nl(1,3) by (simp add: filter_id_conv)
  have fits: "\<forall>x \<in> set (wal_log (Wl E) (dataFiles d)). \<forall>r. kept_record E now (index d) x = Some r \<longrightarrow> record_fits r"
  proof (intro ballI allI impI)
    fix x r
    assume x: "x \<in> set (wal_log (Wl E) (dataFiles d))" "kept_record E now (index d) x = Some r"
    have "r \<in> set (List.map_filter (kept_record E now (index d)) (wal_log (Wl E) (dataFiles d)))"
      using x unfolding List.map_filter_def by force
    from kept_stored[OF d subset_refl this] obtain r0 where "r = r0\<lparr>BatchId := mergeFinishedBatchID\<rparr>" "good_record (Key r) r0" .
    then show "record_fits r" by (simp add: good_record_def record_fits_def)
  qed
  obtain md rs ps w0 h0 w' h' where md: "merge_dir k1 = Some md" "data_dir k1 = data_dir k"
    and rs: "rs = List.map_filter (kept_record E now (index d)) (wal_log (Wl E) (dataFiles d))"
    and z: "wal_log (Wl E) w0 = []" "pend w0 = []" "wal_log (Wl E) h0 = []" "one_seg h0" "merged rs ps w0 h0 w' h'"
    and mf: "md dataFileNameSuffix = w_Files S w'" "md hintFileNameSuffix = w_Files S h'" "map_of (md mergeFinNameSuffix) 1 \<noteq> None"
    and fin: "\<forall>dir. map_of (dir mergeFinNameSuffix) 1 = map_of (md mergeFinNameSuffix) 1 \<longrightarrow> getMergeFinSegmentId S no_fault dir = Ok ?prev"
    using merge_copy_ok[OF mc w2] fits unfolding cs by blast
  have sm: "\<forall>i \<in> fst ` set (md dataFileNameSuffix). i \<le> ?prev"
    using small[rule_format, OF dm] md(1) by (simp add: merged_within_def)
  have mcp: "merge_copied ?prev rs ps md" unfolding merge_copied_def using z mf fin sm by blast
  have hk: "distinct (map fst (data_dir k1 hintFileNameSuffix))" "fst ` set (data_dir k1 hintFileNameSuffix) \<subseteq> {1}"
    using h by (simp_all add: one_hint_file_def md(2))
  have len: "length ps = length rs" using z(5) by (simp add: merged_def)
  have l1: "w_OpenNewActiveSegment S (dataFiles d) = (None, dataFiles d1)" "w_inv (dataFiles d1)"
    "wal_log (Wl E) (dataFiles d1) = wal_log (Wl E) (dataFiles d)" "idle d1" "\<not> closed d1"
    using n w2 nl(1) i by (simp_all add: d1 idle_def)
  have "d1 = d\<lparr>dataFiles := dataFiles d1, mu := mu d1, mergeRunning := False\<rparr>" unfolding d1 by (subst d2, simp)
  then show ?thesis using that[OF md(1) mcp hk rs len l1(2,1,3)] l1 nl(3) by simp
qed

lemma merge_ok:
  assumes d: "dinv d" and e: "\<not> w_IsEmpty S (dataFiles d)" and h: "one_hint_file k"
    and neg: "\<forall>k r. stored_rec E d k = Some r \<longrightarrow> 0 \<le> sint (Expire r)"
    and small: "\<forall>r d1 k1. doMerge E S parses no_fault flt2 hold2 now closeErr d k = Some (r, d1, k1)
        \<longrightarrow> merged_within (w_ActiveSegmentID S (dataFiles d)) k1"
    and m: "db_Merge E S parses no_fault flt2 hold2 now closeErr now2 True d k = Some (Ok (), d', k')"
  shows "\<exists>d''. d' = Some d'' \<and> dinv d'' \<and> idle d'' \<and> \<not> closed d'' \<and> merge_dir k' = None
     \<and> (\<forall>t. sint now \<le> sint t \<longrightarrow> db_view E t d'' = db_view E t d)
     \<and> (\<forall>(p, c) \<in> set (wal_log (Wl E) (dataFiles d'')).
          \<exists>r. decodeLogRecord c = Some r \<and> stored_rec E d'' (Key r) = Some r \<and> \<not> IsExpired r now)"
proof -
  obtain d1 k1 where dm: "doMerge E S parses no_fault flt2 hold2 now closeErr d k = Some (Ok (), d1, k1)"
    and ro: "merge_reopen E S no_fault now2 d1 k1 = ((Ok (), k'), d')"
    using m by (auto simp: db_Merge_def split: option.splits prod.splits result.splits if_splits)
  show ?thesis
  proof (rule doMerge_files[OF d e h small dm])
    fix md rs ps
    assume f: "merge_dir k1 = Some md" "merge_copied (w_ActiveSegmentID S (dataFiles d)) rs ps md"
        "distinct (map fst (data_dir k1 hintFileNameSuffix))" "fst ` set (data_dir k1 hintFileNameSuffix) \<subseteq> {1}"
      and rs: "rs = List.map_filter (kept_record E now (index d)) (wal_log (Wl E) (dataFiles d))" and n: "length ps = length rs"
      and w1: "w_inv (dataFiles d1)" and ids: "\<forall>x \<in> set (wal_log (Wl E) (dataFiles d1)). SegmentId (fst x) \<le> w_ActiveSegmentID S (dataFiles d)"
      and d1: "d1 = d\<lparr>dataFiles := dataFiles d1, mu := mu d1, mergeRunning := False\<rparr>" and i: "idle d1" "\<not> closed d1"
    obtain mt where mt: "hint_index rs ps mt" using hint_index[OF n] by blast
    have none: "filter (\<lambda>x. w_ActiveSegmentID S (dataFiles d) < SegmentId (fst x)) (wal_log (Wl E) (dataFiles d1)) = []"
      using ids by (auto simp: filter_empty_conv not_less)
    obtain w k3 hh where r: "d' = Some (d1\<lparr>dataFiles := w, index := mt\<rparr>)"
      "merged_disk (w_ActiveSegmentID S (dataFiles d)) rs ps [] k3"
      "w_Open S dataFileNameSuffix (data_dir k3 dataFileNameSuffix) = Inr w"
      "k' = set_files hintFileNameSuffix (w_Files S hh) (set_files dataFileNameSuffix (w_Files S w) k3)"
      using merge_reopen_ok[OF ro w1 f mt none] by auto
    have wf: "w_inv w" "pend w = []" and l: "wal_log (Wl E) w = zip ps (map chunk_of rs)" and k': "merge_dir k' = None"
      using r(2-4) unfolding merged_disk_def by (auto simp: set_files_dirs)
    have hx: "mt_inv bt_inv mt" "\<And>k. mt_Get (Bt E) mt k = map_of (rev (zip (map Key rs) ps)) k" using mt by (simp_all add: hint_index_def)
    have sub: "set (zip ps (map chunk_of rs)) \<subseteq> set (wal_log (Wl E) w)" by (simp add: l)
    note ms = merged_state[OF d refl rs n neg hx wf sub]
    let ?d = "d1\<lparr>dataFiles := w, index := mt\<rparr>"
    have same: "db_inv E bt_inv w_inv pend ?d = dinv (d\<lparr>dataFiles := w, index := mt\<rparr>)"
      "stored_rec E ?d = stored_rec E (d\<lparr>dataFiles := w, index := mt\<rparr>)"
      "db_view E t ?d = db_view E t (d\<lparr>dataFiles := w, index := mt\<rparr>)" for t
      by (rule same_store; subst d1, simp)+
    have live: "\<exists>r. decodeLogRecord c = Some r \<and> stored_rec E ?d (Key r) = Some r \<and> \<not> IsExpired r now"
      if x: "(p, c) \<in> set (wal_log (Wl E) w)" for p c
    proof -
      obtain r where r: "r \<in> set rs" "c = chunk_of r" using set_zip_rightD[OF x[unfolded l]] by auto
      obtain r0 where r0: "r = r0\<lparr>BatchId := mergeFinishedBatchID\<rparr>" "good_record (Key r) r0" "Expire r0 = 0 \<or> now <s Expire r0"
        using kept_stored[OF d subset_refl r(1)[unfolded rs]] by blast
      have "record_fits r" "\<not> IsExpired r now"
        using r0 by (auto simp: good_record_def record_fits_def IsExpired_sint word_sless_alt)
      then show ?thesis using ms(2)[OF r(1)] decode_chunk_of r(2) by (auto simp: same(2))
    qed
    have "idle ?d" "\<not> closed ?d" using i by (simp_all add: idle_def)
    then show ?thesis
      using r(1) ms(1,3) same k' live by (intro exI[of _ ?d]) auto
  qed
qed

end

end
