(* ===== verification/Merge_Safe.thy ===== *)
theory Merge_Safe
  imports Merge_Correct
begin

text \<open>
  The properties of a merge, on the segmented reference instance: a finished merge keeps the
  view and leaves only live records; a merge that fails half way spoils the next opening.
\<close>

section \<open>The segmented instance\<close>

interpretation seg_st: store seg_env sorted_items seg_wal_inv sw_pending seg_disk_ops
  "\<lambda>w. fst ` set (sw_segs w) = {1}" seg_ok sw_seg_log
  using seg.engine_axioms seg_dk.disk_lib_axioms by (simp add: store_def seg_env_def disk_lib_def seg_wl.wal_lib_axioms)

definition seg_db :: "(item list, seg_wal) DB" where
  "seg_db = \<lparr>dataFiles = sw_Open [], index = NewIndexer list_btree,
             options = ref_options\<lparr>WatchQueueSize := 0\<rparr>, mu = \<lparr>writer = False, readers = 0\<rparr>, closed = False,
             mergeRunning = False, db_watcher = None, expiredCursorKey = []\<rparr>"

definition empty_disk :: "bytes list disk" where
  "empty_disk = \<lparr>data_dir = (\<lambda>sfx. []), merge_dir = None\<rparr>"

lemma seg_db_inv: "db_inv seg_env sorted_items seg_wal_inv sw_pending seg_db"
proof -
  have "mt_inv sorted_items (NewIndexer list_btree)" "\<And>k. mt_Get list_btree (NewIndexer list_btree) k = None"
    using seg.ix.new_law(1) seg.ix.get_new by (simp_all add: seg_env_def)
  then show ?thesis
    using sw_Open_spec(1)[of "[]"] by (simp add: db_inv_def seg_db_def seg_env_def) (simp add: sw_Open_def)
qed

text \<open>A key that is overwritten, one that stays, and one that expires before the merge.\<close>

definition merge_run :: "(ticket \<times> request) list" where
  "merge_run =
     [(\<lparr>batch_id = 1, t_op = 1, t_op2 = 1, t_commit = 1\<rparr>, ReqPut [1] [65]),
      (\<lparr>batch_id = 2, t_op = 2, t_op2 = 2, t_commit = 2\<rparr>, ReqPut [2] [66]),
      (\<lparr>batch_id = 3, t_op = 3, t_op2 = 3, t_commit = 3\<rparr>, ReqPutWithTTL [3] [67] 5),
      (\<lparr>batch_id = 4, t_op = 4, t_op2 = 4, t_commit = 4\<rparr>, ReqPut [1] [68])]"

definition before_merge :: "(item list, seg_wal) DB" where
  "before_merge = snd (the (db_run seg_env merge_run seg_db))"

lemma before_merge_inv: "db_inv seg_env sorted_items seg_wal_inv sw_pending before_merge"
proof -
  have i: "idle seg_db" "\<not> closed seg_db" by (simp_all add: idle_def seg_db_def)
  have c: "clock_ok 0 merge_run" "\<forall>(x, req) \<in> set merge_run. req_fits req"
    by (simp_all add: merge_run_def value_fits_def maxLogRecordHeaderSize_def)
  obtain d' rsps where "db_run seg_env merge_run seg_db = Some (rsps, d')" "db_inv seg_env sorted_items seg_wal_inv sw_pending d'"
    using seg.database_run[OF seg_db_inv i c] by blast
  then show ?thesis by (simp add: before_merge_def)
qed

text \<open>No stored record has a negative expiry time, as no record of the log has one.\<close>

lemma log_expiries:
  assumes "engine E bt_inv w_inv pend" and "db_inv E bt_inv w_inv pend d"
    and "list_all (\<lambda>x. case decodeLogRecord (snd x) of None \<Rightarrow> True | Some r \<Rightarrow> \<not> Expire r <s 0) (wal_log (Wl E) (dataFiles d))"
  shows "\<forall>k r. stored_rec E d k = Some r \<longrightarrow> 0 \<le> sint (Expire r)"
proof (intro allI impI)
  fix k r
  assume s: "stored_rec E d k = Some r"
  then obtain p where p: "mt_Get (Bt E) (index d) k = Some p" by (auto simp: stored_rec_def split: option.splits)
  obtain c r' where "decodeLogRecord c = Some r'" "stored_rec E d k = Some r'" "(p, c) \<in> set (wal_log (Wl E) (dataFiles d))"
    by (rule engine.stored[OF assms(1,2) p])
  then have "\<not> Expire r <s 0" using assms(3) s by (auto simp: list_all_iff)
  then show "0 \<le> sint (Expire r)" by (simp add: word_sless_alt)
qed

text \<open>The example meets what a merge is assumed to find.\<close>

lemma before_merge_ready:
  "\<not> w_IsEmpty seg_disk_ops (dataFiles before_merge)" "one_hint_file empty_disk"
  "\<forall>k r. stored_rec seg_env before_merge k = Some r \<longrightarrow> 0 \<le> sint (Expire r)"
  "\<forall>r d1 k1. doMerge seg_env seg_disk_ops (\<lambda>c. None) no_fault no_fault (Inr True) 20 None before_merge empty_disk
        = Some (r, d1, k1) \<longrightarrow> merged_within (w_ActiveSegmentID seg_disk_ops (dataFiles before_merge)) k1"
proof -
  show "\<not> w_IsEmpty seg_disk_ops (dataFiles before_merge)" by code_simp
  show "one_hint_file empty_disk" by (simp add: one_hint_file_def empty_disk_def)
  have "list_all (\<lambda>x. case decodeLogRecord (snd x) of None \<Rightarrow> True | Some r \<Rightarrow> \<not> Expire r <s 0)
      (wal_log (Wl seg_env) (dataFiles before_merge))" by code_simp
  from log_expiries[OF seg.engine_axioms before_merge_inv this]
  show "\<forall>k r. stored_rec seg_env before_merge k = Some r \<longrightarrow> 0 \<le> sint (Expire r)" .
  have "(case doMerge seg_env seg_disk_ops (\<lambda>c. None) no_fault no_fault (Inr True) 20 None before_merge empty_disk of
      Some (r, d1, k1) \<Rightarrow> (case merge_dir k1 of None \<Rightarrow> True
        | Some md \<Rightarrow> list_all (\<lambda>x. fst x \<le> w_ActiveSegmentID seg_disk_ops (dataFiles before_merge)) (md dataFileNameSuffix))
      | None \<Rightarrow> True)" by code_simp
  then show "\<forall>r d1 k1. doMerge seg_env seg_disk_ops (\<lambda>c. None) no_fault no_fault (Inr True) 20 None before_merge empty_disk
        = Some (r, d1, k1) \<longrightarrow> merged_within (w_ActiveSegmentID seg_disk_ops (dataFiles before_merge)) k1"
    by (auto simp: merged_within_def list_all_iff split: option.splits)
qed

text \<open>To take the outcome of an evaluated merge apart.\<close>

lemma merge_succeeded:
  "(case x of Some (Ok u, Some d, k) \<Rightarrow> P d k | _ \<Rightarrow> False) \<longleftrightarrow> (\<exists>d k. x = Some (Ok (), Some d, k) \<and> P d k)"
  by (cases x rule: option.exhaust; (cases "fst (the x)"; cases "fst (snd (the x))")?) (auto simp: prod_eq_iff split: prod.splits)

lemma merge_failed:
  "(case x of Some (Fail e, Some d, k) \<Rightarrow> P d k | _ \<Rightarrow> False) \<longleftrightarrow> (\<exists>e d k. x = Some (Fail e, Some d, k) \<and> P d k)"
  by (cases x rule: option.exhaust; (cases "fst (the x)"; cases "fst (snd (the x))")?) (auto simp: prod_eq_iff split: prod.splits)

lemma open_succeeded: "(case x of (Ok d, k) \<Rightarrow> P d k | _ \<Rightarrow> False) \<longleftrightarrow> (\<exists>d k. x = (Ok d, k) \<and> P d k)"
  by (cases x; cases "fst x") auto

text \<open>
  Both conditions of the merge property are needed. A time to live that makes the expiry time
  wrap around to a negative number leaves the pair readable (\<open>IsExpired\<close> asks for a positive
  time), yet \<open>doMerge\<close> writes it neither as a pair without expiry nor as a live one: a merge
  that reports success loses it.
\<close>

definition wrapped_expiry :: "(item list, seg_wal) DB" where
  "wrapped_expiry = snd (the (db_run seg_env
     [(\<lparr>batch_id = 1, t_op = 1, t_op2 = 1, t_commit = 1\<rparr>, ReqPutWithTTL [1] [65] 9223372036854775807)] seg_db))"

lemma merge_drops_wrapped_expiry:
  "map_option fst (db_view seg_env 20 wrapped_expiry [1]) = Some [65]
   \<and> (case db_Merge seg_env seg_disk_ops (\<lambda>c. None) no_fault no_fault (Inr True) 20 None 21 True wrapped_expiry empty_disk of
        Some (Ok u, Some d, k) \<Rightarrow> db_view seg_env 20 d [1] = None
      | _ \<Rightarrow> False)"
  by code_simp

text \<open>
  And \<open>loadMergeFiles\<close> moves only the segments that the mark of the end counts. A segment of
  the merge beyond it is in neither directory afterwards: with a smaller segment size than the
  old segments were written with, the merge can have more segments than the log had.
\<close>

lemma segments_beyond_are_lost:
  assumes "merge_dir k = Some md" and "getMergeFinSegmentId S no_fault md = Ok m"
    and "map_of (md dataFileNameSuffix) j = Some f" and "m < j"
  shows "\<exists>k'. loadMergeFiles S no_fault k = (Ok (), k') \<and> merge_dir k' = None
     \<and> map_of (data_dir k' dataFileNameSuffix) j = map_of (data_dir k dataFileNameSuffix) j"
  using loadMergeFiles_none[OF assms(1,2)] assms(4) by (metis not_le)

section \<open>Properties\<close>

text \<open>
  Property C8. \<open>Merge(true)\<close> keeps what readers see. On a well-formed database with a non-empty
  log and at most one hint file, with no fault of the file system, and as long as the merged segments replace old ones (their
  identifiers are not beyond the last old segment) and no expiry time has wrapped around to
  a negative number, a merge that reports success leaves an open, unlocked, well-formed
  database with the view of the old one at every time from the merge on. No merge directory
  is left, and the log has been cleaned: each of its records is the stored record of its
  key and had not expired. Without the conditions on the segments and on the expiry times a
  merge can lose data: Lemmas \<open>segments_beyond_are_lost\<close> and \<open>merge_drops_wrapped_expiry\<close>.
\<close>

theorem merge_preserves_view:
  assumes "engine E bt_inv w_inv pend" and "disk_lib (Wl E) w_inv pend S one_seg seg_ok seg_log"
    and "db_inv E bt_inv w_inv pend d" and "\<not> w_IsEmpty S (dataFiles d)" and "one_hint_file k"
    and "\<forall>k r. stored_rec E d k = Some r \<longrightarrow> 0 \<le> sint (Expire r)"
    and "\<forall>r d1 k1. doMerge E S parses no_fault flt2 hold2 now closeErr d k = Some (r, d1, k1)
        \<longrightarrow> merged_within (w_ActiveSegmentID S (dataFiles d)) k1"
    and "db_Merge E S parses no_fault flt2 hold2 now closeErr now2 True d k = Some (Ok (), d', k')"
  shows "\<exists>d''. d' = Some d'' \<and> db_inv E bt_inv w_inv pend d'' \<and> idle d'' \<and> \<not> closed d'' \<and> merge_dir k' = None
     \<and> (\<forall>t. sint now \<le> sint t \<longrightarrow> db_view E t d'' = db_view E t d)
     \<and> (\<forall>(p, c) \<in> set (wal_log (Wl E) (dataFiles d'')).
          \<exists>r. decodeLogRecord c = Some r \<and> stored_rec E d'' (Key r) = Some r \<and> \<not> IsExpired r now)"
  by (rule store.merge_ok[OF store.intro[OF assms(1,2)] assms(3-8)])

definition example_merge where
  "example_merge = db_Merge seg_env seg_disk_ops (\<lambda>c. None) no_fault no_fault (Inr True) 20 None 21 True before_merge empty_disk"

theorem merge_preserves_view_witness:
  "\<exists>d'' k'. example_merge = Some (Ok (), Some d'', k') \<and> merge_dir k' = None
     \<and> (\<forall>t. sint (20 :: int64) \<le> sint t \<longrightarrow> db_view seg_env t d'' = db_view seg_env t before_merge)
     \<and> length (wal_log (Wl seg_env) (dataFiles before_merge)) = 8 \<and> length (wal_log (Wl seg_env) (dataFiles d'')) = 2"
proof -
  have "(case example_merge of Some (Ok u, Some d, k) \<Rightarrow> length (wal_log (Wl seg_env) (dataFiles d)) = 2 | _ \<Rightarrow> False)"
    by code_simp
  then obtain d'' k' where m: "example_merge = Some (Ok (), Some d'', k')"
    and l: "length (wal_log (Wl seg_env) (dataFiles d'')) = 2"
    unfolding merge_succeeded by blast
  have l0: "length (wal_log (Wl seg_env) (dataFiles before_merge)) = 8" by code_simp
  have dl: "disk_lib (Wl seg_env) seg_wal_inv sw_pending seg_disk_ops (\<lambda>w. fst ` set (sw_segs w) = {1}) seg_ok sw_seg_log"
    by (rule seg_st.disk_lib_axioms)
  from merge_preserves_view[OF seg.engine_axioms dl before_merge_inv before_merge_ready m[unfolded example_merge_def]]
  show ?thesis using m l l0 by blast
qed

text \<open>The file that marks the end of a merge cannot be made, say on a full disk.\<close>

definition full_disk_ops :: "(seg_wal, bytes list) disk_ops" where
  "full_disk_ops = seg_disk_ops
     \<lparr>w_Open := (\<lambda>sfx fs. if sfx = mergeFinNameSuffix then Inl (ErrExternal 3) else Inr (sw_Open fs))\<rparr>"

definition merged_once :: "(item list, seg_wal) DB \<times> bytes list disk" where
  "merged_once = (case example_merge of Some (r, Some d, k) \<Rightarrow> (d, k) | _ \<Rightarrow> (seg_db, empty_disk))"

definition after_delete :: "(item list, seg_wal) DB" where
  "after_delete = snd (the (db_run seg_env [(\<lparr>batch_id = 5, t_op = 22, t_op2 = 22, t_commit = 22\<rparr>, ReqDelete [2])] (fst merged_once)))"

definition second_merge where
  "second_merge = db_Merge seg_env full_disk_ops (\<lambda>c. None) no_fault no_fault (Inr True) 23 None 24 True after_delete (snd merged_once)"

text \<open>
  Property C36. A merge that does not get to its end can spoil the data. There is a run from
  an empty database: some writes, a successful merge, a delete of the second key, and a
  second merge that fails because the mark of its end cannot be written. The running
  database still answers correctly; opened again on the same directory, without any
  further fault, it answers the first key with the deleted value of the second. For
  \<open>loadMergeFiles\<close> moves the hint file of a merge whether it was finished or not.
\<close>

theorem interrupted_merge_mixes_values:
  "\<exists>e d1 k1 d2 k2. second_merge = Some (Fail e, Some d1, k1)
     \<and> db_view seg_env 25 d1 [1] = Some ([68], 0) \<and> db_view seg_env 25 d1 [2] = None
     \<and> Open seg_env seg_disk_ops (\<lambda>c. None) no_fault (Inr True) 25 (options d1)
         (set_files dataFileNameSuffix (w_Files seg_disk_ops (dataFiles d1)) k1) = (Ok d2, k2)
     \<and> db_view seg_env 25 d2 [1] = Some ([66], 0)"
proof -
  have "(case second_merge of
      Some (Fail e, Some d1, k1) \<Rightarrow>
        db_view seg_env 25 d1 [1] = Some ([68], 0) \<and> db_view seg_env 25 d1 [2] = None
        \<and> (case Open seg_env seg_disk_ops (\<lambda>c. None) no_fault (Inr True) 25 (options d1)
               (set_files dataFileNameSuffix (w_Files seg_disk_ops (dataFiles d1)) k1) of
             (Ok d2, k2) \<Rightarrow> db_view seg_env 25 d2 [1] = Some ([66], 0) | _ \<Rightarrow> False)
    | _ \<Rightarrow> False)"
    by code_simp
  then show ?thesis unfolding merge_failed open_succeeded by blast
qed

end
