(* ===== verification/Reopen.thy ===== *)
theory Reopen
  imports Merge_Safe
begin

text \<open>
  \<open>Open\<close> on a directory without merge files, through the file system: it loads the log of the
  segment files, and what a run of requests has made is there again after the files are
  opened anew.
\<close>

section \<open>Opening a plain directory\<close>

text \<open>Nothing is left of a merge: no merge directory, no mark, no hints.\<close>

definition plain_dir :: "('t, 'w) env \<Rightarrow> ('w, 'f) disk_ops \<Rightarrow> ('w \<Rightarrow> bool) \<Rightarrow> 'f disk \<Rightarrow> bool" where
  "plain_dir E S w_inv k \<longleftrightarrow> merge_dir k = None \<and> map_of (data_dir k mergeFinNameSuffix) 1 = None
     \<and> (\<forall>h. w_Open S hintFileNameSuffix (data_dir k hintFileNameSuffix) = Inr h \<longrightarrow> w_inv h \<and> wal_log (Wl E) h = [])"

text \<open>The log can be opened on any files.\<close>

definition opens :: "('w, 'f) disk_ops \<Rightarrow> bool" where
  "opens S \<longleftrightarrow> (\<forall>sfx fs. \<exists>w. w_Open S sfx fs = Inr w)"

context store
begin

lemma chunks_eof: "w_inv w \<Longrightarrow> w_Chunks (Wl E) w = (wal_log (Wl E) w, None)"
  using Chunks_eof[of w] by (simp add: wal_log_def prod_eq_iff)

lemma Open_plain:
  assumes p: "plain_dir E S w_inv k" and o: "opens S" and c: "checkOptions parses opts = Ok ()"
    and fs: "\<forall>(i, f) \<in> set (data_dir k dataFileNameSuffix). seg_ok i f \<and> 0 < i" "distinct (map fst (data_dir k dataFileNameSuffix))"
  obtains w h where "w_Open S dataFileNameSuffix (data_dir k dataFileNameSuffix) = Inr w"
    and "w_Open S hintFileNameSuffix (data_dir k hintFileNameSuffix) = Inr h"
    and "Open E S parses no_fault (Inr True) now opts k =
      (case open_log E now opts w of
         Ok d \<Rightarrow> (Ok d, set_files hintFileNameSuffix (w_Files S h) (set_files dataFileNameSuffix (w_Files S w) k))
       | Fail e \<Rightarrow> (Fail e, set_files hintFileNameSuffix (w_Files S h) (set_files dataFileNameSuffix (w_Files S w) k))
       | Panic \<Rightarrow> (Panic, set_files hintFileNameSuffix (w_Files S h) (set_files dataFileNameSuffix (w_Files S w) k)))"
proof -
  obtain w where w: "w_Open S dataFileNameSuffix (data_dir k dataFileNameSuffix) = Inr w" using o by (auto simp: opens_def)
  obtain h where h: "w_Open S hintFileNameSuffix (data_dir k hintFileNameSuffix) = Inr h" using o by (auto simp: opens_def)
  have hi: "w_inv h" "wal_log (Wl E) h = []" using p h by (auto simp: plain_dir_def)
  let ?k = "set_files hintFileNameSuffix (w_Files S h) (set_files dataFileNameSuffix (w_Files S w) k)"
  have l: "loadMergeFiles S no_fault k = (Ok (), k)" using p by (simp add: loadMergeFiles_def plain_dir_def)
  have li: "loadIndex E S no_fault now (new_db E opts w) (set_files dataFileNameSuffix (w_Files S w) k)
      = (loadIndexFromWAL E [1] 0 now (new_db E opts w), ?k)"
  proof -
    have wi: "w_inv w" using Open_law[OF w fs] by simp
    have "0 < w_ActiveSegmentID S w" using Active_file[OF wi] Files_ok[OF wi] by fastforce
    then have "\<not> (\<forall>i \<in> set (map fst (w_Files S w)). i \<le> 0)" using Active_file[OF wi] by (force simp: not_le)
    then have seg: "loadIndexFromWAL E (map fst (w_Files S w)) 0 now (new_db E opts w) = loadIndexFromWAL E [1] 0 now (new_db E opts w)"
      unfolding loadIndexFromWAL_def by (simp only: if_not_P) simp
    have "loadIndexFromHintFile E S (new_db E opts w) (set_files dataFileNameSuffix (w_Files S w) k) = (Ok (new_db E opts w), ?k)"
      by (simp add: loadIndexFromHintFile_def set_files_dirs h chunks_eof[OF hi(1)] hi(2))
    moreover have "getMergeFinSegmentId S no_fault (data_dir ?k) = Ok 0"
      using p by (simp add: getMergeFinSegmentId_def set_files_dirs plain_dir_def)
    ultimately show ?thesis using seg by (simp add: loadIndex_def new_db_def)
  qed
  have cr: "AutoMergeCronExpr opts \<noteq> [] \<Longrightarrow> parses (AutoMergeCronExpr opts) = None"
    using c by (auto simp: checkOptions_def split: if_splits option.splits)
  show ?thesis
    by (rule that[OF w h])
      (simp add: Open_def c l w li cr open_log_def split: result.split)
qed

text \<open>The directory stays plain.\<close>

lemma plain_after:
  assumes p: "plain_dir E S w_inv k" and h: "w_Open S hintFileNameSuffix (data_dir k hintFileNameSuffix) = Inr h"
  shows "plain_dir E S w_inv (set_files dataFileNameSuffix fs (set_files hintFileNameSuffix (w_Files S h) (set_files dataFileNameSuffix gs k)))"
proof -
  have hi: "w_inv h" "wal_log (Wl E) h = []" using p h by (auto simp: plain_dir_def)
  have ok: "\<forall>(i, f) \<in> set (w_Files S h). seg_ok i f \<and> 0 < i" using Files_ok[OF hi(1)] by blast
  have "w_inv h' \<and> wal_log (Wl E) h' = []" if "w_Open S hintFileNameSuffix (w_Files S h) = Inr h'" for h'
    using Open_law[OF that ok Files_distinct[OF hi(1)]] Files_log[OF hi(1)] hi(2) by simp
  then show ?thesis using p by (simp add: plain_dir_def set_files_dirs)
qed

text \<open>The first opening, of an empty directory.\<close>

lemma Open_empty:
  assumes p: "plain_dir E S w_inv k" "data_dir k dataFileNameSuffix = []" and o: "opens S" and c: "checkOptions parses opts = Ok ()"
  obtains d k' where "Open E S parses no_fault (Inr True) now opts k = (Ok d, k')"
    and "dinv d" and "idle d" and "\<not> closed d" and "wal_log (Wl E) (dataFiles d) = []" and "options d = opts"
    and "\<And>t. db_view E t d = (\<lambda>x. None)" and "\<And>fs. plain_dir E S w_inv (set_files dataFileNameSuffix fs k')"
proof -
  obtain w h where w: "w_Open S dataFileNameSuffix (data_dir k dataFileNameSuffix) = Inr w"
    and h: "w_Open S hintFileNameSuffix (data_dir k hintFileNameSuffix) = Inr h"
    and e: "Open E S parses no_fault (Inr True) now opts k =
      (case open_log E now opts w of
         Ok d \<Rightarrow> (Ok d, set_files hintFileNameSuffix (w_Files S h) (set_files dataFileNameSuffix (w_Files S w) k))
       | Fail e \<Rightarrow> (Fail e, set_files hintFileNameSuffix (w_Files S h) (set_files dataFileNameSuffix (w_Files S w) k))
       | Panic \<Rightarrow> (Panic, set_files hintFileNameSuffix (w_Files S h) (set_files dataFileNameSuffix (w_Files S w) k)))"
    using Open_plain[OF p(1) o c, of now] p(2) by auto
  note f = open_fresh[OF w[unfolded p(2)]]
  let ?n = "new_db E opts w"
  have l: "open_log E now opts w = Ok (enable_watch ?n)"
    by (simp add: open_log_def loadIndexFromWAL_def new_db_def chunks_eof[OF f(1)] f(3))
  have none: "mt_Get (Bt E) (NewIndexer (Bt E)) x = None" for x by (rule ix.get_new)
  have "dinv (?n\<lparr>db_watcher := Some (NewWatcher (WatchQueueSize opts))\<rparr>)" if "0 < WatchQueueSize opts"
    using f ix.new_law(1) none NewWatcher_inv(1)[of "WatchQueueSize opts"] that by (simp add: db_inv_def new_db_def)
  moreover have "dinv ?n" if "\<not> 0 < WatchQueueSize opts"
    using f ix.new_law(1) none that by (simp add: db_inv_def new_db_def)
  ultimately have i: "dinv (enable_watch ?n)" by (auto simp: enable_watch_def new_db_def)
  have v: "db_view E t (enable_watch ?n) = (\<lambda>x. None)" for t
    using none by (simp add: db_view_def stored_rec_def new_db_def fun_eq_iff)
  show ?thesis
    by (rule that[of "enable_watch ?n"]) (use e l i v f(3) plain_after[OF p(1) h] in \<open>auto simp: new_db_def idle_def enable_watch_def\<close>)
qed

text \<open>Opening the files of a log that can be recovered.\<close>

lemma Open_again:
  assumes p: "plain_dir E S w_inv k" and fs: "data_dir k dataFileNameSuffix = w_Files S (dataFiles d)" and o: "opens S"
    and c: "checkOptions parses (options d) = Ok ()" and r: "recoverable t {} d" and d: "dinv d"
  obtains d' k' where "Open E S parses no_fault (Inr True) t (options d) k = (Ok d', k')" and "dinv d'" and "idle d'"
    and "\<not> closed d'" and "\<And>t'. sint t \<le> sint t' \<Longrightarrow> db_view E t' d' = db_view E t' d"
proof -
  have wi: "w_inv (dataFiles d)" using d by (simp add: db_inv_def)
  have ok: "\<forall>(i, f) \<in> set (w_Files S (dataFiles d)). seg_ok i f \<and> 0 < i" using Files_ok[OF wi] by blast
  obtain w h where w: "w_Open S dataFileNameSuffix (data_dir k dataFileNameSuffix) = Inr w"
    and e: "Open E S parses no_fault (Inr True) t (options d) k =
      (case open_log E t (options d) w of
         Ok d \<Rightarrow> (Ok d, set_files hintFileNameSuffix (w_Files S h) (set_files dataFileNameSuffix (w_Files S w) k))
       | Fail e \<Rightarrow> (Fail e, set_files hintFileNameSuffix (w_Files S h) (set_files dataFileNameSuffix (w_Files S w) k))
       | Panic \<Rightarrow> (Panic, set_files hintFileNameSuffix (w_Files S h) (set_files dataFileNameSuffix (w_Files S w) k)))"
    using Open_plain[OF p o c ok[folded fs] Files_distinct[OF wi, folded fs], of t] by blast
  have wf: "w_inv w" "pend w = []" "wal_log (Wl E) w = wal_log (Wl E) (dataFiles d)"
    using Open_law[OF w[unfolded fs] ok Files_distinct[OF wi]] Files_log[OF wi] by simp_all
  let ?d = "d\<lparr>dataFiles := w\<rparr>"
  have sub: "set (wal_log (Wl E) (dataFiles x)) \<subseteq> set (wal_log (Wl E) w)" if "dataFiles x = dataFiles d" for x :: "('t, 'w) DB"
    using that wf(3) by simp
  note gd = grown_log[OF d wf(1,2) sub[OF refl]]
  obtain mt recs where m: "load_chunks E t (wal_log (Wl E) (dataFiles d)) (NewIndexer (Bt E), []) = Ok (mt, recs)"
    "dinv (d\<lparr>index := mt\<rparr>)" "\<forall>j. j \<notin> {} \<longrightarrow> get_records recs j = []"
    "\<And>t'. sint t \<le> sint t' \<Longrightarrow> db_view E t' (d\<lparr>index := mt\<rparr>) = db_view E t' d"
    using r unfolding log_recoverable_def by blast
  have "dataFiles (d\<lparr>index := mt\<rparr>) = dataFiles d" by simp
  note gm = grown_log[OF m(2) wf(1,2) sub[OF this]]
  have sw: "d\<lparr>index := mt, dataFiles := w\<rparr> = ?d\<lparr>index := mt\<rparr>" by simp
  have "recoverable t {} ?d"
    unfolding log_recoverable_def using m(1,3,4) gm gd wf(3) unfolding sw by (intro exI[of _ mt] exI[of _ recs]) auto
  moreover have "\<forall>x \<in> set (wal_log (Wl E) (dataFiles ?d)). 0 < SegmentId (fst x)"
  proof
    fix x
    assume "x \<in> set (wal_log (Wl E) (dataFiles ?d))"
    then obtain i where "x \<in> set (seg_chunks seg_log (w_Files S (dataFiles d)) i)"
      unfolding wf(3)[symmetric] using wf(3) Files_log[OF wi] by (auto simp: dir_log_def seg_chunks_def)
    then obtain f where "(i, f) \<in> set (w_Files S (dataFiles d))" "x \<in> set (seg_log i f)"
      by (cases "map_of (w_Files S (dataFiles d)) i") (auto simp: seg_chunks_def dest: map_of_SomeD)
    then show "0 < SegmentId (fst x)" using seg_positions[of i f "fst x" "snd x"] Files_ok[OF wi] by auto
  qed
  ultimately obtain d' where "open_log E t (options ?d) (dataFiles ?d) = Ok d'" "dinv d'" "idle d'" "\<not> closed d'"
    and v: "\<And>t'. sint t \<le> sint t' \<Longrightarrow> db_view E t' d' = db_view E t' ?d"
    using open_recoverable[of t ?d] gd(1) by blast
  then show ?thesis using that[of d'] e gd(3) by simp
qed

text \<open>Open, run, and open again.\<close>

lemma reopen_run:
  assumes p: "plain_dir E S w_inv k" "data_dir k dataFileNameSuffix = []" and o: "opens S" and c: "checkOptions parses opts = Ok ()"
    and xs: "clock_ok now xs" "\<forall>(x, req) \<in> set xs. req_fits req \<and> batch_id x \<noteq> 0" and t: "sint (clock_end now xs) \<le> sint t"
  shows "\<exists>d k' rsps d'. Open E S parses no_fault (Inr True) now opts k = (Ok d, k') \<and> db_run E xs d = Some (rsps, d')
     \<and> (no_log_error rsps \<longrightarrow>
         (\<exists>d'' k''. Open E S parses no_fault (Inr True) t opts (set_files dataFileNameSuffix (w_Files S (dataFiles d')) k') = (Ok d'', k'')
           \<and> dinv d'' \<and> idle d'' \<and> \<not> closed d'' \<and> (\<forall>t'. sint t \<le> sint t' \<longrightarrow> db_view E t' d'' = db_view E t' d')))"
proof -
  obtain d k' where d: "Open E S parses no_fault (Inr True) now opts k = (Ok d, k')" "dinv d" "idle d" "\<not> closed d"
    "wal_log (Wl E) (dataFiles d) = []" "options d = opts" and pl: "\<And>fs. plain_dir E S w_inv (set_files dataFileNameSuffix fs k')"
    using Open_empty[OF p o c, of now] by blast
  have fits: "\<forall>(x, req) \<in> set xs. req_fits req" and ids: "\<forall>(x, req) \<in> set xs. batch_id x \<noteq> 0" using xs(2) by auto
  obtain faults d' where r: "db_run E xs d = Some (fst (kv_run (zip xs faults) (db_map E d)), d')" "settled d d'"
    using run_refines[OF d(2-4) rep_db_map[OF d(2)] xs(1) fits] by blast
  let ?rsps = "fst (kv_run (zip xs faults) (db_map E d))"
  have i': "dinv d'" "options d' = opts" using r(2) d(6) by (simp_all add: settled_def)
  have "\<exists>d'' k''. Open E S parses no_fault (Inr True) t opts (set_files dataFileNameSuffix (w_Files S (dataFiles d')) k') = (Ok d'', k'')
           \<and> dinv d'' \<and> idle d'' \<and> \<not> closed d'' \<and> (\<forall>t'. sint t \<le> sint t' \<longrightarrow> db_view E t' d'' = db_view E t' d')"
    if "no_log_error ?rsps"
  proof -
    have rec: "recoverable t {} d'" by (rule run_recoverable[OF d(2-5) xs r(1) that t])
    have fs: "data_dir (set_files dataFileNameSuffix (w_Files S (dataFiles d')) k') dataFileNameSuffix = w_Files S (dataFiles d')"
      by (simp add: set_files_dirs)
    have c': "checkOptions parses (options d') = Ok ()" using c i'(2) by simp
    from Open_again[OF pl fs o c' rec i'(1)] i'(2) show ?thesis by metis
  qed
  then show ?thesis using d(1) r(1) by blast
qed

end

section \<open>Properties\<close>

text \<open>
  Property C6. Durability through the file system. \<open>Open\<close> succeeds on an empty directory whose
  files can be opened. Any run of requests in the order of the clock, under nonzero batch
  identifiers, ends; and if no answer reports an error of the log, \<open>Open\<close> on the files that
  the run has left succeeds at any later time, and gives an open, unlocked, well-formed
  database in which every reader from that time on sees what the first one held.
\<close>

theorem reopen_preserves_database:
  assumes "engine E bt_inv w_inv pend" and "disk_lib (Wl E) w_inv pend S one_seg seg_ok seg_log"
    and "plain_dir E S w_inv k" and "data_dir k dataFileNameSuffix = []" and "opens S" and "checkOptions parses opts = Ok ()"
    and "clock_ok now xs" and "\<forall>(x, req) \<in> set xs. req_fits req \<and> batch_id x \<noteq> 0" and "sint (clock_end now xs) \<le> sint t"
  shows "\<exists>d k' rsps d'. Open E S parses no_fault (Inr True) now opts k = (Ok d, k') \<and> db_run E xs d = Some (rsps, d')
     \<and> (no_log_error rsps \<longrightarrow>
         (\<exists>d'' k''. Open E S parses no_fault (Inr True) t opts (set_files dataFileNameSuffix (w_Files S (dataFiles d')) k') = (Ok d'', k'')
           \<and> db_inv E bt_inv w_inv pend d'' \<and> idle d'' \<and> \<not> closed d''
           \<and> (\<forall>t'. sint t \<le> sint t' \<longrightarrow> db_view E t' d'' = db_view E t' d')))"
  by (rule store.reopen_run[OF store.intro[OF assms(1,2)] assms(3-9)])

lemma empty_disk_plain: "plain_dir seg_env seg_disk_ops seg_wal_inv empty_disk"
  using sw_Open_spec[of "[]"] by (simp add: plain_dir_def empty_disk_def seg_disk_ops_def wal_log_def seg_env_def seg_wal_ops_def dir_log_def)

lemma seg_opens: "opens seg_disk_ops"
  by (simp add: opens_def seg_disk_ops_def)

theorem reopen_preserves_database_witness:
  "\<exists>d k' rsps d' d'' k''.
     Open seg_env seg_disk_ops (\<lambda>c. None) no_fault (Inr True) 0 ref_options empty_disk = (Ok d, k')
     \<and> db_run seg_env merge_run d = Some (rsps, d')
     \<and> Open seg_env seg_disk_ops (\<lambda>c. None) no_fault (Inr True) 20 ref_options
         (set_files dataFileNameSuffix (w_Files seg_disk_ops (dataFiles d')) k') = (Ok d'', k'')
     \<and> (\<forall>t'. sint (20 :: int64) \<le> sint t' \<longrightarrow> db_view seg_env t' d'' = db_view seg_env t' d')
     \<and> db_view seg_env 20 d'' [1] = Some ([68], 0)"
proof -
  have c: "checkOptions (\<lambda>c. None) ref_options = Ok ()" by code_simp
  have xs: "clock_ok 0 merge_run" "\<forall>(x, req) \<in> set merge_run. req_fits req \<and> batch_id x \<noteq> 0"
    by (simp_all add: merge_run_def value_fits_def maxLogRecordHeaderSize_def)
  have t: "sint (clock_end 0 merge_run) \<le> sint (20 :: int64)" by (simp add: merge_run_def)
  have e: "data_dir empty_disk dataFileNameSuffix = []" by (simp add: empty_disk_def)
  have dl: "disk_lib (Wl seg_env) seg_wal_inv sw_pending seg_disk_ops (\<lambda>w. fst ` set (sw_segs w) = {1}) seg_ok sw_seg_log"
    by (rule seg_st.disk_lib_axioms)
  from reopen_preserves_database[OF seg.engine_axioms dl empty_disk_plain e seg_opens c xs t]
  obtain d k' rsps d' where o: "Open seg_env seg_disk_ops (\<lambda>c. None) no_fault (Inr True) 0 ref_options empty_disk = (Ok d, k')"
    and r: "db_run seg_env merge_run d = Some (rsps, d')"
    and again: "no_log_error rsps \<longrightarrow> (\<exists>d'' k''. Open seg_env seg_disk_ops (\<lambda>c. None) no_fault (Inr True) 20 ref_options
         (set_files dataFileNameSuffix (w_Files seg_disk_ops (dataFiles d')) k') = (Ok d'', k'')
         \<and> (\<forall>t'. sint (20 :: int64) \<le> sint t' \<longrightarrow> db_view seg_env t' d'' = db_view seg_env t' d'))"
    by blast
  have "(case Open seg_env seg_disk_ops (\<lambda>c. None) no_fault (Inr True) 0 ref_options empty_disk of
      (Ok d, k) \<Rightarrow> (case db_run seg_env merge_run d of None \<Rightarrow> False
        | Some (rsps, d') \<Rightarrow> rsps = [RspDone (Ok ()), RspDone (Ok ()), RspDone (Ok ()), RspDone (Ok ())]
            \<and> db_view seg_env 20 d' [1] = Some ([68], 0))
      | _ \<Rightarrow> False)" by code_simp
  then have "no_log_error rsps" "db_view seg_env 20 d' [1] = Some ([68], 0)"
    using o r by (auto simp: no_log_error_def)
  then show ?thesis using o r again by fastforce
qed

end
