(* ===== verification/Replay.thy ===== *)
theory Replay
  imports Request_Log Restart
begin

text \<open>
  An index over a set of chunks holds a view, whether or not a log with these chunks exists
  yet. While requests add batches to the log of the running database, the index that a later
  opening will build, from an index of hints and the chunks written since, holds the
  view of the running database. It need not be made from the same old chunks.
\<close>

section \<open>Indexes over chunks\<close>

definition holds ::
    "('t, 'w) env \<Rightarrow> ('t \<Rightarrow> bool) \<Rightarrow> int64 \<Rightarrow> (chunk_position \<times> bytes) set \<Rightarrow> 't MemoryBTree
       \<Rightarrow> (int64 \<Rightarrow> bytes \<Rightarrow> (bytes \<times> int64) option) \<Rightarrow> bool" where
  "holds E bt_inv t0 K mt V \<longleftrightarrow> mt_inv bt_inv mt
     \<and> (\<forall>k. case mt_Get (Bt E) mt k of
           None \<Rightarrow> \<forall>t. sint t0 \<le> sint t \<longrightarrow> V t k = None
         | Some p \<Rightarrow> \<exists>c r. (p, c) \<in> K \<and> decodeLogRecord c = Some r \<and> good_record k r
             \<and> (\<forall>t. sint t0 \<le> sint t \<longrightarrow> V t k = visible t r))"

lemma holds_some:
  assumes "holds E bt_inv t0 K mt V" and "mt_Get (Bt E) mt k = Some p"
  shows "\<exists>c r. (p, c) \<in> K \<and> decodeLogRecord c = Some r \<and> good_record k r \<and> (\<forall>t. sint t0 \<le> sint t \<longrightarrow> V t k = visible t r)"
proof -
  have "case mt_Get (Bt E) mt k of
           None \<Rightarrow> \<forall>t. sint t0 \<le> sint t \<longrightarrow> V t k = None
         | Some p \<Rightarrow> \<exists>c r. (p, c) \<in> K \<and> decodeLogRecord c = Some r \<and> good_record k r
             \<and> (\<forall>t. sint t0 \<le> sint t \<longrightarrow> V t k = visible t r)"
    using assms(1) unfolding holds_def by blast
  then show ?thesis by (simp only: assms(2) option.case)
qed

lemma holds_none:
  assumes "holds E bt_inv t0 K mt V" and "mt_Get (Bt E) mt k = None" and "sint t0 \<le> sint t"
  shows "V t k = None"
proof -
  have "case mt_Get (Bt E) mt k of
           None \<Rightarrow> \<forall>t. sint t0 \<le> sint t \<longrightarrow> V t k = None
         | Some p \<Rightarrow> \<exists>c r. (p, c) \<in> K \<and> decodeLogRecord c = Some r \<and> good_record k r
             \<and> (\<forall>t. sint t0 \<le> sint t \<longrightarrow> V t k = visible t r)"
    using assms(1) unfolding holds_def by blast
  then show ?thesis using assms(3) by (simp only: assms(2) option.case)
qed

lemma holds_mono:
  assumes "holds E bt_inv t0 K mt V" and "K \<subseteq> K'" and "sint t0 \<le> sint t1" and "\<forall>t. sint t1 \<le> sint t \<longrightarrow> V' t = V t"
  shows "holds E bt_inv t1 K' mt V'"
proof -
  have l: "sint t0 \<le> sint t" if "sint t1 \<le> sint t" for t using assms(3) that by simp
  have "case mt_Get (Bt E) mt k of
           None \<Rightarrow> \<forall>t. sint t1 \<le> sint t \<longrightarrow> V' t k = None
         | Some p \<Rightarrow> \<exists>c r. (p, c) \<in> K' \<and> decodeLogRecord c = Some r \<and> good_record k r
             \<and> (\<forall>t. sint t1 \<le> sint t \<longrightarrow> V' t k = visible t r)" for k
    using assms l unfolding holds_def by (cases "mt_Get (Bt E) mt k") (fastforce dest: spec[of _ k])+
  then show ?thesis using assms(1) by (simp add: holds_def)
qed

context engine
begin

lemma holds_db:
  assumes "dinv d"
  shows "holds E bt_inv t0 (set (wal_log (Wl E) (dataFiles d))) (index d) (\<lambda>t. db_view E t d)"
proof -
  have "case mt_Get (Bt E) (index d) k of
           None \<Rightarrow> \<forall>t. sint t0 \<le> sint t \<longrightarrow> db_view E t d k = None
         | Some p \<Rightarrow> \<exists>c r. (p, c) \<in> set (wal_log (Wl E) (dataFiles d)) \<and> decodeLogRecord c = Some r \<and> good_record k r
             \<and> (\<forall>t. sint t0 \<le> sint t \<longrightarrow> db_view E t d k = visible t r)" for k
  proof (cases "mt_Get (Bt E) (index d) k")
    case None
    then show ?thesis using not_stored[OF None] by (simp add: db_view_def)
  next
    case (Some p)
    from stored[OF assms this] obtain c r where "decodeLogRecord c = Some r" "good_record k r" "stored_rec E d k = Some r"
      "(p, c) \<in> set (wal_log (Wl E) (dataFiles d))" by blast
    then show ?thesis using Some by (auto simp: db_view_def)
  qed
  then show ?thesis using assms by (simp add: holds_def db_inv_def)
qed

lemma db_holds:
  assumes h: "holds E bt_inv t0 K mt V" and w: "w_inv w" "pend w = []" "K \<subseteq> set (wal_log (Wl E) w)"
    and d: "dataFiles d = w" "index d = mt" "watcher_ok (options d) (db_watcher d)"
  shows "dinv d" and "\<forall>t. sint t0 \<le> sint t \<longrightarrow> db_view E t d = V t"
proof -
  have g: "\<exists>c r. (p, c) \<in> K \<and> decodeLogRecord c = Some r \<and> good_record k r \<and> (\<forall>t. sint t0 \<le> sint t \<longrightarrow> V t k = visible t r)"
    if "mt_Get (Bt E) mt k = Some p" for k p
    by (rule holds_some[OF h that])
  have "\<exists>c r. (p, c) \<in> set (wal_log (Wl E) w) \<and> decodeLogRecord c = Some r \<and> good_record k r"
    if "mt_Get (Bt E) mt k = Some p" for k p using g[OF that] w(3) by blast
  then show "dinv d" using h w(1,2) d by (simp add: db_inv_def holds_def watcher_ok_def)
  show "\<forall>t. sint t0 \<le> sint t \<longrightarrow> db_view E t d = V t"
  proof (intro allI impI ext)
    fix t :: int64 and k
    assume t: "sint t0 \<le> sint t"
    show "db_view E t d k = V t k"
    proof (cases "mt_Get (Bt E) mt k")
      case None
      then have "V t k = None" by (rule holds_none[OF h _ t])
      then show ?thesis using None d(2) by (simp add: db_view_def stored_rec_def)
    next
      case (Some p)
      obtain c r where c: "(p, c) \<in> K" "decodeLogRecord c = Some r" "V t k = visible t r" using g[OF Some] t by blast
      have "w_Read (Wl E) w p = Inr c" by (rule Read_log[OF w(1)]) (use c(1) w(3) in blast)
      then show ?thesis using Some c(2,3) d(1,2) by (simp add: db_view_def stored_rec_def)
    qed
  qed
qed

text \<open>A whole batch is loaded on top.\<close>

lemma holds_batch:
  assumes h: "holds E bt_inv t0 K mt (\<lambda>t. db_view E t d)" and b: "batch_open E b" and i: "i \<noteq> 0"
    and recs: "get_records recs i = []" and n: "length ps = length (batch_chunks E i b)"
  obtains mt' recs' where "load_chunks E t0 (zip ps (batch_chunks E i b)) (mt, recs) = Ok (mt', recs')"
    and "\<forall>j. get_records recs' j = (if j = i then [] else get_records recs j)"
    and "holds E bt_inv t0 (K \<union> set (zip ps (batch_chunks E i b))) mt' (\<lambda>t. batch_view E t d b)"
proof -
  let ?rs = "batch_records i b" and ?C = "set (zip ps (batch_chunks E i b))"
  have mi: "mt_inv bt_inv mt" using h by (simp add: holds_def)
  obtain mt' recs' where l: "load_chunks E t0 (zip ps (batch_chunks E i b)) (mt, recs) = Ok (mt', recs')" "mt_inv bt_inv mt'"
    and u: "\<forall>j. get_records recs' j = (if j = i then [] else get_records recs j)"
    and g: "\<forall>k. mt_Get (Bt E) mt' k = (case placed t0 ?rs ps k of None \<Rightarrow> mt_Get (Bt E) mt k | Some x \<Rightarrow> x)"
    using load_whole_batch[OF b i mi recs n, of t0] by blast
  note ro = batch_records_open[OF b, of i]
  have len: "length ?rs \<le> length ps" using n by (simp add: batch_chunks_def)
  have chunk: "(p, chunk_of r) \<in> ?C \<and> record_fits r \<and> Type r \<in> {LogRecordNormal, LogRecordDeleted}" if rp: "(r, p) \<in> set (zip ?rs ps)" for r p
  proof -
    obtain j where j: "j < length ?rs" "r = ?rs ! j" "p = ps ! j" using rp by (auto simp: in_set_zip)
    then have "batch_chunks E i b ! j = chunk_of r" by (simp add: batch_chunks_def nth_append)
    then have "(p, chunk_of r) \<in> ?C" using j n len by (auto simp: in_set_zip intro!: exI[of _ j])
    then show ?thesis using j ro by simp
  qed
  have "case mt_Get (Bt E) mt' k of
           None \<Rightarrow> \<forall>t. sint t0 \<le> sint t \<longrightarrow> batch_view E t d b k = None
         | Some p \<Rightarrow> \<exists>c r. (p, c) \<in> K \<union> ?C \<and> decodeLogRecord c = Some r \<and> good_record k r
             \<and> (\<forall>t. sint t0 \<le> sint t \<longrightarrow> batch_view E t d b k = visible t r)" for k
  proof (cases "pending_rec b k")
    case None
    have "mt_Get (Bt E) mt' k = mt_Get (Bt E) mt k"
      using g placed_absent[OF batch_records_absent[OF None]] by simp
    moreover have "batch_view E t d b k = db_view E t d k" for t using None by (simp add: batch_view_def)
    ultimately show ?thesis using h unfolding holds_def by (cases "mt_Get (Bt E) mt k") (fastforce dest: spec[of _ k])+
  next
    case (Some r)
    note br = batch_records_pending[OF Some]
    have v: "batch_view E t d b k = visible t r" for t using Some by (simp add: batch_view_def)
    obtain p where p: "(r\<lparr>BatchId := i\<rparr>, p) \<in> set (zip ?rs ps)" by (rule zip_left_exists[OF br(1)[of i] len])
    have m: "mt_Get (Bt E) mt' k = (if Type r = LogRecordDeleted \<or> IsExpired r t0 then None else Some p)"
      using g placed_present[OF len ro(1) p, of t0] br(2) by (simp add: IsExpired_def)
    show ?thesis
    proof (cases "Type r = LogRecordDeleted \<or> IsExpired r t0")
      case True
      then have "visible t r = None" if "sint t0 \<le> sint t" for t
        using IsExpired_mono[of r t0 t] that by (auto simp: visible_def live_def)
      then show ?thesis using m True v by simp
    next
      case False
      have "decodeLogRecord (chunk_of (r\<lparr>BatchId := i\<rparr>)) = Some (r\<lparr>BatchId := i\<rparr>)" "good_record k (r\<lparr>BatchId := i\<rparr>)"
        using chunk[OF p] decode_chunk_of[of "r\<lparr>BatchId := i\<rparr>"] br(2) False by (simp_all add: good_record_def)
      then show ?thesis using m False v chunk[OF p] by auto
    qed
  qed
  then show ?thesis using that[OF l(1) u] l(2) by (simp add: holds_def)
qed

section \<open>What a later opening will load\<close>

text \<open>
  The log is \<open>A @ L\<close>; loading \<open>L\<close> on top of the index \<open>mt0\<close> at \<open>t0\<close> gives an index that holds the view
  of the database over the chunks \<open>B\<close> and \<open>L\<close>.
\<close>

definition replays ::
    "int64 \<Rightarrow> (chunk_position \<times> bytes) list \<Rightarrow> 't MemoryBTree \<Rightarrow> (chunk_position \<times> bytes) list \<Rightarrow> ('t, 'w) DB \<Rightarrow> bool" where
  "replays t0 A mt0 B d \<longleftrightarrow>
     (\<exists>L mt recs. wal_log (Wl E) (dataFiles d) = A @ L \<and> load_chunks E t0 L (mt0, []) = Ok (mt, recs)
        \<and> (\<forall>j. get_records recs j = []) \<and> holds E bt_inv t0 (set B \<union> set L) mt (\<lambda>t. db_view E t d))"

lemma replays_start:
  assumes "wal_log (Wl E) (dataFiles d) = A" and "holds E bt_inv t0 (set B) mt0 (\<lambda>t. db_view E t d)"
  shows "replays t0 A mt0 B d"
  using assms by (auto simp: replays_def)

lemma replays_wrote:
  assumes r: "replays t0 A mt0 B d" and w: "wrote now i d d' None" and i: "i \<noteq> 0" and le: "sint now \<le> sint t0"
  shows "replays t0 A mt0 B d'"
proof -
  obtain L mt recs where l: "wal_log (Wl E) (dataFiles d) = A @ L" "load_chunks E t0 L (mt0, []) = Ok (mt, recs)"
    "\<forall>j. get_records recs j = []" "holds E bt_inv t0 (set B \<union> set L) mt (\<lambda>t. db_view E t d)"
    using r unfolding replays_def by blast
  have later: "sint now \<le> sint t" if "sint t0 \<le> sint t" for t using le that by simp
  from w consider (same) "wal_log (Wl E) (dataFiles d') = wal_log (Wl E) (dataFiles d)" "\<forall>t. sint now \<le> sint t \<longrightarrow> db_view E t d' = db_view E t d"
    | (batch) b ps where "batch_open E b" "log_grew E d d' ps (batch_chunks E i b)" "length ps = length (batch_chunks E i b)"
        "\<forall>t. sint now \<le> sint t \<longrightarrow> db_view E t d' = batch_view E t d b"
    unfolding wrote_def by auto
  then show ?thesis
  proof cases
    case same
    have "holds E bt_inv t0 (set B \<union> set L) mt (\<lambda>t. db_view E t d')"
      by (rule holds_mono[OF l(4) subset_refl order_refl]) (intro allI impI ext, use same(2) later in metis)
    then show ?thesis using l same(1) by (auto simp: replays_def)
  next
    case batch
    have ri: "get_records recs i = []" using l(3) by simp
    show ?thesis
    proof (rule holds_batch[OF l(4) batch(1) i ri batch(3)])
      fix mt' recs'
      assume m: "load_chunks E t0 (zip ps (batch_chunks E i b)) (mt, recs) = Ok (mt', recs')"
        "\<forall>j. get_records recs' j = (if j = i then [] else get_records recs j)"
        "holds E bt_inv t0 (set B \<union> set L \<union> set (zip ps (batch_chunks E i b))) mt' (\<lambda>t. batch_view E t d b)"
      have "holds E bt_inv t0 (set B \<union> set (L @ zip ps (batch_chunks E i b))) mt' (\<lambda>t. db_view E t d')"
        by (rule holds_mono[OF m(3) _ order_refl]) (use batch(4) later in auto)
      moreover have "load_chunks E t0 (L @ zip ps (batch_chunks E i b)) (mt0, []) = Ok (mt', recs')"
        using l(2) m(1) by (simp add: load_chunks_append)
      moreover have "wal_log (Wl E) (dataFiles d') = A @ (L @ zip ps (batch_chunks E i b))" using batch(2) l(1) by (simp add: log_grew_def)
      ultimately show ?thesis unfolding replays_def using m(2) l(3)
        by (intro exI[of _ "L @ zip ps (batch_chunks E i b)"] exI[of _ mt'] exI[of _ recs']) simp
    qed
  qed
qed

lemma replays_run:
  assumes "dinv d" and "idle d" and "\<not> closed d" and "replays t0 A mt0 B d"
    and "clock_ok now xs" and "\<forall>(x, req) \<in> set xs. req_fits req \<and> batch_id x \<noteq> 0" and "sint (clock_end now xs) \<le> sint t0"
    and "db_run E xs d = Some (rsps, d')" and "no_log_error rsps"
  shows "replays t0 A mt0 B d' \<and> dinv d' \<and> options d' = options d"
  using assms
proof (induction xs arbitrary: now d rsps)
  case (Cons a xs)
  obtain x req where a: "a = (x, req)" by (cases a)
  have c: "sint (t_op x) \<le> sint (t_commit x)" "clock_ok (t_commit x) xs" "req_fits req" "batch_id x \<noteq> 0"
    "sint (clock_end (t_commit x) xs) \<le> sint t0"
    using Cons.prems(5-7) a by auto
  obtain rsp d1 rsps1 where q: "db_request E x req d = Some (rsp, d1)" "db_run E xs d1 = Some (rsps1, d')" "rsps = rsp # rsps1"
    using Cons.prems(8) by (auto simp: a split: option.splits prod.splits)
  have "settled d d1"
    using request_refines[OF Cons.prems(1-3) rep_db_map[OF Cons.prems(1)] c(1,3)] q(1) unfolding refines_def by auto
  then have d1: "dinv d1" "idle d1" "\<not> closed d1" "options d1 = options d"
    using Cons.prems(2,3) settled_idle by (auto simp: settled_def)
  have "replays t0 A mt0 B d1"
  proof (rule request_wrote[OF Cons.prems(1-3) c(3,1) q(1)])
    fix e
    assume w: "wrote (t_commit x) (batch_id x) d d1 e" and e: "\<forall>e'. e = Some e' \<longrightarrow> rsp = RspDone (Fail e')"
    have "e = None"
    proof (cases e)
      case (Some e')
      then have "log_error E w_inv e'" using w by (auto simp: wrote_def)
      then obtain n where "e' = ErrExternal n" using log_error_external by blast
      then show ?thesis using Some e q(3) Cons.prems(9) by (auto simp: no_log_error_def)
    qed
    moreover have "sint (t_commit x) \<le> sint t0" using clock_end_le[OF c(2)] c(5) by simp
    ultimately show ?thesis using replays_wrote[OF Cons.prems(4)] w c(4) by blast
  qed
  moreover have "no_log_error rsps1" using Cons.prems(9) q(3) by (auto simp: no_log_error_def)
  moreover have "\<forall>(x, req) \<in> set xs. req_fits req \<and> batch_id x \<noteq> 0" using Cons.prems(6) by simp
  ultimately show ?case using Cons.IH[OF d1(1-3) _ c(2) _ c(5) q(2)] d1(4) by simp
qed simp

end

end
