(* ===== verification/Merge_Restart.thy ===== *)
theory Merge_Restart
  imports Reopen Replay
begin

text \<open>
  Opening a database again after a merge. The chunks written after the merge are in segments after
  the ones that it replaced; \<open>Open\<close> takes the index of the hints and loads these chunks on
  top. Nothing of it depends on whether \<open>Merge\<close> itself or the next \<open>Open\<close> has moved the
  merged segments.
\<close>

section \<open>The active segment\<close>

text \<open>
  Documented behaviour of the log: \<open>WriteAll\<close> writes to the active segment, or to new ones after it,
  and the other operations keep it; the last file that is opened is active.
\<close>

locale segment_lib = disk_lib W w_inv pend S one_seg seg_ok seg_log
  for W :: "'w wal_ops" and w_inv :: "'w \<Rightarrow> bool" and pend :: "'w \<Rightarrow> bytes list" and S :: "('w, 'f) disk_ops"
    and one_seg :: "'w \<Rightarrow> bool" and seg_ok :: "uint32 \<Rightarrow> 'f \<Rightarrow> bool" and seg_log :: "uint32 \<Rightarrow> 'f \<Rightarrow> (chunk_position \<times> bytes) list" +
  assumes WriteAll_active: "w_inv w \<Longrightarrow> w_WriteAll W w = (x, w') \<Longrightarrow> w_ActiveSegmentID S w \<le> w_ActiveSegmentID S w'
          \<and> (\<exists>ys. wal_log W w' = wal_log W w @ ys \<and> (\<forall>y \<in> set ys. w_ActiveSegmentID S w \<le> SegmentId (fst y)))"
    and PendingWrites_active: "w_inv w \<Longrightarrow> w_ActiveSegmentID S (w_PendingWrites W w c) = w_ActiveSegmentID S w"
    and ClearPendingWrites_active: "w_inv w \<Longrightarrow> w_ActiveSegmentID S (w_ClearPendingWrites W w) = w_ActiveSegmentID S w"
    and Sync_active: "w_inv w \<Longrightarrow> w_ActiveSegmentID S (snd (w_Sync W w)) = w_ActiveSegmentID S w"
    and Open_active: "w_Open S sfx fs = Inr w \<Longrightarrow> (\<forall>(i, f) \<in> set fs. seg_ok i f \<and> 0 < i) \<Longrightarrow> distinct (map fst fs) \<Longrightarrow>
          i \<in> fst ` set fs \<Longrightarrow> i \<le> w_ActiveSegmentID S w"
begin

text \<open>The directory has a segment after \<open>m\<close>.\<close>

definition newer_segment :: "uint32 \<Rightarrow> 'f disk \<Rightarrow> bool" where
  "newer_segment m k \<longleftrightarrow> (\<exists>i \<in> fst ` set (data_dir k dataFileNameSuffix). m < i)"

text \<open>What comes after the log \<open>A\<close> is in segments after \<open>m\<close>.\<close>

definition written_after :: "uint32 \<Rightarrow> (chunk_position \<times> bytes) list \<Rightarrow> 'w \<Rightarrow> bool" where
  "written_after m A w \<longleftrightarrow> w_inv w \<and> m < w_ActiveSegmentID S w
     \<and> (\<exists>L. wal_log W w = A @ L \<and> (\<forall>x \<in> set L. m < SegmentId (fst x)))"

lemma written_after_newer:
  assumes "written_after m A w" and "\<forall>j. m < j \<longrightarrow> map_of (data_dir k dataFileNameSuffix) j = map_of (w_Files S w) j"
  shows "newer_segment m k"
proof -
  have w: "w_inv w" "m < w_ActiveSegmentID S w" using assms(1) by (simp_all add: written_after_def)
  have "map_of (data_dir k dataFileNameSuffix) (w_ActiveSegmentID S w) \<noteq> None"
    using assms(2) w(2) Active_file[OF w(1)] by (simp add: map_of_eq_None_iff)
  then have "w_ActiveSegmentID S w \<in> fst ` set (data_dir k dataFileNameSuffix)" by (simp add: map_of_eq_None_iff)
  then show ?thesis using w(2) unfolding newer_segment_def by blast
qed

lemma written_after_same:
  assumes "written_after m A w" and "w_inv w'" and "wal_log W w' = wal_log W w" and "w_ActiveSegmentID S w' = w_ActiveSegmentID S w"
  shows "written_after m A w'"
  using assms by (simp add: written_after_def)

lemma written_after_WriteAll:
  assumes "written_after m A w"
  shows "written_after m A (snd (w_WriteAll W w))"
proof -
  obtain x w' where e: "w_WriteAll W w = (x, w')" by (cases "w_WriteAll W w")
  have w: "w_inv w" and m: "m < w_ActiveSegmentID S w" using assms by (simp_all add: written_after_def)
  obtain L where L: "wal_log W w = A @ L" "\<forall>x \<in> set L. m < SegmentId (fst x)" using assms by (auto simp: written_after_def)
  obtain ys where ys: "wal_log W w' = wal_log W w @ ys" "\<forall>y \<in> set ys. w_ActiveSegmentID S w \<le> SegmentId (fst y)"
    and a: "w_ActiveSegmentID S w \<le> w_ActiveSegmentID S w'"
    using WriteAll_active[OF w e] by blast
  have "\<forall>y \<in> set ys. m < SegmentId (fst y)" using ys(2) m by (meson less_le_trans)
  then show ?thesis
    using WriteAll_inv[OF w e] L ys(1) less_le_trans[OF m a] by (auto simp: written_after_def e)
qed

end

lemma sw_active_map: "seg_wal_inv w \<Longrightarrow> sw_active w = last (map fst (sw_segs w))"
  by (simp add: sw_active_last last_map seg_wal_inv_def)

interpretation seg_sl: segment_lib seg_wal_ops seg_wal_inv sw_pending seg_disk_ops "\<lambda>w. fst ` set (sw_segs w) = {1}" seg_ok sw_seg_log
proof
  fix w x w'
  assume w: "seg_wal_inv w" and e: "w_WriteAll seg_wal_ops w = (x, w')"
  have e': "sw_WriteAll w = (x, w')" using e by (simp add: seg_WriteAll)
  have "sw_active w \<le> sw_active w' \<and> (\<exists>ys. sw_log w' = sw_log w @ ys \<and> (\<forall>y \<in> set ys. sw_active w \<le> SegmentId (fst y)))"
    using e'
  proof (cases rule: sw_WriteAll_cases)
    case (3 ps w1)
    note a = sw_add_spec[OF w 3(1)]
    have l: "sw_log w' = sw_log w @ zip ps (sw_pending w)" using a(3) 3(3) by (simp add: sw_log_def)
    have "seg_wal_inv w'" "map fst (sw_segs w') = map fst (sw_segs w)" using a(1,5) 3(3) by (simp_all add: seg_wal_inv_def)
    then have "sw_active w' = sw_active w" using w by (simp add: sw_active_map)
    moreover have "\<forall>p \<in> set ps. SegmentId p = sw_active w"
      using 3(1) by (auto simp: sw_add_def sw_active_def sw_pos_def split: list.splits if_splits)
    then have "\<forall>y \<in> set (zip ps (sw_pending w)). sw_active w \<le> SegmentId (fst y)" by (auto dest: set_zip_leftD)
    ultimately show ?thesis using l by simp
  qed simp_all
  then show "w_ActiveSegmentID seg_disk_ops w \<le> w_ActiveSegmentID seg_disk_ops w'
      \<and> (\<exists>ys. wal_log seg_wal_ops w' = wal_log seg_wal_ops w @ ys \<and> (\<forall>y \<in> set ys. w_ActiveSegmentID seg_disk_ops w \<le> SegmentId (fst y)))"
    by (simp add: seg_disk_simps wal_log_seg)
next
  fix sfx fs w i
  assume o: "w_Open seg_disk_ops sfx fs = Inr w" and fs: "\<forall>(i, f) \<in> set fs. seg_ok i f \<and> 0 < i" "distinct (map fst fs)"
    and i: "i \<in> fst ` set fs"
  have w: "w = sw_Open fs" using o by (simp add: seg_disk_simps)
  obtain f where "(i, f) \<in> set fs" using i by auto
  then have "(i, f) \<in> set (sw_segs w)" by (cases "fs = []") (simp_all add: w sw_Open_def)
  then show "i \<le> w_ActiveSegmentID seg_disk_ops w"
    using sw_active_greatest sw_Open_spec(1)[OF fs] by (auto simp: seg_disk_simps w)
qed (simp_all add: seg_disk_simps seg_wal_ops_def sw_active_def)

section \<open>The run after the merge\<close>

locale segmented = store E bt_inv w_inv pend S one_seg seg_ok seg_log + segment_lib "Wl E" w_inv pend S one_seg seg_ok seg_log
  for E :: "('t, 'w) env" and bt_inv :: "'t \<Rightarrow> bool" and w_inv :: "'w \<Rightarrow> bool" and pend :: "'w \<Rightarrow> bytes list"
    and S :: "('w, 'f) disk_ops" and one_seg :: "'w \<Rightarrow> bool" and seg_ok :: "uint32 \<Rightarrow> 'f \<Rightarrow> bool"
    and seg_log :: "uint32 \<Rightarrow> 'f \<Rightarrow> (chunk_position \<times> bytes) list"
begin

lemma written_after_closed: "log_closed E (written_after m A)"
  unfolding log_closed_def
proof (intro allI impI conjI)
  fix w
  assume p: "written_after m A w"
  then have w: "w_inv w" by (simp add: written_after_def)
  show "written_after m A (snd (w_WriteAll (Wl E) w))" by (rule written_after_WriteAll[OF p])
  show "written_after m A (w_ClearPendingWrites (Wl E) w)" "written_after m A (snd (w_Sync (Wl E) w))"
    and "\<And>c. written_after m A (w_PendingWrites (Wl E) w c)"
    using ClearPendingWrites_inv[OF w] ClearPendingWrites_log[OF w] ClearPendingWrites_active[OF w]
      Sync_inv[OF w] Sync_log[OF w] Sync_active[OF w] PendingWrites_inv[OF w] PendingWrites_log[OF w] PendingWrites_active[OF w]
    by (auto intro: written_after_same[OF p])
qed

text \<open>
  Where the database and its directory stand after the merge: the next \<open>Open\<close> will find the merged
  data with whatever the running database has written since. Both are in step from the time \<open>t1\<close> on.
\<close>

definition after_merge ::
    "int64 \<Rightarrow> uint32 \<Rightarrow> log_record list \<Rightarrow> chunk_position list \<Rightarrow> (chunk_position \<times> bytes) list \<Rightarrow> 't MemoryBTree
       \<Rightarrow> ('t, 'w) DB \<Rightarrow> 'f disk \<Rightarrow> bool" where
  "after_merge t1 prev rs ps A mt d k \<longleftrightarrow> dinv d \<and> idle d \<and> \<not> closed d \<and> hint_index rs ps mt
     \<and> written_after prev A (dataFiles d)
     \<and> (\<forall>t. sint t1 \<le> sint t \<longrightarrow> replays t A mt (zip ps (map chunk_of rs)) d)
     \<and> (\<forall>w. written_after prev A w \<longrightarrow>
          (\<exists>L k'. wal_log (Wl E) w = A @ L \<and> loadMergeFiles S no_fault (set_files dataFileNameSuffix (w_Files S w) k) = (Ok (), k')
             \<and> merged_disk prev rs ps L k' \<and> newer_segment prev k'))"

lemma Open_after_merge:
  assumes a: "after_merge t1 prev rs ps A mt d k" and o: "opens S" and c: "checkOptions parses (options d) = Ok ()"
    and xs: "clock_ok now' xs" "\<forall>(x, req) \<in> set xs. req_fits req \<and> batch_id x \<noteq> 0" and le: "sint t1 \<le> sint t"
    and t: "sint (clock_end now' xs) \<le> sint t" and r: "db_run E xs d = Some (rsps, d')" and ok: "no_log_error rsps"
  shows "\<exists>d'' k''. Open E S parses no_fault (Inr True) t (options d) (set_files dataFileNameSuffix (w_Files S (dataFiles d')) k) = (Ok d'', k'')
     \<and> dinv d'' \<and> idle d'' \<and> \<not> closed d'' \<and> merge_dir k'' = None \<and> (\<forall>t'. sint t \<le> sint t' \<longrightarrow> db_view E t' d'' = db_view E t' d')"
proof -
  let ?B = "zip ps (map chunk_of rs)" and ?k = "set_files dataFileNameSuffix (w_Files S (dataFiles d')) k"
  have d: "dinv d" "idle d" "\<not> closed d" and mt: "hint_index rs ps mt"
    and wa: "written_after prev A (dataFiles d)" and h: "replays t A mt ?B d"
    and disk: "\<forall>w. written_after prev A w \<longrightarrow>
        (\<exists>L k'. wal_log (Wl E) w = A @ L \<and> loadMergeFiles S no_fault (set_files dataFileNameSuffix (w_Files S w) k) = (Ok (), k')
           \<and> merged_disk prev rs ps L k' \<and> newer_segment prev k')"
    using a le unfolding after_merge_def by blast+
  from replays_run[OF d h xs t r ok]
  have rp: "replays t A mt ?B d'" and d': "dinv d'" "options d' = options d" by simp_all
  obtain L k3 where L: "wal_log (Wl E) (dataFiles d') = A @ L" and l: "loadMergeFiles S no_fault ?k = (Ok (), k3)"
    and k3: "merged_disk prev rs ps L k3" and nw: "newer_segment prev k3"
    using disk run_files[OF written_after_closed wa r] by blast
  obtain mt' recs where lc: "load_chunks E t L (mt, []) = Ok (mt', recs)"
    and h': "holds E bt_inv t (set ?B \<union> set L) mt' (\<lambda>t. db_view E t d')"
    using rp L unfolding replays_def by auto
  obtain w where w: "w_Open S dataFileNameSuffix (data_dir k3 dataFileNameSuffix) = Inr w" using o by (auto simp: opens_def)
  obtain hh where hh: "w_Open S hintFileNameSuffix (data_dir k3 hintFileNameSuffix) = Inr hh" using o by (auto simp: opens_def)
  have wf: "w_inv w" "pend w = []" "wal_log (Wl E) w = ?B @ L" and md: "merge_dir k3 = None"
    using k3 w unfolding merged_disk_def by blast+
  let ?n = "new_db E (options d) w"
  let ?k' = "set_files hintFileNameSuffix (w_Files S hh) (set_files dataFileNameSuffix (w_Files S w) k3)"
  have n: "dataFiles ?n = w" "index ?n = NewIndexer (Bt E)" by (simp_all add: new_db_def)
  have "\<exists>i \<in> fst ` set (w_Files S w). prev < i"
  proof -
    obtain i where i: "i \<in> fst ` set (data_dir k3 dataFileNameSuffix)" "prev < i" using nw unfolding newer_segment_def by blast
    have f: "\<forall>(i, f) \<in> set (data_dir k3 dataFileNameSuffix). seg_ok i f \<and> 0 < i" "distinct (map fst (data_dir k3 dataFileNameSuffix))"
      using k3 unfolding merged_disk_def by auto
    have "prev < w_ActiveSegmentID S w" by (rule less_le_trans[OF i(2) Open_active[OF w f i(1)]])
    then show ?thesis using Active_file[OF wf(1)] by blast
  qed
  then have some: "\<not> (\<forall>i \<in> set (map fst (w_Files S w)). i \<le> prev)" by (force simp: not_le)
  have li: "loadIndex E S no_fault t ?n (set_files dataFileNameSuffix (w_Files S w) k3) = (Ok (?n\<lparr>index := mt'\<rparr>), ?k')"
    using load_merged[OF k3 mt, of ?n hh t] w hh some by (simp add: n lc)
  have cr: "AutoMergeCronExpr (options d) \<noteq> [] \<Longrightarrow> parses (AutoMergeCronExpr (options d)) = None"
    using c by (auto simp: checkOptions_def split: if_splits option.splits)
  have op: "Open E S parses no_fault (Inr True) t (options d) ?k = (Ok (enable_watch (?n\<lparr>index := mt'\<rparr>)), ?k')"
    by (simp add: Open_def c l w li cr)
  have sub: "set ?B \<union> set L \<subseteq> set (wal_log (Wl E) w)" by (simp add: wf(3))
  let ?d = "?n\<lparr>index := mt', db_watcher := db_watcher d'\<rparr>"
  have "watcher_ok (options ?d) (db_watcher ?d)" using d' by (simp add: db_inv_def new_db_def watcher_ok_def)
  with db_holds[OF h' wf(1,2) sub, of ?d] have "dinv ?d" and v: "\<forall>t'. sint t \<le> sint t' \<longrightarrow> db_view E t' ?d = db_view E t' d'"
    by (simp_all add: n)
  then have "dinv (enable_watch (?n\<lparr>index := mt'\<rparr>))" by (intro enable_watch_inv)
  moreover have "db_view E t' ?d = db_view E t' (?n\<lparr>index := mt'\<rparr>)" for t' by (rule same_store) simp_all
  moreover have "idle (?n\<lparr>index := mt'\<rparr>)" "\<not> closed ?n" by (simp_all add: new_db_def idle_def)
  ultimately show ?thesis
    using op v md by (intro exI[of _ "enable_watch (?n\<lparr>index := mt'\<rparr>)"] exI[of _ ?k']) (simp add: set_files_dirs)
qed

end

interpretation seg_md: segmented seg_env sorted_items seg_wal_inv sw_pending seg_disk_ops
  "\<lambda>w. fst ` set (sw_segs w) = {1}" seg_ok sw_seg_log
  using seg_st.store_axioms seg_sl.segment_lib_axioms by (simp add: segmented_def seg_env_def)

end
