(* ===== verification/Overlay.thy ===== *)
theory Overlay
  imports Replay
begin

text \<open>
  The batches written during a run, seen as an overlay on an index: for each key they either say
  nothing, or that it is gone, or where its record is. Loading them does the same to
  every index, and tells which keys a run has not touched.
\<close>

section \<open>Loading as an overlay\<close>

type_synonym overlay = "bytes \<Rightarrow> chunk_position option option"

definition state_after :: "('t, 'w) env \<Rightarrow> (ticket \<times> request) list \<Rightarrow> ('t, 'w) DB \<Rightarrow> ('t, 'w) DB" where
  "state_after E xs d = (case db_run E xs d of None \<Rightarrow> d | Some (rsps, d') \<Rightarrow> d')"

lemma db_run_take: "db_run E xs d = Some y \<Longrightarrow> \<exists>z. db_run E (take n xs) d = Some z"
proof (induction xs arbitrary: n d y)
  case (Cons a xs)
  obtain x req where a: "a = (x, req)" by (cases a)
  obtain rsp d1 z where q: "db_request E x req d = Some (rsp, d1)" "db_run E xs d1 = Some z"
    using Cons.prems by (auto simp: a split: option.splits prod.splits)
  show ?case
  proof (cases n)
    case (Suc m)
    obtain z' where "db_run E (take m xs) d1 = Some z'" using Cons.IH[OF q(2)] by blast
    then show ?thesis using q(1) by (cases z') (simp add: a Suc)
  qed simp
qed simp

definition over :: "overlay \<Rightarrow> overlay \<Rightarrow> overlay" where
  "over F G k = (case G k of None \<Rightarrow> F k | Some x \<Rightarrow> Some x)"

lemma over_None: "over F G k = None \<longleftrightarrow> F k = None \<and> G k = None"
  by (simp add: over_def split: option.split)

context engine
begin

definition loads :: "int64 \<Rightarrow> (chunk_position \<times> bytes) list \<Rightarrow> overlay \<Rightarrow> bool" where
  "loads t0 L F \<longleftrightarrow>
     (\<forall>mt. mt_inv bt_inv mt \<longrightarrow>
        (\<exists>mt' recs. load_chunks E t0 L (mt, []) = Ok (mt', recs) \<and> mt_inv bt_inv mt' \<and> (\<forall>j. get_records recs j = [])
           \<and> (\<forall>k. mt_Get (Bt E) mt' k = (case F k of None \<Rightarrow> mt_Get (Bt E) mt k | Some x \<Rightarrow> x))))"

lemma loads_Nil: "loads t0 [] (\<lambda>k. None)"
  by (simp add: loads_def)

lemma loads_batch:
  assumes l: "loads t0 L F" and b: "batch_open E b" and i: "i \<noteq> 0" and n: "length ps = length (batch_chunks E i b)"
  shows "loads t0 (L @ zip ps (batch_chunks E i b)) (over F (placed t0 (batch_records i b) ps))"
  unfolding loads_def
proof (intro allI impI)
  fix mt
  assume "mt_inv bt_inv mt"
  then obtain mt1 recs where m: "load_chunks E t0 L (mt, []) = Ok (mt1, recs)" "mt_inv bt_inv mt1" "\<forall>j. get_records recs j = []"
    and g: "\<forall>k. mt_Get (Bt E) mt1 k = (case F k of None \<Rightarrow> mt_Get (Bt E) mt k | Some x \<Rightarrow> x)"
    using l unfolding loads_def by blast
  have ri: "get_records recs i = []" using m(3) by simp
  obtain mt2 recs2 where m2: "load_chunks E t0 (zip ps (batch_chunks E i b)) (mt1, recs) = Ok (mt2, recs2)" "mt_inv bt_inv mt2"
    and u: "\<forall>j. get_records recs2 j = (if j = i then [] else get_records recs j)"
    and g2: "\<forall>k. mt_Get (Bt E) mt2 k = (case placed t0 (batch_records i b) ps k of None \<Rightarrow> mt_Get (Bt E) mt1 k | Some x \<Rightarrow> x)"
    using load_whole_batch[OF b i m(2) ri n, of t0] by blast
  have "mt_Get (Bt E) mt2 k = (case over F (placed t0 (batch_records i b) ps) k of None \<Rightarrow> mt_Get (Bt E) mt k | Some x \<Rightarrow> x)" for k
    using g g2 by (simp add: over_def split: option.split)
  then show "\<exists>mt' recs. load_chunks E t0 (L @ zip ps (batch_chunks E i b)) (mt, []) = Ok (mt', recs) \<and> mt_inv bt_inv mt'
      \<and> (\<forall>j. get_records recs j = [])
      \<and> (\<forall>k. mt_Get (Bt E) mt' k = (case over F (placed t0 (batch_records i b) ps) k of None \<Rightarrow> mt_Get (Bt E) mt k | Some x \<Rightarrow> x))"
    using m m2 u by (intro exI[of _ mt2] exI[of _ recs2]) (simp add: load_chunks_append)
qed

section \<open>What the running database holds\<close>

text \<open>
  The database was \<open>d0\<close> with the log \<open>A\<close>, and the overlay \<open>F\<close> of the chunks \<open>L\<close> tells from \<open>t0\<close> on what
  has changed. The index keeps its old position for a key that was not touched, or drops it.
\<close>

definition overlay_at :: "int64 \<Rightarrow> ('t, 'w) DB \<Rightarrow> (chunk_position \<times> bytes) list \<Rightarrow> overlay \<Rightarrow> ('t, 'w) DB \<Rightarrow> bytes \<Rightarrow> bool" where
  "overlay_at t0 d0 L F d k =
     (case F k of
        None \<Rightarrow> (\<forall>t. sint t0 \<le> sint t \<longrightarrow> db_view E t d k = db_view E t d0 k)
          \<and> (mt_Get (Bt E) (index d) k = None \<or> mt_Get (Bt E) (index d) k = mt_Get (Bt E) (index d0) k)
      | Some None \<Rightarrow> \<forall>t. sint t0 \<le> sint t \<longrightarrow> db_view E t d k = None
      | Some (Some p) \<Rightarrow> \<exists>c r. (p, c) \<in> set L \<and> decodeLogRecord c = Some r \<and> good_record k r
          \<and> (\<forall>t. sint t0 \<le> sint t \<longrightarrow> db_view E t d k = visible t r))"

definition overlaid ::
    "int64 \<Rightarrow> (chunk_position \<times> bytes) list \<Rightarrow> ('t, 'w) DB \<Rightarrow> (chunk_position \<times> bytes) list \<Rightarrow> overlay \<Rightarrow> ('t, 'w) DB \<Rightarrow> bool" where
  "overlaid t0 A d0 L F d \<longleftrightarrow>
     wal_log (Wl E) (dataFiles d) = A @ L \<and> loads t0 L F \<and> (\<forall>k. overlay_at t0 d0 L F d k)"

lemma overlaid_start: "wal_log (Wl E) (dataFiles d) = A \<Longrightarrow> overlaid t0 A d [] (\<lambda>k. None) d"
  by (simp add: overlaid_def loads_Nil overlay_at_def)

lemma overlay_at_later:
  assumes o: "overlay_at t0 d0 L F d k" and L: "set L \<subseteq> set L'" and F: "F' k = F k"
    and v: "\<forall>t. sint t0 \<le> sint t \<longrightarrow> db_view E t d' k = db_view E t d k"
    and i: "mt_Get (Bt E) (index d') k = None \<or> mt_Get (Bt E) (index d') k = mt_Get (Bt E) (index d) k"
  shows "overlay_at t0 d0 L' F' d' k"
proof (cases "F k")
  case None
  then show ?thesis using o F v i by (auto simp: overlay_at_def)
next
  case (Some x)
  show ?thesis
  proof (cases x)
    case None
    then show ?thesis using o F v Some by (simp add: overlay_at_def)
  next
    case (Some p)
    then obtain c r where "(p, c) \<in> set L" "decodeLogRecord c = Some r" "good_record k r"
      "\<forall>t. sint t0 \<le> sint t \<longrightarrow> db_view E t d k = visible t r"
      using o \<open>F k = Some x\<close> by (auto simp: overlay_at_def)
    then show ?thesis using F v L \<open>F k = Some x\<close> Some by (auto simp: overlay_at_def intro!: exI[of _ c])
  qed
qed

lemma overlaid_wrote:
  assumes o: "overlaid t0 A d0 L F d" and w: "wrote now i d d' None" and i: "i \<noteq> 0" and le: "sint now \<le> sint t0"
  shows "\<exists>L' F'. overlaid t0 A d0 L' F' d' \<and> (\<forall>k. F' k = None \<longrightarrow> F k = None)"
proof -
  have l: "wal_log (Wl E) (dataFiles d) = A @ L" "loads t0 L F" and a: "\<And>k. overlay_at t0 d0 L F d k" using o by (simp_all add: overlaid_def)
  have later: "sint now \<le> sint t" if "sint t0 \<le> sint t" for t :: int64 using le that by simp
  from w consider (same) "wal_log (Wl E) (dataFiles d') = wal_log (Wl E) (dataFiles d)"
        "\<forall>t. sint now \<le> sint t \<longrightarrow> db_view E t d' = db_view E t d" "index_keeps E {} d d'"
    | (batch) b ps where "batch_open E b" "log_grew E d d' ps (batch_chunks E i b)" "length ps = length (batch_chunks E i b)"
        "\<forall>t. sint now \<le> sint t \<longrightarrow> db_view E t d' = batch_view E t d b" "index_keeps E (Key ` set (batch_records i b)) d d'"
    unfolding wrote_def by auto
  then show ?thesis
  proof cases
    case same
    have "overlay_at t0 d0 L F d' k" for k
    proof -
      have "\<forall>t. sint t0 \<le> sint t \<longrightarrow> db_view E t d' k = db_view E t d k"
      proof (intro allI impI)
        fix t :: int64
        assume "sint t0 \<le> sint t"
        then show "db_view E t d' k = db_view E t d k" using same(2)[rule_format, OF later] by simp
      qed
      moreover have "mt_Get (Bt E) (index d') k = None \<or> mt_Get (Bt E) (index d') k = mt_Get (Bt E) (index d) k"
        using same(3) by (simp add: index_keeps_def)
      ultimately show ?thesis by (rule overlay_at_later[OF a subset_refl refl])
    qed
    then show ?thesis using same(1) l by (intro exI[of _ L] exI[of _ F]) (simp add: overlaid_def)
  next
    case batch
    let ?rs = "batch_records i b" and ?C = "zip ps (batch_chunks E i b)"
    let ?F = "over F (placed t0 ?rs ps)"
    note ro = batch_records_open[OF batch(1), of i]
    have len: "length ?rs \<le> length ps" using batch(3) by (simp add: batch_chunks_def)
    have "overlay_at t0 d0 (L @ ?C) ?F d' k" for k
    proof (cases "pending_rec b k")
      case None
      note ab = batch_records_absent[OF None, of i]
      show ?thesis
      proof (rule overlay_at_later[OF a])
        show "?F k = F k" using placed_absent[OF ab] by (simp add: over_def)
        show "\<forall>t. sint t0 \<le> sint t \<longrightarrow> db_view E t d' k = db_view E t d k" 
          using batch(4) None by (auto simp: batch_view_def dest: later)
        show "mt_Get (Bt E) (index d') k = None \<or> mt_Get (Bt E) (index d') k = mt_Get (Bt E) (index d) k"
          using batch(5) ab by (simp add: index_keeps_def)
      qed simp
    next
      case (Some r)
      note br = batch_records_pending[OF Some]
      have v: "\<forall>t. sint t0 \<le> sint t \<longrightarrow> db_view E t d' k = visible t r"
        using batch(4) Some by (auto simp: batch_view_def dest: later)
      obtain p where p: "(r\<lparr>BatchId := i\<rparr>, p) \<in> set (zip ?rs ps)" by (rule zip_left_exists[OF br(1)[of i] len])
      have f: "?F k = Some (if Type r = LogRecordDeleted \<or> IsExpired r t0 then None else Some p)"
        using placed_present[OF len ro(1) p, of t0] br(2) by (simp add: over_def IsExpired_def)
      show ?thesis
      proof (cases "Type r = LogRecordDeleted \<or> IsExpired r t0")
        case True
        then have "visible t r = None" if "sint t0 \<le> sint t" for t
          using IsExpired_mono[of r t0 t] that by (auto simp: visible_def live_def)
        then show ?thesis using f True v by (simp add: overlay_at_def)
      next
        case False
        obtain j where j: "j < length ?rs" "r\<lparr>BatchId := i\<rparr> = ?rs ! j" "p = ps ! j" using p by (auto simp: in_set_zip)
        then have "batch_chunks E i b ! j = chunk_of (r\<lparr>BatchId := i\<rparr>)" by (simp add: batch_chunks_def nth_append)
        then have c: "(p, chunk_of (r\<lparr>BatchId := i\<rparr>)) \<in> set ?C" using j batch(3) len by (auto simp: in_set_zip intro!: exI[of _ j])
        have "record_fits (r\<lparr>BatchId := i\<rparr>)" "Type r \<in> {LogRecordNormal, LogRecordDeleted}" using ro(2,3) br(1)[of i] by auto
        then have "decodeLogRecord (chunk_of (r\<lparr>BatchId := i\<rparr>)) = Some (r\<lparr>BatchId := i\<rparr>)" "good_record k (r\<lparr>BatchId := i\<rparr>)"
          using decode_chunk_of[of "r\<lparr>BatchId := i\<rparr>"] br(2) False by (simp_all add: good_record_def)
        then show ?thesis using f False v c
          by (auto simp: overlay_at_def intro!: exI[of _ "chunk_of (r\<lparr>BatchId := i\<rparr>)"])
      qed
    qed
    moreover have "wal_log (Wl E) (dataFiles d') = A @ (L @ ?C)" using batch(2) l(1) by (simp add: log_grew_def)
    ultimately have "overlaid t0 A d0 (L @ ?C) ?F d'"
      using loads_batch[OF l(2) batch(1) i batch(3)] by (simp add: overlaid_def)
    then show ?thesis by (intro exI[of _ "L @ ?C"] exI[of _ ?F]) (simp add: over_None)
  qed
qed

section \<open>A run and its prefixes\<close>

lemma overlaid_run:
  assumes "dinv d" and "idle d" and "\<not> closed d" and "overlaid t0 A d0 L F d"
    and "clock_ok now xs" and "\<forall>(x, req) \<in> set xs. req_fits req \<and> batch_id x \<noteq> 0" and "sint (clock_end now xs) \<le> sint t0"
    and "db_run E xs d = Some (rsps, d')" and "no_log_error rsps"
  shows "\<exists>L' F'. overlaid t0 A d0 L' F' d' \<and> (\<forall>k. F' k = None \<longrightarrow> F k = None)
     \<and> dinv d' \<and> idle d' \<and> \<not> closed d' \<and> options d' = options d
     \<and> (\<forall>n. \<exists>Ln Fn. overlaid t0 A d0 Ln Fn (state_after E (take n xs) d) \<and> dinv (state_after E (take n xs) d)
          \<and> (\<forall>k. F' k = None \<longrightarrow> Fn k = None))"
  using assms
proof (induction xs arbitrary: now d L F rsps)
  case Nil
  then show ?case by (intro exI[of _ L] exI[of _ F]) (auto simp: state_after_def)
next
  case (Cons a xs)
  obtain x req where a: "a = (x, req)" by (cases a)
  have c: "sint (t_op x) \<le> sint (t_commit x)" "clock_ok (t_commit x) xs" "req_fits req" "batch_id x \<noteq> 0"
    "sint (clock_end (t_commit x) xs) \<le> sint t0"
    using Cons.prems(5-7) a by auto
  obtain rsp d1 rsps1 where q: "db_request E x req d = Some (rsp, d1)" "db_run E xs d1 = Some (rsps1, d')" "rsps = rsp # rsps1"
    using Cons.prems(8) by (auto simp: a split: option.splits prod.splits)
  have "settled d d1"
    using request_refines[OF Cons.prems(1-3) rep_db_map[OF Cons.prems(1)] c(1,3)] q(1) unfolding refines_def by auto
  then have d1: "dinv d1" "idle d1" "\<not> closed d1" "options d1 = options d"
    using Cons.prems(2,3) settled_idle by (auto simp: settled_def)
  obtain L1 F1 where o1: "overlaid t0 A d0 L1 F1 d1" "\<forall>k. F1 k = None \<longrightarrow> F k = None"
  proof (rule request_wrote[OF Cons.prems(1-3) c(3,1) q(1)])
    fix e
    assume w: "wrote (t_commit x) (batch_id x) d d1 e" and e: "\<forall>e'. e = Some e' \<longrightarrow> rsp = RspDone (Fail e')"
    have "e = None"
    proof (cases e)
      case (Some e')
      then have "log_error E w_inv e'" using w by (auto simp: wrote_def)
      then obtain n where "e' = ErrExternal n" using log_error_external by blast
      then show ?thesis using Some e q(3) Cons.prems(9) by (auto simp: no_log_error_def)
    qed
    moreover have "sint (t_commit x) \<le> sint t0" using clock_end_le[OF c(2)] c(5) by simp
    ultimately show ?thesis using overlaid_wrote[OF Cons.prems(4)] w c(4) that by blast
  qed
  have "no_log_error rsps1" using Cons.prems(9) q(3) by (auto simp: no_log_error_def)
  moreover have "\<forall>(x, req) \<in> set xs. req_fits req \<and> batch_id x \<noteq> 0" using Cons.prems(6) by simp
  ultimately obtain L' F' where IH: "overlaid t0 A d0 L' F' d'" "\<forall>k. F' k = None \<longrightarrow> F1 k = None"
      "dinv d'" "idle d'" "\<not> closed d'" "options d' = options d1"
    and pre: "\<forall>n. \<exists>Ln Fn. overlaid t0 A d0 Ln Fn (state_after E (take n xs) d1) \<and> dinv (state_after E (take n xs) d1)
          \<and> (\<forall>k. F' k = None \<longrightarrow> Fn k = None)"
    using Cons.IH[OF d1(1-3) o1(1) c(2) _ c(5) q(2)] by blast
  have "\<exists>Ln Fn. overlaid t0 A d0 Ln Fn (state_after E (take n (a # xs)) d) \<and> dinv (state_after E (take n (a # xs)) d)
          \<and> (\<forall>k. F' k = None \<longrightarrow> Fn k = None)" for n
  proof (cases n)
    case 0
    then show ?thesis using Cons.prems(1,4) o1(2) IH(2) by (intro exI[of _ L] exI[of _ F]) (simp add: state_after_def)
  next
    case (Suc m)
    have "db_run E (take m xs) d1 \<noteq> None" using db_run_take[OF q(2)] by auto
    then have "state_after E (take n (a # xs)) d = state_after E (take m xs) d1"
      using q(1) by (auto simp: state_after_def a Suc split: option.split)
    then show ?thesis using pre by simp
  qed
  then show ?case using IH o1(2) d1(4) by (intro exI[of _ L'] exI[of _ F']) auto
qed

end

end
