(* ===== verification/Merge_During.thy ===== *)
theory Merge_During
  imports Merge_Restart Overlay
begin

text \<open>
  A merge while the database serves requests. \<open>doMerge\<close> holds the lock only while it begins and
  for each look into the index, so any requests can run between two of its steps. The old
  segments do not change any more; the requests write to new ones. What the merge drops
  because a request has changed it, the later segments tell.
\<close>

section \<open>The merge and the requests in between\<close>

text \<open>
  \<open>xs\<close> are the requests from the end of the first part until the merge returns, or takes the
  lock again. \<open>n\<close> of them have run when the merge database and the reader are opened, and
  \<open>at p\<close> when the chunk at the position \<open>p\<close> is looked up.
\<close>

definition doMerge_during ::
    "('t, 'w) env \<Rightarrow> ('w, 'f) disk_ops \<Rightarrow> (bytes \<Rightarrow> go_error option) \<Rightarrow> faults \<Rightarrow> faults \<Rightarrow> go_error + bool \<Rightarrow> int64
       \<Rightarrow> go_error option \<Rightarrow> (ticket \<times> request) list \<Rightarrow> nat \<Rightarrow> (chunk_position \<Rightarrow> nat) \<Rightarrow> ('t, 'w) DB \<Rightarrow> 'f disk
       \<Rightarrow> (unit result \<times> response list \<times> ('t, 'w) DB \<times> 'f disk) option" where
  "doMerge_during E S parses flt flt2 hold2 now closeErr xs n at d k =
     (case with_Lock (merge_begin S) d of
        None \<Rightarrow> None
      | Some (Fail e, d) \<Rightarrow> Some (Fail e, [], d, k)
      | Some (Panic, d) \<Rightarrow> Some (Panic, [], d, k)
      | Some (Ok None, d) \<Rightarrow> Some (Ok (), [], d, k)
      | Some (Ok (Some prevActiveSegId), d) \<Rightarrow>
          (case db_run E xs d of
             None \<Rightarrow> None
           | Some (rsps, d') \<Rightarrow>
               (case merge_copy E S parses flt flt2 hold2 now closeErr prevActiveSegId
                       (\<lambda>p. index (state_after E (take (at p) xs) d)) (state_after E (take n xs) d) k of
                  (r, k) \<Rightarrow> Some (r, rsps, d'\<lparr>mergeRunning := False\<rparr>, k))))"

definition db_Merge_during ::
    "('t, 'w) env \<Rightarrow> ('w, 'f) disk_ops \<Rightarrow> (bytes \<Rightarrow> go_error option) \<Rightarrow> faults \<Rightarrow> faults \<Rightarrow> go_error + bool \<Rightarrow> int64
       \<Rightarrow> go_error option \<Rightarrow> (ticket \<times> request) list \<Rightarrow> nat \<Rightarrow> (chunk_position \<Rightarrow> nat) \<Rightarrow> int64 \<Rightarrow> bool
       \<Rightarrow> ('t, 'w) DB \<Rightarrow> 'f disk \<Rightarrow> (unit result \<times> response list \<times> ('t, 'w) DB option \<times> 'f disk) option" where
  "db_Merge_during E S parses flt flt2 hold2 now closeErr xs n at now2 reopenAfterDone d k =
     (case doMerge_during E S parses flt flt2 hold2 now closeErr xs n at d k of
        None \<Rightarrow> None
      | Some (Ok _, rsps, d, k) \<Rightarrow>
          if \<not> reopenAfterDone then Some (Ok (), rsps, Some d, k)
          else if mutex_Lock (mu d) = None then None
          else (case merge_reopen E S flt now2 d k of ((r, k), d') \<Rightarrow> Some (r, rsps, d', k))
      | Some (Fail e, rsps, d, k) \<Rightarrow> Some (Fail e, rsps, Some d, k)
      | Some (Panic, rsps, d, k) \<Rightarrow> Some (Panic, rsps, Some d, k))"

text \<open>Without requests it is \<open>Merge\<close>.\<close>

lemma doMerge_during_Nil:
  "doMerge_during E S parses flt flt2 hold2 now closeErr [] n at d k
     = map_option (\<lambda>(r, d, k). (r, [], d, k)) (doMerge E S parses flt flt2 hold2 now closeErr d k)"
  by (auto simp: doMerge_during_def doMerge_def state_after_def split: option.split result.split prod.split)

lemma db_Merge_during_Nil:
  "db_Merge_during E S parses flt flt2 hold2 now closeErr [] n at now2 b d k
     = map_option (\<lambda>(r, d, k). (r, [], d, k)) (db_Merge E S parses flt flt2 hold2 now closeErr now2 b d k)"
  by (auto simp: db_Merge_during_def db_Merge_def doMerge_during_Nil split: option.split result.split prod.split)

section \<open>What the index of the hints holds\<close>

context segmented
begin

lemma stored_at:
  assumes d: "dinv d" and g: "mt_Get (Bt E) (index d) k = Some ip" and x: "(p, c) \<in> set (wal_log (Wl E) (dataFiles d))"
    and q: "positionEquals ip p"
  obtains r where "ip = p" and "decodeLogRecord c = Some r" and "good_record k r" and "stored_rec E d k = Some r"
proof -
  obtain c0 r where s: "decodeLogRecord c0 = Some r" "good_record k r" "stored_rec E d k = Some r"
    "(ip, c0) \<in> set (wal_log (Wl E) (dataFiles d))"
    using stored[OF d g] by metis
  have "w_inv (dataFiles d)" using d by (simp add: db_inv_def)
  from same_place[OF this s(4) x q] have "ip = p" "c0 = c" by simp_all
  then show ?thesis using that s by simp
qed

lemma kept_cases:
  assumes "kept_record E now mt (p, c) = Some r'"
  obtains r ip where "decodeLogRecord c = Some r" and "r' = r\<lparr>BatchId := mergeFinishedBatchID\<rparr>"
    and "mt_Get (Bt E) mt (Key r) = Some ip" and "positionEquals ip p"
  using assms by (auto simp: kept_record_def split: if_splits option.splits)

lemma untouched_at:
  assumes "\<forall>p. \<exists>L F d. idx p = index d \<and> overlaid t0 A d0 L F d \<and> dinv d \<and> (\<forall>k. F' k = None \<longrightarrow> F k = None)" and "F' k = None"
  shows "\<exists>L F d. idx p = index d \<and> overlay_at t0 d0 L F d k \<and> F k = None"
proof -
  obtain L F d where "idx p = index d" "overlaid t0 A d0 L F d" "\<forall>k. F' k = None \<longrightarrow> F k = None" using assms(1) by blast
  then show ?thesis using assms(2) unfolding overlaid_def by blast
qed

text \<open>
  A key that no request has touched: the hints lead to its record, or it has expired.
\<close>

lemma untouched_hint:
  assumes d0: "dinv d0" "wal_log (Wl E) (dataFiles d0) = A" and neg: "\<forall>k r. stored_rec E d0 k = Some r \<longrightarrow> 0 \<le> sint (Expire r)"
    and idx: "\<forall>p. \<exists>L F d. idx p = index d \<and> overlaid t0 A d0 L F d \<and> dinv d \<and> (\<forall>k. F' k = None \<longrightarrow> F k = None)"
    and rs: "rs = List.map_filter (\<lambda>x. kept_record E now (idx (fst x)) x) A" and n: "length ps = length rs"
    and mt: "hint_index rs ps mt" and le: "sint now \<le> sint t0" and k: "F' k = None"
  shows "case mt_Get (Bt E) mt k of
           None \<Rightarrow> \<forall>t. sint t0 \<le> sint t \<longrightarrow> db_view E t d0 k = None
         | Some p \<Rightarrow> \<exists>c r. (p, c) \<in> set (zip ps (map chunk_of rs)) \<and> decodeLogRecord c = Some r \<and> good_record k r
             \<and> (\<forall>t. sint t0 \<le> sint t \<longrightarrow> db_view E t d0 k = visible t r)"
proof (cases "mt_Get (Bt E) mt k")
  case (Some q)
  then have "map_of (rev (zip (map Key rs) ps)) k = Some q" using mt by (simp add: hint_index_def)
  then have "(k, q) \<in> set (zip (map Key rs) ps)" using map_of_SomeD by fastforce
  then obtain i where i: "i < length rs" "k = Key (rs ! i)" "q = ps ! i" using n by (auto simp: set_zip)
  have B: "(q, chunk_of (rs ! i)) \<in> set (zip ps (map chunk_of rs))" using i n by (auto simp: set_zip)
  have "rs ! i \<in> set (List.map_filter (\<lambda>x. kept_record E now (idx (fst x)) x) A)" using nth_mem[OF i(1)] rs by simp
  then obtain p c where x: "(p, c) \<in> set A" "kept_record E now (idx p) (p, c) = Some (rs ! i)"
    by (auto simp: List.map_filter_def)
  obtain r ip where r: "decodeLogRecord c = Some r" "rs ! i = r\<lparr>BatchId := mergeFinishedBatchID\<rparr>"
    and ip: "mt_Get (Bt E) (idx p) (Key r) = Some ip" "positionEquals ip p"
    by (rule kept_cases[OF x(2)])
  have kr: "Key r = k" using i(2) r(2) by simp
  obtain L F d where d: "idx p = index d" "overlay_at t0 d0 L F d k" "F k = None" using untouched_at[OF idx k] by blast
  then have i0: "mt_Get (Bt E) (index d0) k = Some ip" using ip(1) kr by (simp add: overlay_at_def)
  have "(p, c) \<in> set (wal_log (Wl E) (dataFiles d0))" using x(1) d0(2) by simp
  then obtain r1 where "decodeLogRecord c = Some r1" "good_record k r1" "stored_rec E d0 k = Some r1"
    by (rule stored_at[OF d0(1) i0 _ ip(2)])
  then have s: "good_record k r" "stored_rec E d0 k = Some r" using r(1) by simp_all
  have "good_record k (rs ! i)" using s(1) r(2) by (auto simp: good_record_def record_fits_def)
  moreover from this have "decodeLogRecord (chunk_of (rs ! i)) = Some (rs ! i)" using decode_chunk_of by (simp add: good_record_def)
  ultimately show ?thesis using Some B s(2) r(2) by (auto simp: db_view_def)
next
  case None
  have "db_view E t d0 k = None" if t: "sint t0 \<le> sint t" for t
  proof (rule ccontr)
    assume "db_view E t d0 k \<noteq> None"
    then obtain r where r: "stored_rec E d0 k = Some r" "visible t r \<noteq> None" by (auto simp: db_view_def split: option.splits)
    have ex: "\<not> IsExpired r now"
      using r(2) IsExpired_mono[of r now t] t le by (auto simp: visible_def live_def split: if_splits)
    obtain p where p: "mt_Get (Bt E) (index d0) k = Some p" using r(1) by (auto simp: stored_rec_def split: option.splits)
    obtain c where c: "decodeLogRecord c = Some r" "good_record k r" "(p, c) \<in> set A"
      using stored[OF d0(1) p] r(1) d0(2) by (metis option.inject)
    obtain L F d where d: "idx p = index d" "overlay_at t0 d0 L F d k" "F k = None" using untouched_at[OF idx k] by blast
    then have o: "db_view E t d k = db_view E t d0 k" "mt_Get (Bt E) (index d) k = None \<or> mt_Get (Bt E) (index d) k = Some p"
      using t p by (simp_all add: overlay_at_def)
    have "db_view E t d k \<noteq> None" using o(1) r by (simp add: db_view_def)
    then have g: "mt_Get (Bt E) (index d) k = Some p" using o(2) not_stored[of d k] by (auto simp: db_view_def)
    have fresh: "Expire r = 0 \<or> now <s Expire r" by (rule unexpired_cases[OF ex neg[rule_format, OF r(1)]])
    have "kept_record E now (idx p) (p, c) = Some (r\<lparr>BatchId := mergeFinishedBatchID\<rparr>)"
      using c(1,2) g fresh d(1) by (simp add: kept_record_def good_record_def positionEquals_def)
    then have "r\<lparr>BatchId := mergeFinishedBatchID\<rparr> \<in> set rs" using c(3) unfolding rs List.map_filter_def by force
    then have "Key (r\<lparr>BatchId := mergeFinishedBatchID\<rparr>) \<in> Key ` set rs" by (rule imageI)
    then have "k \<in> Key ` set rs" using c(2) by (simp add: good_record_def)
    moreover have "k \<notin> fst ` set (zip (map Key rs) ps)" using None mt by (simp add: hint_index_def map_of_eq_None_iff)
    ultimately show False using n by (metis length_map list.set_map map_fst_zip)
  qed
  then show ?thesis using None by simp
qed

text \<open>The hints and the chunks written during the merge give the view of the running database.\<close>

lemma hints_replay:
  assumes d0: "dinv d0" "wal_log (Wl E) (dataFiles d0) = A" and neg: "\<forall>k r. stored_rec E d0 k = Some r \<longrightarrow> 0 \<le> sint (Expire r)"
    and idx: "\<forall>p. \<exists>L F d. idx p = index d \<and> overlaid t0 A d0 L F d \<and> dinv d \<and> (\<forall>k. F' k = None \<longrightarrow> F k = None)"
    and rs: "rs = List.map_filter (\<lambda>x. kept_record E now (idx (fst x)) x) A" and n: "length ps = length rs"
    and mt: "hint_index rs ps mt" and le: "sint now \<le> sint t0" and o: "overlaid t0 A d0 L' F' d'"
  shows "replays t0 A mt (zip ps (map chunk_of rs)) d'"
proof -
  let ?B = "zip ps (map chunk_of rs)"
  have l: "wal_log (Wl E) (dataFiles d') = A @ L'" "loads t0 L' F'" and a: "\<And>k. overlay_at t0 d0 L' F' d' k" using o by (simp_all add: overlaid_def)
  have "mt_inv bt_inv mt" using mt by (simp add: hint_index_def)
  then obtain mt' recs where m: "load_chunks E t0 L' (mt, []) = Ok (mt', recs)" "mt_inv bt_inv mt'" "\<forall>j. get_records recs j = []"
    and g: "\<forall>k. mt_Get (Bt E) mt' k = (case F' k of None \<Rightarrow> mt_Get (Bt E) mt k | Some x \<Rightarrow> x)"
    using l(2) unfolding loads_def by blast
  have "case mt_Get (Bt E) mt' k of
           None \<Rightarrow> \<forall>t. sint t0 \<le> sint t \<longrightarrow> db_view E t d' k = None
         | Some p \<Rightarrow> \<exists>c r. (p, c) \<in> set ?B \<union> set L' \<and> decodeLogRecord c = Some r \<and> good_record k r
             \<and> (\<forall>t. sint t0 \<le> sint t \<longrightarrow> db_view E t d' k = visible t r)" for k
  proof (cases "F' k")
    case None
    have v: "\<forall>t. sint t0 \<le> sint t \<longrightarrow> db_view E t d' k = db_view E t d0 k" using a[of k] None by (simp add: overlay_at_def)
    have e: "mt_Get (Bt E) mt' k = mt_Get (Bt E) mt k" using g None by simp
    note h = untouched_hint[OF d0 neg idx rs n mt le None]
    show ?thesis
    proof (cases "mt_Get (Bt E) mt k")
      case None
      then show ?thesis using h v by (simp add: e)
    next
      case (Some p)
      then obtain c r where "(p, c) \<in> set ?B" "decodeLogRecord c = Some r" "good_record k r"
        "\<forall>t. sint t0 \<le> sint t \<longrightarrow> db_view E t d0 k = visible t r"
        using h by auto
      then show ?thesis using v by (simp add: e Some) (intro exI[of _ c] exI[of _ r], simp)
    qed
  next
    case (Some x)
    then have "mt_Get (Bt E) mt' k = x" using g by simp
    then show ?thesis using a[of k] Some by (cases x) (auto simp: overlay_at_def)
  qed
  then have "holds E bt_inv t0 (set ?B \<union> set L') mt' (\<lambda>t. db_view E t d')" using m(2) by (simp add: holds_def)
  then show ?thesis using l(1) m unfolding replays_def by blast
qed

section \<open>A merge with requests\<close>

lemma begun:
  assumes d: "dinv d" and e: "\<not> w_IsEmpty S (dataFiles d)" and b: "with_Lock (merge_begin S) d = Some (Ok x, d2)"
  shows "x = Some (w_ActiveSegmentID S (dataFiles d))" and "dinv d2" and "idle d2" and "\<not> closed d2"
    and "wal_log (Wl E) (dataFiles d2) = wal_log (Wl E) (dataFiles d)" and "\<forall>t. db_view E t d2 = db_view E t d"
    and "stored_rec E d2 = stored_rec E d" and "options d2 = options d"
    and "\<forall>x \<in> set (wal_log (Wl E) (dataFiles d2)). SegmentId (fst x) \<le> w_ActiveSegmentID S (dataFiles d)"
    and "written_after (w_ActiveSegmentID S (dataFiles d)) (wal_log (Wl E) (dataFiles d2)) (dataFiles d2)"
proof -
  note bo = merge_begin_ok[OF b e]
  have w: "w_inv (dataFiles d)" using d by (simp add: db_inv_def)
  note nl = new_segment_log[OF w bo(2)] and na = NewActive_ok[OF w bo(2)]
  have pd: "w_inv (dataFiles d2)" "pend (dataFiles d2) = []" using na d by (simp_all add: db_inv_def)
  have "set (wal_log (Wl E) (dataFiles d)) \<subseteq> set (wal_log (Wl E) (dataFiles d2))" by (simp add: nl(1))
  note gl = grown_log[OF d pd this]
  have i: "index d2 = index d" by (subst bo(5)) simp
  have st: "stored_rec E d2 = stored_rec E (d\<lparr>dataFiles := dataFiles d2\<rparr>)" by (rule same_store) (simp_all add: i)
  have vw: "db_view E t d2 = db_view E t (d\<lparr>dataFiles := dataFiles d2\<rparr>)" for t by (rule same_store) (simp_all add: i)
  show "dinv d2" using gl(1) by (subst bo(5)) (simp add: db_inv_def)
  show "\<forall>t. db_view E t d2 = db_view E t d" "stored_rec E d2 = stored_rec E d" using st vw gl(2,3) by simp_all
  show "options d2 = options d" by (subst bo(5)) simp
  show "\<forall>x \<in> set (wal_log (Wl E) (dataFiles d2)). SegmentId (fst x) \<le> w_ActiveSegmentID S (dataFiles d)" using nl(1,3) by simp
  show "written_after (w_ActiveSegmentID S (dataFiles d)) (wal_log (Wl E) (dataFiles d2)) (dataFiles d2)"
    using na by (simp add: written_after_def)
qed (use merge_begin_ok[OF b e] new_segment_log(1)[OF _ merge_begin_ok(2)[OF b e]] d in \<open>simp_all add: db_inv_def\<close>)

text \<open>What the merge has in the merge directory, and how the log of the running database goes on.\<close>

definition during ::
    "int64 \<Rightarrow> uint32 \<Rightarrow> log_record list \<Rightarrow> chunk_position list \<Rightarrow> (chunk_position \<times> bytes) list \<Rightarrow> 't MemoryBTree
       \<Rightarrow> ('t, 'w) DB \<Rightarrow> 'f disk \<Rightarrow> bool" where
  "during t1 prev rs ps A mt d k \<longleftrightarrow> dinv d \<and> idle d \<and> \<not> closed d \<and> hint_index rs ps mt \<and> length ps = length rs
     \<and> written_after prev A (dataFiles d) \<and> (\<forall>x \<in> set A. SegmentId (fst x) \<le> prev)
     \<and> (\<forall>t. sint t1 \<le> sint t \<longrightarrow> replays t A mt (zip ps (map chunk_of rs)) d)
     \<and> (\<exists>md. merge_dir k = Some md \<and> merge_copied prev rs ps md) \<and> one_hint_file k"

lemma doMerge_during_ok:
  assumes d: "dinv d" and e: "\<not> w_IsEmpty S (dataFiles d)" and h: "one_hint_file k"
    and neg: "\<forall>k r. stored_rec E d k = Some r \<longrightarrow> 0 \<le> sint (Expire r)"
    and small: "\<forall>r rsps d1 k1. doMerge_during E S parses flt flt2 hold2 now closeErr xs n at d k = Some (r, rsps, d1, k1)
        \<longrightarrow> merged_within (w_ActiveSegmentID S (dataFiles d)) k1"
    and dm: "doMerge_during E S parses flt flt2 hold2 now closeErr xs n at d k = Some (Ok (), rsps, d1, k1)"
    and xs: "clock_ok now0 xs" "\<forall>(x, req) \<in> set xs. req_fits req \<and> batch_id x \<noteq> 0" and ok: "no_log_error rsps"
    and t1: "sint now \<le> sint t1" "sint (clock_end now0 xs) \<le> sint t1"
  shows "\<exists>rs ps A mt d2 d3. during t1 (w_ActiveSegmentID S (dataFiles d)) rs ps A mt d1 k1
     \<and> dinv d2 \<and> (\<forall>t. db_view E t d2 = db_view E t d) \<and> db_run E xs d2 = Some (rsps, d3) \<and> (\<forall>t. db_view E t d1 = db_view E t d3)
     \<and> (xs = [] \<longrightarrow> wal_log (Wl E) (dataFiles d1) = A)"
proof -
  let ?prev = "w_ActiveSegmentID S (dataFiles d)"
  obtain x d2 where b: "with_Lock (merge_begin S) d = Some (Ok x, d2)"
    using dm by (auto simp: doMerge_during_def split: option.splits prod.splits result.splits)
  note bg = begun[OF d e b]
  let ?A = "wal_log (Wl E) (dataFiles d2)" and ?idx = "\<lambda>p. index (state_after E (take (at p) xs) d2)" and ?sn = "state_after E (take n xs) d2"
  obtain d3 where r: "db_run E xs d2 = Some (rsps, d3)" and d1: "d1 = d3\<lparr>mergeRunning := False\<rparr>"
    and mc: "merge_copy E S parses flt flt2 hold2 now closeErr ?prev ?idx ?sn k = (Ok (), k1)"
    using dm by (auto simp: doMerge_during_def b bg(1) split: option.splits prod.splits)
  have run: "\<exists>L' F'. overlaid t ?A d2 L' F' d3 \<and> dinv d3 \<and> idle d3 \<and> \<not> closed d3
      \<and> (\<forall>n. \<exists>Ln Fn. overlaid t ?A d2 Ln Fn (state_after E (take n xs) d2) \<and> dinv (state_after E (take n xs) d2)
          \<and> (\<forall>k. F' k = None \<longrightarrow> Fn k = None))" if "sint t1 \<le> sint t" for t
  proof -
    have "sint (clock_end now0 xs) \<le> sint t" using t1(2) that by (rule order_trans)
    from overlaid_run[OF bg(2-4) overlaid_start[OF refl] xs this r ok] show ?thesis by blast
  qed
  have st: "dinv (state_after E (take m xs) d2) \<and> (\<exists>L. wal_log (Wl E) (dataFiles (state_after E (take m xs) d2)) = ?A @ L)" for m
    using run[OF order_refl] unfolding overlaid_def by blast
  have wr: "written_after ?prev ?A (dataFiles (state_after E (take m xs) d2))" for m
  proof -
    obtain rm dm where "db_run E (take m xs) d2 = Some (rm, dm)" using db_run_take[OF r, of m] by auto
    then show ?thesis using run_files[OF written_after_closed bg(10)] by (simp add: state_after_def)
  qed
  have cs: "filter (\<lambda>x. SegmentId (fst x) \<le> ?prev) (wal_log (Wl E) (dataFiles ?sn)) = ?A"
  proof -
    obtain L where "wal_log (Wl E) (dataFiles ?sn) = ?A @ L" "\<forall>x \<in> set L. ?prev < SegmentId (fst x)"
      using wr[of n] unfolding written_after_def by blast
    then show ?thesis using bg(9) by (simp add: filter_empty_conv filter_id_conv not_le)
  qed
  have fits: "record_fits r" if x: "x \<in> set ?A" "kept_record E now (?idx (fst x)) x = Some r" for x r
  proof -
    obtain p c where pc: "x = (p, c)" by (cases x)
    obtain r0 ip where r0: "decodeLogRecord c = Some r0" "r = r0\<lparr>BatchId := mergeFinishedBatchID\<rparr>"
      and ip: "mt_Get (Bt E) (?idx p) (Key r0) = Some ip" "positionEquals ip p"
      by (rule kept_cases[of now "?idx p" p c r]) (use x(2) pc in auto)
    have di: "dinv (state_after E (take (at p) xs) d2)" using st by blast
    have "(p, c) \<in> set (wal_log (Wl E) (dataFiles (state_after E (take (at p) xs) d2)))" using st[of "at p"] x(1) pc by auto
    then obtain r1 where "decodeLogRecord c = Some r1" "good_record (Key r0) r1" by (rule stored_at[OF di ip(1) _ ip(2)])
    then show ?thesis using r0 by (auto simp: good_record_def record_fits_def)
  qed
  have wn: "w_inv (dataFiles ?sn)" using wr[of n] by (simp add: written_after_def)
  have fits': "\<forall>x \<in> set (filter (\<lambda>x. SegmentId (fst x) \<le> ?prev) (wal_log (Wl E) (dataFiles ?sn))).
      \<forall>r. kept_record E now (?idx (fst x)) x = Some r \<longrightarrow> record_fits r"
    unfolding cs using fits by blast
  obtain md rs ps w0 h0 w' h' where md: "merge_dir k1 = Some md" "data_dir k1 = data_dir k"
    and rs: "rs = List.map_filter (\<lambda>x. kept_record E now (?idx (fst x)) x) ?A"
    and z: "wal_log (Wl E) w0 = []" "pend w0 = []" "wal_log (Wl E) h0 = []" "one_seg h0" "merged rs ps w0 h0 w' h'"
    and mf: "md dataFileNameSuffix = w_Files S w'" "md hintFileNameSuffix = w_Files S h'" "map_of (md mergeFinNameSuffix) 1 \<noteq> None"
    and fin: "\<forall>dir. map_of (dir mergeFinNameSuffix) 1 = map_of (md mergeFinNameSuffix) 1 \<longrightarrow> getMergeFinSegmentId S no_fault dir = Ok ?prev"
    using merge_copy_ok[OF mc wn fits'] unfolding cs by blast
  have "\<forall>i \<in> fst ` set (md dataFileNameSuffix). i \<le> ?prev"
    using small[rule_format, OF dm] md(1) by (simp add: merged_within_def)
  then have mcp: "merge_copied ?prev rs ps md" unfolding merge_copied_def using z mf fin by blast
  have len: "length ps = length rs" using z(5) by (simp add: merged_def)
  obtain mt where mt: "hint_index rs ps mt" using hint_index[OF len] by blast
  have neg2: "\<forall>k r. stored_rec E d2 k = Some r \<longrightarrow> 0 \<le> sint (Expire r)" using neg bg(7) by simp
  have "replays t ?A mt (zip ps (map chunk_of rs)) d3" if t: "sint t1 \<le> sint t" for t
  proof -
    obtain L' F' where o: "overlaid t ?A d2 L' F' d3"
      and pre: "\<forall>n. \<exists>Ln Fn. overlaid t ?A d2 Ln Fn (state_after E (take n xs) d2) \<and> dinv (state_after E (take n xs) d2)
          \<and> (\<forall>k. F' k = None \<longrightarrow> Fn k = None)" using run[OF t] by blast
    have "\<forall>p. \<exists>L F d. ?idx p = index d \<and> overlaid t ?A d2 L F d \<and> dinv d \<and> (\<forall>k. F' k = None \<longrightarrow> F k = None)" using pre by blast
    from hints_replay[OF bg(2) refl neg2 this rs len mt order_trans[OF t1(1) t] o] show ?thesis .
  qed
  moreover have d3: "dinv d3" "idle d3" "\<not> closed d3" "written_after ?prev ?A (dataFiles d3)"
    using run[OF order_refl] run_files[OF written_after_closed bg(10) r] by blast+
  moreover have "one_hint_file k1" using h by (simp add: one_hint_file_def md(2))
  ultimately have du: "during t1 ?prev rs ps ?A mt d3 k1" using mt len bg(9) md(1) mcp unfolding during_def by blast
  have sv: "db_view E t d1 = db_view E t d3" for t by (rule same_store) (simp_all add: d1)
  have "dinv d1 = dinv d3" by (rule same_store) (simp_all add: d1)
  moreover have same: "dataFiles d1 = dataFiles d3" "idle d1 = idle d3" "closed d1 = closed d3" by (simp_all add: d1 idle_def)
  moreover have "replays t ?A mt (zip ps (map chunk_of rs)) d1 = replays t ?A mt (zip ps (map chunk_of rs)) d3" for t
    unfolding replays_def by (simp only: same sv)
  ultimately have "during t1 ?prev rs ps ?A mt d1 k1" using du unfolding during_def by simp
  moreover have "xs = [] \<longrightarrow> wal_log (Wl E) (dataFiles d1) = ?A" using r by (auto simp: d1)
  ultimately show ?thesis using bg(2,6) r sv by blast
qed

section \<open>Opening again\<close>

lemma during_log:
  assumes "during t1 prev rs ps A mt d k"
  shows "\<exists>L. wal_log (Wl E) (dataFiles d) = A @ L \<and> filter (\<lambda>x. prev < SegmentId (fst x)) (wal_log (Wl E) (dataFiles d)) = L
     \<and> (\<forall>x \<in> set L. prev < SegmentId (fst x))"
proof -
  have ids: "\<forall>x \<in> set A. SegmentId (fst x) \<le> prev" and wa: "written_after prev A (dataFiles d)"
    using assms unfolding during_def by blast+
  then obtain L where "wal_log (Wl E) (dataFiles d) = A @ L" "\<forall>x \<in> set L. prev < SegmentId (fst x)" unfolding written_after_def by blast
  then show ?thesis using ids by (simp add: filter_empty_conv filter_id_conv not_less)
qed

text \<open>The merge directory is left to the next \<open>Open\<close>.\<close>

lemma during_left:
  assumes u: "during t1 prev rs ps A mt d k"
  shows "after_merge t1 prev rs ps A mt d k"
proof -
  obtain md where md: "merge_dir k = Some md" "merge_copied prev rs ps md" and h: "one_hint_file k"
    and ids: "\<forall>x \<in> set A. SegmentId (fst x) \<le> prev"
    using u unfolding during_def by blast
  have "\<exists>L k'. wal_log (Wl E) w = A @ L \<and> loadMergeFiles S no_fault (set_files dataFileNameSuffix (w_Files S w) k) = (Ok (), k')
      \<and> merged_disk prev rs ps L k' \<and> newer_segment prev k'" if w: "written_after prev A w" for w
  proof -
    obtain L where L: "wal_log (Wl E) w = A @ L" "\<forall>x \<in> set L. prev < SegmentId (fst x)" and wi: "w_inv w"
      using w unfolding written_after_def by blast
    have "filter (\<lambda>x. prev < SegmentId (fst x)) (wal_log (Wl E) w) = L"
      using L ids by (simp add: filter_empty_conv filter_id_conv not_less)
    then obtain k' where "loadMergeFiles S no_fault (set_files dataFileNameSuffix (w_Files S w) k) = (Ok (), k')"
      "merged_disk prev rs ps L k'" "\<forall>j. prev < j \<longrightarrow> map_of (data_dir k' dataFileNameSuffix) j = map_of (w_Files S w) j"
      using takeover[OF wi md] h by (auto simp: one_hint_file_def)
    then show ?thesis using L(1) written_after_newer[OF w] by blast
  qed
  then show ?thesis using u unfolding after_merge_def during_def by blast
qed

text \<open>\<open>Merge(true)\<close> has moved the segments itself.\<close>

lemma moved_again:
  assumes k3: "merged_disk prev rs ps L0 k3" and hh: "w_Open S hintFileNameSuffix (data_dir k3 hintFileNameSuffix) = Inr hh"
    and v: "w_inv v" "wal_log (Wl E) v = zip ps (map chunk_of rs) @ L" "\<forall>x \<in> set L. prev < SegmentId (fst x)"
    and k': "k' = set_files hintFileNameSuffix (w_Files S hh) (set_files dataFileNameSuffix fs k3)"
  shows "loadMergeFiles S no_fault (set_files dataFileNameSuffix (w_Files S v) k') = (Ok (), set_files dataFileNameSuffix (w_Files S v) k')"
    and "merged_disk prev rs ps L (set_files dataFileNameSuffix (w_Files S v) k')"
proof -
  have hi: "w_inv hh" "map snd (wal_log (Wl E) hh) = map2 hint_of rs ps" using k3 hh unfolding merged_disk_def by auto
  have vo: "\<forall>(i, f) \<in> set (w_Files S v). seg_ok i f \<and> 0 < i" using Files_ok[OF v(1)] by blast
  have ho: "\<forall>(i, f) \<in> set (w_Files S hh). seg_ok i f \<and> 0 < i" using Files_ok[OF hi(1)] by blast
  have "w_inv u \<and> pend u = [] \<and> wal_log (Wl E) u = zip ps (map chunk_of rs) @ L" if "w_Open S dataFileNameSuffix (w_Files S v) = Inr u" for u
    using Open_law[OF that vo Files_distinct[OF v(1)]] Files_log[OF v(1)] v(2) by simp
  moreover have "w_inv u \<and> map snd (wal_log (Wl E) u) = map2 hint_of rs ps" if "w_Open S hintFileNameSuffix (w_Files S hh) = Inr u" for u
    using Open_law[OF that ho Files_distinct[OF hi(1)]] Files_log[OF hi(1)] hi(2) by simp
  ultimately show "merged_disk prev rs ps L (set_files dataFileNameSuffix (w_Files S v) k')"
    using k3 vo Files_distinct[OF v(1)] v(3) unfolding merged_disk_def by (simp add: k' set_files_dirs)
  show "loadMergeFiles S no_fault (set_files dataFileNameSuffix (w_Files S v) k') = (Ok (), set_files dataFileNameSuffix (w_Files S v) k')"
    using k3 by (simp add: loadMergeFiles_def merged_disk_def k' set_files_dirs)
qed

lemma during_reopened:
  assumes u: "during t1 prev rs ps A mt d1 k1" and ro: "merge_reopen E S no_fault now2 d1 k1 = ((Ok (), k'), Some d')"
    and le: "sint t1 \<le> sint t2" and t2: "now2 = t2 \<or> wal_log (Wl E) (dataFiles d1) = A"
  shows "after_merge t2 prev rs ps (zip ps (map chunk_of rs)) mt d' k' \<and> (\<forall>t. sint t2 \<le> sint t \<longrightarrow> db_view E t d' = db_view E t d1)"
proof -
  let ?B = "zip ps (map chunk_of rs)"
  obtain md where md: "merge_dir k1 = Some md" "merge_copied prev rs ps md" and h: "one_hint_file k1"
    and d1: "dinv d1" "idle d1" "\<not> closed d1" and mt: "hint_index rs ps mt" and wa: "written_after prev A (dataFiles d1)"
    and rp: "\<forall>t. sint t1 \<le> sint t \<longrightarrow> replays t A mt ?B d1"
    using u unfolding during_def by blast
  obtain L where L: "wal_log (Wl E) (dataFiles d1) = A @ L" "filter (\<lambda>x. prev < SegmentId (fst x)) (wal_log (Wl E) (dataFiles d1)) = L"
    and ids: "\<forall>x \<in> set L. prev < SegmentId (fst x)"
    using during_log[OF u] by blast
  have w1: "w_inv (dataFiles d1)" "prev < w_ActiveSegmentID S (dataFiles d1)" using wa by (simp_all add: written_after_def)
  have hk: "distinct (map fst (data_dir k1 hintFileNameSuffix))" "fst ` set (data_dir k1 hintFileNameSuffix) \<subseteq> {1}"
    using h by (simp_all add: one_hint_file_def)
  obtain w k3 hh mt' recs where lc: "load_chunks E now2 L (mt, []) = Ok (mt', recs)" and d': "d' = d1\<lparr>dataFiles := w, index := mt'\<rparr>"
    and k3: "merged_disk prev rs ps L k3" and w: "w_Open S dataFileNameSuffix (data_dir k3 dataFileNameSuffix) = Inr w"
    and hh: "w_Open S hintFileNameSuffix (data_dir k3 hintFileNameSuffix) = Inr hh"
    and k': "k' = set_files hintFileNameSuffix (w_Files S hh) (set_files dataFileNameSuffix (w_Files S w) k3)"
    and j: "\<forall>j. prev < j \<longrightarrow> map_of (data_dir k3 dataFileNameSuffix) j = map_of (w_Files S (dataFiles d1)) j"
    using merge_reopen_ok[OF ro w1(1) md hk mt L(2)] by blast
  have wf: "w_inv w" "pend w = []" "wal_log (Wl E) w = ?B @ L"
    and fs: "\<forall>(i, f) \<in> set (data_dir k3 dataFileNameSuffix). seg_ok i f \<and> 0 < i" "distinct (map fst (data_dir k3 dataFileNameSuffix))"
    using k3 w unfolding merged_disk_def by auto
  have wd: "dataFiles d' = w" "index d' = mt'" "options d' = options d1" "db_watcher d' = db_watcher d1" "idle d'" "\<not> closed d'"
    using d1 by (simp_all add: d' idle_def)
  have sub: "set ?B \<union> set L \<subseteq> set (wal_log (Wl E) w)" by (simp add: wf(3))
  have later: "\<exists>m rc. load_chunks E t L (mt, []) = Ok (m, rc) \<and> (\<forall>j. get_records rc j = [])
      \<and> holds E bt_inv t (set ?B \<union> set L) m (\<lambda>t. db_view E t d1)" if "sint t1 \<le> sint t" for t
    using rp[rule_format, OF that] L(1) unfolding replays_def by auto
  have "load_chunks E t2 L (mt, []) = Ok (mt', recs)" using t2 lc L(1) by auto
  then have h2: "holds E bt_inv t2 (set ?B \<union> set L) mt' (\<lambda>t. db_view E t d1)" using later[OF le] by auto
  have wk: "watcher_ok (options d') (db_watcher d')" using d1(1) wd by (simp add: db_inv_def watcher_ok_def)
  note dh = db_holds[OF h2 wf(1,2) sub wd(1,2) wk]
  have "replays t ?B mt ?B d'" if t: "sint t2 \<le> sint t" for t
  proof -
    obtain m rc where m: "load_chunks E t L (mt, []) = Ok (m, rc)" "\<forall>j. get_records rc j = []"
      "holds E bt_inv t (set ?B \<union> set L) m (\<lambda>t. db_view E t d1)"
      using later[OF order_trans[OF le t]] by blast
    have "holds E bt_inv t (set ?B \<union> set L) m (\<lambda>t. db_view E t d')"
      by (rule holds_mono[OF m(3) subset_refl order_refl]) (use dh(2) t in auto)
    then show ?thesis using m wf(3) wd(1) unfolding replays_def by blast
  qed
  moreover have "written_after prev ?B w"
  proof -
    let ?i = "w_ActiveSegmentID S (dataFiles d1)"
    have "map_of (w_Files S (dataFiles d1)) ?i \<noteq> None" using Active_file[OF w1(1)] by (simp add: map_of_eq_None_iff)
    then have "?i \<in> fst ` set (data_dir k3 dataFileNameSuffix)" using j w1(2) by (metis map_of_eq_None_iff)
    from Open_active[OF w fs this] have "prev < w_ActiveSegmentID S w" using w1(2) by (rule less_le_trans[rotated])
    then show ?thesis using wf ids unfolding written_after_def by blast
  qed
  moreover have "\<forall>v. written_after prev ?B v \<longrightarrow>
      (\<exists>L k0. wal_log (Wl E) v = ?B @ L \<and> loadMergeFiles S no_fault (set_files dataFileNameSuffix (w_Files S v) k') = (Ok (), k0)
         \<and> merged_disk prev rs ps L k0 \<and> newer_segment prev k0)"
  proof (intro allI impI)
    fix v
    assume v: "written_after prev ?B v"
    then obtain L where L: "w_inv v" "wal_log (Wl E) v = ?B @ L" "\<forall>x \<in> set L. prev < SegmentId (fst x)"
      unfolding written_after_def by blast
    have "newer_segment prev (set_files dataFileNameSuffix (w_Files S v) k')"
      by (rule written_after_newer[OF v]) (simp add: set_files_dirs)
    then show "\<exists>L k0. wal_log (Wl E) v = ?B @ L \<and> loadMergeFiles S no_fault (set_files dataFileNameSuffix (w_Files S v) k') = (Ok (), k0)
         \<and> merged_disk prev rs ps L k0 \<and> newer_segment prev k0"
      using moved_again[OF k3 hh L k'] L(2) by blast
  qed
  ultimately have "after_merge t2 prev rs ps ?B mt d' k'" using dh(1) wd mt unfolding after_merge_def wd by blast
  then show ?thesis using dh(2) by blast
qed

lemma merge_during_open:
  assumes d: "dinv d" and e: "\<not> w_IsEmpty S (dataFiles d)" and h: "one_hint_file k"
    and neg: "\<forall>k r. stored_rec E d k = Some r \<longrightarrow> 0 \<le> sint (Expire r)"
    and small: "\<forall>r rsps d1 k1. doMerge_during E S parses no_fault flt2 hold2 now closeErr xs n at d k = Some (r, rsps, d1, k1)
        \<longrightarrow> merged_within (w_ActiveSegmentID S (dataFiles d)) k1"
    and m: "db_Merge_during E S parses no_fault flt2 hold2 now closeErr xs n at now2 reopenAfterDone d k = Some (Ok (), rsps, Some d1, k1)"
    and xs: "clock_ok now0 xs" "\<forall>(x, req) \<in> set xs. req_fits req \<and> batch_id x \<noteq> 0" and ok: "no_log_error rsps"
    and t1: "sint now \<le> sint t2" "sint (clock_end now0 xs) \<le> sint t2" and t2: "now2 = t2 \<or> xs = []"
    and o: "opens S" and c: "checkOptions parses (options d1) = Ok ()"
    and ys: "clock_ok now' ys" "\<forall>(x, req) \<in> set ys. req_fits req \<and> batch_id x \<noteq> 0" and le: "sint t2 \<le> sint t"
    and t: "sint (clock_end now' ys) \<le> sint t" and r: "db_run E ys d1 = Some (rsps', d2)" and ok': "no_log_error rsps'"
  shows "(\<exists>b b'. dinv b \<and> (\<forall>t. db_view E t b = db_view E t d) \<and> db_run E xs b = Some (rsps, b')
          \<and> (\<forall>t. sint t2 \<le> sint t \<longrightarrow> db_view E t d1 = db_view E t b'))
     \<and> (\<exists>d3 k3. Open E S parses no_fault (Inr True) t (options d1) (set_files dataFileNameSuffix (w_Files S (dataFiles d2)) k1) = (Ok d3, k3)
          \<and> dinv d3 \<and> idle d3 \<and> \<not> closed d3 \<and> merge_dir k3 = None \<and> (\<forall>t'. sint t \<le> sint t' \<longrightarrow> db_view E t' d3 = db_view E t' d2))"
proof -
  obtain d0 k0 where dm: "doMerge_during E S parses no_fault flt2 hold2 now closeErr xs n at d k = Some (Ok (), rsps, d0, k0)"
    and f: "reopenAfterDone \<longrightarrow> merge_reopen E S no_fault now2 d0 k0 = ((Ok (), k1), Some d1)" "\<not> reopenAfterDone \<longrightarrow> d1 = d0 \<and> k1 = k0"
    using m by (auto simp: db_Merge_during_def split: option.splits prod.splits result.splits if_splits)
  obtain rs ps A mt b b' where u: "during t2 (w_ActiveSegmentID S (dataFiles d)) rs ps A mt d0 k0"
    and b: "dinv b" "\<forall>t. db_view E t b = db_view E t d" "db_run E xs b = Some (rsps, b')" "\<forall>t. db_view E t d0 = db_view E t b'"
    and nil: "xs = [] \<longrightarrow> wal_log (Wl E) (dataFiles d0) = A"
    using doMerge_during_ok[OF d e h neg small dm xs ok t1] by blast
  have "(\<exists>A. after_merge t2 (w_ActiveSegmentID S (dataFiles d)) rs ps A mt d1 k1)
      \<and> (\<forall>t. sint t2 \<le> sint t \<longrightarrow> db_view E t d1 = db_view E t d0)"
  proof (cases reopenAfterDone)
    case True
    have "now2 = t2 \<or> wal_log (Wl E) (dataFiles d0) = A" using t2 nil by blast
    from during_reopened[OF u _ order_refl this] True f(1) show ?thesis by blast
  next
    case False
    then show ?thesis using during_left[OF u] f(2) by blast
  qed
  then obtain A' where a: "after_merge t2 (w_ActiveSegmentID S (dataFiles d)) rs ps A' mt d1 k1"
    and v: "\<forall>t. sint t2 \<le> sint t \<longrightarrow> db_view E t d1 = db_view E t b'" using b(4) by auto
  from Open_after_merge[OF a o c ys le t r ok'] show ?thesis using b(1-3) v by blast
qed

text \<open>Without requests between its steps.\<close>

lemma merge_run_open:
  assumes d: "dinv d" "\<not> w_IsEmpty S (dataFiles d)" "one_hint_file k" "\<forall>k r. stored_rec E d k = Some r \<longrightarrow> 0 \<le> sint (Expire r)"
    and small: "\<forall>r d1 k1. doMerge E S parses no_fault flt2 hold2 now closeErr d k = Some (r, d1, k1)
        \<longrightarrow> merged_within (w_ActiveSegmentID S (dataFiles d)) k1"
    and m: "db_Merge E S parses no_fault flt2 hold2 now closeErr now2 reopenAfterDone d k = Some (Ok (), Some d1, k1)"
    and o: "opens S" "checkOptions parses (options d1) = Ok ()"
    and ys: "clock_ok now' ys" "\<forall>(x, req) \<in> set ys. req_fits req \<and> batch_id x \<noteq> 0" and le: "sint now \<le> sint t"
    and t: "sint (clock_end now' ys) \<le> sint t" and r: "db_run E ys d1 = Some (rsps, d2)" and ok: "no_log_error rsps"
  shows "(\<forall>t. sint now \<le> sint t \<longrightarrow> db_view E t d1 = db_view E t d)
     \<and> (\<exists>d3 k3. Open E S parses no_fault (Inr True) t (options d1) (set_files dataFileNameSuffix (w_Files S (dataFiles d2)) k1) = (Ok d3, k3)
          \<and> dinv d3 \<and> idle d3 \<and> \<not> closed d3 \<and> merge_dir k3 = None \<and> (\<forall>t'. sint t \<le> sint t' \<longrightarrow> db_view E t' d3 = db_view E t' d2))"
proof -
  have small': "\<forall>r rsps d1 k1. doMerge_during E S parses no_fault flt2 hold2 now closeErr [] 0 (\<lambda>p. 0) d k = Some (r, rsps, d1, k1)
      \<longrightarrow> merged_within (w_ActiveSegmentID S (dataFiles d)) k1"
    using small by (auto simp: doMerge_during_Nil)
  have m': "db_Merge_during E S parses no_fault flt2 hold2 now closeErr [] 0 (\<lambda>p. 0) now2 reopenAfterDone d k = Some (Ok (), [], Some d1, k1)"
    by (simp add: db_Merge_during_Nil m)
  have "now2 = now \<or> ([] :: (ticket \<times> request) list) = []" by simp
  from merge_during_open[OF d small' m' _ _ _ order_refl _ this o ys le t r ok, of now] show ?thesis by (auto simp: no_log_error_def)
qed

end

text \<open>
  Durability across a merge that has the database for itself: the view is the old one, and
  what later requests make of it is there again after an opening, whenever the index was
  rebuilt.
\<close>

lemma merged_data_survive_restart:
  assumes "engine E bt_inv w_inv pend" and "segment_lib (Wl E) w_inv pend S one_seg seg_ok seg_log"
    and "db_inv E bt_inv w_inv pend d" and "\<not> w_IsEmpty S (dataFiles d)" and "one_hint_file k"
    and "\<forall>k r. stored_rec E d k = Some r \<longrightarrow> 0 \<le> sint (Expire r)"
    and "\<forall>r d1 k1. doMerge E S parses no_fault flt2 hold2 now closeErr d k = Some (r, d1, k1)
        \<longrightarrow> merged_within (w_ActiveSegmentID S (dataFiles d)) k1"
    and "db_Merge E S parses no_fault flt2 hold2 now closeErr now2 reopenAfterDone d k = Some (Ok (), Some d1, k1)"
    and "opens S" and "checkOptions parses (options d1) = Ok ()"
    and "clock_ok now' xs" and "\<forall>(x, req) \<in> set xs. req_fits req \<and> batch_id x \<noteq> 0" and "sint now \<le> sint t"
    and "sint (clock_end now' xs) \<le> sint t" and "db_run E xs d1 = Some (rsps, d2)" and "no_log_error rsps"
  shows "(\<forall>t. sint now \<le> sint t \<longrightarrow> db_view E t d1 = db_view E t d)
     \<and> (\<exists>d3 k3. Open E S parses no_fault (Inr True) t (options d1) (set_files dataFileNameSuffix (w_Files S (dataFiles d2)) k1) = (Ok d3, k3)
          \<and> db_inv E bt_inv w_inv pend d3 \<and> idle d3 \<and> \<not> closed d3 \<and> merge_dir k3 = None
          \<and> (\<forall>t'. sint t \<le> sint t' \<longrightarrow> db_view E t' d3 = db_view E t' d2))"
proof -
  have "segmented E bt_inv w_inv pend S one_seg seg_ok seg_log"
    using assms(1,2) by (simp add: segmented_def store_def segment_lib_def)
  from segmented.merge_run_open[OF this assms(3-)] show ?thesis .
qed

section \<open>Properties\<close>

text \<open>
  Property C4. Durability across a merge that runs beside other requests, on a file system
  without faults. Take a well-formed database with a non-empty log, at most one hint file, and
  no stored expiry time that has wrapped around to a negative number (a merge drops such a pair,
  Lemma \<open>merge_drops_wrapped_expiry\<close>). Let \<open>Merge\<close> run with requests between its steps:
  they come in the order of the clock, each of a size and with a batch identifier that the log
  can hold, none reports an error of the log, and each look of the merge into the index may see
  any point of this run. Let no segment the merge writes have an identifier beyond the last
  old segment: it would be lost (Lemma \<open>segments_beyond_are_lost\<close>), and can exist when the
  database was reopened with a smaller segment size.

  If \<open>Merge\<close> reports success then, whether it reopens the files itself or leaves the merge
  directory behind, the database shows what it would show after the same requests without a
  merge, from the end of the merge on. Let requests of the same kind follow, again without an
  error of the log. When the operating system opens the log files and the options are valid,
  \<open>Open\<close> on the files that are left succeeds at any later time, leaves no merge directory, and
  every reader from that time on sees what the running database held.
\<close>

theorem merge_beside_requests:
  assumes "engine E bt_inv w_inv pend" and "segment_lib (Wl E) w_inv pend S one_seg seg_ok seg_log"
    and "db_inv E bt_inv w_inv pend d" and "\<not> w_IsEmpty S (dataFiles d)" and "one_hint_file k"
    and "\<forall>k r. stored_rec E d k = Some r \<longrightarrow> 0 \<le> sint (Expire r)"
    and "\<forall>r rsps d1 k1. doMerge_during E S parses no_fault flt2 hold2 now closeErr xs n at d k = Some (r, rsps, d1, k1)
        \<longrightarrow> merged_within (w_ActiveSegmentID S (dataFiles d)) k1"
    and "db_Merge_during E S parses no_fault flt2 hold2 now closeErr xs n at now2 reopenAfterDone d k = Some (Ok (), rsps, Some d1, k1)"
    and "clock_ok now0 xs" and "\<forall>(x, req) \<in> set xs. req_fits req \<and> batch_id x \<noteq> 0" and "no_log_error rsps"
    and "sint now \<le> sint now2" and "sint (clock_end now0 xs) \<le> sint now2"
    and "opens S" and "checkOptions parses (options d1) = Ok ()"
    and "clock_ok now' ys" and "\<forall>(x, req) \<in> set ys. req_fits req \<and> batch_id x \<noteq> 0" and "sint now2 \<le> sint t"
    and "sint (clock_end now' ys) \<le> sint t" and "db_run E ys d1 = Some (rsps', d2)" and "no_log_error rsps'"
  shows "(\<exists>b b'. db_inv E bt_inv w_inv pend b \<and> (\<forall>t. db_view E t b = db_view E t d) \<and> db_run E xs b = Some (rsps, b')
          \<and> (\<forall>t. sint now2 \<le> sint t \<longrightarrow> db_view E t d1 = db_view E t b'))
     \<and> (\<exists>d3 k3. Open E S parses no_fault (Inr True) t (options d1) (set_files dataFileNameSuffix (w_Files S (dataFiles d2)) k1) = (Ok d3, k3)
          \<and> db_inv E bt_inv w_inv pend d3 \<and> idle d3 \<and> \<not> closed d3 \<and> merge_dir k3 = None
          \<and> (\<forall>t'. sint t \<le> sint t' \<longrightarrow> db_view E t' d3 = db_view E t' d2))"
proof -
  have "segmented E bt_inv w_inv pend S one_seg seg_ok seg_log"
    using assms(1,2) by (simp add: segmented_def store_def segment_lib_def)
  from segmented.merge_during_open[OF this assms(3-13) disjI1[OF refl] assms(14-)] show ?thesis .
qed

text \<open>
  A key is deleted before the merge looks at its record, another is overwritten after; a new key
  comes after the merge.
\<close>

definition beside_run :: "(ticket \<times> request) list" where
  "beside_run =
     [(\<lparr>batch_id = 5, t_op = 20, t_op2 = 20, t_commit = 20\<rparr>, ReqDelete [2]),
      (\<lparr>batch_id = 6, t_op = 21, t_op2 = 21, t_commit = 21\<rparr>, ReqPut [1] [70])]"

definition busy_merge where
  "busy_merge = db_Merge_during seg_env seg_disk_ops (\<lambda>c. None) no_fault no_fault (Inr True) 20 None beside_run 0 (\<lambda>p. 1) 22 True before_merge empty_disk"

definition later_run :: "(ticket \<times> request) list" where
  "later_run = [(\<lparr>batch_id = 7, t_op = 23, t_op2 = 23, t_commit = 23\<rparr>, ReqPut [4] [69])]"

lemma merge_during_succeeded:
  "(case x of Some (Ok u, rsps, Some d, k) \<Rightarrow> P rsps d k | _ \<Rightarrow> False) \<longleftrightarrow> (\<exists>rsps d k. x = Some (Ok (), rsps, Some d, k) \<and> P rsps d k)"
  by (cases x rule: option.exhaust; (cases "fst (the x)"; cases "fst (snd (snd (the x)))")?) (auto simp: prod_eq_iff split: prod.splits)

theorem merge_beside_requests_witness:
  "\<exists>rsps d1 k1 rsps' d2 d3 k3. busy_merge = Some (Ok (), rsps, Some d1, k1) \<and> db_run seg_env later_run d1 = Some (rsps', d2)
     \<and> length (wal_log (Wl seg_env) (dataFiles d1)) = 5
     \<and> Open seg_env seg_disk_ops (\<lambda>c. None) no_fault (Inr True) 30 (options d1)
         (set_files dataFileNameSuffix (w_Files seg_disk_ops (dataFiles d2)) k1) = (Ok d3, k3)
     \<and> merge_dir k3 = None \<and> (\<forall>t'. sint (30 :: int64) \<le> sint t' \<longrightarrow> db_view seg_env t' d3 = db_view seg_env t' d2)
     \<and> map (db_view seg_env 30 d3) [[1], [2], [3], [4]] = [Some ([70], 0), None, None, Some ([69], 0)]"
proof -
  have "(case busy_merge of
      Some (Ok u, rsps, Some d1, k1) \<Rightarrow> (case db_run seg_env later_run d1 of None \<Rightarrow> False
        | Some (rsps', d2) \<Rightarrow> checkOptions (\<lambda>c. None) (options d1) = Ok () \<and> length (wal_log (Wl seg_env) (dataFiles d1)) = 5
            \<and> rsps = [RspDone (Ok ()), RspDone (Ok ())] \<and> rsps' = [RspDone (Ok ())]
            \<and> map (db_view seg_env 30 d2) [[1], [2], [3], [4]] = [Some ([70], 0), None, None, Some ([69], 0)])
    | _ \<Rightarrow> False)" by code_simp
  then obtain rsps d1 k1 where m: "busy_merge = Some (Ok (), rsps, Some d1, k1)"
    and e1: "case db_run seg_env later_run d1 of None \<Rightarrow> False
        | Some (rsps', d2) \<Rightarrow> checkOptions (\<lambda>c. None) (options d1) = Ok () \<and> length (wal_log (Wl seg_env) (dataFiles d1)) = 5
            \<and> rsps = [RspDone (Ok ()), RspDone (Ok ())] \<and> rsps' = [RspDone (Ok ())]
            \<and> map (db_view seg_env 30 d2) [[1], [2], [3], [4]] = [Some ([70], 0), None, None, Some ([69], 0)]"
    unfolding merge_during_succeeded by blast
  obtain rsps' d2 where r: "db_run seg_env later_run d1 = Some (rsps', d2)" using e1 by (cases "db_run seg_env later_run d1") auto
  have c: "checkOptions (\<lambda>c. None) (options d1) = Ok ()" and l: "length (wal_log (Wl seg_env) (dataFiles d1)) = 5"
    and rs: "rsps = [RspDone (Ok ()), RspDone (Ok ())]" "rsps' = [RspDone (Ok ())]"
    and v: "map (db_view seg_env 30 d2) [[1], [2], [3], [4]] = [Some ([70], 0), None, None, Some ([69], 0)]"
    using e1 by (simp_all add: r)
  have "(case doMerge_during seg_env seg_disk_ops (\<lambda>c. None) no_fault no_fault (Inr True) 20 None beside_run 0 (\<lambda>p. 1) before_merge empty_disk of
      Some (r, rsps, d1, k1) \<Rightarrow> (case merge_dir k1 of None \<Rightarrow> True
        | Some md \<Rightarrow> list_all (\<lambda>x. fst x \<le> w_ActiveSegmentID seg_disk_ops (dataFiles before_merge)) (md dataFileNameSuffix))
      | None \<Rightarrow> True)" by code_simp
  then have small: "\<forall>r rsps d1 k1. doMerge_during seg_env seg_disk_ops (\<lambda>c. None) no_fault no_fault (Inr True) 20 None beside_run 0 (\<lambda>p. 1)
      before_merge empty_disk = Some (r, rsps, d1, k1) \<longrightarrow> merged_within (w_ActiveSegmentID seg_disk_ops (dataFiles before_merge)) k1"
    by (auto simp: merged_within_def list_all_iff split: option.splits)
  have xs: "clock_ok 0 beside_run" "\<forall>(x, req) \<in> set beside_run. req_fits req \<and> batch_id x \<noteq> 0"
    and ys: "clock_ok 22 later_run" "\<forall>(x, req) \<in> set later_run. req_fits req \<and> batch_id x \<noteq> 0"
    by (simp_all add: beside_run_def later_run_def value_fits_def maxLogRecordHeaderSize_def)
  have t: "sint (20 :: int64) \<le> sint (22 :: int64)" "sint (clock_end 0 beside_run) \<le> sint (22 :: int64)"
    and t': "sint (22 :: int64) \<le> sint (30 :: int64)" "sint (clock_end 22 later_run) \<le> sint (30 :: int64)"
    by (simp_all add: beside_run_def later_run_def)
  have ok: "no_log_error rsps" "no_log_error rsps'" by (simp_all add: no_log_error_def rs)
  have sl: "segment_lib (Wl seg_env) seg_wal_inv sw_pending seg_disk_ops (\<lambda>w. fst ` set (sw_segs w) = {1}) seg_ok sw_seg_log"
    by (rule seg_md.segment_lib_axioms)
  from merge_beside_requests[OF seg.engine_axioms sl before_merge_inv before_merge_ready(1-3) small m[unfolded busy_merge_def]
      xs ok(1) t seg_opens c ys t' r ok(2)]
  obtain d3 k3 where "Open seg_env seg_disk_ops (\<lambda>c. None) no_fault (Inr True) 30 (options d1)
      (set_files dataFileNameSuffix (w_Files seg_disk_ops (dataFiles d2)) k1) = (Ok d3, k3)" "merge_dir k3 = None"
    and v3: "\<forall>t'. sint (30 :: int64) \<le> sint t' \<longrightarrow> db_view seg_env t' d3 = db_view seg_env t' d2" by blast
  then show ?thesis using m l r v v3[rule_format, OF order_refl]
    by - (rule exI[of _ rsps], rule exI[of _ d1], rule exI[of _ k1], rule exI[of _ rsps'], rule exI[of _ d2], rule exI[of _ d3], rule exI[of _ k3], simp)
qed

end
