(* ===== verification/Any_Log.thy ===== *)
theory Any_Log
  imports Request_Log Restart
begin

text \<open>
  \<open>Open\<close> on a log that the program and the disk may have left in any way: batches that were torn
  by a failed write or never synchronised, identifiers used twice, records that have expired,
  chunks at the end that are lost or damaged. Loading never panics and fails only with the
  error at which the reader of the log stops; what it builds else is a well-formed database.
\<close>

section \<open>Logs of records\<close>

text \<open>What the encoders write: a record within the limits, and a readable identifier at the end of a batch.\<close>

definition chunk_ok :: "('t, 'w) env \<Rightarrow> bytes \<Rightarrow> bool" where
  "chunk_ok E c \<longleftrightarrow> (\<exists>r. decodeLogRecord c = Some r \<and> record_fits r
     \<and> (Type r = LogRecordBatchFinished \<longrightarrow> ParseBytes E (Key r) \<noteq> None))"

definition log_ok :: "('t, 'w) env \<Rightarrow> 'w \<Rightarrow> bool" where
  "log_ok E w \<longleftrightarrow> (\<forall>(p, c) \<in> set (wal_log (Wl E) w). chunk_ok E c)"

text \<open>A position of the log with a normal record of this key.\<close>

definition points_to :: "(chunk_position \<times> bytes) list \<Rightarrow> bytes \<Rightarrow> chunk_position \<Rightarrow> bool" where
  "points_to L k p \<longleftrightarrow> (\<exists>c r. (p, c) \<in> set L \<and> decodeLogRecord c = Some r \<and> good_record k r)"

context engine
begin

definition load_inv :: "(chunk_position \<times> bytes) list \<Rightarrow> 't MemoryBTree \<times> index_records \<Rightarrow> bool" where
  "load_inv L s \<longleftrightarrow> mt_inv bt_inv (fst s)
     \<and> (\<forall>k p. mt_Get (Bt E) (fst s) k = Some p \<longrightarrow> points_to L k p)
     \<and> (\<forall>j. \<forall>x \<in> set (get_records (snd s) j). recordType x = LogRecordNormal \<longrightarrow> points_to L (idx_key x) (idx_position x))"

lemma load_put:
  assumes "load_inv L (mt, recs)" and "points_to L k p"
  shows "load_inv L (fst (mt_Put (Bt E) mt k p), recs)"
  using assms ix.put_inv[of mt k p] ix.get_put[of mt k p] by (auto simp: load_inv_def)

lemma load_delete:
  assumes "load_inv L (mt, recs)"
  shows "load_inv L (fst (mt_Delete (Bt E) mt k), recs)"
  using assms ix.delete_inv[of mt k] ix.get_delete[of mt k] by (auto simp: load_inv_def)

lemma load_apply:
  assumes "load_inv L (mt, recs)" and "\<forall>x \<in> set xs. recordType x = LogRecordNormal \<longrightarrow> points_to L (idx_key x) (idx_position x)"
  shows "load_inv L (apply_records E xs mt, recs)"
  using assms
proof (induction xs arbitrary: mt)
  case (Cons x xs)
  define mt1 where "mt1 = (if recordType x = LogRecordNormal then fst (mt_Put (Bt E) mt (idx_key x) (idx_position x)) else mt)"
  define mt2 where "mt2 = (if recordType x = LogRecordDeleted then fst (mt_Delete (Bt E) mt1 (idx_key x)) else mt1)"
  have "load_inv L (mt1, recs)" using Cons.prems load_put by (simp add: mt1_def)
  then have "load_inv L (mt2, recs)" using load_delete by (simp add: mt2_def)
  moreover have "apply_records E (x # xs) mt = apply_records E xs mt2" by (simp add: mt1_def mt2_def Let_def)
  ultimately show ?case using Cons.IH[of mt2] Cons.prems(2) by simp
qed simp

lemma load_one:
  assumes "load_inv L s" and "(p, c) \<in> set L" and "chunk_ok E c"
  shows "\<exists>s'. load_record E now p c s = Ok s' \<and> load_inv L s'"
proof -
  obtain r where r: "decodeLogRecord c = Some r" "record_fits r" "Type r = LogRecordBatchFinished \<longrightarrow> ParseBytes E (Key r) \<noteq> None"
    using assms(3) by (auto simp: chunk_ok_def)
  obtain mt recs where s: "s = (mt, recs)" by (cases s)
  have here: "Type r = LogRecordNormal \<Longrightarrow> points_to L (Key r) p"
    using r(1,2) assms(2) by (auto simp: points_to_def good_record_def)
  note i = assms(1)[unfolded s]
  consider (finished) i where "Type r = LogRecordBatchFinished" "ParseBytes E (Key r) = Some i"
    | (merged) "Type r = LogRecordNormal" "BatchId r = mergeFinishedBatchID"
    | (expired) "Type r \<noteq> LogRecordBatchFinished" "\<not> (Type r = LogRecordNormal \<and> BatchId r = mergeFinishedBatchID)" "IsExpired r now"
    | (put_aside) "Type r \<noteq> LogRecordBatchFinished" "\<not> (Type r = LogRecordNormal \<and> BatchId r = mergeFinishedBatchID)" "\<not> IsExpired r now"
    using r(3) by blast
  then show ?thesis
  proof cases
    case (finished i)
    have "load_inv L (apply_records E (get_records recs i) mt, recs)"
      by (rule load_apply[OF assms(1)[unfolded s]]) (use i in \<open>simp add: load_inv_def\<close>)
    then have "load_inv L (apply_records E (get_records recs i) mt, AList.delete i recs)" by (simp add: load_inv_def)
    then show ?thesis using finished r(1) by (simp add: load_record_def s)
  next
    case merged
    then show ?thesis using load_put[OF i here] r(1) by (simp add: load_record_def s)
  next
    case expired
    then show ?thesis using load_delete[OF i, of "Key r"] r(1) by (auto simp: load_record_def s)
  next
    case put_aside
    then show ?thesis using i here r(1) by (auto simp: load_record_def s load_inv_def)
  qed
qed

lemma load_any:
  assumes "load_inv L s" and "\<forall>(p, c) \<in> set cs. (p, c) \<in> set L \<and> chunk_ok E c"
  shows "\<exists>s'. load_chunks E now cs s = Ok s' \<and> load_inv L s'"
  using assms
proof (induction cs arbitrary: s)
  case (Cons a cs)
  obtain p c where a: "a = (p, c)" by (cases a)
  then have "(p, c) \<in> set L" "chunk_ok E c" using Cons.prems(2) by simp_all
  from load_one[OF Cons.prems(1) this] obtain s1 where "load_record E now p c s = Ok s1" "load_inv L s1" by blast
  then show ?case using Cons.IH[of s1] Cons.prems(2) a by simp
qed simp

text \<open>
  A reader gives the chunks \<open>L\<close> and stops with an error (a chunk with a wrong checksum, say) or
  with \<open>io.EOF\<close>. In the second case the database that \<open>Open\<close> returns leads each key to a chunk
  of \<open>L\<close>, and it is well-formed if the log is.
\<close>

definition opens_from :: "int64 \<Rightarrow> Options \<Rightarrow> 'w \<Rightarrow> (chunk_position \<times> bytes) list \<Rightarrow> go_error option \<Rightarrow> bool" where
  "opens_from now opts w L fin \<longleftrightarrow>
     (case fin of
        Some e \<Rightarrow> open_log E now opts w = Fail e
      | None \<Rightarrow>
          \<exists>d. open_log E now opts w = Ok d \<and> idle d \<and> \<not> closed d \<and> dataFiles d = w
            \<and> (\<forall>k p. mt_Get (Bt E) (index d) k = Some p \<longrightarrow> points_to L k p)
            \<and> (w_inv w \<and> pend w = [] \<longrightarrow> dinv d))"

lemma open_any_log:
  assumes c: "w_Chunks (Wl E) w = (L, fin)" and l: "\<forall>(p, c) \<in> set L. chunk_ok E c"
  shows "opens_from now opts w L fin"
proof -
  let ?d = "new_db E opts w"
  have w: "wal_log (Wl E) w = L" by (simp add: wal_log_def c)
  have "load_inv L (NewIndexer (Bt E), [])" using ix.new_law(1) ix.get_new by (simp add: load_inv_def)
  moreover have "\<forall>(p, c) \<in> set (filter (\<lambda>x. 0 < SegmentId (fst x)) L). (p, c) \<in> set L \<and> chunk_ok E c"
    using l by auto
  ultimately obtain s where "load_chunks E now (filter (\<lambda>x. 0 < SegmentId (fst x)) L) (NewIndexer (Bt E), []) = Ok s" "load_inv L s"
    using load_any by blast
  then obtain mt recs where lc: "load_chunks E now (filter (\<lambda>x. 0 < SegmentId (fst x)) L) (NewIndexer (Bt E), []) = Ok (mt, recs)"
    and li: "load_inv L (mt, recs)" by (cases s) simp
  show ?thesis
  proof (cases fin)
    case (Some e)
    then show ?thesis using lc by (simp add: opens_from_def open_log_def loadIndexFromWAL_def c new_db_def)
  next
    case None
    then have o: "open_log E now opts w = Ok (enable_watch (?d\<lparr>index := mt\<rparr>))"
      using lc by (simp add: open_log_def loadIndexFromWAL_def c new_db_def)
    have f: "index (enable_watch (?d\<lparr>index := mt\<rparr>)) = mt" "dataFiles (enable_watch (?d\<lparr>index := mt\<rparr>)) = w"
      "idle (enable_watch (?d\<lparr>index := mt\<rparr>))" "\<not> closed (enable_watch (?d\<lparr>index := mt\<rparr>))"
      by (auto simp: enable_watch_def new_db_def idle_def)
    have "dinv (enable_watch (?d\<lparr>index := mt\<rparr>))" if wi: "w_inv w" "pend w = []"
    proof -
      have "dinv (?d\<lparr>index := mt, db_watcher := Some (NewWatcher (WatchQueueSize opts))\<rparr>)" if "0 < WatchQueueSize opts"
        using li w wi NewWatcher_inv(1)[of "WatchQueueSize opts"] that by (auto simp: db_inv_def new_db_def load_inv_def points_to_def)
      moreover have "dinv (?d\<lparr>index := mt\<rparr>)" if "\<not> 0 < WatchQueueSize opts"
        using li w wi that by (auto simp: db_inv_def new_db_def load_inv_def points_to_def)
      ultimately show ?thesis by (auto simp: enable_watch_def new_db_def)
    qed
    then show ?thesis using None o f li by (auto simp: opens_from_def load_inv_def)
  qed
qed

end

section \<open>The log of a database stays one of records\<close>

context engine
begin

lemma batch_chunks_ok:
  assumes "batch_open E b"
  shows "\<forall>c \<in> set (batch_chunks E i b). chunk_ok E c"
proof
  fix c
  assume "c \<in> set (batch_chunks E i b)"
  then consider r where "r \<in> set (batch_records i b)" "c = chunk_of r" | "c = chunk_of (end_record E i)"
    by (auto simp: batch_chunks_def)
  then show "chunk_ok E c"
  proof cases
    case 1
    then have "record_fits r" "Type r \<noteq> LogRecordBatchFinished" using batch_records_open(2,3)[OF assms, of i] by auto
    then show ?thesis using 1 decode_chunk_of by (auto simp: chunk_ok_def)
  next
    case 2
    then show ?thesis using decode_chunk_of[OF end_record_fits] end_record_fits Parse_id
      by (auto simp: chunk_ok_def end_record_def)
  qed
qed

lemma log_ok_grew:
  assumes "log_ok E (dataFiles d)" and "log_grew E d d' ps (batch_chunks E i b)" and "batch_open E b"
  shows "log_ok E (dataFiles d')"
  using assms(1,2) batch_chunks_ok[OF assms(3), of i] by (auto simp: log_ok_def log_grew_def dest: set_zip_rightD)

lemma log_ok_request:
  assumes d: "dinv d" "idle d" "\<not> closed d" and f: "req_fits req" and le: "sint (t_op x) \<le> sint (t_commit x)"
    and l: "log_ok E (dataFiles d)" and r: "db_request E x req d = Some (rsp, d')"
  shows "log_ok E (dataFiles d')"
proof (rule request_wrote[OF d f le r])
  fix e
  assume "wrote (t_commit x) (batch_id x) d d' e"
  then consider "wal_log (Wl E) (dataFiles d') = wal_log (Wl E) (dataFiles d)"
    | b ps where "batch_open E b" "log_grew E d d' ps (batch_chunks E (batch_id x) b)"
    unfolding wrote_def by blast
  then show ?thesis
  proof cases
    case 1
    then show ?thesis using l by (simp add: log_ok_def)
  next
    case 2
    then show ?thesis using log_ok_grew[OF l] by blast
  qed
qed

end

section \<open>Property\<close>

context engine
begin

lemma log_ok_run:
  assumes "dinv d" and "idle d" and "\<not> closed d" and "log_ok E (dataFiles d)" and "clock_ok now xs" and "\<forall>(x, req) \<in> set xs. req_fits req"
  shows "\<exists>rsps d'. db_run E xs d = Some (rsps, d') \<and> dinv d' \<and> log_ok E (dataFiles d')"
  using assms
proof (induction xs arbitrary: now d)
  case (Cons a xs)
  obtain x req where a: "a = (x, req)" by (cases a)
  have c: "sint (t_op x) \<le> sint (t_commit x)" "clock_ok (t_commit x) xs" "req_fits req" using Cons.prems(5,6) a by auto
  obtain fault rsp d1 M1 where q: "db_request E x req d = Some (rsp, d1)" "settled d d1"
    using request_refines[OF Cons.prems(1-3) rep_db_map[OF Cons.prems(1)] c(1,3)] unfolding refines_def by blast
  have d1: "dinv d1" "idle d1" "\<not> closed d1" using q(2) Cons.prems(2,3) settled_idle by (auto simp: settled_def)
  have "\<forall>(x, req) \<in> set xs. req_fits req" using Cons.prems(6) by simp
  from Cons.IH[OF d1 log_ok_request[OF Cons.prems(1-3) c(3,1) Cons.prems(4) q(1)] c(2) this] q(1) a show ?case by auto
qed simp

lemma view_from_log:
  assumes "dinv d" and "db_view E t d k = Some (v, e)"
  shows "\<exists>p c r. (p, c) \<in> set (wal_log (Wl E) (dataFiles d)) \<and> decodeLogRecord c = Some r \<and> Key r = k \<and> Value r = v \<and> Expire r = e"
proof -
  obtain r where s: "stored_rec E d k = Some r" and v: "Value r = v" "Expire r = e"
    using assms(2) by (auto simp: db_view_def visible_def split: option.splits if_splits)
  obtain p where "mt_Get (Bt E) (index d) k = Some p" using s not_stored by fastforce
  from stored[OF assms(1) this] obtain c r' where "decodeLogRecord c = Some r'" "good_record k r'" "stored_rec E d k = Some r'"
    "(p, c) \<in> set (wal_log (Wl E) (dataFiles d))" by blast
  then show ?thesis using s v by (auto simp: good_record_def)
qed

lemma run_can_be_opened:
  assumes "dinv d" and "idle d" and "\<not> closed d" and "log_ok E (dataFiles d)" and "clock_ok now xs" and "\<forall>(x, req) \<in> set xs. req_fits req"
  shows "\<exists>rsps d'. db_run E xs d = Some (rsps, d') \<and> log_ok E (dataFiles d')
     \<and> (\<forall>w n fin t opts. w_Chunks (Wl E) w = (take n (wal_log (Wl E) (dataFiles d')), fin) \<longrightarrow>
          (case fin of
             Some e \<Rightarrow> open_log E t opts w = Fail e
           | None \<Rightarrow>
               \<exists>d''. open_log E t opts w = Ok d'' \<and> idle d'' \<and> \<not> closed d'' \<and> dataFiles d'' = w
                 \<and> (\<forall>k p. mt_Get (Bt E) (index d'') k = Some p \<longrightarrow> points_to (take n (wal_log (Wl E) (dataFiles d'))) k p)
                 \<and> (w_inv w \<and> pend w = [] \<longrightarrow> dinv d'')))"
proof -
  obtain rsps d' where r: "db_run E xs d = Some (rsps, d')" "log_ok E (dataFiles d')" using log_ok_run[OF assms] by blast
  have "opens_from t opts w (take n (wal_log (Wl E) (dataFiles d'))) fin"
    if "w_Chunks (Wl E) w = (take n (wal_log (Wl E) (dataFiles d')), fin)" for w n fin t opts
    by (rule open_any_log[OF that]) (use r(2) in \<open>auto simp: log_ok_def dest: in_set_takeD\<close>)
  then show ?thesis using r unfolding opens_from_def by blast
qed

end

text \<open>
  Property C5. Recovery after anything. Start from an open database whose log consists of
  encoded records, a new one for instance, and run any requests in the order of the clock;
  writes may fail and leave parts of their batches in the log, and identifiers may be used
  again. The log then consists of encoded records. Let the disk keep any prefix of it, and the
  reader of what is left end in any way. Opening this log, where no merge has left its mark, at
  any time and with any options never panics. If the reader stops with an error, as it does at
  a chunk with a wrong checksum, the opening returns this error. If it ends with \<open>io.EOF\<close>, it
  returns an open, unlocked database, in which each key leads to a record of that key in the
  prefix, and which is well-formed if the log that was found keeps its laws.
\<close>

theorem opening_any_log_never_panics:
  assumes "engine E bt_inv w_inv pend" and "db_inv E bt_inv w_inv pend d" and "idle d" and "\<not> closed d"
    and "log_ok E (dataFiles d)" and "clock_ok now xs" and "\<forall>(x, req) \<in> set xs. req_fits req"
  shows "\<exists>rsps d'. db_run E xs d = Some (rsps, d') \<and> log_ok E (dataFiles d')
     \<and> (\<forall>w n fin t opts. w_Chunks (Wl E) w = (take n (wal_log (Wl E) (dataFiles d')), fin) \<longrightarrow>
          (case fin of
             Some e \<Rightarrow> open_log E t opts w = Fail e
           | None \<Rightarrow>
               \<exists>d''. open_log E t opts w = Ok d'' \<and> idle d'' \<and> \<not> closed d'' \<and> dataFiles d'' = w
                 \<and> (\<forall>k p. mt_Get (Bt E) (index d'') k = Some p \<longrightarrow> points_to (take n (wal_log (Wl E) (dataFiles d'))) k p)
                 \<and> (w_inv w \<and> pend w = [] \<longrightarrow> db_inv E bt_inv w_inv pend d'')))"
  by (rule engine.run_can_be_opened[OF assms])

text \<open>
  The failing disk, with a reader that checks the chunks: it stops with an error at the first
  one that is not where it belongs. On an intact log it is the reader of before.
\<close>

definition crc_Chunks :: "list_wal \<Rightarrow> (chunk_position \<times> bytes) list \<times> go_error option" where
  "crc_Chunks w =
     (let good = takeWhile (\<lambda>(i, p, c). p = lw_pos i) (enumerate 0 (lw_log w))
      in (map snd good, if length good = length (lw_log w) then None else Some (ErrExternal 9)))"

definition crc_env :: "(item list, list_wal) env" where
  "crc_env = torn_env\<lparr>Wl := torn_wal_ops\<lparr>w_Chunks := crc_Chunks\<rparr>\<rparr>"

lemma crc_Chunks_intact:
  assumes "list_wal_inv w"
  shows "crc_Chunks w = w_Chunks torn_wal_ops w"
proof -
  have "\<forall>x \<in> set (enumerate 0 (lw_log w)). case x of (i, p, c) \<Rightarrow> p = lw_pos i"
  proof
    fix x
    assume "x \<in> set (enumerate 0 (lw_log w))"
    then obtain i where i: "i < length (lw_log w)" "x = (i, lw_log w ! i)"
      by (auto simp: in_set_enumerate_eq)
    have "map fst (lw_log w) ! i = lw_pos i" using assms i(1) unfolding list_wal_inv_def by simp
    then show "case x of (i, p, c) \<Rightarrow> p = lw_pos i" using i by (simp add: split_beta)
  qed
  then have "takeWhile (\<lambda>(i, p, c). p = lw_pos i) (enumerate 0 (lw_log w)) = enumerate 0 (lw_log w)"
    by (simp add: takeWhile_eq_all_conv)
  then show ?thesis by (simp only: crc_Chunks_def Let_def) (simp add: torn_wal_ops_def list_wal_ops_def)
qed

context wal_lib
begin

text \<open>A reader that agrees on intact logs.\<close>

lemma other_reader:
  assumes f: "\<And>w. w_inv w \<Longrightarrow> f w = w_Chunks W w"
  shows "wal_lib (W\<lparr>w_Chunks := f\<rparr>) w_inv pend"
proof -
  have l: "wal_log (W\<lparr>w_Chunks := f\<rparr>) w = wal_log W w" if "w_inv w" for w by (simp add: wal_log_def f[OF that])
  show ?thesis
  proof
    fix w x w'
    assume "w_inv w" and "w_WriteAll (W\<lparr>w_Chunks := f\<rparr>) w = (x, w')"
    then show "w_inv w'" using WriteAll_inv by simp
  next
    fix w ps w'
    assume a: "w_inv w" "w_WriteAll (W\<lparr>w_Chunks := f\<rparr>) w = (Inr ps, w')"
    then have "w_WriteAll W w = (Inr ps, w')" by simp
    then show "length ps = length (pend w) \<and> pend w' = []
        \<and> wal_log (W\<lparr>w_Chunks := f\<rparr>) w' = wal_log (W\<lparr>w_Chunks := f\<rparr>) w @ zip ps (pend w)"
      using WriteAll_ok[OF a(1)] WriteAll_inv[OF a(1)] l a(1) by simp
  next
    fix w e w'
    assume a: "w_inv w" "w_WriteAll (W\<lparr>w_Chunks := f\<rparr>) w = (Inl e, w')"
    then have "w_WriteAll W w = (Inl e, w')" by simp
    then show "\<exists>ps. length ps < length (pend w) \<and> wal_log (W\<lparr>w_Chunks := f\<rparr>) w' = wal_log (W\<lparr>w_Chunks := f\<rparr>) w @ zip ps (pend w)"
      using WriteAll_fail[OF a(1)] WriteAll_inv[OF a(1)] l a(1) by simp
  qed (simp_all add: l f Read_log Chunks_eof PendingWrites_inv PendingWrites_log PendingWrites_pend WriteAll_error Sync_error
      ClearPendingWrites_inv ClearPendingWrites_log ClearPendingWrites_pend Sync_inv Sync_log Sync_pend)
qed

end

interpretation crc: engine crc_env sorted_items list_wal_inv lw_pending
proof -
  have "wal_lib (torn_wal_ops\<lparr>w_Chunks := crc_Chunks\<rparr>) list_wal_inv lw_pending"
    by (rule torn_wl.other_reader) (rule crc_Chunks_intact)
  then have "btree_lib (Bt crc_env) sorted_items" and "wal_lib (Wl crc_env) list_wal_inv lw_pending"
    by (simp_all add: crc_env_def torn_env_def ref_env_def list_bt.btree_lib_axioms)
  moreover have "engine_axioms crc_env"
    using ref.Parse_id ref.Id_length by unfold_locales (simp_all add: crc_env_def torn_env_def)
  ultimately show "engine crc_env sorted_items list_wal_inv lw_pending"
    by (simp add: engine_def)
qed

text \<open>Two writes under one identifier, of which the disk keeps the first chunks.\<close>

definition torn_run :: "(ticket \<times> request) list" where
  "torn_run = [(\<lparr>batch_id = 3, t_op = 1, t_op2 = 1, t_commit = 1\<rparr>, ReqPut [1] [65]),
               (\<lparr>batch_id = 3, t_op = 2, t_op2 = 2, t_commit = 2\<rparr>, ReqPutWithTTL [1] [66] 5)]"

lemma ref_db_crc: "db_inv crc_env sorted_items list_wal_inv lw_pending ref_db"
proof -
  have "wal_log (Wl crc_env) (dataFiles ref_db) = []" by code_simp
  then show ?thesis using ref_db_inv by (simp add: db_inv_def crc_env_def torn_env_def ref_env_def) (simp add: ref_db_def)
qed

text \<open>The log of the run with its second chunk damaged, and without it.\<close>

definition damaged :: "list_wal \<Rightarrow> list_wal" where
  "damaged w = w\<lparr>lw_log := take 1 (lw_log w) @ map (\<lambda>(p, c). (lw_pos 9, c)) (drop 1 (lw_log w))\<rparr>"

theorem opening_any_log_never_panics_witness:
  "\<exists>rsps d'. db_run crc_env torn_run ref_db = Some (rsps, d')
     \<and> rsps = [RspDone (Fail (ErrExternal 7)), RspDone (Fail (ErrExternal 7))] \<and> length (wal_log (Wl crc_env) (dataFiles d')) = 2
     \<and> open_log crc_env 9 ref_options (damaged (dataFiles d')) = Fail (ErrExternal 9)
     \<and> (\<exists>d''. open_log crc_env 9 ref_options ((dataFiles d')\<lparr>lw_log := take 1 (lw_log (dataFiles d'))\<rparr>) = Ok d'' \<and> idle d'' \<and> \<not> closed d'')"
proof -
  have "wal_log (Wl crc_env) (dataFiles ref_db) = []" by code_simp
  then have i: "idle ref_db" "\<not> closed ref_db" "log_ok crc_env (dataFiles ref_db)"
    by (simp_all add: idle_def ref_db_def log_ok_def)
  have xs: "clock_ok 0 torn_run" "\<forall>(x, req) \<in> set torn_run. req_fits req"
    by (simp_all add: torn_run_def value_fits_def maxLogRecordHeaderSize_def)
  from opening_any_log_never_panics[OF crc.engine_axioms ref_db_crc i xs] obtain rsps d' where
    r: "db_run crc_env torn_run ref_db = Some (rsps, d')"
    and o: "\<And>w n fin t opts. w_Chunks (Wl crc_env) w = (take n (wal_log (Wl crc_env) (dataFiles d')), fin) \<Longrightarrow>
          (case fin of
             Some e \<Rightarrow> open_log crc_env t opts w = Fail e
           | None \<Rightarrow> \<exists>d''. open_log crc_env t opts w = Ok d'' \<and> idle d'' \<and> \<not> closed d'')"
    by (elim exE conjE) (rule that, assumption, force split: option.splits)
  have "map_option (\<lambda>(rsps, d). (rsps, length (wal_log (Wl crc_env) (dataFiles d)),
        w_Chunks (Wl crc_env) (damaged (dataFiles d)) = (take 1 (wal_log (Wl crc_env) (dataFiles d)), Some (ErrExternal 9)),
        w_Chunks (Wl crc_env) ((dataFiles d)\<lparr>lw_log := take 1 (lw_log (dataFiles d))\<rparr>) = (take 1 (wal_log (Wl crc_env) (dataFiles d)), None)))
      (db_run crc_env torn_run ref_db)
      = Some ([RspDone (Fail (ErrExternal 7)), RspDone (Fail (ErrExternal 7))], 2, True, True)" by code_simp
  then have v: "rsps = [RspDone (Fail (ErrExternal 7)), RspDone (Fail (ErrExternal 7))]" "length (wal_log (Wl crc_env) (dataFiles d')) = 2"
    "w_Chunks (Wl crc_env) (damaged (dataFiles d')) = (take 1 (wal_log (Wl crc_env) (dataFiles d')), Some (ErrExternal 9))"
    "w_Chunks (Wl crc_env) ((dataFiles d')\<lparr>lw_log := take 1 (lw_log (dataFiles d'))\<rparr>) = (take 1 (wal_log (Wl crc_env) (dataFiles d')), None)"
    using r by simp_all
  from o[OF v(3), of 9 ref_options] o[OF v(4), of 9 ref_options] r v(1,2) show ?thesis by simp
qed

end
