(* ===== verification/Client.thy ===== *)
theory Client
  imports Migration
begin

text \<open>
  \<^verbatim>\<open>cmd/cli/main.go\<close>: the command line client, with what it uses of Go's \<open>flag\<close>
  package and of the client and the server side of \<open>net/http\<close>. One run of the client
  makes one request, and prints one answer.
\<close>

section \<open>Flags\<close>

text \<open>
  \<open>flag.Parse\<close>: \<open>spec\<close> has for each flag the test of its values; \<open>None\<close> is the end of the
  process with a usage message. The result has the settings in their order, and the
  arguments that are left.
\<close>

fun parse_flags ::
    "(bytes \<Rightarrow> (bytes \<Rightarrow> bool) option) \<Rightarrow> bytes list \<Rightarrow> ((bytes \<times> bytes) list \<times> bytes list) option" where
  "parse_flags spec [] = Some ([], [])"
| "parse_flags spec (s # args) =
     (if length s < 2 \<or> hd s \<noteq> 45 then Some ([], s # args)
      else if s = [45, 45] then Some ([], args)
      else
        (let name = (if s ! 1 = 45 then drop 2 s else drop 1 s) in
         if hd name = 45 \<or> hd name = 61 then None
         else
           (case spec (fst (cut 61 name)) of
              None \<Rightarrow> None
            | Some valid \<Rightarrow>
                if 61 \<in> set name
                then if valid (snd (cut 61 name))
                     then map_option (\<lambda>(fs, rest). (cut 61 name # fs, rest)) (parse_flags spec args)
                     else None
                else (case args of
                        [] \<Rightarrow> None
                      | v # args' \<Rightarrow>
                          if valid v then map_option (\<lambda>(fs, rest). ((name, v) # fs, rest)) (parse_flags spec args')
                          else None))))"

text \<open>The last setting counts.\<close>

definition flag_value :: "(bytes \<times> bytes) list \<Rightarrow> bytes \<Rightarrow> bytes \<Rightarrow> bytes" where
  "flag_value fs name dflt = (case map_of (rev fs) name of None \<Rightarrow> dflt | Some v \<Rightarrow> v)"

section \<open>The client\<close>

datatype printed = Usage | UsageOf string | UnknownCommand | ErrorLine go_error | BodyLine bytes

datatype client_call = Print "printed list" | Call bytes bytes content

text \<open>The key goes into the URL as it is, but a form is encoded by \<open>http.PostForm\<close>.\<close>

definition cli_call :: "bytes \<Rightarrow> bytes list \<Rightarrow> client_call" where
  "cli_call serverAddr args =
     (case args of
        [] \<Rightarrow> Print [Usage]
      | cmd # rest \<Rightarrow>
          if cmd = str ''get''
          then (case rest of
                  [] \<Rightarrow> Print [UsageOf ''get <key>'']
                | key # _ \<Rightarrow> Call MethodGet (serverAddr @ str ''/get?key='' @ key) (Opaque []))
          else if cmd = str ''put''
          then (case rest of
                  key # val # _ \<Rightarrow>
                    Call MethodPost (serverAddr @ str ''/put'')
                      (Urlencoded (Encode [(str ''key'', key), (str ''value'', val)]))
                | _ \<Rightarrow> Print [UsageOf ''put <key> <value>''])
          else if cmd = str ''delete''
          then (case rest of
                  [] \<Rightarrow> Print [UsageOf ''delete <key>'']
                | key # _ \<Rightarrow> Call MethodDelete (serverAddr @ str ''/delete?key='' @ key) (Opaque []))
          else if cmd = str ''health'' then Call MethodGet (serverAddr @ str ''/health'') (Opaque [])
          else Print [UnknownCommand, Usage])"

definition cli_main :: "bytes list \<Rightarrow> client_call option" where
  "cli_main args =
     (case parse_flags (\<lambda>n. if n = str ''server'' then Some (\<lambda>v. True) else None) args of
        None \<Rightarrow> None
      | Some (fs, rest) \<Rightarrow> Some (cli_call (flag_value fs (str ''server'') (str ''http://localhost:8080'')) rest))"

text \<open>
  What is printed of an answer: the error of making the request, of sending it or of
  reading its body, or else the body, whatever the status.
\<close>

definition cli_print :: "go_error + bytes \<Rightarrow> printed list" where
  "cli_print answer = (case answer of Inl err \<Rightarrow> [ErrorLine err] | Inr body \<Rightarrow> [BodyLine body])"

section \<open>The exchange with a node\<close>

text \<open>
  The request target of a URL of the node at \<open>base\<close>: \<open>url.Parse\<close> cuts off the fragment,
  which must be well escaped, and refuses control characters.
\<close>

definition url_target :: "bytes \<Rightarrow> bytes \<Rightarrow> bytes option" where
  "url_target base url =
     (case cut 35 url of
        (u, frag) \<Rightarrow>
          if (\<exists>c \<in> set u. c < 32 \<or> c = 127) \<or> QueryUnescape frag = None then None
          else if take (length base) u = base then Some (drop (length base) u) else None)"

text \<open>
  The server's view of the request line: with a space in the target it is malformed, and
  answered with status 400.
\<close>

definition server_request :: "bytes \<Rightarrow> bytes \<Rightarrow> content \<Rightarrow> http_request option" where
  "server_request method target body =
     (if 32 \<in> set target then None
      else case cut 63 target of
             (path, query) \<Rightarrow>
               Some \<lparr>Method = method, Path = path, RawQuery = query, SyncKeyHeader = [], Body = body\<rparr>)"

text \<open>\<open>render\<close> gives the texts of errors and of JSON values. A handler that panics ends the connection.\<close>

fun reply_body :: "(payload \<Rightarrow> bytes) \<Rightarrow> reply \<Rightarrow> bytes" where
  "reply_body render (Reply n (Message m)) = str m @ [10]"
| "reply_body render (Reply n (ValueLine v)) = v @ [10]"
| "reply_body render (Reply n p) = render p"

definition exchange ::
    "('t, 'w) env \<Rightarrow> json_ops \<Rightarrow> (payload \<Rightarrow> bytes) \<Rightarrow> bytes \<Rightarrow> ticket \<Rightarrow> bytes \<Rightarrow> bytes \<Rightarrow> content
       \<Rightarrow> ('t, 'w) server \<Rightarrow> ((go_error + bytes) \<times> ('t, 'w) server) option" where
  "exchange E J render base x method url body s =
     (case url_target base url of
        None \<Rightarrow> Some (Inl (ErrExternal 0), s)
      | Some target \<Rightarrow>
          (case server_request method target body of
             None \<Rightarrow> Some (Inr (str ''400 Bad Request''), s)
           | Some r \<Rightarrow>
               (case ServeHTTP E J x r s of
                  None \<Rightarrow> None
                | Some (Ok rp, s) \<Rightarrow> Some (Inr (reply_body render rp), s)
                | Some (_, s) \<Rightarrow> Some (Inl (ErrExternal 1), s))))"

text \<open>A run of the client against the node at \<open>base\<close>; \<open>None\<close> when the node blocks.\<close>

definition cli_run ::
    "('t, 'w) env \<Rightarrow> json_ops \<Rightarrow> (payload \<Rightarrow> bytes) \<Rightarrow> bytes \<Rightarrow> ticket \<Rightarrow> bytes list
       \<Rightarrow> ('t, 'w) server \<Rightarrow> (printed list \<times> ('t, 'w) server) option" where
  "cli_run E J render base x args s =
     (case cli_main args of
        None \<Rightarrow> Some ([], s)
      | Some (Print out) \<Rightarrow> Some (out, s)
      | Some (Call method url body) \<Rightarrow>
          map_option (\<lambda>(answer, s). (cli_print answer, s)) (exchange E J render base x method url body s))"

section \<open>What the client's requests are\<close>

definition default_server :: bytes where "default_server = str ''http://localhost:8080''"

text \<open>A key that a URL carries as it is.\<close>

definition clean_key :: "bytes \<Rightarrow> bool" where
  "clean_key k \<longleftrightarrow> k \<noteq> [] \<and> plain_bytes k \<and> (\<forall>c \<in> set k. 32 < c \<and> c \<noteq> 35 \<and> c \<noteq> 127)"

lemma url_target_clean:
  assumes "\<forall>c \<in> set t. 32 < c \<and> c \<noteq> 35 \<and> c \<noteq> 127"
  shows "url_target default_server (default_server @ t) = Some t"
proof -
  have b: "\<forall>c \<in> set default_server. 32 < c \<and> c \<noteq> 35 \<and> c \<noteq> 127" by (simp add: default_server_def str_def)
  have all: "\<forall>c \<in> set (default_server @ t). 32 < c \<and> c \<noteq> 35 \<and> c \<noteq> 127" using b assms by auto
  then have "35 \<notin> set (default_server @ t)" by blast
  then have "cut 35 (default_server @ t) = (default_server @ t, [])" by (rule cut_none)
  moreover have "\<not> (\<exists>c \<in> set (default_server @ t). c < 32 \<or> c = 127)" using all by (auto dest: order_less_trans)
  ultimately show ?thesis by (simp add: url_target_def)
qed

lemma no_flags: "cli_main (str cmd # args) = Some (cli_call default_server (str cmd # args))"
  if "cmd \<in> {''get'', ''put'', ''delete'', ''health''}"
  using that by (auto simp: cli_main_def str_def flag_value_def default_server_def)

lemma put_exchange:
  "exchange E J render default_server x MethodPost (default_server @ str ''/put'') (Urlencoded b) s =
     (case ServeHTTP E J x \<lparr>Method = MethodPost, Path = str ''/put'', RawQuery = [], SyncKeyHeader = [], Body = Urlencoded b\<rparr> s of
        None \<Rightarrow> None
      | Some (Ok rp, s) \<Rightarrow> Some (Inr (reply_body render rp), s)
      | Some (_, s) \<Rightarrow> Some (Inl (ErrExternal 1), s))"
proof -
  have "\<forall>c \<in> set (str ''/put''). 32 < c \<and> c \<noteq> 35 \<and> c \<noteq> 127" by (simp add: str_def)
  from url_target_clean[OF this]
  have u: "url_target default_server (default_server @ str ''/put'') = Some (str ''/put'')" .
  have "server_request MethodPost (str ''/put'') (Urlencoded b)
      = Some \<lparr>Method = MethodPost, Path = str ''/put'', RawQuery = [], SyncKeyHeader = [], Body = Urlencoded b\<rparr>"
    by (simp add: server_request_def str_def)
  then show ?thesis by (simp add: exchange_def u)
qed

lemma get_exchange:
  assumes "clean_key k"
  shows "exchange E J render default_server x MethodGet (default_server @ str ''/get?key='' @ k) (Opaque []) s =
     (case ServeHTTP E J x (plain_get (str ''/get'') (str ''key='' @ k)) s of
        None \<Rightarrow> None
      | Some (Ok rp, s) \<Rightarrow> Some (Inr (reply_body render rp), s)
      | Some (_, s) \<Rightarrow> Some (Inl (ErrExternal 1), s))"
proof -
  let ?t = "str ''/get?key='' @ k"
  have c: "\<forall>c \<in> set ?t. 32 < c \<and> c \<noteq> 35 \<and> c \<noteq> 127" using assms by (auto simp: clean_key_def str_def)
  then have u: "url_target default_server (default_server @ ?t) = Some ?t" by (rule url_target_clean)
  have s: "?t = str ''/get'' @ 63 # (str ''key='' @ k)" by (simp add: str_def)
  have "cut 63 ?t = (str ''/get'', str ''key='' @ k)" unfolding s by (rule cut_append) (simp add: str_def)
  moreover have "32 \<notin> set ?t" using c by blast
  ultimately have "server_request MethodGet ?t (Opaque []) = Some (plain_get (str ''/get'') (str ''key='' @ k))"
    by (simp add: server_request_def plain_get_def)
  then show ?thesis by (simp add: exchange_def u)
qed

lemma get_clean:
  assumes "clean_key k"
  shows "http_spec now fault J rl key (plain_get (str ''/get'') (str ''key='' @ k)) M
     = (reply_of (Message '''') (RspValue (case kv_at now M k of None \<Rightarrow> Fail ErrKeyNotFound | Some (v, e) \<Rightarrow> Ok v)), M, None)"
    and "value_fits k [] \<Longrightarrow> http_fits J (plain_get (str ''/get'') (str ''key='' @ k))"
proof -
  have k: "k \<noteq> []" "plain_bytes k" using assms by (simp_all add: clean_key_def)
  have q: "QueryGet (plain_get (str ''/get'') (str ''key='' @ k)) (str ''key'') = k"
    using parse_key[OF k(2)] by (simp add: QueryGet_def plain_get_def values_get_def)
  then show "http_spec now fault J rl key (plain_get (str ''/get'') (str ''key='' @ k)) M
     = (reply_of (Message '''') (RspValue (case kv_at now M k of None \<Rightarrow> Fail ErrKeyNotFound | Some (v, e) \<Rightarrow> Ok v)), M, None)"
    using k(1) by (simp add: http_spec_def write_spec_def kv_step_def plain_get_def)
  have d: "str ''value'' \<noteq> str ''key''" by (simp add: str_def)
  have p: "Path (plain_get (str ''/get'') (str ''key='' @ k)) = str ''/get''" by (simp add: plain_get_def)
  show "value_fits k [] \<Longrightarrow> http_fits J (plain_get (str ''/get'') (str ''key='' @ k))"
    using k(1) d by (simp add: http_fits_def delete_key_def p plain_forms parse_key[OF k(2)] values_get_def
        paths_distinct[symmetric])
qed

lemma put_form_values:
  assumes "k \<noteq> []"
  shows "FormValue (put_request k v) (str ''key'') = k" and "FormValue (put_request k v) (str ''value'') = v"
    and "value_fits k v \<Longrightarrow> http_fits J (put_request k v)"
proof -
  have d: "str ''value'' \<noteq> str ''key''" by (simp add: str_def)
  have "values_get (ParseQuery (Encode [(str ''key'', k), (str ''value'', v)])) n
      = values_get [(str ''key'', k), (str ''value'', v)] n" for n
    by (simp add: parse_encode values_get_def first_value_sorted)
  then have f: "FormValue (put_request k v) n = values_get [(str ''key'', k), (str ''value'', v)] n" for n
    by (simp add: FormValue_def put_request_def form_request_def ParsedBody_def multipart_values_def ParseQuery.simps[of "[]"])
  then show k: "FormValue (put_request k v) (str ''key'') = k" and v: "FormValue (put_request k v) (str ''value'') = v"
    using d by (simp_all add: values_get_def)
  have "Path (put_request k v) = str ''/put''" by (simp add: put_request_def form_request_def)
  then show "value_fits k v \<Longrightarrow> http_fits J (put_request k v)"
    using assms by (auto simp: http_fits_def delete_key_def k v value_fits_def paths_distinct[symmetric])
qed

section \<open>Putting and getting\<close>

context engine
begin

lemma cli_put_get:
  assumes d: "dinv (sv_db s)" "idle (sv_db s)" "\<not> closed (sv_db s)" and m: "role s = MASTER"
    and c: "sint (t_op x1) \<le> sint (t_commit x1)" "sint (t_commit x1) \<le> sint (t_op x2)" "sint (t_op x2) \<le> sint (t_commit x2)"
    and k: "clean_key k" and v: "v \<noteq> []" and f: "value_fits k v"
  shows "\<exists>fault s1 s2 out.
     cli_run E J render default_server x1 [str ''put'', k, v] s
       = Some ([BodyLine (case fault of None \<Rightarrow> str ''OK'' @ [10] | Some e \<Rightarrow> render (ErrorText e))], s1)
     \<and> cli_run E J render default_server x2 [str ''get'', k] s1 = Some ([BodyLine out], s2)
     \<and> (fault = None \<longrightarrow> out = v @ [10]) \<and> (\<forall>e. fault = Some e \<longrightarrow> log_error E w_inv e)"
proof -
  have kn: "k \<noteq> []" using k by (simp add: clean_key_def)
  note pv = put_form_values[OF kn]
  let ?M = "db_map E (sv_db s)" and ?g = "plain_get (str ''/get'') (str ''key='' @ k)"
  have rd: "ready x1 s ?M" using d c(1) rep_db_map[OF d(1)] by (simp add: ready_def)
  from server_serves[OF rd pv(3)[OF f], where J = J] obtain fault rp d1 M1 out1 where q:
    "http_spec (t_op x1) fault J (role s) (sv_key s) (put_request k v) ?M = (rp, M1, out1)"
    "ServeHTTP E J x1 (put_request k v) s = Some (Ok rp, s\<lparr>sv_db := d1, senders := senders s @ posted (replicator s) out1\<rparr>)"
    "settled (sv_db s) d1" "rep (t_commit x1) d1 M1" "\<forall>e. fault = Some e \<longrightarrow> log_error E w_inv e"
    by (auto simp: serves_def)
  let ?s1 = "s\<lparr>sv_db := d1, senders := senders s @ posted (replicator s) out1\<rparr>"
  have p: "Path (put_request k v) = str ''/put''" "Method (put_request k v) = MethodPost"
    by (simp_all add: put_request_def form_request_def)
  have r1: "reply_body render rp = (case fault of None \<Rightarrow> str ''OK'' @ [10] | Some e \<Rightarrow> render (ErrorText e))"
    "fault = None \<Longrightarrow> M1 = ?M(k \<mapsto> (v, 0))"
    using q(1) m kn v by (auto simp: http_spec_def p pv(1,2) write_spec_def kv_step_def kv_write_def split: option.splits)
  have put: "cli_run E J render default_server x1 [str ''put'', k, v] s
      = Some ([BodyLine (case fault of None \<Rightarrow> str ''OK'' @ [10] | Some e \<Rightarrow> render (ErrorText e))], ?s1)"
    using q(2) r1(1) no_flags[of "''put''"]
    by (simp add: cli_run_def cli_call_def put_exchange put_request_def form_request_def cli_print_def) (simp add: str_def)
  have rd2: "ready x2 ?s1 M1"
    using q(3) rep_later[OF q(4) c(2)] c(3) settled_idle[OF q(3)] d by (auto simp: ready_def settled_def)
  have "value_fits k []" using f by (simp add: value_fits_def)
  from server_serves[OF rd2 get_clean(2)[OF k this], where J = J] obtain fault2 rp2 d2 M2 out2 where q2:
    "http_spec (t_op x2) fault2 J (role ?s1) (sv_key ?s1) ?g M1 = (rp2, M2, out2)"
    "ServeHTTP E J x2 ?g ?s1 = Some (Ok rp2, ?s1\<lparr>sv_db := d2, senders := senders ?s1 @ posted (replicator ?s1) out2\<rparr>)"
    by (auto simp: serves_def)
  have r2: "fault = None \<Longrightarrow> reply_body render rp2 = v @ [10]"
    using q2(1) r1(2) by (auto simp: get_clean(1)[OF k] kv_at_def)
  have "cli_run E J render default_server x2 [str ''get'', k] ?s1 = Some ([BodyLine (reply_body render rp2)],
      ?s1\<lparr>sv_db := d2, senders := senders ?s1 @ posted (replicator ?s1) out2\<rparr>)"
    using q2(2) no_flags[of "''get''"] by (simp add: cli_run_def cli_call_def get_exchange[OF k] cli_print_def)
  then show ?thesis using put r2 q(5) by blast
qed

end

lemma run_result: "(case x of None \<Rightarrow> False | Some (a, b) \<Rightarrow> P a b) \<longleftrightarrow> (\<exists>a b. x = Some (a, b) \<and> P a b)"
  by (cases x) auto

section \<open>Properties\<close>

text \<open>
  Property C19. A key and a value put on the command line are got back. On a master with an open
  database, for a non-empty value of any bytes and a non-empty key without the bytes that
  have a meaning in a URL, \<open>put\<close> prints the line OK, or the text of an error of the log, and
  after an OK the next \<open>get\<close> of the key prints exactly the value.
\<close>

theorem cli_put_then_get:
  assumes "engine E bt_inv w_inv pend" and "db_inv E bt_inv w_inv pend (sv_db s)" and "idle (sv_db s)"
    and "\<not> closed (sv_db s)" and "role s = MASTER" and "sint (t_op x1) \<le> sint (t_commit x1)"
    and "sint (t_commit x1) \<le> sint (t_op x2)" and "sint (t_op x2) \<le> sint (t_commit x2)"
    and "clean_key k" and "v \<noteq> []" and "value_fits k v"
  shows "\<exists>fault s1 s2 out.
     cli_run E J render default_server x1 [str ''put'', k, v] s
       = Some ([BodyLine (case fault of None \<Rightarrow> str ''OK'' @ [10] | Some e \<Rightarrow> render (ErrorText e))], s1)
     \<and> cli_run E J render default_server x2 [str ''get'', k] s1 = Some ([BodyLine out], s2)
     \<and> (fault = None \<longrightarrow> out = v @ [10]) \<and> (\<forall>e. fault = Some e \<longrightarrow> log_error E w_inv e)"
  by (rule engine.cli_put_get[OF assms])

theorem cli_put_then_get_witness:
  "\<exists>fault s1 s2 out.
     cli_run ref_env ref_json (\<lambda>p. []) default_server (ticket_at 1 1) [str ''put'', [107], [65, 38, 10]] ref_master
       = Some ([BodyLine (case fault of None \<Rightarrow> str ''OK'' @ [10] | Some e \<Rightarrow> [])], s1)
     \<and> cli_run ref_env ref_json (\<lambda>p. []) default_server (ticket_at 2 2) [str ''get'', [107]] s1 = Some ([BodyLine out], s2)
     \<and> (fault = None \<longrightarrow> out = [65, 38, 10, 10]) \<and> (\<forall>e. fault = Some e \<longrightarrow> log_error ref_env list_wal_inv e)"
proof -
  have s: "db_inv ref_env sorted_items list_wal_inv lw_pending (sv_db ref_master)" "idle (sv_db ref_master)"
    "\<not> closed (sv_db ref_master)" "role ref_master = MASTER"
    using ref_db_inv by (simp_all add: ref_master_def NewServer_def idle_def ref_db_def)
  have t: "sint (t_op (ticket_at 1 1)) \<le> sint (t_commit (ticket_at 1 1))" "sint (t_commit (ticket_at 1 1)) \<le> sint (t_op (ticket_at 2 2))"
    "sint (t_op (ticket_at 2 2)) \<le> sint (t_commit (ticket_at 2 2))"
    by (simp_all add: ticket_at_def)
  have k: "clean_key [107]" "([65, 38, 10] :: bytes) \<noteq> []" "value_fits [107] [65, 38, 10]"
    by (simp_all add: clean_key_def plain_bytes_def value_fits_def maxLogRecordHeaderSize_def)
  from cli_put_then_get[OF ref.engine_axioms s t k, of ref_json "\<lambda>p. []"] show ?thesis by simp
qed

text \<open>
  Property C40. The client does not escape the key of \<open>get\<close> and \<open>delete\<close>. There are a master and
  two keys, one with an ampersand, put with different values; \<open>get\<close> of the key with the
  ampersand prints the value of the other key, and \<open>delete\<close> of it deletes the other key.
\<close>

theorem cli_addresses_wrong_key:
  "\<exists>s s1 s2. cli_run ref_env ref_json (\<lambda>p. []) default_server (ticket_at 1 1) [str ''put'', str ''a&b'', [49]] ref_master
         = Some ([BodyLine (str ''OK'' @ [10])], s)
     \<and> cli_run ref_env ref_json (\<lambda>p. []) default_server (ticket_at 2 2) [str ''put'', str ''a'', [50]] s
         = Some ([BodyLine (str ''OK'' @ [10])], s1)
     \<and> map_option fst (cli_run ref_env ref_json (\<lambda>p. []) default_server (ticket_at 3 3) [str ''get'', str ''a&b''] s1)
         = Some [BodyLine [50, 10]]
     \<and> cli_run ref_env ref_json (\<lambda>p. []) default_server (ticket_at 4 4) [str ''delete'', str ''a&b''] s1
         = Some ([BodyLine (str ''OK'' @ [10])], s2)
     \<and> db_view ref_env 5 (sv_db s2) (str ''a&b'') = Some ([49], 0) \<and> db_view ref_env 5 (sv_db s2) (str ''a'') = None"
proof -
  let ?run = "\<lambda>i args s. cli_run ref_env ref_json (\<lambda>p. []) default_server i args s"
  have "(case ?run (ticket_at 1 1) [str ''put'', str ''a&b'', [49]] ref_master of None \<Rightarrow> False | Some (o1, s) \<Rightarrow>
       o1 = [BodyLine (str ''OK'' @ [10])] \<and>
       (case ?run (ticket_at 2 2) [str ''put'', str ''a'', [50]] s of None \<Rightarrow> False | Some (o2, s1) \<Rightarrow>
          o2 = [BodyLine (str ''OK'' @ [10])]
          \<and> map_option fst (?run (ticket_at 3 3) [str ''get'', str ''a&b''] s1) = Some [BodyLine [50, 10]]
          \<and> (case ?run (ticket_at 4 4) [str ''delete'', str ''a&b''] s1 of None \<Rightarrow> False | Some (o3, s2) \<Rightarrow>
               o3 = [BodyLine (str ''OK'' @ [10])]
               \<and> db_view ref_env 5 (sv_db s2) (str ''a&b'') = Some ([49], 0) \<and> db_view ref_env 5 (sv_db s2) (str ''a'') = None)))"
    by code_simp
  then show ?thesis unfolding run_result by (elim exE conjE) auto
qed

end
