(* ===== verification/Closing.thy ===== *)
theory Closing
  imports Merge Transaction
begin

text \<open>
  What \<open>Close\<close> leaves: a database that refuses every operation of \<^verbatim>\<open>db.go\<close>,
  \<^verbatim>\<open>batch.go\<close> and \<^verbatim>\<open>merge.go\<close> with a test for it, and is not changed by the attempt.
\<close>

text \<open>The answer of a closed database: the test for an empty key comes first.\<close>

definition closed_answer :: "request \<Rightarrow> response" where
  "closed_answer req = rejected (if req_key req = [] then ErrKeyIsEmpty else ErrDBClosed) req"

lemma relocked: "idle d \<Longrightarrow> (locked d)\<lparr>mu := (mu d)\<lparr>writer := False\<rparr>\<rparr> = d"
  by (cases d; cases "mu d") (simp add: idle_def locked_def)

lemma rerlocked: "(rlocked d)\<lparr>mu := (mu (rlocked d))\<lparr>readers := readers (mu d)\<rparr>\<rparr> = d"
  by (cases d; cases "mu d") (simp add: rlocked_def)

lemma with_Lock_idle:
  assumes "idle d" and "body (locked d) = (y, d')" and "mu d' = mu (locked d)"
  shows "with_Lock body d = Some (y, d'\<lparr>mu := mu d\<rparr>)"
  using assms mutex_idle[OF assms(1)]
  by (simp add: with_Lock_def mutex_Lock_def mutex_Unlock_def idle_def locked_def)

lemma close_body_cases:
  assumes "close_body wclose hintErr lockErr d = (r, d')"
  shows "mu d' = mu d" and "dataFiles d' = snd (wclose (dataFiles d))" and "r = Ok () \<Longrightarrow> closed d'"
    and "r \<noteq> Ok () \<Longrightarrow> d' = d\<lparr>dataFiles := snd (wclose (dataFiles d))\<rparr>"
  using assms by (auto simp: close_body_def closeFiles_def close_watcher_def split: prod.splits option.splits if_splits)

lemma db_Close_idle:
  assumes "idle d" and "db_Close wclose hintErr lockErr d = Some (r, d')"
  shows "idle d'" and "dataFiles d' = snd (wclose (dataFiles d))" and "r = Ok () \<Longrightarrow> closed d'"
    and "r \<noteq> Ok () \<Longrightarrow> d' = d\<lparr>dataFiles := snd (wclose (dataFiles d))\<rparr>"
proof -
  let ?body = "close_body wclose hintErr lockErr"
  obtain y d1 where b: "?body (locked d) = (y, d1)" by (cases "?body (locked d)")
  note c = close_body_cases[OF b]
  have "with_Lock ?body d = Some (y, d1\<lparr>mu := mu d\<rparr>)" by (rule with_Lock_idle[where body = ?body, OF assms(1) b c(1)])
  moreover have "with_Lock ?body d = Some (r, d')" using assms(2) by (simp add: db_Close_def split: if_splits)
  ultimately have e: "r = y" "d' = d1\<lparr>mu := mu d\<rparr>" by simp_all
  show "idle d'" using e(2) assms(1) by (simp add: idle_def)
  show "dataFiles d' = snd (wclose (dataFiles d))" using e(2) c(2) by (simp add: locked_def)
  show "r = Ok () \<Longrightarrow> closed d'" using e c(3) by simp
  show "r \<noteq> Ok () \<Longrightarrow> d' = d\<lparr>dataFiles := snd (wclose (dataFiles d))\<rparr>" using e c(4) by (simp add: locked_def)
qed

text \<open>Without a running merge \<open>Close\<close> gets the lock and returns.\<close>

lemma db_Close_returns:
  assumes "idle d" and "\<not> mergeRunning d"
  shows "\<exists>r d'. db_Close wclose hintErr lockErr d = Some (r, d')"
proof -
  obtain y d1 where b: "close_body wclose hintErr lockErr (locked d) = (y, d1)"
    by (cases "close_body wclose hintErr lockErr (locked d)")
  show ?thesis
    using with_Lock_idle[where body = "close_body wclose hintErr lockErr", OF assms(1) b close_body_cases(1)[OF b]] assms(2)
    by (simp add: db_Close_def)
qed

section \<open>Batches\<close>

lemma closed_batch_request: "closed d \<Longrightarrow> batch_request E x req d b = (closed_answer req, d, b)"
  by (cases req) (auto simp: closed_answer_def batch_Put_def batch_PutWithTTL_def batch_Delete_def batch_Expire_def
      batch_Persist_def batch_Get_def batch_Exist_def batch_TTL_def write_guard_def)

lemma closed_batch_run: "closed d \<Longrightarrow> batch_run E xs d b = (map (closed_answer \<circ> snd) xs, d, b)"
  by (induction xs) (auto simp: closed_batch_request)

lemma closed_batch_end:
  assumes "idle d" and "closed d" and n: "NewBatch opts d = Some (b, d1)"
  shows "batch_Commit E j now d1 b = (Fail ErrDBClosed, d, b)" and "batch_Rollback d1 b = (Fail ErrDBClosed, d, b)"
    and "closed d1"
proof -
  have b: "batch_options b = opts" and d1: "d1 = (if ReadOnly opts then rlocked d else locked d)"
    using n assms(1) by (auto simp: NewBatch_def Let_def batch_lock_def mutex_Lock_def mutex_RLock_def idle_def
        locked_def rlocked_def split: if_splits option.splits)
  have u: "batch_unlock b d1 = Some d"
    using relocked[OF assms(1)] rerlocked[of d] mutex_idle[OF assms(1)]
    by (simp add: b d1 batch_unlock_def mutex_Unlock_def mutex_RUnlock_def) (simp add: locked_def rlocked_def)
  show c: "closed d1" using assms(2) d1 by simp
  show "batch_Commit E j now d1 b = (Fail ErrDBClosed, d, b)" "batch_Rollback d1 b = (Fail ErrDBClosed, d, b)"
    using c u by (simp_all add: batch_Commit_def commit_body_def batch_Rollback_def rollback_body_def deferred_unlock_def)
qed

lemma NewBatch_idle: "idle d \<Longrightarrow> \<exists>b d1. NewBatch opts d = Some (b, d1)"
  by (simp add: NewBatch_def Let_def batch_lock_def mutex_Lock_def mutex_RLock_def idle_def)

section \<open>Requests and merges\<close>

lemma closed_single_write:
  assumes "idle d" and "closed d" and "op (locked d) write_batch = (Fail e, locked d, write_batch)"
  shows "single_write E j now op d = Some (Fail e, d)"
proof -
  have "released (locked d) = d" using relocked[OF assms(1)] by (simp add: released_def locked_def)
  moreover have "batch_Rollback (locked d) write_batch = (Fail ErrDBClosed, released (locked d), write_batch)"
    using assms(2) by (simp add: batch_Rollback_def rollback_body_def deferred_unlock_writer)
  ultimately show ?thesis using assms(1,3) by (simp add: single_write_idle)
qed

lemma closed_single_read:
  assumes "idle d" and "closed d" and "op (rlocked d) read_batch = (r, rlocked d)"
  shows "single_read E op d = Some (r, d)"
proof -
  have "batch_unlock read_batch (rlocked d) = Some d"
    using rerlocked[of d] by (simp add: batch_unlock_def mutex_RUnlock_def) (simp add: rlocked_def)
  then have "batch_Commit E 0 0 (rlocked d) read_batch = (Fail ErrDBClosed, d, read_batch)"
    using assms(2) by (simp add: batch_Commit_def commit_body_def deferred_unlock_def)
  then show ?thesis using assms(1,3) by (simp add: single_read_def init_read idle_def)
qed

lemma closed_request:
  assumes "idle d" and "closed d"
  shows "db_request E x req d = Some (closed_answer req, d)"
proof -
  have c: "batch_request E x req (locked d) write_batch = (closed_answer req, locked d, write_batch)"
    "batch_request E x req (rlocked d) read_batch = (closed_answer req, rlocked d, read_batch)"
    using assms(2) by (simp_all add: closed_batch_request)
  note w = closed_single_write[OF assms] and r = closed_single_read[OF assms]
  show ?thesis
    by (cases req) (use c in \<open>auto simp: w r closed_answer_def db_Put_def db_PutWithTTL_def db_Get_def db_Delete_def db_Exist_def
        db_Expire_def db_TTL_def db_Persist_def split: prod.splits\<close>)
qed

lemma closed_run: "idle d \<Longrightarrow> closed d \<Longrightarrow> db_run E xs d = Some (map (closed_answer \<circ> snd) xs, d)"
  by (induction xs) (auto simp: closed_request)

lemma closed_Merge:
  assumes "idle d" and "closed d"
  shows "db_Merge E S parses flt flt2 hold2 now closeErr now2 reopen d k = Some (Fail ErrDBClosed, Some d, k)"
proof -
  have "merge_begin S (locked d) = (Fail ErrDBClosed, locked d)" using assms(2) by (simp add: merge_begin_def)
  then have "with_Lock (merge_begin S) d = Some (Fail ErrDBClosed, (locked d)\<lparr>mu := mu d\<rparr>)"
    by (rule with_Lock_idle[OF assms(1)]) simp
  then show ?thesis by (simp add: db_Merge_def doMerge_def locked_def)
qed

section \<open>Property\<close>

text \<open>
  Property C21. The errors of a closed database. Once \<open>Close\<close> of an unlocked database has
  returned nil, every run of requests is answered request by request with \<open>ErrDBClosed\<close>, or
  with \<open>ErrKeyIsEmpty\<close> for an empty key; the operations of a batch are refused in the same way,
  its \<open>Commit\<close> and \<open>Rollback\<close> and both kinds of \<open>Merge\<close> answer \<open>ErrDBClosed\<close>; and the
  database, its lock included, and the files stay as they are. A \<open>Close\<close> that fails or panics
  gives the lock back and changes nothing but the log, on which it has called \<open>Close\<close>: the
  database still counts as open although its files may be closed.
\<close>

theorem closed_database_refuses:
  assumes "idle d" and "db_Close wclose hintErr lockErr d = Some (r, d')"
  shows "if r = Ok () then
       closed d'
       \<and> db_run E xs d' = Some (map (closed_answer \<circ> snd) xs, d')
       \<and> (\<exists>b d1. NewBatch opts d' = Some (b, d1) \<and> batch_run E xs d1 b = (map (closed_answer \<circ> snd) xs, d1, b)
            \<and> batch_Commit E j now d1 b = (Fail ErrDBClosed, d', b) \<and> batch_Rollback d1 b = (Fail ErrDBClosed, d', b))
       \<and> db_Merge E S parses flt flt2 hold2 now closeErr now2 reopen d' k = Some (Fail ErrDBClosed, Some d', k)
     else d' = d\<lparr>dataFiles := snd (wclose (dataFiles d))\<rparr>"
proof (cases "r = Ok ()")
  case True
  then have c: "idle d'" "closed d'" using db_Close_idle[OF assms] by simp_all
  obtain b d1 where n: "NewBatch opts d' = Some (b, d1)" using NewBatch_idle[OF c(1)] by blast
  then show ?thesis
    using True c(2) closed_run[OF c] closed_Merge[OF c] closed_batch_end[OF c n] closed_batch_run[of d1 E xs b] by auto
next
  case False
  then show ?thesis using db_Close_idle(4)[OF assms] by simp
qed

text \<open>A log that loses what it holds when it is closed, and the two outcomes of \<open>Close\<close> on it.\<close>

definition drop_log :: "list_wal \<Rightarrow> go_error option \<times> list_wal" where
  "drop_log w = (None, w\<lparr>lw_log := []\<rparr>)"

theorem closed_database_refuses_witness:
  "(\<exists>d'. db_Close drop_log None None ref_db = Some (Ok (), d')
     \<and> db_run ref_env [(\<lparr>batch_id = 1, t_op = 1, t_op2 = 1, t_commit = 1\<rparr>, ReqPut [107] [118])] d'
         = Some ([RspDone (Fail ErrDBClosed)], d'))
   \<and> db_Close drop_log None (Some (ErrExternal 1)) ref_db
       = Some (Fail (ErrExternal 1), ref_db\<lparr>dataFiles := snd (drop_log (dataFiles ref_db))\<rparr>)"
proof
  define xs where "xs = [(\<lparr>batch_id = 1, t_op = 1, t_op2 = 1, t_commit = 1\<rparr>, ReqPut [107] [118])]"
  have i: "idle ref_db" by code_simp
  have "map_option fst (db_Close drop_log None None ref_db) = Some (Ok ())" by code_simp
  then obtain d' where c: "db_Close drop_log None None ref_db = Some (Ok (), d')" by auto
  note p = closed_database_refuses[OF i c, where E = ref_env and xs = xs, unfolded if_P[OF refl]]
  have "db_run ref_env xs d' = Some (map (closed_answer \<circ> snd) xs, d')" by (rule conjunct1[OF conjunct2[OF p]])
  moreover have "map (closed_answer \<circ> snd) xs = [RspDone (Fail ErrDBClosed)]" by (simp add: closed_answer_def xs_def)
  ultimately show "\<exists>d'. db_Close drop_log None None ref_db = Some (Ok (), d')
     \<and> db_run ref_env [(\<lparr>batch_id = 1, t_op = 1, t_op2 = 1, t_commit = 1\<rparr>, ReqPut [107] [118])] d'
         = Some ([RspDone (Fail ErrDBClosed)], d')"
    using c by (intro exI[of _ d']) (simp only: xs_def simp_thms)
  have "map_option fst (db_Close drop_log None (Some (ErrExternal 1)) ref_db) = Some (Fail (ErrExternal 1))" by code_simp
  then obtain d2 where f: "db_Close drop_log None (Some (ErrExternal 1)) ref_db = Some (Fail (ErrExternal 1), d2)" by auto
  from closed_database_refuses[OF i f]
  show "db_Close drop_log None (Some (ErrExternal 1)) ref_db
       = Some (Fail (ErrExternal 1), ref_db\<lparr>dataFiles := snd (drop_log (dataFiles ref_db))\<rparr>)"
    using f by simp
qed

end
