(* ===== verification/Node_Command.thy ===== *)
theory Node_Command
  imports Client Reopen Failover Closing
begin

text \<open>
  \<^verbatim>\<open>cmd/server/main.go\<close>: a node started from its flags, on a directory, and stopped.
\<close>

section \<open>Starting\<close>

text \<open>\<open>DefaultOptions\<close>; the name of its temporary directory is an argument.\<close>

definition DefaultOptions :: "bytes \<Rightarrow> Options" where
  "DefaultOptions dir = \<lparr>DirPath = dir, SegmentSize = 1073741824, Sync = False, BytesPerSync = 0,
                         WatchQueueSize = 0, AutoMergeCronExpr = []\<rparr>"

text \<open>The flags of a node, with the test of a port number.\<close>

definition node_flags :: "(bytes \<Rightarrow> bool) \<Rightarrow> bytes \<Rightarrow> (bytes \<Rightarrow> bool) option" where
  "node_flags number n =
     (if n = str ''port'' then Some number
      else if n \<in> {str ''dbpath'', str ''slaves'', str ''sync-key'', str ''master''} then Some (\<lambda>v. True)
      else None)"

text \<open>The slaves of a master, from a list with commas.\<close>

definition replicator_of :: "bytes \<Rightarrow> bytes \<Rightarrow> Replicator option" where
  "replicator_of slavesStr syncKey =
     (if slavesStr \<noteq> [] then Some (NewReplicator (map TrimSpace (split_comma slavesStr)) syncKey) else None)"

definition node_server :: "(bytes \<times> bytes) list \<Rightarrow> ('t, 'w) DB \<Rightarrow> ('t, 'w) server \<times> worker" where
  "node_server fs d =
     (let syncKey = flag_value fs (str ''sync-key'') [];
          srv = NewServer d (replicator_of (flag_value fs (str ''slaves'') []) syncKey) syncKey;
          masterURL = flag_value fs (str ''master'') []
      in if masterURL \<noteq> [] then StartHeartbeatWorker masterURL srv else (srv, None))"

text \<open>
  From the arguments to the running server: \<open>None\<close> when the flags or the opening end the
  process. \<open>hold\<close> and the other arguments are those of \<open>Open\<close>.
\<close>

definition node_start ::
    "('t, 'w) env \<Rightarrow> ('w, 'f) disk_ops \<Rightarrow> (bytes \<Rightarrow> go_error option) \<Rightarrow> faults \<Rightarrow> go_error + bool \<Rightarrow> int64
       \<Rightarrow> (bytes \<Rightarrow> bool) \<Rightarrow> bytes \<Rightarrow> bytes list \<Rightarrow> 'f disk \<Rightarrow> (('t, 'w) server \<times> worker) option \<times> 'f disk" where
  "node_start E S parses flt hold now number tempDir args k =
     (case parse_flags (node_flags number) args of
        None \<Rightarrow> (None, k)
      | Some (fs, rest) \<Rightarrow>
          (case Open E S parses flt hold now
                  ((DefaultOptions tempDir)\<lparr>DirPath := flag_value fs (str ''dbpath'') (str ''/tmp/rosedb_server'')\<rparr>) k of
             (Ok d, k) \<Rightarrow> (Some (node_server fs d), k)
           | (_, k) \<Rightarrow> (None, k)))"

section \<open>Stopping\<close>

text \<open>
  The end of the process: the port cannot be listened on, or a signal, with the error of
  \<open>Shutdown\<close> if requests do not end in time. The deferred \<open>Close\<close> runs unless
  \<open>log.Fatal\<close> has ended the process before.
\<close>

datatype node_end = ListenFailed | Signal "go_error option"

definition node_stop ::
    "('w \<Rightarrow> go_error option \<times> 'w) \<Rightarrow> go_error option \<Rightarrow> go_error option \<Rightarrow> node_end \<Rightarrow> ('t, 'w) DB
       \<Rightarrow> (unit result option \<times> ('t, 'w) DB) option" where
  "node_stop wclose hintErr lockErr ending d =
     (case ending of
        Signal (Some e) \<Rightarrow> Some (None, d)
      | _ \<Rightarrow> map_option (\<lambda>(r, d). (Some r, d)) (db_Close wclose hintErr lockErr d))"

text \<open>
  The signal that ends a node whose requests have ended closes its database; after a
  \<open>Shutdown\<close> that fails the database stays open.
\<close>

lemma node_stop_closes:
  assumes "idle d" and "\<not> mergeRunning d"
  shows "\<exists>r d'. node_stop wclose hintErr lockErr (Signal None) d = Some (Some r, d') \<and> (r = Ok () \<longrightarrow> closed d') \<and> idle d'"
    and "node_stop wclose hintErr lockErr (Signal (Some e)) d = Some (None, d)"
proof -
  obtain r d' where c: "db_Close wclose hintErr lockErr d = Some (r, d')" using db_Close_returns[OF assms] by blast
  then show "\<exists>r d'. node_stop wclose hintErr lockErr (Signal None) d = Some (Some r, d') \<and> (r = Ok () \<longrightarrow> closed d') \<and> idle d'"
    using db_Close_idle[OF assms(1) c] by (auto simp: node_stop_def)
qed (simp add: node_stop_def)

text \<open>In every case the log is as the run left it, or closed.\<close>

lemma node_stop_log:
  assumes "idle d" and "\<not> mergeRunning d"
  shows "\<exists>r d'. node_stop wclose hintErr lockErr ending d = Some (r, d')
     \<and> (dataFiles d' = dataFiles d \<or> dataFiles d' = snd (wclose (dataFiles d)))"
proof -
  obtain r d' where c: "db_Close wclose hintErr lockErr d = Some (r, d')" using db_Close_returns[OF assms] by blast
  have "dataFiles d' = snd (wclose (dataFiles d))" by (rule db_Close_idle(2)[OF assms(1) c])
  then show ?thesis using c by (cases ending) (auto simp: node_stop_def split: option.split)
qed

section \<open>A new node\<close>

lemma node_server_fields:
  assumes "node_server fs d = (s, w)"
  shows "sv_db s = d" and "sv_key s = flag_value fs (str ''sync-key'') []" and "senders s = []"
    and "replicator s = replicator_of (flag_value fs (str ''slaves'') []) (flag_value fs (str ''sync-key'') [])"
    and "if flag_value fs (str ''master'') [] = [] then role s = MASTER \<and> w = None else role s = SLAVE \<and> w = Some 0"
  using assms by (auto simp: node_server_def NewServer_def StartHeartbeatWorker_def SetRole_def Let_def split: if_splits)

lemma default_options_ok: "p \<noteq> [] \<Longrightarrow> checkOptions parses ((DefaultOptions tempDir)\<lparr>DirPath := p\<rparr>) = Ok ()"
  by (simp add: checkOptions_def DefaultOptions_def word_sle_eq)

context store
begin

text \<open>Started on an empty directory, a node is ready to serve.\<close>

lemma node_start_empty:
  assumes p: "plain_dir E S w_inv k" "data_dir k dataFileNameSuffix = []" and o: "opens S"
    and f: "parse_flags (node_flags number) args = Some (fs, rest)" "flag_value fs (str ''dbpath'') (str ''/tmp/rosedb_server'') \<noteq> []"
    and xs: "http_clock now xs" "\<forall>(x, r) \<in> set xs. http_fits J r"
  shows "\<exists>s w k' faults s' rps M outs.
     node_start E S parses no_fault (Inr True) now number tempDir args k = (Some (s, w), k')
     \<and> role s = (if flag_value fs (str ''master'') [] = [] then MASTER else SLAVE)
     \<and> length faults = length xs
     \<and> spec_run J (role s) (flag_value fs (str ''sync-key'') []) (zip xs faults) (\<lambda>k. None) = (rps, M, outs)
     \<and> serve_all E J xs s = Some (map Ok rps, s')
     \<and> senders s' = concat (map (\<lambda>q. posted (replicator_of (flag_value fs (str ''slaves'') []) (flag_value fs (str ''sync-key'') [])) (Some q)) outs)
     \<and> (\<forall>t. sint (http_end now xs) \<le> sint t \<longrightarrow> db_view E t (sv_db s') = kv_at t M)"
proof -
  let ?opts = "(DefaultOptions tempDir)\<lparr>DirPath := flag_value fs (str ''dbpath'') (str ''/tmp/rosedb_server'')\<rparr>"
  have c: "checkOptions parses ?opts = Ok ()" by (rule default_options_ok[OF f(2)])
  obtain d k' where d: "Open E S parses no_fault (Inr True) now ?opts k = (Ok d, k')"
    "dinv d" "idle d" "\<not> closed d" "\<And>t. db_view E t d = (\<lambda>x. None)"
  proof (rule Open_empty[OF p o c, where now = now])
    fix d k'
    assume "Open E S parses no_fault (Inr True) now ?opts k = (Ok d, k')" "dinv d" "idle d" "\<not> closed d"
      "\<And>t. db_view E t d = (\<lambda>x. None)"
    then show thesis by (rule that)
  qed
  obtain s w where s: "node_server fs d = (s, w)" by (cases "node_server fs d")
  note nf = node_server_fields[OF s]
  have r: "rep now (sv_db s) (\<lambda>k. None)" using d(5) nf(1) by (simp add: rep_def kv_at_def fun_eq_iff)
  have "dinv (sv_db s)" "idle (sv_db s)" "\<not> closed (sv_db s)" using d nf(1) by simp_all
  from serve_all_refines[OF this r xs]
  obtain faults s' d' rps M outs where run: "length faults = length xs"
    "spec_run J (role s) (sv_key s) (zip xs faults) (\<lambda>k. None) = (rps, M, outs)" "serve_all E J xs s = Some (map Ok rps, s')"
    "rep (http_end now xs) d' M"
    "s' = s\<lparr>sv_db := d', senders := senders s @ concat (map (\<lambda>q. posted (replicator s) (Some q)) outs)\<rparr>"
    by blast
  have "node_start E S parses no_fault (Inr True) now number tempDir args k = (Some (s, w), k')"
    by (simp add: node_start_def f(1) d(1) s)
  then show ?thesis
    using run nf by (intro exI[of _ s] exI[of _ w] exI[of _ k'] exI[of _ faults] exI[of _ s'] exI[of _ rps] exI[of _ M] exI[of _ outs])
      (auto simp: rep_def)
qed

end

section \<open>The first start\<close>

text \<open>
  A new node gets ready and answers. Started with flags that are valid, on an empty
  directory that can be opened, \<open>main\<close> reaches a running server; it is a slave exactly when a
  master is given. Every run of HTTP requests in the order of the clock then ends with an
  answer to each request, as the specification answers them over the empty map, and the
  goroutines for the slaves of the flags are those of the successful writes.
\<close>

lemma new_node_serves:
  assumes "engine E bt_inv w_inv pend" and "disk_lib (Wl E) w_inv pend S one_seg seg_ok seg_log"
    and "plain_dir E S w_inv k" and "data_dir k dataFileNameSuffix = []" and "opens S"
    and "parse_flags (node_flags number) args = Some (fs, rest)"
    and "flag_value fs (str ''dbpath'') (str ''/tmp/rosedb_server'') \<noteq> []"
    and "http_clock now xs" and "\<forall>(x, r) \<in> set xs. http_fits J r"
  shows "\<exists>s w k' faults s' rps M outs.
     node_start E S parses no_fault (Inr True) now number tempDir args k = (Some (s, w), k')
     \<and> role s = (if flag_value fs (str ''master'') [] = [] then MASTER else SLAVE)
     \<and> length faults = length xs
     \<and> spec_run J (role s) (flag_value fs (str ''sync-key'') []) (zip xs faults) (\<lambda>k. None) = (rps, M, outs)
     \<and> serve_all E J xs s = Some (map Ok rps, s')
     \<and> senders s' = concat (map (\<lambda>q. posted (replicator_of (flag_value fs (str ''slaves'') []) (flag_value fs (str ''sync-key'') [])) (Some q)) outs)
     \<and> (\<forall>t. sint (http_end now xs) \<le> sint t \<longrightarrow> db_view E t (sv_db s') = kv_at t M)"
  by (rule store.node_start_empty[OF store.intro[OF assms(1,2)] assms(3-9)])

text \<open>A master with two slaves, as its command line gives it.\<close>

definition node_args :: "bytes list" where
  "node_args = [str ''-slaves=http://b:1, http://c:1'', str ''--sync-key'', str ''s''] @ [str ''-port'', str ''80'']"

lemma new_node_serves_witness:
  "\<exists>s w k' s' rps. node_start seg_env seg_disk_ops (\<lambda>c. None) no_fault (Inr True) 0 (\<lambda>v. True) [47] node_args empty_disk = (Some (s, w), k')
     \<and> role s = MASTER \<and> serve_all seg_env ref_json web_run s = Some (map Ok rps, s')
     \<and> map status_of rps = [200, 200, 405] \<and> map snd_url (senders s') = [str ''http://b:1'', str ''http://c:1'']"
proof -
  obtain fs where f: "parse_flags (node_flags (\<lambda>v. True)) node_args = Some (fs, [])"
    and n: "flag_value fs (str ''dbpath'') (str ''/tmp/rosedb_server'') \<noteq> []" "flag_value fs (str ''master'') [] = []"
  proof -
    have "case parse_flags (node_flags (\<lambda>v. True)) node_args of None \<Rightarrow> False
       | Some (fs, rest) \<Rightarrow> rest = [] \<and> flag_value fs (str ''dbpath'') (str ''/tmp/rosedb_server'') \<noteq> []
           \<and> flag_value fs (str ''master'') [] = []" by code_simp
    then show ?thesis using that by (auto split: option.splits)
  qed
  have e: "data_dir empty_disk dataFileNameSuffix = []" by (simp add: empty_disk_def)
  have dl: "disk_lib (Wl seg_env) seg_wal_inv sw_pending seg_disk_ops (\<lambda>w. fst ` set (sw_segs w) = {1}) seg_ok sw_seg_log"
    by (rule seg_st.disk_lib_axioms)
  from new_node_serves[OF seg.engine_axioms dl empty_disk_plain e seg_opens f n(1) web_run_ok, of "\<lambda>c. None" "[47]"] n(2)
  obtain s w k' s' rps where r: "node_start seg_env seg_disk_ops (\<lambda>c. None) no_fault (Inr True) 0 (\<lambda>v. True) [47] node_args empty_disk = (Some (s, w), k')"
    "role s = MASTER" "serve_all seg_env ref_json web_run s = Some (map Ok rps, s')" by auto
  have "case node_start seg_env seg_disk_ops (\<lambda>c. None) no_fault (Inr True) 0 (\<lambda>v. True) [47] node_args empty_disk of
      (Some (s, w), k) \<Rightarrow> (case serve_all seg_env ref_json web_run s of
         Some (rps, s') \<Rightarrow> map (\<lambda>r. case r of Ok rp \<Rightarrow> status_of rp | _ \<Rightarrow> 0) rps = [200, 200, 405]
            \<and> map snd_url (senders s') = [str ''http://b:1'', str ''http://c:1'']
       | None \<Rightarrow> False)
    | _ \<Rightarrow> False" by code_simp
  then show ?thesis using r by (auto simp: comp_def)
qed

end
