(* ===== verification/Node_Restart.thy ===== *)
theory Node_Restart
  imports Node_Command Request_Log
begin

text \<open>
  A node that is stopped and started again on the same directory. A request of the server is a
  request of its database, so what was written over HTTP is in the log of the files, and the
  next process finds it. The heartbeat worker of a slave runs between the requests.
\<close>

section \<open>Requests of the server as requests of the database\<close>

text \<open>The operation of the database that a request of the server leads to, if any changes it.\<close>

definition request_of :: "json_ops \<Rightarrow> bytes \<Rightarrow> bytes \<Rightarrow> http_request \<Rightarrow> request option" where
  "request_of J rl key r =
     (if Path r = str ''/put'' then
        (if rl = MASTER \<and> Method r = MethodPost \<and> FormValue r (str ''key'') \<noteq> [] \<and> FormValue r (str ''value'') \<noteq> []
         then Some (ReqPut (FormValue r (str ''key'')) (FormValue r (str ''value''))) else None)
      else if Path r = str ''/get'' then
        (if Method r = MethodGet \<and> QueryGet r (str ''key'') \<noteq> [] then Some (ReqGet (QueryGet r (str ''key''))) else None)
      else if Path r = str ''/delete'' then
        (if rl = MASTER \<and> (Method r = MethodDelete \<or> Method r = MethodPost) \<and> delete_key r \<noteq> []
         then Some (ReqDelete (delete_key r)) else None)
      else if Path r = str ''/sync'' \<and> Method r = MethodPost \<and> (key = [] \<or> SyncKeyHeader r = key) then
        (case decode_sync J (Body r) of
           None \<Rightarrow> None
         | Some q \<Rightarrow> if Action q = str ''put'' then Some (ReqPut (SyncKey q) (SyncValue q))
                     else if Action q = str ''delete'' then Some (ReqDelete (SyncKey q)) else None)
      else None)"

text \<open>An error of the log, as a client sees it.\<close>

definition no_http_error :: "reply result list \<Rightarrow> bool" where
  "no_http_error rps \<longleftrightarrow> (\<forall>n. Ok (Reply StatusInternalServerError (ErrorText (ErrExternal n))) \<notin> set rps)"

lemma no_http_error_simps [simp]:
  "no_http_error []" "no_http_error (xs @ ys) \<longleftrightarrow> no_http_error xs \<and> no_http_error ys"
  by (auto simp: no_http_error_def)

lemma no_http_error_Cons: "no_http_error (rp # rps) \<Longrightarrow> no_http_error rps"
  by (simp add: no_http_error_def)

lemma no_log_error_Cons:
  "no_log_error (rsp # rsps) \<longleftrightarrow> (\<forall>n. rsp \<noteq> RspDone (Fail (ErrExternal n))) \<and> no_log_error rsps"
  by (auto simp: no_log_error_def)

lemma request_of_fits: "http_fits J r \<Longrightarrow> request_of J rl key r = Some req \<Longrightarrow> req_fits req"
  by (auto simp: request_of_def http_fits_def value_fits_def split: if_splits option.splits)

lemma http_end_le: "http_clock now xs \<Longrightarrow> sint now \<le> sint (http_end now xs)"
  by (induction xs arbitrary: now) force+

context engine
begin

text \<open>What one request does to the database.\<close>

definition did :: "ticket \<Rightarrow> request option \<Rightarrow> ('t, 'w) DB \<Rightarrow> reply result \<Rightarrow> ('t, 'w) DB \<Rightarrow> bool" where
  "did x req d rp d' \<longleftrightarrow>
     (case req of
        None \<Rightarrow> d' = d
      | Some req \<Rightarrow> \<exists>rsp. db_request E x req d = Some (rsp, d')
          \<and> (\<forall>e. rsp = RspDone (Fail e) \<longrightarrow> rp = Ok (Reply StatusInternalServerError (ErrorText e))))"

lemma did_nothing: "reply_with n p s = Some (rp, s') \<Longrightarrow> did x None (sv_db s) rp (sv_db s')"
  by (auto simp: reply_with_def did_def)

lemma did_write:
  assumes "write_end ok out s (op (sv_db s)) = Some (rp, s')"
    and "db_request E x req (sv_db s) = map_option (map_prod RspDone id) (op (sv_db s))"
  shows "did x (Some req) (sv_db s) rp (sv_db s')"
  using assms by (auto simp: write_end_def reply_with_def did_def split: option.splits prod.splits result.splits)

lemma put_did:
  assumes "handlePut E x r s = Some (rp, s')" and p: "Path r = str ''/put''"
  shows "did x (request_of J (role s) (sv_key s) r) (sv_db s) rp (sv_db s')"
proof (cases "role s = MASTER \<and> Method r = MethodPost \<and> FormValue r (str ''key'') \<noteq> [] \<and> FormValue r (str ''value'') \<noteq> []")
  case True
  let ?op = "\<lambda>d. db_Put E (batch_id x) (t_commit x) (FormValue r (str ''key'')) (FormValue r (str ''value'')) d"
  have "db_request E x (ReqPut (FormValue r (str ''key'')) (FormValue r (str ''value''))) (sv_db s)
      = map_option (map_prod RspDone id) (?op (sv_db s))" by simp
  from did_write[where op = ?op, OF _ this] True assms(1) show ?thesis
    by (auto simp: handlePut_writes request_of_def p)
next
  case False
  then have "request_of J (role s) (sv_key s) r = None" by (simp add: request_of_def p)
  then show ?thesis using False assms(1)
    by (auto simp: handlePut_def GetRole_def Let_def intro: did_nothing split: if_splits)
qed

lemma delete_did:
  assumes "handleDelete E x r s = Some (rp, s')" and p: "Path r = str ''/delete''"
  shows "did x (request_of J (role s) (sv_key s) r) (sv_db s) rp (sv_db s')"
proof (cases "role s = MASTER \<and> (Method r = MethodDelete \<or> Method r = MethodPost) \<and> delete_key r \<noteq> []")
  case True
  let ?op = "\<lambda>d. db_Delete E (batch_id x) (t_commit x) (delete_key r) d"
  have "db_request E x (ReqDelete (delete_key r)) (sv_db s) = map_option (map_prod RspDone id) (?op (sv_db s))" by simp
  from did_write[where op = ?op, OF _ this] True assms(1) show ?thesis
    by (auto simp: handleDelete_writes request_of_def p)
next
  case False
  then have "request_of J (role s) (sv_key s) r = None" by (simp add: request_of_def p)
  then show ?thesis using False assms(1)
    by (auto simp: handleDelete_def GetRole_def delete_key_def Let_def intro: did_nothing split: if_splits)
qed

lemma sync_did:
  assumes h: "handleSync E J x r s = Some (rp, s')" and p: "Path r = str ''/sync''"
  shows "did x (request_of J (role s) (sv_key s) r) (sv_db s) rp (sv_db s')"
proof (cases "Method r = MethodPost \<and> (sv_key s = [] \<or> SyncKeyHeader r = sv_key s)
    \<and> (\<exists>q. decode_sync J (Body r) = Some q \<and> (Action q = str ''put'' \<or> Action q = str ''delete''))")
  case True
  then obtain q where q: "Method r = MethodPost" "sv_key s = [] \<or> SyncKeyHeader r = sv_key s"
    "decode_sync J (Body r) = Some q" "Action q = str ''put'' \<or> Action q = str ''delete''" by blast
  let ?op = "\<lambda>d. if Action q = str ''put'' then db_Put E (batch_id x) (t_commit x) (SyncKey q) (SyncValue q) d
      else db_Delete E (batch_id x) (t_commit x) (SyncKey q) d"
  let ?req = "if Action q = str ''put'' then ReqPut (SyncKey q) (SyncValue q) else ReqDelete (SyncKey q)"
  have "db_request E x ?req (sv_db s) = map_option (map_prod RspDone id) (?op (sv_db s))" by simp
  from did_write[where op = ?op, OF h[unfolded handleSync_writes[OF q]] this]
  have "did x (Some ?req) (sv_db s) rp (sv_db s')" .
  moreover have "request_of J (role s) (sv_key s) r = Some ?req" using q by (auto simp: request_of_def p)
  ultimately show ?thesis by simp
next
  case False
  then have "request_of J (role s) (sv_key s) r = None" by (auto simp: request_of_def p split: option.split)
  moreover have "sv_db s' = sv_db s" using False h
    by (auto simp: handleSync_def reply_with_def split: if_splits option.splits)
  ultimately show ?thesis by (simp add: did_def)
qed

lemma get_did:
  assumes "handleGet E x r s = Some (rp, s')" and p: "Path r = str ''/get''"
  shows "did x (request_of J (role s) (sv_key s) r) (sv_db s) rp (sv_db s')"
  using assms(1) unfolding handleGet_def
  by (auto simp: request_of_def p did_def reply_with_def Let_def split: if_splits option.splits prod.splits result.splits)

lemma keys_did:
  assumes "dinv (sv_db s)" and "idle (sv_db s)" and h: "handleKeys E x r s = Some (rp, s')"
  shows "sv_db s' = sv_db s"
proof -
  have c: "compile_pattern (\<lambda>p. Inr (\<lambda>k. True)) [] = Inr None" by (simp add: compile_pattern_def)
  have "\<not> writer (mu (sv_db s))" using assms(2) by (simp add: idle_def)
  from key_traversals(1)[OF assms(1) this c, of "\<lambda>k. t_op x" True "\<lambda>k keys. ((True, None), keys @ [k])" "[]"] h
  show ?thesis by (auto simp: handleKeys_def reply_with_def split: if_splits)
qed

lemma server_did:
  assumes "dinv (sv_db s)" and "idle (sv_db s)" and "ServeHTTP E J x r s = Some (rp, s')"
  shows "did x (request_of J (role s) (sv_key s) r) (sv_db s) rp (sv_db s')"
proof (cases "Path r \<in> {str ''/put'', str ''/get'', str ''/delete'', str ''/sync''}")
  case True
  then show ?thesis
    using assms(3) put_did[of x r s rp s' J] get_did[of x r s rp s' J] delete_did[of x r s rp s' J] sync_did[of J x r s rp s']
    by (auto simp: ServeHTTP_def)
next
  case False
  then have "request_of J (role s) (sv_key s) r = None" by (simp add: request_of_def)
  moreover have "sv_db s' = sv_db s"
    using False assms(3) keys_did[OF assms(1,2), of x r rp s']
    by (auto simp: ServeHTTP_def handleHealth_def handleAdmin_def reply_with_def split: if_splits)
  ultimately show ?thesis by (simp add: did_def)
qed

end

section \<open>No merge is started by a request\<close>

lemma deferred_unlock_merging:
  "deferred_unlock (r, d, b) = (r', d', b') \<Longrightarrow> mergeRunning d' = mergeRunning d"
  by (auto simp: deferred_unlock_def batch_unlock_def split: option.splits)

lemma commit_merging: "batch_Commit E i now d b = (r, d', b') \<Longrightarrow> mergeRunning d' = mergeRunning d"
proof -
  assume c: "batch_Commit E i now d b = (r, d', b')"
  obtain r1 d1 b1 where b: "commit_body E i now d b = (r1, d1, b1)" by (cases "commit_body E i now d b")
  then have "mergeRunning d1 = mergeRunning d"
    by (auto simp: commit_body_def Let_def split: if_splits option.splits sum.splits prod.splits)
  then show ?thesis using c b deferred_unlock_merging[of r1 d1 b1 r d' b'] by (simp add: batch_Commit_def)
qed

lemma rollback_merging: "batch_Rollback d b = (r, d', b') \<Longrightarrow> mergeRunning d' = mergeRunning d"
proof -
  assume c: "batch_Rollback d b = (r, d', b')"
  obtain r1 d1 b1 where b: "rollback_body d b = (r1, d1, b1)" by (cases "rollback_body d b")
  then have "d1 = d" by (auto simp: rollback_body_def Let_def split: if_splits)
  then show ?thesis using c b deferred_unlock_merging[of r1 d1 b1 r d' b'] by (simp add: batch_Rollback_def)
qed

lemma index_Delete_merging [simp]: "mergeRunning (index_Delete E k d) = mergeRunning d"
  by (simp add: index_Delete_def Let_def split: prod.split)

lemma batch_request_merging: "mergeRunning (fst (snd (batch_request E x req d b))) = mergeRunning d"
  by (cases req) (auto simp: batch_Get_def batch_Exist_def batch_TTL_def batch_Expire_def batch_Persist_def Let_def
      split: prod.splits option.splits sum.splits)

lemma batch_init_merging: "batch_init ro sync b d = Some (b', d') \<Longrightarrow> mergeRunning d' = mergeRunning d"
  by (auto simp: batch_init_def batch_lock_def Let_def split: option.splits)

lemma single_write_merging:
  assumes "single_write E i now op d = Some (r, d')" and op: "\<And>d b. mergeRunning (fst (snd (op d b))) = mergeRunning d"
  shows "mergeRunning d' = mergeRunning d"
proof -
  obtain b d1 where i: "batch_init False False newBatch d = Some (b, d1)" using assms(1) by (auto simp: single_write_def split: option.splits)
  obtain r2 d2 b2 where o: "op d1 b = (r2, d2, b2)" by (cases "op d1 b")
  have "mergeRunning d2 = mergeRunning d" using op[of d1 b] o batch_init_merging[OF i] by simp
  then show ?thesis
    using assms(1) i o by (auto simp: single_write_def dest!: commit_merging rollback_merging split: result.splits prod.splits)
qed

lemma single_read_merging:
  assumes "single_read E op d = Some (r, d')" and op: "\<And>d b. mergeRunning (snd (op d b)) = mergeRunning d"
  shows "mergeRunning d' = mergeRunning d"
proof -
  obtain b d1 where i: "batch_init True False newBatch d = Some (b, d1)" using assms(1) by (auto simp: single_read_def split: option.splits)
  obtain r2 d2 where o: "op d1 b = (r2, d2)" by (cases "op d1 b")
  have "mergeRunning d2 = mergeRunning d" using op[of d1 b] o batch_init_merging[OF i] by simp
  then show ?thesis
    using assms(1) i o by (auto simp: single_read_def dest!: commit_merging split: result.splits prod.splits)
qed

lemma request_merging:
  assumes "db_request E x req d = Some (rsp, d')"
  shows "mergeRunning d' = mergeRunning d"
proof (cases "is_write req")
  case True
  show ?thesis
  proof (rule is_write_op[OF True, of E x])
    fix op
    assume o: "\<And>d. db_request E x req d = map_option (map_prod RspDone id) (single_write E (batch_id x) (t_commit x) op d)"
      "\<And>d b. batch_request E x req d b = (case op d b of (r, d, b) \<Rightarrow> (RspDone r, d, b))"
    obtain r where "single_write E (batch_id x) (t_commit x) op d = Some (r, d')" using assms o(1) by auto
    then show ?thesis
      by (rule single_write_merging) (use batch_request_merging[of E x req] o(2) in \<open>auto simp: case_prod_beta\<close>)
  qed
next
  case False
  have "mergeRunning (snd (batch_Get E t k d b)) = mergeRunning d" "mergeRunning (snd (batch_Exist E t k d b)) = mergeRunning d"
    "mergeRunning (snd (batch_TTL E t k d b)) = mergeRunning d" for t k b and d :: "('a, 'b) DB"
    by (auto simp: batch_Get_def batch_Exist_def batch_TTL_def Let_def split: option.splits sum.splits)
  then show ?thesis
    using assms False by (cases req) (auto simp: db_Get_def db_Exist_def db_TTL_def dest!: single_read_merging)
qed

lemma run_merging: "db_run E xs d = Some (rsps, d') \<Longrightarrow> mergeRunning d' = mergeRunning d"
  by (induction E xs d arbitrary: rsps rule: db_run.induct) (auto dest: request_merging split: option.splits prod.splits)

section \<open>Requests and ticks of the worker\<close>

text \<open>A run of a node with its worker, and the replies.\<close>

fun node_events ::
    "('t, 'w) env \<Rightarrow> json_ops \<Rightarrow> node_event list \<Rightarrow> ('t, 'w) server \<Rightarrow> worker
       \<Rightarrow> (reply result list \<times> ('t, 'w) server \<times> worker) option" where
  "node_events E J [] s w = Some ([], s, w)"
| "node_events E J (Tick p # evs) s w =
     (case w of
        None \<Rightarrow> node_events E J evs s None
      | Some n \<Rightarrow> (case heartbeat p n s of (s', w') \<Rightarrow> node_events E J evs s' w'))"
| "node_events E J (Request x r # evs) s w =
     (case ServeHTTP E J x r s of
        None \<Rightarrow> None
      | Some (rp, s') \<Rightarrow> map_option (\<lambda>(rps, s, w). (rp # rps, s, w)) (node_events E J evs s' w))"

lemma node_events_run: "map_option snd (node_events E J evs s w) = node_run E J evs s w"
  by (induction E J evs s w rule: node_events.induct) (auto simp: option.map_comp comp_def case_prod_beta split: option.split prod.split)

fun requests_in :: "node_event list \<Rightarrow> (ticket \<times> http_request) list" where
  "requests_in [] = []"
| "requests_in (Tick p # evs) = requests_in evs"
| "requests_in (Request x r # evs) = (x, r) # requests_in evs"

text \<open>
  The specification: a node is a slave if it was started as one (\<open>slave\<close>) and no three of
  the probes \<open>seen\<close> so far have failed in a row, and answers each request in this role.
\<close>

definition role_after :: "bool \<Rightarrow> probe list \<Rightarrow> bytes" where
  "role_after slave seen =
     (if slave \<and> \<not> sublist [True, True, True] (map failing seen) then SLAVE else MASTER)"

fun spec_events ::
    "json_ops \<Rightarrow> bool \<Rightarrow> bytes \<Rightarrow> probe list \<Rightarrow> node_event list \<Rightarrow> kv \<Rightarrow> reply list \<times> kv" where
  "spec_events J slave key seen [] M = ([], M)"
| "spec_events J slave key seen (Tick p # evs) M = spec_events J slave key (seen @ [p]) evs M"
| "spec_events J slave key seen (Request x r # evs) M =
     (case http_spec (t_op x) None J (role_after slave seen) key r M of
        (rp, M', out) \<Rightarrow> (case spec_events J slave key seen evs M' of (rps, M'') \<Rightarrow> (rp # rps, M'')))"

text \<open>Server and worker are where the probes have brought them.\<close>

definition as_probed :: "bool \<Rightarrow> probe list \<Rightarrow> ('t, 'w) server \<Rightarrow> worker \<Rightarrow> bool" where
  "as_probed slave seen s w \<longleftrightarrow> role s = role_after slave seen
     \<and> (case w of
          None \<Rightarrow> \<not> slave \<or> three_failures 0 seen
        | Some n \<Rightarrow> slave \<and> n < 3 \<and> (\<forall>ps. three_failures 0 (seen @ ps) = three_failures n ps))"

lemma role_after_failures: "role_after slave seen = (if slave \<and> \<not> three_failures 0 seen then SLAVE else MASTER)"
  using three_failures_sublist[of 0 seen] by (simp add: role_after_def)

lemma three_failures_more: "three_failures n ps \<Longrightarrow> three_failures n (ps @ qs)"
  by (induction n ps rule: three_failures.induct) (auto split: if_splits)

lemma as_probed_tick:
  assumes a: "as_probed slave seen s w"
  shows "case w of None \<Rightarrow> as_probed slave (seen @ [p]) s None
         | Some n \<Rightarrow> (case heartbeat p n s of (s', w') \<Rightarrow> as_probed slave (seen @ [p]) s' w' \<and> sv_db s' = sv_db s \<and> sv_key s' = sv_key s)"
proof (cases w)
  case None
  then show ?thesis using a three_failures_more[of 0 seen "[p]"] by (auto simp: as_probed_def role_after_failures)
next
  case (Some n)
  have n: "slave" "n < 3" and st: "\<And>ps. three_failures 0 (seen @ ps) = three_failures n ps"
    using a Some by (simp_all add: as_probed_def)
  have nf: "\<not> three_failures 0 seen" using st[of "[]"] by simp
  then have sl: "role s = SLAVE" "role s \<noteq> MASTER" using a n(1) by (simp_all add: as_probed_def role_after_failures)
  have st': "three_failures 0 ((seen @ [p]) @ ps) = three_failures n (p # ps)" for ps using st[of "p # ps"] by simp
  have one: "three_failures 0 (seen @ [p]) = three_failures n [p]" using st'[of "[]"] by simp
  note hb = heartbeat_cases[OF sl(2), of p n]
  consider "\<not> failing p" | "failing p" "n < 2" | "failing p" "\<not> n < 2" by blast
  then show ?thesis
  proof cases
    case 1
    then show ?thesis using Some n sl hb st' one by (simp add: as_probed_def role_after_failures)
  next
    case 2
    then show ?thesis using Some n sl hb st' one by (simp add: as_probed_def role_after_failures)
  next
    case 3
    then show ?thesis using Some n hb one by (simp add: as_probed_def role_after_failures SetRole_def)
  qed
qed

lemma as_probed_same: "role s' = role s \<Longrightarrow> as_probed slave seen s w \<Longrightarrow> as_probed slave seen s' w"
  by (simp add: as_probed_def)

context engine
begin

text \<open>A node that serves, with its map; and one whose log can be recovered from the time \<open>t\<close> on.\<close>

definition node_sane :: "Options \<Rightarrow> int64 \<Rightarrow> kv \<Rightarrow> ('t, 'w) DB \<Rightarrow> bool" where
  "node_sane opts t M d \<longleftrightarrow> dinv d \<and> idle d \<and> \<not> closed d \<and> \<not> mergeRunning d \<and> options d = opts \<and> rep t d M"

definition node_recovers :: "int64 \<Rightarrow> ('t, 'w) DB \<Rightarrow> bool" where
  "node_recovers t d \<longleftrightarrow> (\<forall>t'. sint t \<le> sint t' \<longrightarrow> recoverable t' {} d)"

lemma one_request:
  assumes sane: "node_sane opts t M (sv_db s)" and c: "sint t \<le> sint (t_op x)" "sint (t_op x) \<le> sint (t_commit x)"
    and f: "http_fits J r" "batch_id x \<noteq> 0"
  shows "\<exists>rp s' M'. ServeHTTP E J x r s = Some (Ok rp, s') \<and> role s' = role s \<and> sv_key s' = sv_key s
     \<and> node_sane opts (t_commit x) M' (sv_db s')
     \<and> (no_http_error [Ok rp] \<longrightarrow> (\<exists>out. http_spec (t_op x) None J (role s) (sv_key s) r M = (rp, M', out))
          \<and> (node_recovers t (sv_db s) \<longrightarrow> node_recovers (t_commit x) (sv_db s')))"
proof -
  let ?d = "sv_db s"
  have d: "dinv ?d" "idle ?d" "\<not> closed ?d" "\<not> mergeRunning ?d" "options ?d = opts" "rep t ?d M"
    using sane by (simp_all add: node_sane_def)
  have "rep (t_op x) ?d M" using d(6) c(1) by (simp add: rep_def)
  then have "ready x s M" using d c(2) by (simp add: ready_def)
  from server_serves[OF this f(1)] obtain fault rp d' M' out where q:
    "http_spec (t_op x) fault J (role s) (sv_key s) r M = (rp, M', out)"
    "ServeHTTP E J x r s = Some (Ok rp, s\<lparr>sv_db := d', senders := senders s @ posted (replicator s) out\<rparr>)"
    "settled ?d d'" "rep (t_commit x) d' M'"
    "\<forall>e. fault = Some e \<longrightarrow> log_error E w_inv e \<and> rp = Reply StatusInternalServerError (ErrorText e)"
    unfolding serves_def by blast
  have "did x (request_of J (role s) (sv_key s) r) ?d (Ok rp) d'" using server_did[OF d(1,2) q(2)] by simp
  then consider (same) "d' = ?d"
    | (run) req rsp where "request_of J (role s) (sv_key s) r = Some req" "db_run E [(x, req)] ?d = Some ([rsp], d')"
        "\<forall>e. rsp = RspDone (Fail e) \<longrightarrow> Ok rp = Ok (Reply StatusInternalServerError (ErrorText e))"
    by (auto simp: did_def split: option.splits)
  then have st: "\<not> mergeRunning d' \<and> (no_http_error [Ok rp] \<longrightarrow> node_recovers t ?d \<longrightarrow> node_recovers (t_commit x) d')"
  proof cases
    case same
    then show ?thesis using d(4) c by (auto simp: node_recovers_def)
  next
    case run
    have rf: "req_fits req" by (rule request_of_fits[OF f(1) run(1)])
    have "recoverable t' {} d'" if e: "no_http_error [Ok rp]" and rc: "node_recovers t ?d" and t': "sint (t_commit x) \<le> sint t'" for t'
    proof -
      have "no_log_error [rsp]" using e run(3) by (auto simp: no_log_error_def no_http_error_def)
      moreover have "recoverable t' {} ?d" using rc t' c by (simp add: node_recovers_def)
      ultimately show ?thesis
        using run_recovers(1)[OF d(1-3) _ _ run(2), of t t'] rf f(2) c t' by simp
    qed
    then show ?thesis using run_merging[OF run(2)] d(4) by (simp add: node_recovers_def)
  qed
  have "fault = None" if e: "no_http_error [Ok rp]"
  proof (cases fault)
    case (Some a)
    then obtain n where "a = ErrExternal n" using q(5) log_error_external by blast
    then show ?thesis using q(5) Some e by (auto simp: no_http_error_def)
  qed simp
  moreover have "node_sane opts (t_commit x) M' d'"
    using q(3,4) d settled_idle[OF q(3)] st by (simp add: node_sane_def settled_def)
  ultimately show ?thesis using q(1,2) st
    by (intro exI[of _ rp] exI[of _ "s\<lparr>sv_db := d', senders := senders s @ posted (replicator s) out\<rparr>"] exI[of _ M']) auto
qed

lemma events_run:
  assumes "node_sane opts t M (sv_db s)" and "as_probed slave seen s w" and "sv_key s = key"
    and "http_clock t (requests_in evs)" and "\<forall>(x, r) \<in> set (requests_in evs). http_fits J r \<and> batch_id x \<noteq> 0"
  shows "\<exists>rps s' w' M'. node_events E J evs s w = Some (map Ok rps, s', w')
     \<and> node_sane opts (http_end t (requests_in evs)) M' (sv_db s')
     \<and> (no_http_error (map Ok rps) \<longrightarrow> spec_events J slave key seen evs M = (rps, M')
          \<and> (node_recovers t (sv_db s) \<longrightarrow> node_recovers (http_end t (requests_in evs)) (sv_db s')))"
  using assms
proof (induction evs arbitrary: t M s w seen)
  case Nil
  then show ?case by simp
next
  case (Cons ev evs)
  show ?case
  proof (cases ev)
    case (Tick p)
    show ?thesis
    proof (cases w)
      case None
      have "as_probed slave (seen @ [p]) s None" using as_probed_tick[OF Cons.prems(2), of p] None by simp
      from Cons.IH[OF Cons.prems(1) this Cons.prems(3)] Cons.prems(4,5) show ?thesis by (simp add: Tick None)
    next
      case (Some n)
      obtain s1 w1 where h: "heartbeat p n s = (s1, w1)" by (cases "heartbeat p n s")
      have a: "as_probed slave (seen @ [p]) s1 w1" "sv_db s1 = sv_db s" "sv_key s1 = key"
        using as_probed_tick[OF Cons.prems(2), of p] Some h Cons.prems(3) by simp_all
      from Cons.IH[of t M s1 "seen @ [p]" w1] Cons.prems(1,4,5) a show ?thesis by (simp add: Tick Some h)
    qed
  next
    case (Request x r)
    have c: "sint t \<le> sint (t_op x)" "sint (t_op x) \<le> sint (t_commit x)" "http_clock (t_commit x) (requests_in evs)"
      and f: "http_fits J r" "batch_id x \<noteq> 0" "\<forall>(x, r) \<in> set (requests_in evs). http_fits J r \<and> batch_id x \<noteq> 0"
      using Cons.prems(4,5) by (simp_all add: Request)
    obtain rp s1 M1 where q: "ServeHTTP E J x r s = Some (Ok rp, s1)" "role s1 = role s" "sv_key s1 = sv_key s"
      "node_sane opts (t_commit x) M1 (sv_db s1)"
      and e1: "no_http_error [Ok rp] \<longrightarrow> (\<exists>out. http_spec (t_op x) None J (role s) (sv_key s) r M = (rp, M1, out))
          \<and> (node_recovers t (sv_db s) \<longrightarrow> node_recovers (t_commit x) (sv_db s1))"
      using one_request[OF Cons.prems(1) c(1,2) f(1,2)] by blast
    have k: "sv_key s1 = key" using q(3) Cons.prems(3) by simp
    obtain rps s' w' M' where i: "node_events E J evs s1 w = Some (map Ok rps, s', w')"
      "node_sane opts (http_end (t_commit x) (requests_in evs)) M' (sv_db s')"
      "no_http_error (map Ok rps) \<longrightarrow> spec_events J slave key seen evs M1 = (rps, M')
          \<and> (node_recovers (t_commit x) (sv_db s1) \<longrightarrow> node_recovers (http_end (t_commit x) (requests_in evs)) (sv_db s'))"
      using Cons.IH[OF q(4) as_probed_same[OF q(2) Cons.prems(2)] k c(3) f(3)] by blast
    have rl: "role s = role_after slave seen" using Cons.prems(2) by (simp add: as_probed_def)
    have "spec_events J slave key seen (ev # evs) M = (rp # rps, M')
        \<and> (node_recovers t (sv_db s) \<longrightarrow> node_recovers (http_end t (requests_in (ev # evs))) (sv_db s'))"
      if e: "no_http_error (map Ok (rp # rps))"
    proof -
      have "no_http_error [Ok rp]" "no_http_error (map Ok rps)" using e by (simp_all add: no_http_error_def)
      then show ?thesis using e1 i(3) rl Cons.prems(3) by (auto simp: Request)
    qed
    then show ?thesis
      using i(2) by (intro exI[of _ "rp # rps"] exI[of _ s'] exI[of _ w'] exI[of _ M']) (simp add: Request q(1) i(1))
  qed
qed

end

section \<open>One life of a node\<close>

lemma open_log_fields:
  assumes "open_log E now opts w = Ok d"
  shows "dataFiles d = w" and "options d = opts" and "\<not> mergeRunning d"
  using assms
  by (auto simp: open_log_def loadIndexFromWAL_def new_db_def enable_watch_def split: result.splits prod.splits option.splits if_splits)

context store
begin

text \<open>A directory from which a node can be started from the time \<open>now\<close> on, with the map \<open>M\<close>.\<close>

definition boots :: "(bytes \<Rightarrow> go_error option) \<Rightarrow> Options \<Rightarrow> int64 \<Rightarrow> kv \<Rightarrow> 'f disk \<Rightarrow> bool" where
  "boots parses opts now M k \<longleftrightarrow>
     (\<forall>t. sint now \<le> sint t \<longrightarrow>
        (\<exists>d k'. Open E S parses no_fault (Inr True) t opts k = (Ok d, k') \<and> dinv d \<and> idle d \<and> \<not> closed d
           \<and> \<not> mergeRunning d \<and> options d = opts \<and> rep t d M \<and> (\<forall>t'. sint t \<le> sint t' \<longrightarrow> recoverable t' {} d)
           \<and> (\<forall>fs. plain_dir E S w_inv (set_files dataFileNameSuffix fs k'))))"

lemma Open_plain_Ok:
  assumes p: "plain_dir E S w_inv k" and o: "opens S" and c: "checkOptions parses opts = Ok ()"
    and fs: "\<forall>(i, f) \<in> set (data_dir k dataFileNameSuffix). seg_ok i f \<and> 0 < i" "distinct (map fst (data_dir k dataFileNameSuffix))"
    and r: "Open E S parses no_fault (Inr True) t opts k = (Ok d, k')"
  obtains w h where "w_Open S dataFileNameSuffix (data_dir k dataFileNameSuffix) = Inr w"
    and "w_Open S hintFileNameSuffix (data_dir k hintFileNameSuffix) = Inr h" and "open_log E t opts w = Ok d"
    and "k' = set_files hintFileNameSuffix (w_Files S h) (set_files dataFileNameSuffix (w_Files S w) k)"
proof (rule Open_plain[OF p o c fs, of t], goal_cases)
  case (1 w h)
  show ?case by (rule that[OF 1(2,3)]) (use 1(4) r in \<open>cases "open_log E t opts w"; simp\<close>)+
qed

lemma boots_empty:
  assumes p: "plain_dir E S w_inv k" "data_dir k dataFileNameSuffix = []" and o: "opens S" and c: "checkOptions parses opts = Ok ()"
  shows "boots parses opts now (\<lambda>k. None) k"
  unfolding boots_def
proof (intro allI impI)
  fix t
  obtain d k' where d: "Open E S parses no_fault (Inr True) t opts k = (Ok d, k')" "dinv d" "idle d" "\<not> closed d"
    "wal_log (Wl E) (dataFiles d) = []" "options d = opts" "\<And>t. db_view E t d = (\<lambda>x. None)"
    "\<And>fs. plain_dir E S w_inv (set_files dataFileNameSuffix fs k')"
    using Open_empty[OF p o c, of t] by blast
  obtain w where "open_log E t opts w = Ok d" using Open_plain_Ok[OF p(1) o c _ _ d(1)] p(2) by auto
  from open_log_fields(3)[OF this] d recoverable_new[OF d(2,5)]
  show "\<exists>d k'. Open E S parses no_fault (Inr True) t opts k = (Ok d, k') \<and> dinv d \<and> idle d \<and> \<not> closed d
      \<and> \<not> mergeRunning d \<and> options d = opts \<and> rep t d (\<lambda>k. None) \<and> (\<forall>t'. sint t \<le> sint t' \<longrightarrow> recoverable t' {} d)
      \<and> (\<forall>fs. plain_dir E S w_inv (set_files dataFileNameSuffix fs k'))"
    by (intro exI[of _ d] exI[of _ k']) (simp add: rep_def kv_at_def fun_eq_iff)
qed

text \<open>A log that can be recovered can be recovered again after it was opened.\<close>

lemma recoverable_reopened:
  assumes r: "recoverable t' {} d" and d': "dinv d'" "wal_log (Wl E) (dataFiles d') = wal_log (Wl E) (dataFiles d)" "options d' = options d"
    and v: "\<And>t'. sint t \<le> sint t' \<Longrightarrow> db_view E t' d' = db_view E t' d" and le: "sint t \<le> sint t'"
  shows "recoverable t' {} d'"
proof -
  obtain mt recs where m: "load_chunks E t' (wal_log (Wl E) (dataFiles d)) (NewIndexer (Bt E), []) = Ok (mt, recs)"
    "dinv (d\<lparr>index := mt\<rparr>)" "\<forall>j. j \<notin> {} \<longrightarrow> get_records recs j = []"
    "\<And>t. sint t' \<le> sint t \<Longrightarrow> db_view E t (d\<lparr>index := mt\<rparr>) = db_view E t d"
    using r unfolding log_recoverable_def by blast
  have w: "w_inv (dataFiles d')" "pend (dataFiles d') = []" using d'(1) by (simp_all add: db_inv_def)
  have "set (wal_log (Wl E) (dataFiles (d\<lparr>index := mt\<rparr>))) \<subseteq> set (wal_log (Wl E) (dataFiles d'))" by (simp add: d'(2))
  note g = grown_log[OF m(2) w this]
  have "dinv (d'\<lparr>index := mt\<rparr>)" using g(1) d'(1) by (simp add: db_inv_def)
  moreover have "db_view E t (d'\<lparr>index := mt\<rparr>) = db_view E t (d\<lparr>index := mt, dataFiles := dataFiles d'\<rparr>)" for t
    by (simp add: db_view_def stored_rec_def fun_eq_iff split: option.split)
  ultimately show ?thesis
    unfolding log_recoverable_def using m(1,3,4) g(3) v le d'(2) by (intro exI[of _ mt] exI[of _ recs]) auto
qed

lemma boots_again:
  assumes p: "plain_dir E S w_inv k" and fs: "data_dir k dataFileNameSuffix = w_Files S (dataFiles d)" and o: "opens S"
    and c: "checkOptions parses opts = Ok ()" "options d = opts" and d: "dinv d" and m: "rep now d M"
    and r: "\<And>t. sint now \<le> sint t \<Longrightarrow> recoverable t {} d"
  shows "boots parses opts now M k"
  unfolding boots_def
proof (intro allI impI)
  fix t :: int64
  assume t: "sint now \<le> sint t"
  have wi: "w_inv (dataFiles d)" using d by (simp add: db_inv_def)
  have c': "checkOptions parses (options d) = Ok ()" using c by simp
  obtain d' k' where d': "Open E S parses no_fault (Inr True) t opts k = (Ok d', k')" "dinv d'" "idle d'" "\<not> closed d'"
    and v: "\<And>t'. sint t \<le> sint t' \<Longrightarrow> db_view E t' d' = db_view E t' d"
    using Open_again[OF p fs o c' r[OF t] d] c(2) by metis
  obtain w h where w: "w_Open S dataFileNameSuffix (data_dir k dataFileNameSuffix) = Inr w"
    and h: "w_Open S hintFileNameSuffix (data_dir k hintFileNameSuffix) = Inr h" and l: "open_log E t opts w = Ok d'"
    and k': "k' = set_files hintFileNameSuffix (w_Files S h) (set_files dataFileNameSuffix (w_Files S w) k)"
    by (rule Open_plain_Ok[OF p o c(1) _ _ d'(1)]) (use Files_ok[OF wi] Files_distinct[OF wi] fs in auto)
  note f = open_log_fields[OF l]
  have "wal_log (Wl E) w = wal_log (Wl E) (dataFiles d)"
    using Open_law[OF w[unfolded fs] _ Files_distinct[OF wi]] Files_ok[OF wi] Files_log[OF wi] by auto
  then have "recoverable t' {} d'" if "sint t \<le> sint t'" for t'
    using recoverable_reopened[OF r d'(2) _ _ v that] t that f c(2) by simp
  moreover have "rep t d' M" using m v t by (simp add: rep_def)
  moreover have "plain_dir E S w_inv (set_files dataFileNameSuffix fs k')" for fs
    unfolding k' by (rule plain_after[OF p h])
  ultimately show "\<exists>d k'. Open E S parses no_fault (Inr True) t opts k = (Ok d, k') \<and> dinv d \<and> idle d \<and> \<not> closed d
      \<and> \<not> mergeRunning d \<and> options d = opts \<and> rep t d M \<and> (\<forall>t'. sint t \<le> sint t' \<longrightarrow> recoverable t' {} d)
      \<and> (\<forall>fs. plain_dir E S w_inv (set_files dataFileNameSuffix fs k'))"
    using d' f by (intro exI[of _ d'] exI[of _ k']) simp
qed

end

text \<open>
  A life of a node: when it is started, with which arguments, what happens in it (the ticks of
  its worker and its requests), and how it ends, with the errors that closing the hint file and
  releasing the file lock may give. The files are left as the log has them; the lock goes with
  the process.
\<close>

record life =
  boot_time :: int64
  boot_args :: "bytes list"
  boot_events :: "node_event list"
  boot_end :: node_end
  boot_errors :: "go_error option \<times> go_error option"

fun node_lives ::
    "('t, 'w) env \<Rightarrow> ('w, 'f) disk_ops \<Rightarrow> ('w \<Rightarrow> go_error option \<times> 'w) \<Rightarrow> (bytes \<Rightarrow> go_error option) \<Rightarrow> json_ops
       \<Rightarrow> (bytes \<Rightarrow> bool) \<Rightarrow> bytes \<Rightarrow> life list \<Rightarrow> 'f disk \<Rightarrow> reply result list list \<times> 'f disk" where
  "node_lives E S wclose parses J number tempDir [] k = ([], k)"
| "node_lives E S wclose parses J number tempDir (l # ls) k =
     (case node_start E S parses no_fault (Inr True) (boot_time l) number tempDir (boot_args l) k of
        (None, k) \<Rightarrow> ([], k)
      | (Some (s, w), k) \<Rightarrow>
          (case node_events E J (boot_events l) s w of
             None \<Rightarrow> ([], k)
           | Some (rps, s, w) \<Rightarrow>
               (case node_stop wclose (fst (boot_errors l)) (snd (boot_errors l)) (boot_end l) (sv_db s) of
                  None \<Rightarrow> ([rps], k)
                | Some (r, d) \<Rightarrow>
                    (case node_lives E S wclose parses J number tempDir ls (set_files dataFileNameSuffix (w_Files S (dataFiles d)) k) of
                       (rpss, k) \<Rightarrow> (rps # rpss, k)))))"

text \<open>The flags of a life, and what they make of it.\<close>

definition life_flag :: "(bytes \<Rightarrow> bool) \<Rightarrow> life \<Rightarrow> bytes \<Rightarrow> bytes \<Rightarrow> bytes" where
  "life_flag number l name dflt =
     (case parse_flags (node_flags number) (boot_args l) of None \<Rightarrow> dflt | Some (fs, rest) \<Rightarrow> flag_value fs name dflt)"

definition life_slave :: "(bytes \<Rightarrow> bool) \<Rightarrow> life \<Rightarrow> bool" where
  "life_slave number l \<longleftrightarrow> life_flag number l (str ''master'') [] \<noteq> []"

text \<open>What the lives answer: one map goes through all of them.\<close>

fun spec_lives :: "json_ops \<Rightarrow> (bytes \<Rightarrow> bool) \<Rightarrow> life list \<Rightarrow> kv \<Rightarrow> reply list list" where
  "spec_lives J number [] M = []"
| "spec_lives J number (l # ls) M =
     (case spec_events J (life_slave number l) (life_flag number l (str ''sync-key'') []) [] (boot_events l) M of
        (rps, M) \<Rightarrow> rps # spec_lives J number ls M)"

fun lives_clock :: "int64 \<Rightarrow> life list \<Rightarrow> bool" where
  "lives_clock now [] = True"
| "lives_clock now (l # ls) =
     (sint now \<le> sint (boot_time l) \<and> http_clock (boot_time l) (requests_in (boot_events l))
      \<and> lives_clock (http_end (boot_time l) (requests_in (boot_events l))) ls)"

text \<open>Its flags are valid and name the directory, its requests fit and have identifiers.\<close>

definition life_ok :: "json_ops \<Rightarrow> (bytes \<Rightarrow> bool) \<Rightarrow> bytes \<Rightarrow> life \<Rightarrow> bool" where
  "life_ok J number dir l \<longleftrightarrow>
     parse_flags (node_flags number) (boot_args l) \<noteq> None
     \<and> life_flag number l (str ''dbpath'') (str ''/tmp/rosedb_server'') = dir
     \<and> (\<forall>(x, r) \<in> set (requests_in (boot_events l)). http_fits J r \<and> batch_id x \<noteq> 0)"

text \<open>Closing a log leaves its files as they are.\<close>

definition keeps_files :: "('w \<Rightarrow> bool) \<Rightarrow> ('w, 'f) disk_ops \<Rightarrow> ('w \<Rightarrow> go_error option \<times> 'w) \<Rightarrow> bool" where
  "keeps_files w_inv S wclose \<longleftrightarrow> (\<forall>w. w_inv w \<longrightarrow> w_Files S (snd (wclose w)) = w_Files S w)"

context store
begin

lemma one_life:
  assumes b: "boots parses ((DefaultOptions tempDir)\<lparr>DirPath := dir\<rparr>) now M k" and o: "opens S" and dir: "dir \<noteq> []"
    and cl: "keeps_files w_inv S wclose"
    and t: "sint now \<le> sint (boot_time l)" "http_clock (boot_time l) (requests_in (boot_events l))" and ok: "life_ok J number dir l"
  shows "\<exists>s w k1 rps s' w' r d'. node_start E S parses no_fault (Inr True) (boot_time l) number tempDir (boot_args l) k = (Some (s, w), k1)
     \<and> node_events E J (boot_events l) s w = Some (map Ok rps, s', w')
     \<and> node_stop wclose (fst (boot_errors l)) (snd (boot_errors l)) (boot_end l) (sv_db s') = Some (r, d')
     \<and> (no_http_error (map Ok rps) \<longrightarrow> (\<exists>M'.
          spec_events J (life_slave number l) (life_flag number l (str ''sync-key'') []) [] (boot_events l) M = (rps, M')
          \<and> boots parses ((DefaultOptions tempDir)\<lparr>DirPath := dir\<rparr>) (http_end (boot_time l) (requests_in (boot_events l))) M'
               (set_files dataFileNameSuffix (w_Files S (dataFiles d')) k1)))"
proof -
  let ?opts = "(DefaultOptions tempDir)\<lparr>DirPath := dir\<rparr>" and ?evs = "boot_events l" and ?t = "boot_time l"
  let ?sl = "life_slave number l" and ?key = "life_flag number l (str ''sync-key'') []"
  let ?stop = "http_end ?t (requests_in ?evs)"
  obtain fs rest where f: "parse_flags (node_flags number) (boot_args l) = Some (fs, rest)"
    and fd: "flag_value fs (str ''dbpath'') (str ''/tmp/rosedb_server'') = dir"
    and xs: "\<forall>(x, r) \<in> set (requests_in ?evs). http_fits J r \<and> batch_id x \<noteq> 0"
    using ok by (auto simp: life_ok_def life_flag_def)
  obtain d k1 where d: "Open E S parses no_fault (Inr True) ?t ?opts k = (Ok d, k1)" "dinv d" "idle d" "\<not> closed d"
    "\<not> mergeRunning d" "options d = ?opts" "rep ?t d M" and rec: "\<forall>t'. sint ?t \<le> sint t' \<longrightarrow> recoverable t' {} d"
    and pl: "\<And>fs. plain_dir E S w_inv (set_files dataFileNameSuffix fs k1)"
    using b t(1) unfolding boots_def by blast
  obtain s w where s: "node_server fs d = (s, w)" by (cases "node_server fs d")
  note nf = node_server_fields[OF s]
  have start: "node_start E S parses no_fault (Inr True) ?t number tempDir (boot_args l) k = (Some (s, w), k1)"
    by (simp add: node_start_def f fd d(1) s)
  have sane: "node_sane ?opts ?t M (sv_db s)" using d nf(1) by (simp add: node_sane_def)
  have pr: "as_probed ?sl [] s w" using nf(5)
    by (auto simp: as_probed_def role_after_failures life_slave_def life_flag_def f split: if_splits)
  have key: "sv_key s = ?key" using nf(2) by (simp add: life_flag_def f)
  obtain rps s' w' M' where run: "node_events E J ?evs s w = Some (map Ok rps, s', w')" and sane': "node_sane ?opts ?stop M' (sv_db s')"
    and good: "no_http_error (map Ok rps) \<longrightarrow> spec_events J ?sl ?key [] ?evs M = (rps, M')
          \<and> (node_recovers ?t (sv_db s) \<longrightarrow> node_recovers ?stop (sv_db s'))"
    using events_run[OF sane pr key t(2) xs] by blast
  let ?d2 = "sv_db s'"
  have d2: "dinv ?d2" "idle ?d2" "options ?d2 = ?opts" "\<not> mergeRunning ?d2" "rep ?stop ?d2 M'"
    using sane' by (simp_all add: node_sane_def)
  obtain r d' where stop: "node_stop wclose (fst (boot_errors l)) (snd (boot_errors l)) (boot_end l) ?d2 = Some (r, d')"
    and df: "dataFiles d' = dataFiles ?d2 \<or> dataFiles d' = snd (wclose (dataFiles ?d2))"
    using node_stop_log[OF d2(2,4)] by blast
  have files: "w_Files S (dataFiles d') = w_Files S (dataFiles ?d2)"
    using df cl d2(1) by (auto simp: keeps_files_def db_inv_def)
  have "\<exists>M'. spec_events J ?sl ?key [] ?evs M = (rps, M')
      \<and> boots parses ?opts ?stop M' (set_files dataFileNameSuffix (w_Files S (dataFiles d')) k1)"
    if e: "no_http_error (map Ok rps)"
  proof -
    have "node_recovers ?t (sv_db s)" using rec nf(1) by (simp add: node_recovers_def)
    then have "recoverable t {} ?d2" if "sint ?stop \<le> sint t" for t using good e that by (simp add: node_recovers_def)
    then have "boots parses ?opts ?stop M' (set_files dataFileNameSuffix (w_Files S (dataFiles d')) k1)"
      unfolding files by (intro boots_again[OF pl _ o default_options_ok[OF dir] d2(3,1,5)]) (simp add: set_files_dirs)
    then show ?thesis using good e by blast
  qed
  then show ?thesis
    by (intro exI[of _ s] exI[of _ w] exI[of _ k1] exI[of _ rps] exI[of _ s'] exI[of _ w'] exI[of _ r] exI[of _ d'])
      (simp add: start run stop)
qed

text \<open>Any number of lives.\<close>

lemma all_lives:
  assumes o: "opens S" and dir: "dir \<noteq> []" and cl: "keeps_files w_inv S wclose"
    and b: "boots parses ((DefaultOptions tempDir)\<lparr>DirPath := dir\<rparr>) now M k"
    and t: "lives_clock now ls" and ok: "\<forall>l \<in> set ls. life_ok J number dir l"
    and e: "no_http_error (concat (fst (node_lives E S wclose parses J number tempDir ls k)))"
  shows "fst (node_lives E S wclose parses J number tempDir ls k) = map (map Ok) (spec_lives J number ls M)"
  using b t ok e
proof (induction ls arbitrary: now M k)
  case (Cons l ls)
  let ?opts = "(DefaultOptions tempDir)\<lparr>DirPath := dir\<rparr>" and ?stop = "http_end (boot_time l) (requests_in (boot_events l))"
  have c: "sint now \<le> sint (boot_time l)" "http_clock (boot_time l) (requests_in (boot_events l))" "lives_clock ?stop ls"
    and k: "life_ok J number dir l" "\<forall>l \<in> set ls. life_ok J number dir l"
    using Cons.prems(2,3) by simp_all
  obtain s w k1 rps s' w' r d' where q: "node_start E S parses no_fault (Inr True) (boot_time l) number tempDir (boot_args l) k = (Some (s, w), k1)"
    "node_events E J (boot_events l) s w = Some (map Ok rps, s', w')"
    "node_stop wclose (fst (boot_errors l)) (snd (boot_errors l)) (boot_end l) (sv_db s') = Some (r, d')"
    and next_life: "no_http_error (map Ok rps) \<longrightarrow> (\<exists>M'.
          spec_events J (life_slave number l) (life_flag number l (str ''sync-key'') []) [] (boot_events l) M = (rps, M')
          \<and> boots parses ?opts ?stop M' (set_files dataFileNameSuffix (w_Files S (dataFiles d')) k1))"
    using one_life[OF Cons.prems(1) o dir cl c(1,2) k(1)] by blast
  let ?k = "set_files dataFileNameSuffix (w_Files S (dataFiles d')) k1"
  have n: "fst (node_lives E S wclose parses J number tempDir (l # ls) k)
      = map Ok rps # fst (node_lives E S wclose parses J number tempDir ls ?k)"
    by (simp add: q case_prod_beta)
  have e: "no_http_error (map Ok rps)" "no_http_error (concat (fst (node_lives E S wclose parses J number tempDir ls ?k)))"
    using Cons.prems(4) unfolding n by simp_all
  obtain M' where m: "spec_events J (life_slave number l) (life_flag number l (str ''sync-key'') []) [] (boot_events l) M = (rps, M')"
    "boots parses ?opts ?stop M' ?k"
    using next_life e(1) by blast
  show ?case unfolding n using Cons.IH[OF m(2) c(3) k(2) e(2)] by (simp add: m(1))
qed simp

end

section \<open>Property\<close>

text \<open>
  Property C11. A node that is stopped and started again goes on with its data. Take any number
  of lives of a node on one directory, empty at first: each is started with valid flags, as a
  master or as a slave, serves any HTTP requests that fit into a record, in the order of the
  clock, with ticks of the heartbeat worker between them, and ends with a signal or an error of
  the listener, with or without \<open>Close\<close>, which may fail. The file system has no faults, the log
  opens on any files, and closing it keeps them. If no answer reports an error of the log, then every start
  succeeds, every request of every life is answered, and as the specification answers it over
  one map that goes through all the lives; a life that was started as a slave answers as one
  until three probes in a row have failed, and as a master from then on.
\<close>

theorem restarted_node_keeps_serving:
  assumes "engine E bt_inv w_inv pend" and "disk_lib (Wl E) w_inv pend S one_seg seg_ok seg_log"
    and "plain_dir E S w_inv k" and "data_dir k dataFileNameSuffix = []" and "opens S" and "dir \<noteq> []" and "keeps_files w_inv S wclose"
    and "lives_clock now ls" and "\<forall>l \<in> set ls. life_ok J number dir l"
    and "no_http_error (concat (fst (node_lives E S wclose parses J number tempDir ls k)))"
  shows "fst (node_lives E S wclose parses J number tempDir ls k) = map (map Ok) (spec_lives J number ls (\<lambda>k. None))"
proof -
  have st: "store E bt_inv w_inv pend S one_seg seg_ok seg_log" by (rule store.intro[OF assms(1,2)])
  have "store.boots E bt_inv w_inv pend S parses ((DefaultOptions tempDir)\<lparr>DirPath := dir\<rparr>) now (\<lambda>k. None) k"
    by (rule store.boots_empty[OF st assms(3-5) default_options_ok[OF assms(6)]])
  from store.all_lives[OF st assms(5-7) this assms(8-10)] show ?thesis .
qed

lemma no_http_error_status:
  assumes "map (map (\<lambda>rp. case rp of Ok rp \<Rightarrow> status_of rp | _ \<Rightarrow> 0)) rpss = nss" and "\<forall>ns \<in> set nss. StatusInternalServerError \<notin> set ns"
  shows "no_http_error (concat rpss)"
  using assms by (force simp: no_http_error_def)

text \<open>
  A master puts a key and is killed. As a slave it is started on the same directory, refuses a put and
  reads the value; its master is gone, so after three probes it accepts the put. A master again deletes
  the key, fails to close, and the last life does not find the key any more.
\<close>

definition four_lives :: "life list" where
  "four_lives =
     [\<lparr>boot_time = 0, boot_args = [str ''-dbpath=/d''], boot_events = [Request (ticket_at 1 1) (put_request [107] [65, 38])],
        boot_end = Signal (Some (ErrText ''context deadline exceeded'')), boot_errors = (None, None)\<rparr>,
      \<lparr>boot_time = 2, boot_args = [str ''-dbpath=/d'', str ''-master=http://a:1''],
        boot_events =
          [Request (ticket_at 2 3) (put_request [107] [66]), Request (ticket_at 3 4) (get_request [107]), Tick ConnectionError,
           Tick Undecodable, Request (ticket_at 2 5) (put_request [107] [66]), Tick (HealthStatus []),
           Request (ticket_at 4 5) (put_request [107] [66])],
        boot_end = Signal None, boot_errors = (None, None)\<rparr>,
      \<lparr>boot_time = 6, boot_args = [str ''-dbpath=/d''],
        boot_events = [Request (ticket_at 5 7) (form_request MethodPost (str ''/delete'') [(str ''key'', [107])])],
        boot_end = ListenFailed, boot_errors = (None, Some (ErrExternal 1))\<rparr>,
      \<lparr>boot_time = 8, boot_args = [str ''-dbpath=/d''], boot_events = [Tick ConnectionError, Request (ticket_at 6 9) (get_request [107])],
        boot_end = Signal None, boot_errors = (None, None)\<rparr>]"

text \<open>The log without its pending chunks, once it is closed.\<close>

definition seg_close :: "seg_wal \<Rightarrow> go_error option \<times> seg_wal" where
  "seg_close w = (None, w\<lparr>sw_pending := []\<rparr>)"

theorem restarted_node_keeps_serving_witness:
  "fst (node_lives seg_env seg_disk_ops seg_close (\<lambda>c. None) ref_json (\<lambda>v. True) [47] four_lives empty_disk)
       = map (map Ok) (spec_lives ref_json (\<lambda>v. True) four_lives (\<lambda>k. None))
   \<and> map (map status_of) (spec_lives ref_json (\<lambda>v. True) four_lives (\<lambda>k. None)) = [[200], [403, 200, 403, 200], [200], [404]]"
proof -
  let ?N = "fst (node_lives seg_env seg_disk_ops seg_close (\<lambda>c. None) ref_json (\<lambda>v. True) [47] four_lives empty_disk)"
  have st: "map (map (\<lambda>rp. case rp of Ok rp \<Rightarrow> status_of rp | _ \<Rightarrow> 0)) ?N = [[200], [403, 200, 403, 200], [200], [404]]" by code_simp
  have e': "no_http_error (concat ?N)" by (rule no_http_error_status[OF st]) (simp add: StatusInternalServerError_def)
  have c: "lives_clock 0 four_lives" by code_simp
  have "list_all (\<lambda>l. parse_flags (node_flags (\<lambda>v. True)) (boot_args l) \<noteq> None
      \<and> life_flag (\<lambda>v. True) l (str ''dbpath'') (str ''/tmp/rosedb_server'') = str ''/d''
      \<and> list_all (\<lambda>(x, r). small_request ref_json r \<and> batch_id x \<noteq> 0) (requests_in (boot_events l))) four_lives" by code_simp
  then have l: "\<forall>l \<in> set four_lives. life_ok ref_json (\<lambda>v. True) (str ''/d'') l"
    by (fastforce simp: life_ok_def list_all_iff intro: small_request_fits)
  have x: "data_dir empty_disk dataFileNameSuffix = []" "str ''/d'' \<noteq> []" by (simp_all add: empty_disk_def str_def)
  have cl: "keeps_files seg_wal_inv seg_disk_ops seg_close" by (simp add: keeps_files_def seg_close_def seg_disk_simps)
  have dl: "disk_lib (Wl seg_env) seg_wal_inv sw_pending seg_disk_ops (\<lambda>w. fst ` set (sw_segs w) = {1}) seg_ok sw_seg_log"
    by (rule seg_st.disk_lib_axioms)
  note sp = restarted_node_keeps_serving[OF seg.engine_axioms dl empty_disk_plain x(1) seg_opens x(2) cl c l e']
  have "map (map status_of) (spec_lives ref_json (\<lambda>v. True) four_lives (\<lambda>k. None)) = [[200], [403, 200, 403, 200], [200], [404]]"
    using st unfolding sp by (simp add: comp_def)
  then show ?thesis using sp by blast
qed

end
