(* ===== verification/Paths.thy ===== *)
theory Paths
  imports Http
begin

text \<open>
  The name of the merge directory: \<open>mergeDirPath\<close> of \<^verbatim>\<open>merge.go\<close> over the functions of
  \<open>path/filepath\<close> on Unix, where 47 is the slash and 46 the dot.
\<close>

section \<open>Paths\<close>

text \<open>The elements between slashes.\<close>

fun elements :: "bytes \<Rightarrow> bytes list" where
  "elements [] = [[]]"
| "elements (c # cs) =
     (if c = 47 then [] # elements cs
      else (case elements cs of [] \<Rightarrow> [[c]] | e # es \<Rightarrow> (c # e) # es))"

fun join_slash :: "bytes list \<Rightarrow> bytes" where
  "join_slash [] = []"
| "join_slash [e] = e"
| "join_slash (e # es) = e @ 47 # join_slash es"

text \<open>One element of \<open>Clean\<close>; the elements kept so far are in reverse.\<close>

definition clean_step :: "bool \<Rightarrow> bytes list \<Rightarrow> bytes \<Rightarrow> bytes list" where
  "clean_step rooted acc e =
     (if e = [] \<or> e = [46] then acc
      else if e = [46, 46] then
        (if acc \<noteq> [] \<and> hd acc \<noteq> [46, 46] then tl acc else if rooted then acc else e # acc)
      else e # acc)"

definition clean_path :: "bool \<Rightarrow> bytes list \<Rightarrow> bytes" where
  "clean_path rooted acc =
     (if rooted then 47 # join_slash (rev acc) else if acc = [] then [46] else join_slash (rev acc))"

definition Clean :: "bytes \<Rightarrow> bytes" where
  "Clean p =
     (if p = [] then [46]
      else (let rooted = (hd p = 47) in clean_path rooted (foldl (clean_step rooted) [] (elements p))))"

definition Dir :: "bytes \<Rightarrow> bytes" where
  "Dir p = Clean (rev (dropWhile (\<lambda>c. c \<noteq> 47) (rev p)))"

definition Base :: "bytes \<Rightarrow> bytes" where
  "Base p =
     (if p = [] then [46]
      else (let q = rev (dropWhile (\<lambda>c. c = 47) (rev p));
                b = rev (takeWhile (\<lambda>c. c \<noteq> 47) (rev q))
            in if b = [] then [47] else b))"

definition Join :: "bytes \<Rightarrow> bytes \<Rightarrow> bytes" where
  "Join a b = (if a \<noteq> [] then Clean (a @ 47 # b) else if b \<noteq> [] then Clean b else [])"

definition mergeDirSuffixName :: bytes where
  "mergeDirSuffixName = str ''-merge''"

definition mergeDirPath :: "bytes \<Rightarrow> bytes" where
  "mergeDirPath dirPath =
     (let dir = Dir (Clean dirPath); base = Base dirPath in Join dir (base @ mergeDirSuffixName))"

section \<open>Elements\<close>

lemma elements_nonempty [simp]: "elements p \<noteq> []"
  by (induction p) (auto split: list.split)

lemma elements_append: "elements (p @ 47 # q) = elements p @ elements q"
proof (induction p)
  case (Cons c p)
  then show ?case by (cases "elements p") auto
qed simp

lemma elements_name: "47 \<notin> set e \<Longrightarrow> elements e = [e]"
  by (induction e) auto

lemma elements_slashes: "elements (e @ replicate n 47) = elements e @ replicate n []"
proof (induction n)
  case (Suc n)
  have "elements (e @ replicate (Suc n) 47) = elements ((e @ replicate n 47) @ [47])" by (simp add: replicate_append_same)
  also have "\<dots> = elements e @ replicate n [] @ [[]]" using Suc elements_append[of "e @ replicate n 47" "[]"] by simp
  finally show ?case by (simp add: replicate_append_same)
qed simp

lemma elements_no_slash: "\<forall>e \<in> set (elements p). 47 \<notin> set e"
proof (induction p)
  case (Cons c p)
  then show ?case by (cases "elements p") auto
qed simp

lemma elements_join: "es \<noteq> [] \<Longrightarrow> \<forall>e \<in> set es. 47 \<notin> set e \<Longrightarrow> elements (join_slash es) = es"
  by (induction es rule: join_slash.induct) (simp_all add: elements_name elements_append)

lemma join_snoc: "es \<noteq> [] \<Longrightarrow> join_slash (es @ [e]) = join_slash es @ 47 # e"
  by (induction es rule: join_slash.induct) simp_all

section \<open>Clean paths\<close>

text \<open>What \<open>Clean\<close> keeps: names, and parents at the front of a relative path.\<close>

fun normal :: "bool \<Rightarrow> bytes list \<Rightarrow> bool" where
  "normal rooted [] = True"
| "normal rooted (e # acc) \<longleftrightarrow> e \<noteq> [] \<and> e \<noteq> [46] \<and> 47 \<notin> set e \<and> (e = [46, 46] \<longrightarrow> \<not> rooted \<and> (acc = [] \<or> hd acc = [46, 46]))
     \<and> normal rooted acc"

definition is_name :: "bytes \<Rightarrow> bool" where
  "is_name e \<longleftrightarrow> e \<noteq> [] \<and> e \<noteq> [46] \<and> e \<noteq> [46, 46] \<and> 47 \<notin> set e"

lemma clean_step_simps [simp]:
  "clean_step rooted acc [] = acc" "clean_step rooted acc [46] = acc" "is_name e \<Longrightarrow> clean_step rooted acc e = e # acc"
  by (simp_all add: clean_step_def is_name_def)

lemma clean_step_normal: "normal rooted acc \<Longrightarrow> 47 \<notin> set e \<Longrightarrow> normal rooted (clean_step rooted acc e)"
  by (cases acc) (auto simp: clean_step_def)

lemma foldl_normal: "\<forall>e \<in> set es. 47 \<notin> set e \<Longrightarrow> normal rooted acc \<Longrightarrow> normal rooted (foldl (clean_step rooted) acc es)"
  by (induction es arbitrary: acc) (simp_all add: clean_step_normal)

lemma normal_no_slash: "normal rooted acc \<Longrightarrow> \<forall>e \<in> set acc. 47 \<notin> set e \<and> e \<noteq> []"
  by (induction acc) auto

lemma foldl_rev_normal: "normal rooted acc \<Longrightarrow> foldl (clean_step rooted) [] (rev acc) = acc"
  by (induction acc) (auto simp: clean_step_def)

lemma foldl_replicate_nil [simp]: "foldl (clean_step rooted) acc (replicate n []) = acc"
  by (induction n) simp_all

lemma hd_no_slash: "47 \<notin> set e \<Longrightarrow> e \<noteq> [] \<Longrightarrow> hd e \<noteq> (47 :: 8 word)"
  by (cases e) auto

lemma join_head: "es \<noteq> [] \<Longrightarrow> \<forall>e \<in> set es. 47 \<notin> set e \<and> e \<noteq> [] \<Longrightarrow> join_slash es \<noteq> [] \<and> hd (join_slash es) \<noteq> 47"
  by (induction es rule: join_slash.induct) (auto simp: hd_append hd_no_slash)

text \<open>Going into a directory.\<close>

lemma Clean_enter:
  assumes n: "normal rooted acc" and b: "is_name b"
  shows "Clean (clean_path rooted acc @ 47 # b) = clean_path rooted (b # acc)"
proof -
  have ns: "\<forall>e \<in> set (rev acc). 47 \<notin> set e" using normal_no_slash[OF n] by simp
  have eb: "elements b = [b]" using b by (simp add: is_name_def elements_name)
  show ?thesis
  proof (cases "acc = []")
    case True
    have "elements (47 # 47 # b) = [[], [], b]" "elements (46 # 47 # b) = [[46], b]" using eb by simp_all
    then show ?thesis using True b by (cases rooted) (simp_all add: Clean_def clean_path_def Let_def)
  next
    case False
    have ej: "elements (join_slash (rev acc)) = rev acc" using elements_join[of "rev acc"] False ns by simp
    have h: "join_slash (rev acc) \<noteq> []" "hd (join_slash (rev acc)) \<noteq> 47"
      using join_head[of "rev acc"] False normal_no_slash[OF n] by auto
    have "elements (clean_path rooted acc @ 47 # b) = (if rooted then [[]] else []) @ rev acc @ [b]"
      using False by (simp add: clean_path_def elements_append ej eb)
    then show ?thesis
      using False h b foldl_rev_normal[OF n] by (cases rooted) (simp_all add: Clean_def clean_path_def Let_def)
  qed
qed

text \<open>And out of it.\<close>

lemma Dir_name:
  assumes n: "normal rooted acc" and b: "is_name b"
  shows "Dir (clean_path rooted (b # acc)) = clean_path rooted acc"
proof -
  have bs: "47 \<notin> set b" using b by (simp add: is_name_def)
  have cut: "rev (dropWhile (\<lambda>c. c \<noteq> 47) (rev (x @ 47 # b))) = x @ [47]" for x
  proof -
    have "dropWhile (\<lambda>c. c \<noteq> 47) (rev b @ 47 # rev x) = dropWhile (\<lambda>c. c \<noteq> 47) (47 # rev x)"
      by (rule dropWhile_append2) (use bs in auto)
    then show ?thesis by simp
  qed
  have up: "Dir (x @ 47 # b) = Clean (x @ [47])" for x unfolding Dir_def cut ..
  show ?thesis
  proof (cases "acc = []")
    case True
    have "dropWhile (\<lambda>c. c \<noteq> 47) (rev b) = []" using bs by (auto simp: dropWhile_eq_Nil_conv)
    then show ?thesis using True up[of "[]"] by (cases rooted) (simp_all add: Dir_def Clean_def clean_path_def)
  next
    case False
    have ns: "\<forall>e \<in> set (rev acc). 47 \<notin> set e" using normal_no_slash[OF n] by simp
    have h: "join_slash (rev acc) \<noteq> []" "hd (join_slash (rev acc)) \<noteq> 47"
      using join_head[of "rev acc"] False normal_no_slash[OF n] by auto
    have ej: "elements (join_slash (rev acc) @ [47]) = rev acc @ [[]]"
      using elements_append[of "join_slash (rev acc)" "[]"] elements_join[of "rev acc"] False ns by simp
    have "Dir (clean_path rooted (b # acc)) = Clean ((if rooted then [47] else []) @ join_slash (rev acc) @ [47])"
      using False up[of "join_slash (rev acc)"] up[of "47 # join_slash (rev acc)"]
      by (cases rooted) (simp_all add: clean_path_def join_snoc)
    then show ?thesis
      using False h foldl_rev_normal[OF n] by (cases rooted) (simp_all add: Clean_def clean_path_def Let_def ej)
  qed
qed

section \<open>The merge directory\<close>

text \<open>The last element of a path.\<close>

lemma last_element:
  assumes "is_name (Base p)"
  obtains q n where "p = q @ Base p @ replicate n 47" and "q = [] \<or> (\<exists>q'. q = q' @ [47])"
proof -
  let ?t = "takeWhile (\<lambda>c. c = 47) (rev p)"
  obtain d where d: "d = rev (dropWhile (\<lambda>c. c = 47) (rev p))" by blast
  obtain n where n: "?t = replicate n 47"
    using replicate_length_same[of ?t 47] by (metis (full_types) set_takeWhileD)
  have "rev p = replicate n 47 @ rev d" unfolding d rev_rev_ident using takeWhile_dropWhile_id[of "\<lambda>c. c = 47" "rev p"] n by simp
  from arg_cong[OF this, of rev] have p: "p = d @ replicate n 47" by simp
  have b: "Base p = rev (takeWhile (\<lambda>c. c \<noteq> 47) (rev d))"
  proof (cases "p = []")
    case True
    then show ?thesis using assms by (simp add: Base_def is_name_def)
  next
    case False
    then have "Base p = (let b = rev (takeWhile (\<lambda>c. c \<noteq> 47) (rev d)) in if b = [] then [47] else b)" by (simp only: Base_def d Let_def if_False)
    then show ?thesis using assms by (simp add: is_name_def Let_def split: if_splits)
  qed
  let ?q = "rev (dropWhile (\<lambda>c. c \<noteq> 47) (rev d))"
  have "d = ?q @ Base p" unfolding b by (metis rev_append rev_rev_ident takeWhile_dropWhile_id)
  with p have "p = ?q @ Base p @ replicate n 47" by (metis append_assoc)
  moreover have "?q = [] \<or> (\<exists>q'. ?q = q' @ [47])"
  proof (cases "dropWhile (\<lambda>c. c \<noteq> 47) (rev d)")
    case (Cons c cs)
    then have "c = 47" using hd_dropWhile[of "\<lambda>c. c \<noteq> 47" "rev d"] by simp
    then show ?thesis using Cons by simp
  qed simp
  ultimately show ?thesis by (rule that)
qed

lemma Clean_named:
  assumes "is_name (Base p)"
  obtains rooted acc where "normal rooted acc" and "Clean p = clean_path rooted (Base p # acc)"
proof -
  obtain q n where p: "p = q @ Base p @ replicate n 47" and q: "q = [] \<or> (\<exists>q'. q = q' @ [47])" by (rule last_element[OF assms])
  let ?b = "Base p"
  have b: "?b \<noteq> []" "47 \<notin> set ?b" using assms by (simp_all add: is_name_def)
  have e: "elements (?b @ replicate n 47) = ?b # replicate n []" using b by (simp add: elements_slashes elements_name)
  have ne: "p \<noteq> []" using p b by auto
  show ?thesis
  proof (cases "q = []")
    case True
    then have ep: "elements p = ?b # replicate n []" and h: "hd p \<noteq> 47" using p e b by (metis append_Nil, metis append_Nil hd_append2 hd_in_set)
    have "Clean p = clean_path False [?b]" using ne h ep assms by (simp add: Clean_def)
    then show ?thesis using that[of False "[]"] by simp
  next
    case False
    then obtain q' where q': "q = q' @ [47]" using q by blast
    let ?r = "hd p = 47"
    let ?acc = "foldl (clean_step ?r) [] (elements q')"
    have ep: "elements p = elements q' @ ?b # replicate n []" using p q' e elements_append[of q' "?b @ replicate n 47"] by simp
    have "normal ?r ?acc" by (rule foldl_normal) (use elements_no_slash in auto)
    moreover have "Clean p = clean_path ?r (?b # ?acc)" using ne assms by (simp add: Clean_def Let_def ep)
    ultimately show ?thesis by (rule that)
  qed
qed

text \<open>
  A directory that is given by its name has its merge directory beside it, under the same
  name with the suffix.
\<close>

lemma merge_directory_beside:
  assumes "is_name (Base p)"
  shows "mergeDirPath p = Clean p @ mergeDirSuffixName"
proof -
  obtain rooted acc where n: "normal rooted acc" and c: "Clean p = clean_path rooted (Base p # acc)" by (rule Clean_named[OF assms])
  have "is_name (Base p @ mergeDirSuffixName)" using assms by (auto simp: is_name_def mergeDirSuffixName_def str_def append_eq_Cons_conv)
  moreover have "clean_path rooted acc \<noteq> []"
    using n join_head[of "rev acc"] normal_no_slash[OF n] by (auto simp: clean_path_def)
  ultimately have "mergeDirPath p = clean_path rooted ((Base p @ mergeDirSuffixName) # acc)"
    by (simp add: mergeDirPath_def c Dir_name[OF n assms] Join_def Clean_enter[OF n])
  then show ?thesis unfolding c by (cases "acc = []") (simp_all add: clean_path_def join_snoc)
qed

lemma merge_directories_differ:
  assumes "is_name (Base p)" and "is_name (Base q)"
  shows "mergeDirPath p = mergeDirPath q \<longleftrightarrow> Clean p = Clean q" and "mergeDirPath p \<noteq> Clean p"
  by (simp_all add: merge_directory_beside[OF assms(1)] merge_directory_beside[OF assms(2)] mergeDirSuffixName_def str_def)

text \<open>
  The spelling counts: for a path that ends with a dot the name is taken from the path as it is
  given, and the merge directory of the same data directory is another one.
\<close>

lemma merge_directory_depends_on_spelling:
  "Clean (str ''/db/data/.'') = Clean (str ''/db/data'')" "mergeDirPath (str ''/db/data'') = str ''/db/data-merge''"
  "mergeDirPath (str ''/db/data/.'') = str ''/db/.-merge''"
  by code_simp+

end
