(* ===== verification/Spec2Isabelle.thy ===== *)
theory Spec2Isabelle
  imports Restart Expiry Iterator Commit_Seen Failover Migration Merge_During Any_Log Node_Restart Paths
begin

text \<open>
  A verification development for RoseDB, a key-value store on a write-ahead log with an index
  in memory, and for the distributed system built on it: an HTTP server, replication from a
  master to slaves, failover of slaves, a sharding proxy and a command line client.

  \<^bold>\<open>The program and its model.\<close> Every function of the program is a definition with the
  name it has in Go. State is passed explicitly: a struct is a record, an operation returns
  its result with the new state. Results are \<open>Ok\<close>, \<open>Fail\<close> with an error value, or \<open>Panic\<close>;
  \<open>None\<close> around a result means that the call blocks. Integers have their width, bytes are
  words of eight bits. A reading of the clock is an argument, as is every answer of the
  operating system that is not a file's content.

  \<^item> \<open>Prelude\<close>: results, errors (\<^verbatim>\<open>errors.go\<close>), shared lemmas. \<open>Varint\<close>: the codec of
    \<open>encoding/binary\<close>. \<open>Log_Record\<close>: \<^verbatim>\<open>record.go\<close>.
  \<^item> \<open>Index\<close>, \<open>Index_Iterator\<close>: \<^verbatim>\<open>index/btree.go\<close>, \<^verbatim>\<open>index/index.go\<close>, over
    the package \<open>btree\<close>, whose operations are the record \<open>btree_ops\<close> with the laws of the
    locale \<open>btree_lib\<close>.
  \<^item> \<open>Watch\<close>: \<^verbatim>\<open>watch.go\<close>, with the forwarding goroutine, the writers, the consumer and
    \<open>Close\<close> as a step relation.
  \<^item> \<open>Storage\<close>: what is used of the package \<open>wal\<close> (the record \<open>wal_ops\<close>, the laws of \<open>wal_lib\<close>) and
    of \<open>snowflake\<close>; the locale \<open>engine\<close> joins the contracts. \<open>Batch\<close>: \<^verbatim>\<open>batch.go\<close> and
    the state of \<^verbatim>\<open>db.go\<close>. \<open>Batch_View\<close>, \<open>Batch_Spec\<close>, \<open>Commit_Spec\<close>, \<open>Commit_Correct\<close>:
    what each operation of a batch does to the map a reader sees. \<open>Transaction\<close>: a whole
    batch. \<open>Commit_Seen\<close>: the points in the middle of \<open>Commit\<close>, and what an iterator made there
    sees.
  \<^item> \<open>Database\<close>, \<open>Database_Spec\<close>: the operations of \<^verbatim>\<open>db.go\<close> on one key, and their
    refinement of a map with expiry times. \<open>Traversal\<close>: the ten traversals. \<open>Expiry\<close>:
    \<open>DeleteExpiredKeys\<close>. \<open>Iterator\<close>: \<^verbatim>\<open>iterator.go\<close>. \<open>Closing\<close>: what \<open>Close\<close> leaves, also
    when it fails after it has closed the log.
  \<^item> \<open>Recovery\<close>, \<open>Restart\<close>, \<open>Any_Log\<close>: loading the index from the log, after runs with and without
    errors of the log. \<open>Request_Log\<close>: what a request adds to the log. \<open>Replay\<close>: the index that
    a later opening builds from the hints and from what was written since. \<open>Overlay\<close>: the batches of a
    run as changes of an index.
  \<^item> \<open>Disk\<close>, \<open>Merge\<close>: directories of segment files, \<open>Open\<close> and \<^verbatim>\<open>merge.go\<close>; the
    record \<open>disk_ops\<close> is the file side of \<open>wal\<close>, with the laws of the locale \<open>disk_lib\<close>.
    \<open>Segments\<close>: an instance of both. \<open>Merge_Spec\<close>, \<open>Merge_Correct\<close>, \<open>Merge_Safe\<close>: a merge keeps what
    readers see. \<open>Reopen\<close>: opening, running and opening again. \<open>Merge_Restart\<close>: merging, running and
    opening again, with the laws of the active segment in the locale \<open>segment_lib\<close>. \<open>Merge_During\<close>: the
    same with requests between the steps of the merge. \<open>Paths\<close>: the name of the merge directory.
  \<^item> \<open>Http\<close>: forms, queries and their escaping. \<open>Server\<close>, \<open>Server_Spec\<close>:
    \<^verbatim>\<open>server/server.go\<close>. \<open>Replication\<close>: \<^verbatim>\<open>server/replication.go\<close> and the cluster as
    a step relation. \<open>Failover\<close>: \<^verbatim>\<open>server/failover.go\<close>.
  \<^item> \<open>Ring\<close>: \<^verbatim>\<open>sharding/consistent_hash.go\<close>. \<open>Proxy\<close>, \<open>Proxy_Spec\<close>, \<open>Migration\<close>:
    \<^verbatim>\<open>cmd/proxy/main.go\<close>. \<open>Client\<close>: \<^verbatim>\<open>cmd/cli/main.go\<close>. \<open>Node_Command\<close>:
    \<^verbatim>\<open>cmd/server/main.go\<close>. \<open>Node_Restart\<close>: a run of the server as a run of its database, and a node that is
    started again and again, with the ticks of its heartbeat worker between the requests.

  \<^bold>\<open>How the parts meet.\<close> A client, the proxy or a master sends an HTTP request (\<open>http_request\<close>); the
  server's handler calls one operation of the database under its lock; a write opens a batch,
  whose \<open>Commit\<close> appends to the log, then updates the index and the watch queue. The
  refinements follow the same chain. \<open>db_inv\<close> is the invariant of a database: each key of the
  index points to a normal record of the log with this key. \<open>db_view E t d\<close> is what a reader
  at time \<open>t\<close> sees, \<open>kv\<close> the abstract map and \<open>kv_step\<close>, \<open>tx_step\<close>, \<open>http_spec\<close> the
  specifications of a request to the database, to a batch and to the server.

  \<^bold>\<open>What is shown.\<close>

  \<^item> Encoding: records and hints are decoded to themselves, whatever bytes follow.
  \<^item> Database: every run of requests answers as the map does; a commit is atomic; a batch works on
    the map with its own writes on top, and only an iterator made in the middle of \<open>Commit\<close> sees
    a part of them; a closed database refuses everything; traversals and iterators
    visit the ordered live pairs; \<open>DeleteExpiredKeys\<close> ends if the greatest key has expired and
    never ends otherwise.
  \<^item> Files: opening again, merging beside other requests, and opening again after a merge keep what
    readers see; opening any prefix of a log the program leaves never panics, and returns the
    error of the reader or a database of values of the log; the runs in which a torn
    batch or an interrupted merge damage the data are given. A merge needs two conditions, both
    shown to be needed: no stored expiry time is negative, and no segment of the merge has an
    identifier beyond the last old one. The merge directory is a sibling of its own for
    every directory that is given by name.
  \<^item> Server: every run of HTTP requests refines the map, and so do the runs of a node that is
    started from the command line again and again; only authorised requests change it; a put of the client is read back.
  \<^item> Cluster: replication tries are bounded, slaves hold acknowledged values only and converge
    if requests arrive in order; promotion follows exactly three failures; the runs that
    diverge, and the split brain, are given.
  \<^item> Sharding: lookups find the successor on the ring, adding and removing nodes moves only
    the keys it must; the nodes behind the proxy act as one map while they stay the same;
    a migration loses nothing that can be moved, and changes every value with a plus sign. Keys
    travel as JSON, which replaces what is not UTF-8: binary keys stay behind.

  \<^bold>\<open>Loops, fuel and bounds.\<close> Loops over data are structural recursions. The search of the
  ring and \<open>skipToNext\<close> are functions with a measure. \<open>DeleteExpiredKeys\<close> is a partial
  function, \<open>None\<close> when it does not end, and both outcomes are theorems. The decoder of
  varints reads at most ten bytes as Go's does. Nothing else uses fuel. Sizes are limited only
  by \<open>value_fits\<close>: a record that an index of 32 bits can address.

  \<^bold>\<open>Parameters and hypotheses.\<close> The packages \<open>btree\<close>, \<open>wal\<close>, \<open>snowflake\<close>, the runtime's hash of
  bytes, the compiler of patterns, the parser of cron expressions and \<open>encoding/json\<close> are
  arguments. The laws assumed of the first three and of JSON are those of the locales named above
  and of \<open>json_lib\<close>; nothing is assumed of the others. Each locale has an instance
  (\<open>ref\<close>, \<open>torn\<close>, \<open>seg\<close>), on which the witnesses run. Faults of the file
  system in \<open>Open\<close> and \<open>Merge\<close> are an argument; without faults it is \<open>no_fault\<close>. The law
  \<open>Chunks_eof\<close>, that the reader ends with \<open>io.EOF\<close>, speaks of a log in the state that the
  package itself leaves; a log with a damaged chunk violates \<open>w_inv\<close>, and \<open>Any_Log\<close> is about
  it. The law \<open>Active_file\<close> of \<open>disk_lib\<close> says that the active segment is one of the files;
  \<open>loadIndexFromWAL\<close> needs it, since it panics when it has to skip every segment.

  \<^bold>\<open>Not modelled.\<close> The text of the admin page and of usage and log messages; \<^verbatim>\<open>utils\<close>
  (\<open>MemHash\<close> calls the Go runtime through an unsafe link, \<open>DirSize\<close> walks the file system, the
  random keys serve the benchmark); the examples and the benchmark, which only call the
  library; the scheduler that calls \<open>Merge\<close> by a cron expression; the names of segment files; an
  error of the log's reader inside a segment that is skipped after a merge (the model returns
  it as any other, the program does not read there); a crash of the machine that loses what the
  operating system had not yet written. Memory reuse
  (\<open>sync.Pool\<close>, the byte buffers) is not state of the model, since every
  record is overwritten before it is read.
\<close>

end
